(* ===== verification/Prelude.thy ===== *)
theory Prelude
  imports Main "HOL-Library.Word" "HOL-Library.Multiset"
begin

text \<open>
  What every component shares: the machine integers, the Rust operations on slices and
  vectors the code uses again and again (a checked subtraction, \<open>get\<close>, \<open>position\<close>, \<open>remove\<close>,
  \<open>swap\<close>, splicing a run into a vector), and the facts about them the component proofs rest
  on.
\<close>

type_synonym u8 = "8 word"
type_synonym u16 = "16 word"
type_synonym u32 = "32 word"
type_synonym u64 = "64 word"

text \<open>The largest unsigned 64-bit value, for the counters kept as natural numbers.\<close>

definition u64_max :: nat where
  "u64_max = 18446744073709551615"

definition checked_sub :: "nat \<Rightarrow> nat \<Rightarrow> nat option" where
  "checked_sub a b = (if b \<le> a then Some (a - b) else None)"

definition get :: "'a list \<Rightarrow> nat \<Rightarrow> 'a option" where
  "get xs i = (if i < length xs then Some (xs ! i) else None)"

fun position :: "('a \<Rightarrow> bool) \<Rightarrow> 'a list \<Rightarrow> nat option" where
  "position P [] = None"
| "position P (x # xs) = (if P x then Some 0 else map_option Suc (position P xs))"

definition front_of :: "'a list \<Rightarrow> 'a option" where
  "front_of xs = get xs 0"

definition back_of :: "'a list \<Rightarrow> 'a option" where
  "back_of xs = (if xs = [] then None else Some (last xs))"

definition vec_remove :: "nat \<Rightarrow> 'a list \<Rightarrow> 'a list" where
  "vec_remove i xs = take i xs @ drop (Suc i) xs"

definition vec_swap :: "nat \<Rightarrow> nat \<Rightarrow> 'a list \<Rightarrow> 'a list" where
  "vec_swap i j xs = xs[i := xs ! j, j := xs ! i]"

definition vec_splice :: "nat \<Rightarrow> 'a list \<Rightarrow> 'a list \<Rightarrow> 'a list" where
  "vec_splice i run xs = take i xs @ run @ drop i xs"

subsection \<open>Reading\<close>

lemma get_some [simp]: "i < length xs \<Longrightarrow> get xs i = Some (xs ! i)"
  by (simp add: get_def)

lemma get_none [simp]: "length xs \<le> i \<Longrightarrow> get xs i = None"
  by (simp add: get_def)

lemma get_Some_iff: "get xs i = Some x \<longleftrightarrow> i < length xs \<and> xs ! i = x"
  by (auto simp: get_def)

lemma get_None_iff: "get xs i = None \<longleftrightarrow> length xs \<le> i"
  by (auto simp: get_def)

lemma get_append: "get (xs @ ys) i = (if i < length xs then get xs i else get ys (i - length xs))"
  by (auto simp: get_def nth_append)

lemma get_last_prefix: "xs \<noteq> [] \<Longrightarrow> get (xs @ ys) (length xs - 1) = Some (last xs)"
  by (simp add: get_append last_conv_nth)

lemma get_Cons_0 [simp]: "get (x # xs) 0 = Some x"
  by (simp add: get_def)

lemma get_Cons_Suc [simp]: "get (x # xs) (Suc i) = get xs i"
  by (simp add: get_def)

lemma get_in_set: "get xs i = Some x \<Longrightarrow> x \<in> set xs"
  by (auto simp: get_Some_iff)

lemma front_of_Nil [simp]: "front_of [] = None"
  by (simp add: front_of_def)

lemma front_of_Cons [simp]: "front_of (x # xs) = Some x"
  by (simp add: front_of_def)

lemma front_of_eq_hd: "xs \<noteq> [] \<Longrightarrow> front_of xs = Some (hd xs)"
  by (cases xs) simp_all

lemma back_of_Nil [simp]: "back_of [] = None"
  by (simp add: back_of_def)

lemma back_of_snoc [simp]: "back_of (xs @ [x]) = Some x"
  by (simp add: back_of_def)

lemma checked_sub_Some_iff: "checked_sub a b = Some c \<longleftrightarrow> b \<le> a \<and> c = a - b"
  by (auto simp: checked_sub_def)

lemma checked_sub_None_iff [simp]: "checked_sub a b = None \<longleftrightarrow> a < b"
  by (auto simp: checked_sub_def)

lemma position_None_iff: "position P xs = None \<longleftrightarrow> (\<forall>x\<in>set xs. \<not> P x)"
  by (induction xs) auto

lemma position_SomeD:
  "position P xs = Some i \<Longrightarrow> i < length xs \<and> P (xs ! i) \<and> (\<forall>j<i. \<not> P (xs ! j))"
  by (induction xs arbitrary: i) (auto split: if_splits simp: less_Suc_eq_0_disj)

lemma position_SomeI:
  "i < length xs \<Longrightarrow> P (xs ! i) \<Longrightarrow> (\<And>j. j < i \<Longrightarrow> \<not> P (xs ! j)) \<Longrightarrow> position P xs = Some i"
proof (induction xs arbitrary: i)
  case (Cons x xs)
  show ?case
  proof (cases i)
    case 0
    with Cons.prems show ?thesis by simp
  next
    case (Suc k)
    have "\<not> P x" using Cons.prems(3) [of 0] Suc by simp
    moreover have "\<not> P (xs ! j)" if "j < k" for j
      using Cons.prems(3) [of "Suc j"] Suc that by simp
    then have "position P xs = Some k"
      using Cons.prems(1,2) Suc by (intro Cons.IH) auto
    ultimately show ?thesis using Suc by simp
  qed
qed simp

lemma position_unique:
  assumes "distinct (map f xs)" and "i < length xs"
  shows "position (\<lambda>x. f x = f (xs ! i)) xs = Some i"
  using assms by (intro position_SomeI) (auto simp: distinct_conv_nth)

lemma set_map_filter: "set (List.map_filter f xs) = {y. \<exists>x\<in>set xs. f x = Some y}"
  by (induction xs) (auto simp: List.map_filter_simps split: option.splits)

lemma take_nths: "n \<le> length xs \<Longrightarrow> take n xs = map ((!) xs) [0..<n]"
  by (rule nth_equalityI) simp_all

lemma drop_Cons_Suc: "drop k xs = y # ys \<Longrightarrow> drop (Suc k) xs = ys"
  by (metis drop_Suc list.sel(3) tl_drop)

lemma get_drop: "get xs k = front_of (drop k xs)"
  by (simp add: get_def front_of_def)

subsection \<open>Writing\<close>

lemma length_vec_remove [simp]: "i < length xs \<Longrightarrow> length (vec_remove i xs) = length xs - 1"
  by (simp add: vec_remove_def)

lemma mset_vec_remove: "i < length xs \<Longrightarrow> mset (vec_remove i xs) = mset xs - {#xs ! i#}"
proof -
  assume i: "i < length xs"
  have "mset xs = mset (take i xs @ (xs ! i) # drop (Suc i) xs)"
    using i by (simp add: id_take_nth_drop [symmetric])
  then show ?thesis by (simp add: vec_remove_def)
qed

lemma mset_vec_remove_add: "i < length xs \<Longrightarrow> add_mset (xs ! i) (mset (vec_remove i xs)) = mset xs"
  by (simp add: mset_vec_remove)

lemma vec_remove_split: "vec_remove (length xs) (xs @ y # ys) = xs @ ys"
  by (simp add: vec_remove_def)

lemma length_vec_swap [simp]: "length (vec_swap i j xs) = length xs"
  by (simp add: vec_swap_def)

lemma mset_vec_swap [simp]:
  "i < length xs \<Longrightarrow> j < length xs \<Longrightarrow> mset (vec_swap i j xs) = mset xs"
  by (simp add: vec_swap_def mset_swap)

lemma set_vec_swap [simp]:
  "i < length xs \<Longrightarrow> j < length xs \<Longrightarrow> set (vec_swap i j xs) = set xs"
  by (metis mset_vec_swap set_mset_mset)

lemma vec_splice_0 [simp]: "vec_splice 0 run xs = run @ xs"
  by (simp add: vec_splice_def)

lemma vec_splice_length [simp]: "vec_splice (length xs) run (xs @ ys) = xs @ run @ ys"
  by (simp add: vec_splice_def)

lemma vec_splice_beyond [simp]: "length xs \<le> i \<Longrightarrow> vec_splice i run xs = xs @ run"
  by (simp add: vec_splice_def)

lemma vec_splice_Nil [simp]: "vec_splice i [] xs = xs"
  by (simp add: vec_splice_def)

lemma length_vec_splice [simp]: "length (vec_splice i run xs) = length xs + length run"
  by (simp add: vec_splice_def)

lemma vec_splice_eq_Nil [simp]: "vec_splice i run xs = [] \<longleftrightarrow> run = [] \<and> xs = []"
  by (metis add_is_0 length_0_conv length_vec_splice)

lemma mset_vec_splice [simp]: "mset (vec_splice i run xs) = mset run + mset xs"
proof -
  have "mset (take i xs) + mset (drop i xs) = mset xs"
    by (metis append_take_drop_id mset_append)
  then show ?thesis by (simp add: vec_splice_def union_assoc union_lcomm)
qed

lemma set_vec_splice [simp]: "set (vec_splice i run xs) = set run \<union> set xs"
  by (metis mset_vec_splice set_mset_mset set_mset_union)

lemma map_vec_splice [simp]: "map f (vec_splice i run xs) = vec_splice i (map f run) (map f xs)"
  by (simp add: vec_splice_def take_map drop_map)

lemma distinct_vec_splice:
  "distinct (vec_splice i run xs) \<longleftrightarrow> distinct run \<and> distinct xs \<and> set run \<inter> set xs = {}"
proof -
  have "distinct (vec_splice i run xs) \<longleftrightarrow> distinct (run @ xs)"
    by (rule mset_eq_imp_distinct_iff) simp
  then show ?thesis by simp
qed

lemma distinct_mset_eq: "mset xs = mset ys \<Longrightarrow> distinct xs = distinct ys"
  by (rule mset_eq_imp_distinct_iff)

lemmas vector_facts =
  length_vec_remove mset_vec_remove length_vec_swap mset_vec_swap
  length_vec_splice mset_vec_splice set_vec_splice map_vec_splice distinct_vec_splice

end
