(* ===== verification/Spans.thy ===== *)
theory Spans
  imports Prelude
begin

text \<open>
  Spans of rows (\<open>crates/resonate-core/src/span.rs\<close>): a non-empty run of consecutive rows of
  a list, named by its first and its last row, where such a run lands when it is dropped on
  another row, and the order a list takes when several runs are gathered onto one row.
\<close>

record span =
  span_first :: nat
  span_last :: nat

definition span_one :: "nat \<Rightarrow> span" where
  "span_one row = \<lparr>span_first = row, span_last = row\<rparr>"

definition span_between :: "nat \<Rightarrow> nat \<Rightarrow> span" where
  "span_between a b = (if a \<le> b then \<lparr>span_first = a, span_last = b\<rparr> else \<lparr>span_first = b, span_last = a\<rparr>)"

definition span_rows :: "span \<Rightarrow> nat" where
  "span_rows s = span_last s - span_first s + 1"

definition span_is_one_row :: "span \<Rightarrow> bool" where
  "span_is_one_row s \<longleftrightarrow> span_first s = span_last s"

definition span_holds :: "span \<Rightarrow> nat \<Rightarrow> bool" where
  "span_holds s row \<longleftrightarrow> span_first s \<le> row \<and> row \<le> span_last s"

definition span_range :: "span \<Rightarrow> nat list" where
  "span_range s = [span_first s..<Suc (span_last s)]"

definition span_within :: "span \<Rightarrow> nat \<Rightarrow> span option" where
  "span_within s held = (case checked_sub held 1 of
     None \<Rightarrow> None
   | Some l \<Rightarrow> Some \<lparr>span_first = (if span_first s < l then span_first s else l),
                    span_last = (if span_last s < l then span_last s else l)\<rparr>)"

definition span_landing :: "span \<Rightarrow> nat \<Rightarrow> nat" where
  "span_landing s to =
     (if to \<le> span_first s then to
      else if to \<ge> span_last s then span_first s + (to - span_last s)
      else span_first s)"

definition span_gathered :: "span list \<Rightarrow> nat \<Rightarrow> nat \<Rightarrow> nat list option" where
  "span_gathered runs held onto =
     (if onto \<ge> held then None
      else
        let chosen = map (\<lambda>row. list_ex (\<lambda>run. span_holds run row) runs) [0..<held]
        in case position (\<lambda>c. c) chosen of
             None \<Rightarrow> None
           | Some fst_row \<Rightarrow>
               (if chosen ! onto then None
                else
                  let taken = filter (\<lambda>row. chosen ! row) [0..<held];
                      left = filter (\<lambda>row. \<not> chosen ! row) [0..<held];
                      at = length (takeWhile (\<lambda>row. row < onto) left)
                             + (if onto > fst_row then 1 else 0);
                      order = vec_splice at taken left
                  in if list_ex (\<lambda>(place, row). place \<noteq> row) (enumerate 0 order)
                     then Some order else None))"

text \<open>A span as the constructors build it: never empty.\<close>

definition span_ok :: "span \<Rightarrow> bool" where
  "span_ok s \<longleftrightarrow> span_first s \<le> span_last s"

lemma span_ok_one [simp]: "span_ok (span_one r)"
  by (simp add: span_ok_def span_one_def)

lemma span_ok_between [simp]: "span_ok (span_between a b)"
  by (simp add: span_ok_def span_between_def)

lemma span_between_sym: "span_between a b = span_between b a"
  by (simp add: span_between_def)

lemma span_within_ok: "span_ok s \<Longrightarrow> span_within s held = Some t \<Longrightarrow> span_ok t \<and> span_last t < held"
  by (auto simp: span_within_def span_ok_def checked_sub_def split: option.splits if_splits)

lemma length_span_range: "span_ok s \<Longrightarrow> length (span_range s) = span_rows s"
  by (simp add: span_range_def span_rows_def span_ok_def)

lemma set_span_range: "set (span_range s) = {r. span_holds s r}"
  by (auto simp: span_range_def span_holds_def)

lemma span_rows_pos [simp]: "0 < span_rows s"
  by (simp add: span_rows_def)

end
