(* ===== verification/FrameTime.thy ===== *)
theory FrameTime
  imports Prelude
begin

text \<open>
  Frames and durations (\<open>crates/resonate-core/src/time.rs\<close>). A \<open>Frames\<close> is an unsigned
  64-bit count, kept here as a natural number with the saturation and the check against
  \<open>u64_max\<close> written out. A \<open>Duration\<close> of the standard library is its whole seconds and its
  nanoseconds below one second. A sample rate is the unsigned 32-bit \<open>SampleRate::hz\<close>
  (\<open>crates/resonate-core/src/format.rs\<close>), which lies between \<open>min_hz\<close> and \<open>max_hz\<close>.
\<close>

type_synonym frames = nat

record duration =
  dur_secs :: nat
  dur_nanos :: nat

record frame_span =
  fs_start :: frames
  fs_frames :: "frames option"

definition nanos_per_second :: nat where
  "nanos_per_second = 1000000000"

definition half_a_second_in_nanos :: nat where
  "half_a_second_in_nanos = nanos_per_second div 2"

definition min_hz :: nat where
  "min_hz = 8000"

definition max_hz :: nat where
  "max_hz = 768000"

text \<open>\<open>SampleRate::new\<close>: the rate, or nothing where it lies outside the bounds.\<close>

definition sample_rate :: "nat \<Rightarrow> nat option" where
  "sample_rate hz = (if hz < min_hz \<or> hz > max_hz then None else Some hz)"

definition rate_ok :: "nat \<Rightarrow> bool" where
  "rate_ok hz \<longleftrightarrow> sample_rate hz = Some hz"

definition frames_saturating_add :: "frames \<Rightarrow> frames \<Rightarrow> frames" where
  "frames_saturating_add a b = min u64_max (a + b)"

definition frames_saturating_sub :: "frames \<Rightarrow> frames \<Rightarrow> frames" where
  "frames_saturating_sub a b = a - b"

definition frames_checked_sub :: "frames \<Rightarrow> frames \<Rightarrow> frames option" where
  "frames_checked_sub a b = checked_sub a b"

definition to_duration :: "frames \<Rightarrow> nat \<Rightarrow> duration" where
  "to_duration f hz =
     (let seconds = f div hz; remainder = f mod hz
      in \<lparr>dur_secs = seconds, dur_nanos = remainder * 1000000000 div hz\<rparr>)"

definition as_nanos :: "duration \<Rightarrow> nat" where
  "as_nanos d = dur_secs d * nanos_per_second + dur_nanos d"

definition rescaled :: "frames \<Rightarrow> nat \<Rightarrow> nat \<Rightarrow> frames" where
  "rescaled f from_hz to_hz =
     (if from_hz = to_hz then f
      else let scaled = f * to_hz div from_hz in if scaled \<le> u64_max then scaled else u64_max)"

definition from_duration :: "duration \<Rightarrow> nat \<Rightarrow> frames" where
  "from_duration d hz =
     (let rounded = (as_nanos d * hz + half_a_second_in_nanos) div nanos_per_second
      in if rounded \<le> u64_max then rounded else u64_max)"

definition fs_starting :: "frames \<Rightarrow> frame_span" where
  "fs_starting start = \<lparr>fs_start = start, fs_frames = None\<rparr>"

definition fs_between :: "frames \<Rightarrow> frames \<Rightarrow> frame_span" where
  "fs_between a b =
     (let (start, fin) = (if a \<le> b then (a, b) else (b, a))
      in \<lparr>fs_start = start, fs_frames = Some (fin - start)\<rparr>)"

definition fs_end :: "frame_span \<Rightarrow> frames option" where
  "fs_end s = map_option (\<lambda>n. fs_start s + n) (fs_frames s)"

definition fs_within :: "frame_span \<Rightarrow> frames \<Rightarrow> frame_span" where
  "fs_within s whole =
     (let start = (if fs_start s > whole then whole else fs_start s);
          rest = whole - start;
          n = (case fs_frames s of Some n \<Rightarrow> if n \<le> rest then n else rest | None \<Rightarrow> rest)
      in \<lparr>fs_start = start, fs_frames = Some n\<rparr>)"

lemma rate_ok_iff: "rate_ok hz \<longleftrightarrow> 8000 \<le> hz \<and> hz \<le> 768000"
  by (auto simp: rate_ok_def sample_rate_def min_hz_def max_hz_def)

text \<open>The nanoseconds part never reaches a second, so nothing carries into the seconds, and
  no product of \<open>to_duration\<close> leaves an unsigned 64-bit value.\<close>

lemma to_duration_fits:
  assumes "rate_ok hz"
  shows "dur_nanos (to_duration f hz) < nanos_per_second"
    and "(f mod hz) * 1000000000 \<le> u64_max"
proof -
  have hz: "0 < hz" "hz \<le> 768000" using assms by (auto simp: rate_ok_iff)
  have "f mod hz < hz" using hz by simp
  then show "dur_nanos (to_duration f hz) < nanos_per_second"
    using hz by (simp add: to_duration_def nanos_per_second_def Let_def less_mult_imp_div_less)
  have "f mod hz \<le> 768000" using hz \<open>f mod hz < hz\<close> by simp
  then show "(f mod hz) * 1000000000 \<le> u64_max"
    by (simp add: u64_max_def)
qed

text \<open>
  Rounding to the nearest frame undoes the rounding down to a whole nanosecond, because a
  frame is longer than two nanoseconds at every rate up to \<open>max_hz\<close>.
\<close>

lemma rounding_undoes_flooring:
  fixes s r hz :: nat
  assumes "0 < hz" and "hz \<le> 500000000" and "r < hz"
  shows "((s * 1000000000 + r * 1000000000 div hz) * hz + 500000000) div 1000000000 = s * hz + r"
proof -
  define q where "q = r * 1000000000 div hz"
  have up: "q * hz \<le> r * 1000000000" unfolding q_def by simp
  have "r * 1000000000 = hz * q + r * 1000000000 mod hz" unfolding q_def by simp
  moreover have "r * 1000000000 mod hz < hz" using assms by simp
  ultimately have down: "r * 1000000000 < q * hz + hz" by (simp add: mult.commute)
  have "(s * 1000000000 + q) * hz + 500000000 = (s * hz) * 1000000000 + (q * hz + 500000000)"
    by (simp add: algebra_simps)
  moreover have "(q * hz + 500000000) div 1000000000 = r"
    using up down assms by (intro div_nat_eqI) auto
  ultimately show ?thesis unfolding q_def [symmetric] by simp
qed

lemma from_to_duration:
  assumes "rate_ok hz" and "f \<le> u64_max"
  shows "from_duration (to_duration f hz) hz = f"
proof -
  have hz: "0 < hz" "hz \<le> 500000000" using assms(1) by (auto simp: rate_ok_iff)
  have "((f div hz * 1000000000 + (f mod hz) * 1000000000 div hz) * hz + 500000000) div 1000000000
          = f div hz * hz + f mod hz"
    using hz by (intro rounding_undoes_flooring) simp_all
  also have "\<dots> = f" by simp
  finally show ?thesis
    using assms(2)
    by (simp add: from_duration_def to_duration_def as_nanos_def nanos_per_second_def
        half_a_second_in_nanos_def Let_def)
qed

lemma from_duration_mono:
  "as_nanos d \<le> as_nanos e \<Longrightarrow> from_duration d hz \<le> from_duration e hz"
proof -
  assume "as_nanos d \<le> as_nanos e"
  then have "(as_nanos d * hz + half_a_second_in_nanos) div nanos_per_second
      \<le> (as_nanos e * hz + half_a_second_in_nanos) div nanos_per_second"
    by (intro div_le_mono add_mono mult_le_mono) simp_all
  then show ?thesis by (auto simp: from_duration_def Let_def)
qed

lemma from_duration_bound: "from_duration d hz \<le> u64_max"
  by (simp add: from_duration_def Let_def)

text \<open>Reading the duration back is a left inverse, so more frames are strictly more time.\<close>

lemma to_duration_strict_mono:
  assumes "rate_ok hz" and "g \<le> u64_max" and "f < g"
  shows "as_nanos (to_duration f hz) < as_nanos (to_duration g hz)"
proof (rule ccontr)
  assume "\<not> ?thesis"
  then have "from_duration (to_duration g hz) hz \<le> from_duration (to_duration f hz) hz"
    by (intro from_duration_mono) simp
  then show False using assms by (simp add: from_to_duration)
qed

text \<open>A span as the constructors build it: where it has an end, the end is a frame count.\<close>

definition fs_ok :: "frame_span \<Rightarrow> bool" where
  "fs_ok s \<longleftrightarrow> fs_start s \<le> u64_max \<and> (case fs_end s of None \<Rightarrow> True | Some e \<Rightarrow> e \<le> u64_max)"

lemma fs_ok_between: "a \<le> u64_max \<Longrightarrow> b \<le> u64_max \<Longrightarrow> fs_ok (fs_between a b)"
  by (auto simp: fs_ok_def fs_between_def fs_end_def Let_def)

lemma fs_within_ok:
  "whole \<le> u64_max \<Longrightarrow> fs_ok (fs_within s whole)"
  by (auto simp: fs_ok_def fs_within_def fs_end_def Let_def split: option.splits)

lemma fs_within_end:
  "\<exists>e. fs_end (fs_within s whole) = Some e \<and> fs_start (fs_within s whole) \<le> e \<and> e \<le> whole"
  by (auto simp: fs_within_def fs_end_def Let_def split: option.splits)

lemma fs_within_idem: "fs_within (fs_within s whole) whole = fs_within s whole"
  by (auto simp: fs_within_def Let_def split: option.splits)

end
