(* ===== verification/Dates.thy ===== *)
theory Dates
  imports Prelude
begin

text \<open>
  Civil dates (\<open>crates/resonate-core/src/date.rs\<close>): the calendar date of a day counted from
  the epoch and back. The code's signed 64-bit values are integers here, with the one
  saturating addition written out; \<open>div_euclid\<close>, \<open>rem_euclid\<close> by a positive divisor are
  \<open>div\<close> and \<open>mod\<close>, and every \<open>/\<close> and \<open>%\<close> of the code divides a non-negative value.
\<close>

record civil_date =
  year :: int
  month :: int
  day :: int

definition i64_max :: int where
  "i64_max = 9223372036854775807"

definition i64_min :: int where
  "i64_min = - 9223372036854775808"

definition i64_saturating_add :: "int \<Rightarrow> int \<Rightarrow> int" where
  "i64_saturating_add a b = max i64_min (min i64_max (a + b))"

definition of_day :: "int \<Rightarrow> civil_date" where
  "of_day days =
     (let shifted = i64_saturating_add days 719468;
          era = shifted div 146097;
          day_of_era = shifted mod 146097;
          year_of_era = (day_of_era - day_of_era div 1460 + day_of_era div 36524
                           - day_of_era div 146096) div 365;
          day_of_year = day_of_era - (365 * year_of_era + year_of_era div 4 - year_of_era div 100);
          months_from_march = (5 * day_of_year + 2) div 153;
          d = day_of_year - (153 * months_from_march + 2) div 5 + 1;
          m = months_from_march + 3;
          m' = (if m > 12 then m - 12 else m);
          y = year_of_era + era * 400 + (if m' \<le> 2 then 1 else 0)
      in \<lparr>year = y, month = m', day = d\<rparr>)"

definition day_since_the_epoch :: "civil_date \<Rightarrow> int" where
  "day_since_the_epoch c =
     (let y = year c - (if month c \<le> 2 then 1 else 0);
          era = y div 400;
          year_of_era = y - era * 400;
          months_from_march = (month c + 12 - 3) mod 12;
          day_of_year = (153 * months_from_march + 2) div 5 + day c - 1;
          day_of_era = year_of_era * 365 + year_of_era div 4 - year_of_era div 100 + day_of_year
      in era * 146097 + day_of_era - 719468)"

text \<open>
  \<open>SystemTime\<close> as its distance from the epoch: at or after it by so many seconds, or before
  it by so many whole seconds and nanoseconds.
\<close>

datatype system_time = At_or_after nat | Before nat nat

definition seconds_since_the_epoch :: "system_time \<Rightarrow> int" where
  "seconds_since_the_epoch t = (case t of
     At_or_after s \<Rightarrow> (if int s \<le> i64_max then int s else i64_max)
   | Before s ns \<Rightarrow>
       (let whole = (if int s \<le> i64_max then int s else i64_max);
            part = (if ns > 0 then 1 else 0)
        in - (i64_saturating_add whole part)))"

definition date_at :: "system_time \<Rightarrow> civil_date" where
  "date_at t = of_day (seconds_since_the_epoch t div 86400)"

text \<open>The reference: the Gregorian calendar by its leap rule and the date after a date.\<close>

definition leap :: "int \<Rightarrow> bool" where
  "leap y \<longleftrightarrow> 4 dvd y \<and> (\<not> 100 dvd y \<or> 400 dvd y)"

definition days_in_month :: "int \<Rightarrow> int \<Rightarrow> int" where
  "days_in_month y m =
     (if m = 2 then (if leap y then 29 else 28)
      else if m = 4 \<or> m = 6 \<or> m = 9 \<or> m = 11 then 30 else 31)"

definition date_ok :: "civil_date \<Rightarrow> bool" where
  "date_ok c \<longleftrightarrow> 1 \<le> month c \<and> month c \<le> 12 \<and> 1 \<le> day c \<and> day c \<le> days_in_month (year c) (month c)"

definition next_date :: "civil_date \<Rightarrow> civil_date" where
  "next_date c =
     (if day c < days_in_month (year c) (month c) then c\<lparr>day := day c + 1\<rparr>
      else if month c < 12 then c\<lparr>month := month c + 1, day := 1\<rparr>
      else \<lparr>year = year c + 1, month = 1, day = 1\<rparr>)"

subsection \<open>The arithmetic of an era\<close>

text \<open>Days before a year of the era that starts in March, and the year a day of the era is in.\<close>

definition year_start :: "int \<Rightarrow> int" where
  "year_start y = 365 * y + y div 4 - y div 100"

definition year_of :: "int \<Rightarrow> int" where
  "year_of doe = (doe - doe div 1460 + doe div 36524 - doe div 146096) div 365"

lemma int_div_step:
  fixes a k :: int
  assumes "0 < k"
  shows "(a + 1) div k = a div k + (if (a + 1) mod k = 0 then 1 else 0)"
proof -
  have a: "a = k * (a div k) + a mod k" by simp
  have r: "0 \<le> a mod k" "a mod k < k" using assms by simp_all
  show ?thesis
  proof (cases "a mod k = k - 1")
    case True
    with a have "a + 1 = k * (a div k) + k" by linarith
    then have "a + 1 = k * (a div k + 1)" by (simp add: distrib_left)
    then show ?thesis using assms by (metis nonzero_mult_div_cancel_left less_irrefl mod_mult_self1_is_0)
  next
    case False
    then have lt: "a mod k + 1 < k" using r by simp
    have eq: "a + 1 = k * (a div k) + (a mod k + 1)" using a by linarith
    have ge: "0 \<le> a mod k + 1" using r by simp
    have "(a + 1) div k = a div k" "(a + 1) mod k = a mod k + 1"
      using int_div_pos_eq [OF eq ge lt] int_mod_pos_eq [OF eq ge lt] .
    then show ?thesis using r by simp
  qed
qed

lemma year_start_step: "year_start (y + 1) = year_start y + 365
    + (if (y + 1) mod 4 = 0 then 1 else 0) - (if (y + 1) mod 100 = 0 then 1 else 0)"
  by (simp add: year_start_def int_div_step)

lemma year_of_step: "0 \<le> d \<Longrightarrow> d < 146096 \<Longrightarrow> year_of d \<le> year_of (d + 1)"
proof -
  assume d: "0 \<le> d" "d < 146096"
  have "d - d div 1460 + d div 36524 - d div 146096
      \<le> d + 1 - (d + 1) div 1460 + (d + 1) div 36524 - (d + 1) div 146096"
  proof (cases "d = 146095")
    case False
    then have "(d + 1) div 146096 = 0" "d div 146096 = 0" using d by simp_all
    then show ?thesis by (simp add: int_div_step)
  qed simp
  then show ?thesis unfolding year_of_def by (rule zdiv_mono1) simp
qed

lemma year_of_mono:
  assumes "0 \<le> a" and "a \<le> b" and "b \<le> 146096"
  shows "year_of a \<le> year_of b"
proof -
  have "b \<le> 146096 \<longrightarrow> year_of a \<le> year_of b" using \<open>a \<le> b\<close>
  proof (induction b rule: int_ge_induct)
    case base
    show ?case by simp
  next
    case (step b)
    then show ?case using year_of_step [of b] assms(1) by auto
  qed
  with assms show ?thesis by simp
qed

definition year_ends_ok :: "int \<Rightarrow> bool" where
  "year_ends_ok y \<longleftrightarrow> year_of (year_start y) = y \<and>
     year_of (if y = 399 then 146096 else year_start (y + 1) - 1) = y"

lemma year_ends: "list_all year_ends_ok [0..399]"
  by code_simp


lemma year_ends_okI: "0 \<le> y \<Longrightarrow> y \<le> 399 \<Longrightarrow> year_ends_ok y"
  using year_ends by (simp add: list_all_iff)

lemma year_of_bounds:
  assumes "0 \<le> doe" and "doe \<le> 146096"
  shows "0 \<le> year_of doe" and "year_of doe \<le> 399"
proof -
  have "year_of 0 = 0" "year_of 146096 = 399" by (simp_all add: year_of_def)
  then show "0 \<le> year_of doe" "year_of doe \<le> 399"
    using year_of_mono [of 0 doe] year_of_mono [of doe 146096] assms by simp_all
qed

lemma year_start_less: "y < z \<Longrightarrow> year_start y < year_start z"
proof (induction z rule: int_gr_induct)
  case base
  show ?case by (simp add: year_start_step)
next
  case (step z)
  then show ?case using year_start_step [of z] by (auto split: if_splits)
qed

lemma year_start_bounds:
  assumes "0 \<le> y" and "y \<le> 399"
  shows "0 \<le> year_start y" and "year_start y \<le> 145731"
proof -
  have *: "year_start 0 = 0" "year_start 399 = 145731" by (simp_all add: year_start_def)
  show "0 \<le> year_start y" using year_start_less [of 0 y] assms * by (cases "y = 0") auto
  show "year_start y \<le> 145731" using year_start_less [of y 399] assms * by (cases "y = 399") auto
qed

lemma in_its_year:
  assumes "0 \<le> doe" and "doe \<le> 146096"
  shows "year_start (year_of doe) \<le> doe"
    and "year_of doe < 399 \<Longrightarrow> doe < year_start (year_of doe + 1)"
proof -
  define y where "y = year_of doe"
  have y: "0 \<le> y" "y \<le> 399" using year_of_bounds [OF assms] by (simp_all add: y_def)
  show "year_start (year_of doe) \<le> doe"
  proof (rule ccontr)
    assume "\<not> ?thesis"
    then have less: "doe \<le> year_start y - 1" by (simp add: y_def)
    then have "0 < y" using y assms(1) by (cases "y = 0") (auto simp: year_start_def)
    then have "year_of (year_start y - 1) = y - 1"
      using year_ends_okI [of "y - 1"] y by (simp add: year_ends_ok_def)
    moreover have "year_of doe \<le> year_of (year_start y - 1)"
      using less assms year_start_bounds [OF y] by (intro year_of_mono) auto
    ultimately show False by (simp add: y_def)
  qed
  show "doe < year_start (year_of doe + 1)" if "year_of doe < 399"
  proof (rule ccontr)
    assume "\<not> ?thesis"
    then have "year_of (year_start (y + 1)) \<le> year_of doe"
      using that y year_start_bounds [of "y + 1"] assms by (intro year_of_mono) (auto simp: y_def)
    moreover have "year_of (year_start (y + 1)) = y + 1"
      using year_ends_okI [of "y + 1"] y that by (simp add: year_ends_ok_def y_def)
    ultimately show False by (simp add: y_def)
  qed
qed

lemma year_of_unique:
  assumes "0 \<le> y" "y \<le> 399" "year_start y \<le> doe" "doe \<le> 146096" "y < 399 \<Longrightarrow> doe < year_start (y + 1)"
  shows "year_of doe = y"
proof -
  have d: "0 \<le> doe" using assms year_start_bounds(1) [of y] by simp
  note b = year_of_bounds [OF d assms(4)] and i = in_its_year [OF d assms(4)]
  show ?thesis
  proof (rule antisym)
    show "year_of doe \<le> y"
    proof (rule ccontr)
      assume "\<not> ?thesis"
      then have "y + 1 \<le> year_of doe" "y < 399" using b by auto
      then have "year_start (y + 1) \<le> year_start (year_of doe)"
        using year_start_less [of "y + 1" "year_of doe"] by (cases "y + 1 = year_of doe") auto
      with i(1) assms(5) \<open>y < 399\<close> show False by simp
    qed
    show "y \<le> year_of doe"
    proof (rule ccontr)
      assume "\<not> ?thesis"
      then have "year_of doe + 1 \<le> y" "year_of doe < 399" using assms by auto
      then have "year_start (year_of doe + 1) \<le> year_start y"
        using year_start_less [of "year_of doe + 1" y] by (cases "year_of doe + 1 = y") auto
      with i(2) \<open>year_of doe < 399\<close> assms(3) show False by simp
    qed
  qed
qed

subsection \<open>Days of the year that starts in March\<close>

definition march_year :: "int \<Rightarrow> int" where
  "march_year shifted = year_of (shifted mod 146097) + shifted div 146097 * 400"

definition day_of_march_year :: "int \<Rightarrow> int" where
  "day_of_march_year shifted = shifted mod 146097 - year_start (year_of (shifted mod 146097))"

definition month_of :: "int \<Rightarrow> int" where
  "month_of doy = (let m = (5 * doy + 2) div 153 + 3 in if m > 12 then m - 12 else m)"

definition day_of_month :: "int \<Rightarrow> int" where
  "day_of_month doy = doy - (153 * ((5 * doy + 2) div 153) + 2) div 5 + 1"

definition date_of_parts :: "int \<Rightarrow> int \<Rightarrow> civil_date" where
  "date_of_parts y doy =
     \<lparr>year = y + (if month_of doy \<le> 2 then 1 else 0), month = month_of doy, day = day_of_month doy\<rparr>"

lemma of_day_parts:
  "of_day n = date_of_parts (march_year (i64_saturating_add n 719468))
                            (day_of_march_year (i64_saturating_add n 719468))"
  unfolding of_day_def date_of_parts_def march_year_def day_of_march_year_def month_of_def
    day_of_month_def year_of_def year_start_def Let_def
  by (rule refl)

text \<open>How long the year from March to February is: its February is in the next civil year.\<close>

definition march_year_days :: "int \<Rightarrow> int" where
  "march_year_days y = (if leap (y + 1) then 366 else 365)"

lemma leap_mod: "leap y \<longleftrightarrow> y mod 4 = 0 \<and> (y mod 100 \<noteq> 0 \<or> y mod 400 = 0)"
  by (simp add: leap_def dvd_eq_mod_eq_0)

lemma leap_add_400: "leap (y + e * 400) = leap y"
proof -
  have "(y + e * 400) mod k = y mod k" if "400 = k * j" for k j
    using mod_mult_self2 [of y k "j * e"] by (simp add: that ac_simps)
  from this [of 4 100] this [of 100 4] this [of 400 1] show ?thesis by (simp add: leap_mod)
qed

lemma year_start_next: "0 \<le> y \<Longrightarrow> y < 399 \<Longrightarrow> year_start (y + 1) - year_start y = march_year_days y"
proof -
  assume y: "0 \<le> y" "y < 399"
  have "(y + 1) mod 400 \<noteq> 0" using y by simp
  moreover have "(y + 1) mod 100 mod 4 = (y + 1) mod 4" by (simp add: mod_mod_cancel)
  ultimately show ?thesis by (auto simp: year_start_step march_year_days_def leap_mod)
qed


lemma march_step:
  "march_year (s + 1) = (if day_of_march_year s + 1 < march_year_days (march_year s)
     then march_year s else march_year s + 1) \<and>
   day_of_march_year (s + 1) = (if day_of_march_year s + 1 < march_year_days (march_year s)
     then day_of_march_year s + 1 else 0)"
proof -
  define doe e where "doe = s mod 146097" and "e = s div 146097"
  define y where "y = year_of doe"
  have doe: "0 \<le> doe" "doe \<le> 146096" by (simp_all add: doe_def)
  have y: "0 \<le> y" "y \<le> 399" using year_of_bounds [OF doe] by (simp_all add: y_def)
  have days: "march_year_days (y + e * 400) = march_year_days y"
    using leap_add_400 [of "y + 1" e] by (simp add: march_year_days_def ac_simps)
  have my: "march_year s = y + e * 400" "day_of_march_year s = doe - year_start y"
    by (simp_all add: march_year_def day_of_march_year_def y_def doe_def e_def)
  show ?thesis
  proof (cases "doe = 146096")
    case True
    have s: "s = 146097 * e + 146096" using True by (simp add: doe_def e_def minus_mod_eq_mult_div [symmetric])
    then have "s + 1 = 146097 * (e + 1) + 0" by simp
    from int_mod_pos_eq [OF this] int_div_pos_eq [OF this]
    have next_era: "(s + 1) mod 146097 = 0" "(s + 1) div 146097 = e + 1" by auto
    have y399: "y = 399" using True by (simp add: y_def year_of_def)
    have "march_year (s + 1) = (e + 1) * 400" "day_of_march_year (s + 1) = 0"
      by (simp_all add: march_year_def day_of_march_year_def next_era year_of_def year_start_def)
    moreover have "march_year_days y = 366" "doe - year_start y = 365"
      by (simp_all add: y399 True march_year_days_def year_start_def leap_def)
    ultimately show ?thesis by (simp add: my days) (simp add: y399)
  next
    case False
    have s: "s = 146097 * e + doe" by (simp add: doe_def e_def)
    have same_era: "(s + 1) mod 146097 = doe + 1" "(s + 1) div 146097 = e"
      using doe False s int_mod_pos_eq [of "s + 1" 146097 e "doe + 1"]
        int_div_pos_eq [of "s + 1" 146097 e "doe + 1"] by simp_all
    have my': "march_year (s + 1) = year_of (doe + 1) + e * 400"
      "day_of_march_year (s + 1) = doe + 1 - year_start (year_of (doe + 1))"
      by (simp_all add: march_year_def day_of_march_year_def same_era)
    note i = in_its_year [OF doe, folded y_def]
    show ?thesis
    proof (cases "y = 399")
      case True
      have "year_of (doe + 1) = 399"
        using True i(1) doe False by (intro year_of_unique) auto
      then show ?thesis
        using True doe False
        by (simp add: my my' days march_year_days_def leap_def year_start_def)
    next
      case no: False
      then have y': "y < 399" using y by simp
      have len: "year_start (y + 1) = year_start y + march_year_days y"
        using year_start_next [of y] y y' by simp
      show ?thesis
      proof (cases "doe + 1 < year_start (y + 1)")
        case True
        then have "year_of (doe + 1) = y"
          using i doe False y by (intro year_of_unique) auto
        then show ?thesis using True len by (simp add: my my' days)
      next
        case False
        then have "doe + 1 = year_start (y + 1)" using i(2) y' by simp
        moreover have "year_of (year_start (y + 1)) = y + 1"
          using year_ends_okI [of "y + 1"] y y' by (simp add: year_ends_ok_def)
        ultimately show ?thesis using len by (simp add: my my' days)
      qed
    qed
  qed
qed

lemma day_of_march_year_bounds:
  "0 \<le> day_of_march_year s" "day_of_march_year s < march_year_days (march_year s)"
proof -
  define doe e where "doe = s mod 146097" and "e = s div 146097"
  have doe: "0 \<le> doe" "doe \<le> 146096" by (simp_all add: doe_def)
  note i = in_its_year [OF doe] and b = year_of_bounds [OF doe]
  have days: "march_year_days (march_year s) = march_year_days (year_of doe)"
    using leap_add_400 [of "year_of doe + 1" e]
    by (simp add: march_year_def march_year_days_def doe_def e_def ac_simps)
  show "0 \<le> day_of_march_year s" using i(1) by (simp add: day_of_march_year_def doe_def)
  show "day_of_march_year s < march_year_days (march_year s)"
  proof (cases "year_of doe = 399")
    case True
    then show ?thesis using days doe
      by (simp add: day_of_march_year_def doe_def [symmetric] march_year_days_def leap_def year_start_def)
  next
    case False
    then show ?thesis
      using i(2) b year_start_next [of "year_of doe"] days
      by (simp add: day_of_march_year_def doe_def [symmetric])
  qed
qed

definition usual_days :: "int \<Rightarrow> int" where
  "usual_days m = (if m = 4 \<or> m = 6 \<or> m = 9 \<or> m = 11 then 30 else 31)"

text \<open>Within a year, one day to the next, checked for every day but the last of February.\<close>

definition day_step_ok :: "int \<Rightarrow> bool" where
  "day_step_ok doy \<longleftrightarrow>
     (let m = month_of doy; d = day_of_month doy; m2 = month_of (doy + 1); d2 = day_of_month (doy + 1)
      in 1 \<le> m \<and> m \<le> 12 \<and> 1 \<le> d \<and>
         (if m = 2 then d < 28 \<and> m2 = 2 \<and> d2 = d + 1
          else if d < usual_days m then m2 = m \<and> d2 = d + 1
          else d = usual_days m \<and> d2 = 1 \<and> m2 = (if m = 12 then 1 else m + 1)))"

lemma days_in_month_not_2: "m \<noteq> 2 \<Longrightarrow> days_in_month y m = usual_days m"
  by (simp add: days_in_month_def usual_days_def)

lemma day_steps: "list_all day_step_ok [0..363]"
  by code_simp

lemma date_of_parts_step:
  assumes "0 \<le> doy" and "doy < march_year_days y"
  shows "next_date (date_of_parts y doy) =
      (if doy + 1 < march_year_days y then date_of_parts y (doy + 1) else date_of_parts (y + 1) 0)"
    and "date_ok (date_of_parts y doy)"
proof -
  consider "doy \<le> 363" | "doy = 364" | "doy = 365" "leap (y + 1)"
    using assms by (fastforce simp: march_year_days_def split: if_splits)
  then have "next_date (date_of_parts y doy) =
      (if doy + 1 < march_year_days y then date_of_parts y (doy + 1) else date_of_parts (y + 1) 0)
      \<and> date_ok (date_of_parts y doy)"
  proof cases
    case 1
    then have ok: "day_step_ok doy" using day_steps assms(1) by (simp add: list_all_iff)
    have lt: "doy + 1 < march_year_days y" using 1 by (simp add: march_year_days_def)
    show ?thesis
    proof (cases "month_of doy = 2")
      case True
      then show ?thesis using ok lt
        by (simp add: day_step_ok_def date_of_parts_def next_date_def date_ok_def days_in_month_def Let_def)
    next
      case False
      then show ?thesis using ok lt days_in_month_not_2 [OF False]
        by (auto simp: day_step_ok_def date_of_parts_def next_date_def date_ok_def Let_def split: if_splits)
    qed
  next
    case 2
    then show ?thesis
      by (simp add: date_of_parts_def next_date_def date_ok_def days_in_month_def month_of_def
          day_of_month_def march_year_days_def Let_def)
  next
    case 3
    then show ?thesis
      by (simp add: date_of_parts_def next_date_def date_ok_def days_in_month_def month_of_def
          day_of_month_def march_year_days_def Let_def)
  qed
  then show "next_date (date_of_parts y doy) =
      (if doy + 1 < march_year_days y then date_of_parts y (doy + 1) else date_of_parts (y + 1) 0)"
    and "date_ok (date_of_parts y doy)" by simp_all
qed


subsection \<open>From a date back to its day\<close>

definition shifted_day :: "int \<Rightarrow> int \<Rightarrow> int" where
  "shifted_day y doy = y div 400 * 146097 + year_start (y mod 400) + doy"

lemma shifted_day_parts:
  assumes "0 \<le> doy" and "doy < march_year_days y"
  shows "march_year (shifted_day y doy) = y" and "day_of_march_year (shifted_day y doy) = doy"
proof -
  define z where "z = y mod 400"
  have z: "0 \<le> z" "z \<le> 399" by (simp_all add: z_def)
  have yz: "y = z + y div 400 * 400" by (simp add: z_def)
  have days: "march_year_days y = march_year_days z"
    using leap_add_400 [of "z + 1" "y div 400"] yz by (simp add: march_year_days_def ac_simps)
  have top: "year_start z + doy \<le> 146096 \<and> (z < 399 \<longrightarrow> year_start z + doy < year_start (z + 1))"
  proof (cases "z = 399")
    case True
    then show ?thesis using assms(2) days by (simp add: march_year_days_def leap_def year_start_def)
  next
    case False
    then have "year_start (z + 1) - year_start z = march_year_days z"
      using z by (intro year_start_next) auto
    then show ?thesis using assms(2) days year_start_bounds [of "z + 1"] z False by auto
  qed
  have low: "0 \<le> year_start z + doy" using year_start_bounds [OF z] assms(1) by simp
  have eq: "shifted_day y doy = 146097 * (y div 400) + (year_start z + doy)"
    by (simp add: shifted_day_def z_def)
  have "shifted_day y doy mod 146097 = year_start z + doy" "shifted_day y doy div 146097 = y div 400"
    using int_mod_pos_eq [OF eq low] int_div_pos_eq [OF eq low] top by auto
  moreover have "year_of (year_start z + doy) = z"
    using z top assms(1) by (intro year_of_unique) auto
  ultimately show "march_year (shifted_day y doy) = y" "day_of_march_year (shifted_day y doy) = doy"
    using yz by (simp_all add: march_year_def day_of_march_year_def)
qed

lemma shifted_day_of_parts: "shifted_day (march_year s) (day_of_march_year s) = s"
proof -
  have "0 \<le> year_of (s mod 146097)" "year_of (s mod 146097) \<le> 399"
    using year_of_bounds [of "s mod 146097"] by simp_all
  then have "march_year s mod 400 = year_of (s mod 146097)" "march_year s div 400 = s div 146097"
    by (simp_all add: march_year_def)
  then show ?thesis by (simp add: shifted_day_def day_of_march_year_def)
qed

lemma months_back: "list_all (\<lambda>doy. (month_of doy + 12 - 3) mod 12 = (5 * doy + 2) div 153
    \<and> 1 \<le> month_of doy \<and> month_of doy \<le> 12) [0..365]"
  by code_simp

lemma day_since_of_parts:
  assumes "0 \<le> doy" and "doy \<le> 365"
  shows "day_since_the_epoch (date_of_parts y doy) = shifted_day y doy - 719468"
proof -
  have "(month_of doy + 12 - 3) mod 12 = (5 * doy + 2) div 153"
    using months_back assms by (simp add: list_all_iff)
  then have "(153 * ((month_of doy + 12 - 3) mod 12) + 2) div 5 + day_of_month doy - 1 = doy"
    by (simp add: day_of_month_def)
  moreover have "y - y div 400 * 400 = y mod 400" by (simp add: minus_div_mult_eq_mod)
  ultimately show ?thesis
    by (simp add: day_since_the_epoch_def date_of_parts_def shifted_day_def year_start_def Let_def)
qed

definition date_back_ok :: "int \<Rightarrow> int \<Rightarrow> bool" where
  "date_back_ok m d \<longleftrightarrow>
     (let doy = (153 * ((m + 12 - 3) mod 12) + 2) div 5 + d - 1
      in month_of doy = m \<and> day_of_month doy = d \<and> 0 \<le> doy \<and> doy \<le> 365
         \<and> (doy = 365 \<longrightarrow> m = 2 \<and> d = 29))"

lemma dates_back:
  "list_all (\<lambda>m. list_all (date_back_ok m) [1..(if m = 2 then 29 else usual_days m)]) [1..12]"
  by code_simp

lemma date_ok_parts:
  assumes "date_ok c"
  obtains y doy where "c = date_of_parts y doy" and "0 \<le> doy" and "doy < march_year_days y"
proof -
  define m d where "m = month c" and "d = day c"
  have md: "1 \<le> m" "m \<le> 12" "1 \<le> d" "d \<le> (if m = 2 then 29 else usual_days m)"
    using assms by (auto simp: date_ok_def m_def d_def days_in_month_def usual_days_def split: if_splits)
  define doy where "doy = (153 * ((m + 12 - 3) mod 12) + 2) div 5 + d - 1"
  define y where "y = year c - (if m \<le> 2 then 1 else 0)"
  have "date_back_ok m d" using dates_back md by (simp add: list_all_iff)
  then have ok: "month_of doy = m" "day_of_month doy = d" "0 \<le> doy" "doy \<le> 365"
    "doy = 365 \<Longrightarrow> m = 2 \<and> d = 29" by (auto simp: date_back_ok_def doy_def Let_def)
  have "c = date_of_parts y doy"
    using ok by (simp add: date_of_parts_def y_def m_def d_def)
  moreover have "doy < march_year_days y"
  proof (cases "doy = 365")
    case True
    then have "leap (y + 1)"
      using ok(5) assms by (auto simp: date_ok_def days_in_month_def m_def d_def y_def split: if_splits)
    then show ?thesis using True by (simp add: march_year_days_def)
  next
    case False
    then show ?thesis using ok by (simp add: march_year_days_def)
  qed
  ultimately show thesis using ok that by blast
qed

text \<open>The days whose shift to March 0000 does not saturate.\<close>

definition day_in_range :: "int \<Rightarrow> bool" where
  "day_in_range n \<longleftrightarrow> i64_min \<le> n \<and> n + 719468 \<le> i64_max"

lemma shift_in_range: "day_in_range n \<Longrightarrow> i64_saturating_add n 719468 = n + 719468"
  by (simp add: day_in_range_def i64_saturating_add_def i64_min_def i64_max_def)

lemma of_day_ok: "date_ok (of_day n)"
  unfolding of_day_parts using day_of_march_year_bounds by (rule date_of_parts_step(2))

lemma of_day_next:
  assumes "day_in_range n" and "day_in_range (n + 1)"
  shows "of_day (n + 1) = next_date (of_day n)"
proof -
  define s where "s = n + 719468"
  have "of_day n = date_of_parts (march_year s) (day_of_march_year s)"
    and "of_day (n + 1) = date_of_parts (march_year (s + 1)) (day_of_march_year (s + 1))"
    using assms by (simp_all add: of_day_parts shift_in_range s_def algebra_simps)
  then show ?thesis
    using date_of_parts_step(1) [OF day_of_march_year_bounds, of s] march_step [of s] by simp
qed

lemma day_of_of_day: "day_in_range n \<Longrightarrow> day_since_the_epoch (of_day n) = n"
proof -
  assume n: "day_in_range n"
  have "day_of_march_year (n + 719468) \<le> 365"
    using day_of_march_year_bounds(2) [of "n + 719468"]
    by (simp add: march_year_days_def split: if_splits)
  then show ?thesis
    using day_of_march_year_bounds(1)
    by (simp add: of_day_parts shift_in_range [OF n] day_since_of_parts shifted_day_of_parts)
qed

lemma of_day_of_date:
  assumes "date_ok c" and "day_in_range (day_since_the_epoch c)"
  shows "of_day (day_since_the_epoch c) = c"
proof -
  obtain y doy where c: "c = date_of_parts y doy" "0 \<le> doy" "doy < march_year_days y"
    using assms(1) by (rule date_ok_parts)
  have "doy \<le> 365" using c(3) by (simp add: march_year_days_def split: if_splits)
  then have "day_since_the_epoch c + 719468 = shifted_day y doy"
    using c by (simp add: day_since_of_parts)
  then show ?thesis
    using assms(2) shifted_day_parts [OF c(2,3)] by (simp add: of_day_parts shift_in_range c(1))
qed

end
