(* ===== verification/QueueRows.thy ===== *)
theory QueueRows
  imports Prelude Spans FrameTime
begin

text \<open>
  The rows of the play queue and what they are made of: queue items, the rows as they stand in
  the queue (\<open>Held\<close>), the ids the queue mints (\<open>Unclaimed\<close>), the order-independent stamps
  (\<open>QueueStamp\<close>, \<open>RowStamp\<close>), the pseudo-random \<open>Shuffler\<close>, and what a kept queue is resumed
  from. Sources: the first part of \<open>crates/resonate-engine/src/queue.rs\<close>,
  \<open>crates/resonate-core/src/stamp.rs\<close> and \<open>crates/resonate-core/src/resume.rs\<close>.

  A \<open>MediaLocation\<close> is only ever compared and copied by the queue, so it is the type variable
  \<open>'l\<close>. The standard library does not fix what its \<open>DefaultHasher\<close> computes, so the hash of a
  place and a row is a parameter \<open>H\<close> of the definitions that stamp rows.
\<close>

subsection \<open>Items and rows\<close>

record 'l queue_item =
  item_id :: nat
  location :: 'l
  item_span :: "frame_span option"

definition whole :: "nat \<Rightarrow> 'l \<Rightarrow> 'l queue_item" where
  "whole i loc = \<lparr>item_id = i, location = loc, item_span = None\<rparr>"

record 'l held =
  place :: nat
  stamp :: u64
  item :: "'l queue_item"

type_synonym 'l row_hash = "nat \<Rightarrow> 'l \<times> frame_span option \<Rightarrow> u64"

definition row_stamp :: "'l row_hash \<Rightarrow> 'l queue_item \<Rightarrow> nat \<Rightarrow> u64" where
  "row_stamp H i p = H p (location i, item_span i)"

definition held_at :: "'l row_hash \<Rightarrow> nat \<Rightarrow> 'l queue_item \<Rightarrow> 'l held" where
  "held_at H p i = \<lparr>place = p, stamp = row_stamp H i p, item = i\<rparr>"

lemma held_at_simps [simp]:
  "place (held_at H p i) = p" "item (held_at H p i) = i" "stamp (held_at H p i) = row_stamp H i p"
  by (simp_all add: held_at_def)

abbreviation places_of :: "'l held list \<Rightarrow> nat list" where
  "places_of hs \<equiv> map place hs"

abbreviation ids_of :: "'l held list \<Rightarrow> nat list" where
  "ids_of hs \<equiv> map (\<lambda>h. item_id (item h)) hs"

subsection \<open>Stamps\<close>

definition stamp_with :: "u64 \<Rightarrow> u64 \<Rightarrow> u64" where
  "stamp_with s row = s + row"

definition stamp_without :: "u64 \<Rightarrow> u64 \<Rightarrow> u64" where
  "stamp_without s row = s - row"

fun stamp_from :: "'l row_hash \<Rightarrow> nat \<Rightarrow> u64 \<Rightarrow> 'l queue_item list \<Rightarrow> u64" where
  "stamp_from H p s [] = s"
| "stamp_from H p s (i # is) = stamp_from H (Suc p) (stamp_with s (row_stamp H i p)) is"

definition stamp_of :: "'l row_hash \<Rightarrow> 'l queue_item list \<Rightarrow> u64" where
  "stamp_of H is = stamp_from H 0 0 is"

definition stamped :: "'l held list \<Rightarrow> u64" where
  "stamped hs = fold (\<lambda>h s. stamp_with s (stamp h)) hs 0"

lemma fold_stamps: "fold (\<lambda>h s. stamp_with s (stamp h)) hs s = s + (\<Sum>h\<leftarrow>hs. stamp h)"
  by (induction hs arbitrary: s) (simp_all add: stamp_with_def)

lemma stamped_sum: "stamped hs = (\<Sum>h\<leftarrow>hs. stamp h)"
  by (simp add: stamped_def fold_stamps)

lemma stamped_mset: "mset hs = mset ks \<Longrightarrow> stamped hs = stamped ks"
  by (metis stamped_sum mset_map sum_mset_sum_list)

lemma stamped_append [simp]: "stamped (hs @ ks) = stamped hs + stamped ks"
  by (simp add: stamped_sum)

lemma stamped_Nil [simp]: "stamped [] = 0"
  by (simp add: stamped_def)

lemma stamped_Cons [simp]: "stamped (h # hs) = stamp h + stamped hs"
  by (simp add: stamped_sum)

lemma stamp_from_held:
  "stamp_from H p s is = s + stamped (map (\<lambda>(p, i). held_at H p i) (enumerate p is))"
  by (induction H p s "is" rule: stamp_from.induct) (simp_all add: stamp_with_def)

subsection \<open>Ids\<close>

text \<open>
  \<open>Unclaimed\<close>: the ids in use and the next one to hand out, counted down from the largest.
  A \<open>TrackId\<close> is a non-zero unsigned 64-bit value.
\<close>

record unclaimed =
  taken :: "nat set"
  upnext :: nat

definition beside :: "'l queue_item list \<Rightarrow> unclaimed" where
  "beside queue = \<lparr>taken = set (map item_id queue), upnext = u64_max\<rparr>"

function free_from :: "nat set \<Rightarrow> nat \<Rightarrow> nat option" where
  "free_from used n =
     (if n \<in> used then (case checked_sub n 1 of Some below \<Rightarrow> free_from used below | None \<Rightarrow> None)
      else Some n)"
  by pat_completeness auto
termination
  by (relation "measure snd") (auto simp: checked_sub_Some_iff)

declare free_from.simps [simp del]

definition claim :: "nat \<Rightarrow> unclaimed \<Rightarrow> nat option \<times> unclaimed" where
  "claim i u = (if i \<in> taken u then None else Some i, u\<lparr>taken := insert i (taken u)\<rparr>)"

definition release :: "nat \<Rightarrow> unclaimed \<Rightarrow> unclaimed" where
  "release i u = u\<lparr>taken := taken u - {i}\<rparr>"

definition mint :: "unclaimed \<Rightarrow> nat \<times> unclaimed" where
  "mint u = (case free_from (taken u) (upnext u) of
     None \<Rightarrow> (u64_max, u\<lparr>upnext := 0\<rparr>)
   | Some n \<Rightarrow>
       (let minted = (if n = 0 then u64_max else n)
        in (minted, snd (claim minted (u\<lparr>upnext := n - 1\<rparr>)))))"

definition unclaimed_id :: "'l queue_item list \<Rightarrow> nat" where
  "unclaimed_id queue = fst (mint (beside queue))"

text \<open>Each item keeps its id where it is free, and is given a minted one where it is not.\<close>

definition claim_or_mint :: "nat \<Rightarrow> unclaimed \<Rightarrow> nat \<times> unclaimed" where
  "claim_or_mint i u = (case claim i u of (Some i', u') \<Rightarrow> (i', u') | (None, u') \<Rightarrow> mint u')"

fun one_id_each :: "'l queue_item list \<Rightarrow> unclaimed \<Rightarrow> 'l queue_item list \<times> unclaimed" where
  "one_id_each [] u = ([], u)"
| "one_id_each (i # is) u =
     (let (n, u1) = claim_or_mint (item_id i) u; (is', u2) = one_id_each is u1
      in (i\<lparr>item_id := n\<rparr> # is', u2))"

subsection \<open>The shuffler\<close>

definition xorshift :: "u64 \<Rightarrow> u64" where
  "xorshift s =
     (let a = Bit_Operations.xor s (push_bit 13 s);
          b = Bit_Operations.xor a (drop_bit 7 a)
      in Bit_Operations.xor b (push_bit 17 b))"

definition next_below :: "nat \<Rightarrow> u64 \<Rightarrow> nat \<times> u64" where
  "next_below bound s = (let s' = xorshift s in (unat s' mod bound, s'))"

lemma next_below_bound: "0 < bound \<Longrightarrow> fst (next_below bound s) < bound"
  by (simp add: next_below_def Let_def)

subsection \<open>Resuming\<close>

record 'l resumable =
  res_location :: 'l
  res_span :: "frame_span option"
  res_held :: "nat option"

record 'l resumption =
  res_rows :: "'l resumable list"
  res_order :: "nat list"
  res_row :: nat
  res_at :: frames
  res_shuffle :: bool
  res_next :: "span option"

definition res_landing :: "'l resumption \<Rightarrow> nat" where
  "res_landing r = min (res_row r) (length (res_rows r) - 1)"

fun names_once :: "bool list \<Rightarrow> nat list \<Rightarrow> bool" where
  "names_once named [] = True"
| "names_once named (i # is) =
     (case get named i of None \<Rightarrow> False
      | Some seen \<Rightarrow> if seen then False else names_once (named[i := True]) is)"

definition plays_in :: "nat list \<Rightarrow> nat \<Rightarrow> nat list" where
  "plays_in order n =
     (if length order = n \<and> names_once (replicate n False) order then order else [0..<n])"

definition res_in_play_order :: "'l resumption \<Rightarrow> nat list" where
  "res_in_play_order r = plays_in (res_order r) (length (res_rows r))"

lemma names_once_iff:
  "names_once named is \<longleftrightarrow> distinct is \<and> (\<forall>i\<in>set is. i < length named \<and> \<not> named ! i)"
proof (induction "is" arbitrary: named)
  case (Cons i "is")
  then show ?case by (auto simp: get_def nth_list_update)
qed simp

lemma plays_in_perm: "mset (plays_in order n) = mset [0..<n]"
proof (cases "length order = n \<and> names_once (replicate n False) order")
  case True
  then have d: "distinct order" "set order \<subseteq> {0..<n}" by (auto simp: names_once_iff)
  then have "set order = {0..<n}"
    using True by (intro card_subset_eq) (auto simp: distinct_card)
  then have "mset order = mset [0..<n]"
    using d by (intro set_eq_iff_mset_eq_distinct [THEN iffD1]) auto
  with True show ?thesis by (simp add: plays_in_def)
qed (auto simp: plays_in_def)

text \<open>How many ids are left to mint: those up to the next one that are not in use.\<close>

definition room :: "unclaimed \<Rightarrow> nat" where
  "room u = card {k. 1 \<le> k \<and> k \<le> upnext u \<and> k \<notin> taken u}"

lemma free_from_Some:
  "free_from used n = Some m \<Longrightarrow> m \<le> n \<and> m \<notin> used \<and> (\<forall>k. m < k \<and> k \<le> n \<longrightarrow> k \<in> used)"
proof (induction used n rule: free_from.induct)
  case (1 used n)
  show ?case
  proof (cases "n \<in> used")
    case True
    then have n: "1 \<le> n" "free_from used (n - 1) = Some m"
      using 1(2) by (auto simp: free_from.simps [of used n] checked_sub_def split: if_splits)
    then have IH: "m \<le> n - 1" "m \<notin> used" "\<And>k. m < k \<Longrightarrow> k \<le> n - 1 \<Longrightarrow> k \<in> used"
      using True 1(1) [of "n - 1"] by (auto simp: checked_sub_def)
    have "k \<in> used" if "m < k" "k \<le> n" for k
      using that True IH(3) [of k] by (cases "k = n") auto
    then show ?thesis using IH n(1) by auto
  next
    case False
    then show ?thesis using 1(2) by (auto simp: free_from.simps [of used n])
  qed
qed

lemma free_from_exists:
  "k \<le> n \<Longrightarrow> k \<notin> used \<Longrightarrow> \<exists>m. free_from used n = Some m \<and> k \<le> m"
proof (induction used n rule: free_from.induct)
  case (1 used n)
  show ?case
  proof (cases "n \<in> used")
    case True
    with 1(3) 1(2) have "k \<noteq> n" by auto
    with 1(2) have "k \<le> n - 1" "1 \<le> n" by auto
    then show ?thesis
      using 1(1) [of "n - 1"] True 1(3) by (auto simp: free_from.simps [of used n] checked_sub_def)
  next
    case False
    then show ?thesis using 1(2) by (auto simp: free_from.simps [of used n])
  qed
qed

lemma mint_fresh:
  assumes "0 < room u"
  obtains n where "mint u = (n, \<lparr>taken = insert n (taken u), upnext = n - 1\<rparr>)"
    and "n \<notin> taken u" and "1 \<le> n" and "n \<le> upnext u"
    and "\<forall>k. n < k \<and> k \<le> upnext u \<longrightarrow> k \<in> taken u"
proof -
  from assms obtain k where k: "1 \<le> k" "k \<le> upnext u" "k \<notin> taken u"
    by (auto simp: room_def card_gt_0_iff)
  then obtain n where n: "free_from (taken u) (upnext u) = Some n" "k \<le> n"
    using free_from_exists by blast
  note f = free_from_Some [OF n(1)]
  have "mint u = (n, \<lparr>taken = insert n (taken u), upnext = n - 1\<rparr>)"
    using n k(1) f by (simp add: mint_def claim_def Let_def)
  moreover have "n \<notin> taken u" "1 \<le> n" "n \<le> upnext u"
    "\<forall>j. n < j \<and> j \<le> upnext u \<longrightarrow> j \<in> taken u" using f n k(1) by auto
  ultimately show thesis by (rule that)
qed

lemma room_finite [simp]: "finite {k. 1 \<le> k \<and> k \<le> upnext u \<and> k \<notin> taken u}"
  by (rule finite_subset [of _ "{..upnext u}"]) auto

lemma room_mint: "0 < room u \<Longrightarrow> room (snd (mint u)) = room u - 1"
proof -
  assume "0 < room u"
  then obtain n where n: "mint u = (n, \<lparr>taken = insert n (taken u), upnext = n - 1\<rparr>)"
    "n \<notin> taken u" "1 \<le> n" "n \<le> upnext u" "\<forall>k. n < k \<and> k \<le> upnext u \<longrightarrow> k \<in> taken u"
    by (rule mint_fresh)
  have "{k. 1 \<le> k \<and> k \<le> n - 1 \<and> k \<notin> insert n (taken u)} =
      {k. 1 \<le> k \<and> k \<le> upnext u \<and> k \<notin> taken u} - {n}"
  proof -
    have "k \<le> n - 1" if "k \<le> upnext u" "k \<notin> taken u" "k \<noteq> n" for k
      using that n(5) by (cases "n < k") auto
    then show ?thesis using n(2-4) by auto
  qed
  then show ?thesis using n by (simp add: room_def)
qed

lemma room_claim: "room (snd (claim i u)) \<ge> room u - 1"
proof -
  have "{k. 1 \<le> k \<and> k \<le> upnext u \<and> k \<notin> taken u} - {i}
      \<subseteq> {k. 1 \<le> k \<and> k \<le> upnext u \<and> k \<notin> insert i (taken u)}" by auto
  then have "card ({k. 1 \<le> k \<and> k \<le> upnext u \<and> k \<notin> taken u} - {i})
      \<le> card {k. 1 \<le> k \<and> k \<le> upnext u \<and> k \<notin> insert i (taken u)}"
    using room_finite [of "u\<lparr>taken := insert i (taken u)\<rparr>"] by (intro card_mono) auto
  moreover have "room u - 1 \<le> card ({k. 1 \<le> k \<and> k \<le> upnext u \<and> k \<notin> taken u} - {i})"
    by (simp add: room_def card_Diff_singleton_if)
  ultimately show ?thesis by (simp add: room_def claim_def)
qed

lemma room_release: "room u \<le> room (release i u)"
  unfolding room_def release_def
  by (rule card_mono) (auto intro: finite_subset [of _ "{..upnext u}"])

lemma claim_or_mint_fresh:
  assumes "0 < room u" and "claim_or_mint i u = (n, u')"
  shows "n \<notin> taken u" "taken u' = insert n (taken u)" "room u - 1 \<le> room u'"
    "i \<notin> taken u \<Longrightarrow> n = i" "n = i \<or> 1 \<le> n"
proof -
  have "n \<notin> taken u \<and> taken u' = insert n (taken u) \<and> room u - 1 \<le> room u' \<and>
    (i \<notin> taken u \<longrightarrow> n = i) \<and> (n = i \<or> 1 \<le> n)"
  proof (cases "i \<in> taken u")
    case False
    then have "n = i" "u' = snd (claim i u)"
      using assms(2) by (auto simp: claim_or_mint_def claim_def)
    then show ?thesis using False room_claim [of u i] by (simp add: claim_def)
  next
    case True
    then have "claim i u = (None, u)" by (simp add: claim_def insert_absorb)
    then have m: "mint u = (n, u')" using assms(2) by (simp add: claim_or_mint_def)
    from assms(1) show ?thesis
      by (rule mint_fresh) (use m True room_mint [OF assms(1)] in auto)
  qed
  then show "n \<notin> taken u" "taken u' = insert n (taken u)" "room u - 1 \<le> room u'"
    "i \<notin> taken u \<Longrightarrow> n = i" "n = i \<or> 1 \<le> n" by auto
qed

lemma one_id_each_fresh:
  "length is \<le> room u \<Longrightarrow> one_id_each is u = (js, u') \<Longrightarrow>
     distinct (map item_id js) \<and> set (map item_id js) \<inter> taken u = {} \<and>
     taken u' = taken u \<union> set (map item_id js) \<and> room u - length is \<le> room u'"
proof (induction "is" arbitrary: u js)
  case (Cons i "is")
  obtain n u1 where nu: "claim_or_mint (item_id i) u = (n, u1)" by fastforce
  obtain ks where ks: "one_id_each is u1 = (ks, u')" "js = i\<lparr>item_id := n\<rparr> # ks"
    using Cons.prems(2) nu by (auto split: prod.splits)
  have r: "0 < room u" using Cons.prems(1) by simp
  note c = claim_or_mint_fresh [OF r nu]
  have "length is \<le> room u1" using c(3) Cons.prems(1) by simp
  from Cons.IH [OF this ks(1)] show ?case using c ks(2) by auto
qed simp

lemma one_id_each_rows:
  "one_id_each is u = (js, u') \<Longrightarrow>
     map location js = map location is \<and> map item_span js = map item_span is"
  by (induction "is" arbitrary: u js u') (auto split: prod.splits)

end
