(* ===== verification/Standing.thy ===== *)
theory Standing
  imports QueueRows
begin

text \<open>
  The order the rows stand in while the queue is shuffled (\<open>Standing\<close> in
  \<open>crates/resonate-engine/src/queue.rs\<close>): every row under a label, labels ascending, so that a
  run of rows is put between two others without renumbering the rest, and only a crowded
  stretch is given new labels. The ordered map from labels to rows is an association list in
  ascending order of its keys; the map from places to labels, which is only looked up, is a
  partial function. A \<open>Label\<close> is an unsigned 64-bit value, kept as a natural number: that no
  label passes \<open>u64_max\<close> is part of the invariant below.

  The locale \<open>ordered_rows\<close> is the contract the queue relies on.
\<close>

subsection \<open>The ordered map\<close>

fun om_insert :: "nat \<Rightarrow> 'v \<Rightarrow> (nat \<times> 'v) list \<Rightarrow> (nat \<times> 'v) list" where
  "om_insert k v [] = [(k, v)]"
| "om_insert k v ((a, b) # m) =
     (if k < a then (k, v) # (a, b) # m
      else if k = a then (k, v) # m
      else (a, b) # om_insert k v m)"

definition om_remove :: "nat \<Rightarrow> (nat \<times> 'v) list \<Rightarrow> (nat \<times> 'v) list" where
  "om_remove k m = filter (\<lambda>e. fst e \<noteq> k) m"

definition om_upto :: "nat \<Rightarrow> (nat \<times> 'v) list \<Rightarrow> (nat \<times> 'v) list" where
  "om_upto k m = filter (\<lambda>e. fst e \<le> k) m"

definition om_above :: "nat \<Rightarrow> (nat \<times> 'v) list \<Rightarrow> (nat \<times> 'v) list" where
  "om_above k m = filter (\<lambda>e. k < fst e) m"

definition om_below :: "nat \<Rightarrow> (nat \<times> 'v) list \<Rightarrow> (nat \<times> 'v) list" where
  "om_below k m = filter (\<lambda>e. fst e < k) m"

subsection \<open>Standing\<close>

record 'l standing =
  st_rows :: "(nat \<times> 'l held) list"
  st_labels :: "nat \<Rightarrow> nat option"

datatype anchor = Front | After nat | Back

definition room_between_labels :: nat where
  "room_between_labels = 1048576"

definition st_empty :: "'l standing" where
  "st_empty = \<lparr>st_rows = [], st_labels = (\<lambda>_. None)\<rparr>"

definition st_put :: "nat \<Rightarrow> 'l held \<Rightarrow> 'l standing \<Rightarrow> 'l standing" where
  "st_put label h s =
     s\<lparr>st_labels := (st_labels s)(place h \<mapsto> label), st_rows := om_insert label h (st_rows s)\<rparr>"

text \<open>The loop the code writes three times: a run put from \<open>low\<close> on, \<open>step\<close> apart.\<close>

fun st_put_run :: "nat \<Rightarrow> nat \<Rightarrow> 'l held list \<Rightarrow> 'l standing \<Rightarrow> 'l standing" where
  "st_put_run low step [] s = s"
| "st_put_run low step (h # hs) s = st_put_run (low + step) step hs (st_put (low + step) h s)"

definition st_of :: "'l held list \<Rightarrow> 'l standing" where
  "st_of hs = (let stride = u64_max div (length hs + 1) in st_put_run 0 stride hs st_empty)"

definition st_iter :: "'l standing \<Rightarrow> 'l held list" where
  "st_iter s = map snd (st_rows s)"

definition st_contains :: "nat \<Rightarrow> 'l standing \<Rightarrow> bool" where
  "st_contains p s = (st_labels s p \<noteq> None)"

definition st_remove :: "nat \<Rightarrow> 'l standing \<Rightarrow> 'l standing" where
  "st_remove p s = (case st_labels s p of
     None \<Rightarrow> s
   | Some label \<Rightarrow> s\<lparr>st_labels := (st_labels s)(p := None), st_rows := om_remove label (st_rows s)\<rparr>)"

definition st_around :: "nat option \<Rightarrow> 'l standing \<Rightarrow> 'l held list \<times> 'l held list" where
  "st_around heard s =
     (let label = (case heard of None \<Rightarrow> 0 | Some p \<Rightarrow> (case st_labels s p of None \<Rightarrow> 0 | Some l \<Rightarrow> l))
      in (map snd (om_upto label (st_rows s)), map snd (om_above label (st_rows s))))"

definition st_last :: "'l standing \<Rightarrow> nat" where
  "st_last s = (case back_of (st_rows s) of None \<Rightarrow> 0 | Some e \<Rightarrow> fst e)"

definition st_remove_labels :: "(nat \<times> 'l held) list \<Rightarrow> 'l standing \<Rightarrow> 'l standing" where
  "st_remove_labels es s = fold (\<lambda>e s. s\<lparr>st_rows := om_remove (fst e) (st_rows s)\<rparr>) es s"

text \<open>The window of a respacing: the rows it takes, and the labels it must stay between.\<close>

definition st_left :: "nat \<Rightarrow> nat \<Rightarrow> 'l standing \<Rightarrow> (nat \<times> 'l held) list" where
  "st_left low width s = take width (rev (om_upto low (st_rows s)))"

definition st_right :: "nat \<Rightarrow> nat \<Rightarrow> 'l standing \<Rightarrow> (nat \<times> 'l held) list" where
  "st_right low width s = take width (om_above low (st_rows s))"

definition st_floor :: "nat \<Rightarrow> (nat \<times> 'l held) list \<Rightarrow> 'l standing \<Rightarrow> nat" where
  "st_floor width left s = (case back_of left of
     None \<Rightarrow> 0
   | Some e \<Rightarrow>
       (if length left = width
        then (case back_of (om_below (fst e) (st_rows s)) of None \<Rightarrow> 0 | Some before \<Rightarrow> fst before)
        else 0))"

definition st_ceiling :: "nat \<Rightarrow> (nat \<times> 'l held) list \<Rightarrow> 'l standing \<Rightarrow> nat" where
  "st_ceiling width right s = (case back_of right of
     None \<Rightarrow> u64_max
   | Some e \<Rightarrow>
       (if length right = width
        then (case front_of (om_above (fst e) (st_rows s)) of None \<Rightarrow> u64_max | Some next \<Rightarrow> fst next)
        else u64_max))"

function st_respace_from :: "nat \<Rightarrow> nat \<Rightarrow> 'l held list \<Rightarrow> 'l standing \<Rightarrow> 'l standing" where
  "st_respace_from width low run s =
     (let left = st_left low width s;
          right = st_right low width s;
          floor = st_floor width left s;
          ceiling = st_ceiling width right s;
          step = (ceiling - floor) div (length left + length run + length right + 1);
          everything = (length left < width \<and> length right < width)
      in if step < room_between_labels \<and> \<not> everything
         then (if width = 0 then s else st_respace_from (width * 2) low run s)
         else st_put_run floor (max step 1) (rev (map snd left) @ run @ map snd right)
                (st_remove_labels (left @ right) s))"
  by pat_completeness auto
termination
proof (relation "measure (\<lambda>(width, low, run, s). length (st_rows s) + 1 - width)")
  fix width low run and s :: "'l standing" and left right floor ceiling step everything
  assume a: "left = st_left low width s" "right = st_right low width s"
    "everything = (length left < width \<and> length right < width)"
    "step < room_between_labels \<and> \<not> everything" "width \<noteq> 0"
  have "length (om_upto low (st_rows s)) \<le> length (st_rows s)"
    "length (om_above low (st_rows s)) \<le> length (st_rows s)"
    by (simp_all add: om_upto_def om_above_def)
  then have "width \<le> length (st_rows s)"
    using a by (auto simp: st_left_def st_right_def)
  then show "((width * 2, low, run, s), width, low, run, s)
      \<in> measure (\<lambda>(width, low, run, s). length (st_rows s) + 1 - width)"
    using a(5) by simp
qed simp

declare st_respace_from.simps [simp del]

definition st_respace :: "nat \<Rightarrow> 'l held list \<Rightarrow> 'l standing \<Rightarrow> 'l standing" where
  "st_respace low run s = st_respace_from 16 low run s"

definition st_anchor_label :: "anchor \<Rightarrow> 'l standing \<Rightarrow> nat" where
  "st_anchor_label anc s = (case anc of
     Front \<Rightarrow> 0
   | After p \<Rightarrow> (case st_labels s p of None \<Rightarrow> st_last s | Some l \<Rightarrow> l)
   | Back \<Rightarrow> st_last s)"

definition st_insert :: "anchor \<Rightarrow> 'l held list \<Rightarrow> 'l standing \<Rightarrow> 'l standing" where
  "st_insert anc run s =
     (if run = [] then s
      else
        let low = st_anchor_label anc s;
            high = (case front_of (om_above low (st_rows s)) of None \<Rightarrow> u64_max | Some e \<Rightarrow> fst e);
            step = (high - low) div (length run + 1)
        in if step < room_between_labels then st_respace low run s
           else st_put_run low step run s)"

definition landed_at :: "('l \<times> 'l) list \<Rightarrow> 'l \<Rightarrow> 'l option" where
  "landed_at moved loc =
     (let at = fold (\<lambda>(from_loc, to_loc) at. if from_loc = at then to_loc else at) moved loc
      in if at \<noteq> loc then Some at else None)"

definition relocate_held :: "('l \<times> 'l) list \<Rightarrow> 'l held \<Rightarrow> 'l held" where
  "relocate_held moved h = (case landed_at moved (location (item h)) of
     None \<Rightarrow> h
   | Some to_loc \<Rightarrow> h\<lparr>item := (item h)\<lparr>location := to_loc\<rparr>\<rparr>)"

definition st_relocate :: "('l \<times> 'l) list \<Rightarrow> 'l standing \<Rightarrow> 'l standing" where
  "st_relocate moved s = s\<lparr>st_rows := map (\<lambda>(l, h). (l, relocate_held moved h)) (st_rows s)\<rparr>"

subsection \<open>The ordered map, split at a key\<close>

abbreviation keys_ascend :: "(nat \<times> 'v) list \<Rightarrow> bool" where
  "keys_ascend m \<equiv> sorted_wrt (<) (map fst m)"

lemma om_insert_between:
  "(\<forall>e\<in>set a. fst e < k) \<Longrightarrow> (\<forall>e\<in>set b. k < fst e) \<Longrightarrow> om_insert k v (a @ b) = a @ (k, v) # b"
proof (induction a)
  case Nil
  then show ?case by (cases b) auto
next
  case (Cons e a)
  then show ?case by (cases e) auto
qed

lemma om_split: "keys_ascend m \<Longrightarrow> om_upto k m @ om_above k m = m"
proof (induction m)
  case (Cons e m)
  show ?case
  proof (cases "fst e \<le> k")
    case True
    with Cons show ?thesis by (simp add: om_upto_def om_above_def)
  next
    case False
    then have "\<forall>x\<in>set m. k < fst x" using Cons.prems by fastforce
    then have "om_upto k m = []" "om_above k m = m"
      by (auto simp: om_upto_def om_above_def filter_empty_conv intro!: filter_True)
    with False show ?thesis by (simp add: om_upto_def om_above_def)
  qed
qed (simp add: om_upto_def om_above_def)

lemma om_upto_append:
  "(\<forall>e\<in>set a. fst e \<le> k) \<Longrightarrow> (\<forall>e\<in>set b. k < fst e) \<Longrightarrow> om_upto k (a @ b) = a"
  by (auto simp: om_upto_def filter_empty_conv intro!: filter_True)

lemma om_above_append:
  "(\<forall>e\<in>set a. fst e \<le> k) \<Longrightarrow> (\<forall>e\<in>set b. k < fst e) \<Longrightarrow> om_above k (a @ b) = b"
  by (auto simp: om_above_def filter_empty_conv intro!: filter_True)

lemma om_below_append:
  "(\<forall>e\<in>set a. fst e < k) \<Longrightarrow> (\<forall>e\<in>set b. k \<le> fst e) \<Longrightarrow> om_below k (a @ b) = a"
  by (auto simp: om_below_def filter_empty_conv intro!: filter_True)

subsection \<open>A run put between two labels\<close>

definition labels_from :: "nat \<Rightarrow> nat \<Rightarrow> nat \<Rightarrow> nat list" where
  "labels_from low step n = map (\<lambda>i. low + step * Suc i) [0..<n]"

lemma labels_from_0 [simp]: "labels_from low step 0 = []"
  by (simp add: labels_from_def)

lemma labels_from_Suc [simp]:
  "labels_from low step (Suc n) = (low + step) # labels_from (low + step) step n"
  unfolding labels_from_def upt_conv_Cons [OF zero_less_Suc] map_Suc_upt [symmetric]
  by (simp add: comp_def algebra_simps)

lemma length_labels_from [simp]: "length (labels_from low step n) = n"
  by (simp add: labels_from_def)

lemma labels_from_bounds:
  "l \<in> set (labels_from low step n) \<Longrightarrow> low + step \<le> l \<and> l \<le> low + step * n"
  by (auto simp: labels_from_def) (metis Suc_leI mult_le_mono2 mult_Suc_right)

lemma labels_from_sorted: "0 < step \<Longrightarrow> sorted_wrt (<) (labels_from low step n)"
proof (induction n arbitrary: low)
  case (Suc n)
  have "low + step < l" if "l \<in> set (labels_from (low + step) step n)" for l
    using labels_from_bounds [OF that] Suc.prems by simp
  then show ?case using Suc by simp
qed simp

lemma put_run_rows:
  assumes "0 < step" and "\<forall>e\<in>set a. fst e \<le> low" and "\<forall>e\<in>set b. low + step * length run < fst e"
    and "st_rows s = a @ b"
  shows "st_rows (st_put_run low step run s) = a @ zip (labels_from low step (length run)) run @ b"
  using assms
proof (induction run arbitrary: low a s)
  case (Cons h hs)
  have lt: "\<forall>e\<in>set a. fst e < low + step" using Cons.prems(1,2) by fastforce
  have gt: "\<forall>e\<in>set b. low + step < fst e" using Cons.prems(3) by fastforce
  have "st_rows (st_put (low + step) h s) = (a @ [(low + step, h)]) @ b"
    using om_insert_between [OF lt gt] Cons.prems(4) by (simp add: st_put_def)
  moreover have "\<forall>e\<in>set (a @ [(low + step, h)]). fst e \<le> low + step" using lt by auto
  moreover have "\<forall>e\<in>set b. low + step + step * length hs < fst e"
    using Cons.prems(3) by (simp add: add.assoc)
  ultimately show ?case
    using Cons.IH [of "a @ [(low + step, h)]" "low + step" "st_put (low + step) h s"] Cons.prems(1)
    by simp
qed simp

lemma put_run_labels:
  assumes "distinct (places_of run)"
  shows "st_labels (st_put_run low step run s) =
     st_labels s ++ map_of (zip (places_of run) (labels_from low step (length run)))"
  using assms
proof (induction run arbitrary: low s)
  case (Cons h hs)
  let ?m = "map_of (zip (places_of hs) (labels_from (low + step) step (length hs)))"
  have "place h \<notin> dom ?m" using Cons.prems by (simp add: dom_map_of_zip)
  then have "(st_labels s)(place h \<mapsto> low + step) ++ ?m = (st_labels s ++ ?m)(place h \<mapsto> low + step)"
    by (rule map_add_upd_left)
  moreover have "st_labels (st_put_run low step (h # hs) s) = (st_labels s)(place h \<mapsto> low + step) ++ ?m"
    using Cons by (simp add: st_put_def)
  moreover have "map_of (zip (places_of (h # hs)) (labels_from low step (length (h # hs))))
      = ?m(place h \<mapsto> low + step)" by simp
  ultimately show ?case by (simp only: map_add_upd)
qed simp

subsection \<open>The invariant\<close>

definition labels_of :: "(nat \<times> 'l held) list \<Rightarrow> nat \<Rightarrow> nat option" where
  "labels_of m = map_of (map (\<lambda>(l, h). (place h, l)) m)"

definition st_ok :: "'l standing \<Rightarrow> bool" where
  "st_ok s \<longleftrightarrow> keys_ascend (st_rows s) \<and> (\<forall>e\<in>set (st_rows s). 0 < fst e \<and> fst e \<le> u64_max) \<and>
     distinct (places_of (st_iter s)) \<and> st_labels s = labels_of (st_rows s)"

lemma st_ok_empty [simp]: "st_ok st_empty"
  by (simp add: st_ok_def st_empty_def st_iter_def labels_of_def)

lemma st_iter_empty [simp]: "st_iter st_empty = []"
  by (simp add: st_iter_def st_empty_def)

lemma labels_of_Some:
  assumes "distinct (places_of (map snd m))"
  shows "labels_of m p = Some l \<longleftrightarrow> (\<exists>h. (l, h) \<in> set m \<and> place h = p)"
proof -
  have "distinct (map fst (map (\<lambda>(l, h). (place h, l)) m))"
    using assms by (simp add: comp_def case_prod_unfold)
  then show ?thesis by (auto simp: labels_of_def map_of_eq_Some_iff)
qed

lemma labels_of_append [simp]:
  "labels_of (a @ b) p = (case labels_of a p of Some l \<Rightarrow> Some l | None \<Rightarrow> labels_of b p)"
  by (simp add: labels_of_def map_add_def split: option.splits)

lemma labels_of_None: "labels_of m p = None \<longleftrightarrow> p \<notin> set (places_of (map snd m))"
  by (force simp: labels_of_def map_of_eq_None_iff image_iff case_prod_unfold)

lemma labels_of_zip:
  "length ls = length run \<Longrightarrow> labels_of (zip ls run) = map_of (zip (places_of run) ls)"
  by (induction ls run rule: list_induct2) (simp_all add: labels_of_def)

lemma st_contains_iff: "st_ok s \<Longrightarrow> st_contains p s \<longleftrightarrow> p \<in> set (places_of (st_iter s))"
  using labels_of_None [of "st_rows s" p] by (auto simp: st_contains_def st_ok_def st_iter_def)

text \<open>
  Putting a run strictly between what stands up to \<open>low\<close> and what stands above it, once every
  row of the run that already stood has been taken out of the rows.
\<close>

lemma put_run_ok:
  assumes "0 < step" and "keys_ascend (a @ b)"
    and "\<forall>e\<in>set a. 0 < fst e \<and> fst e \<le> low"
    and "\<forall>e\<in>set b. low + step * length run < fst e \<and> fst e \<le> u64_max"
    and "low + step * length run \<le> u64_max"
    and "st_rows s = a @ b"
    and "distinct (places_of (map snd a @ run @ map snd b))"
    and "\<And>p. p \<notin> set (places_of run) \<Longrightarrow> st_labels s p = labels_of (a @ b) p"
  shows "st_ok (st_put_run low step run s)"
    and "st_iter (st_put_run low step run s) = map snd a @ run @ map snd b"
proof -
  let ?new = "zip (labels_from low step (length run)) run"
  have rows: "st_rows (st_put_run low step run s) = a @ ?new @ b"
    using assms by (intro put_run_rows) auto
  then show iter: "st_iter (st_put_run low step run s) = map snd a @ run @ map snd b"
    by (simp add: st_iter_def)
  have new: "low < l \<and> l \<le> low + step * length run" if "l \<in> set (labels_from low step (length run))" for l
    using labels_from_bounds [OF that] assms(1) by simp
  have "keys_ascend (a @ ?new @ b)"
    using assms(2-4) labels_from_sorted [OF assms(1), of low "length run"] new
    by (fastforce simp: sorted_wrt_append)
  moreover have "\<forall>e\<in>set (a @ ?new @ b). 0 < fst e \<and> fst e \<le> u64_max"
    using assms(3-5) new by (force dest: set_zip_leftD)
  moreover have "st_labels (st_put_run low step run s) = labels_of (a @ ?new @ b)"
  proof
    fix p
    have d: "distinct (places_of run)" using assms(7) by simp
    show "st_labels (st_put_run low step run s) p = labels_of (a @ ?new @ b) p"
    proof (cases "p \<in> set (places_of run)")
      case True
      then have "p \<notin> set (places_of (map snd a))" using assms(7) by auto
      then have "labels_of a p = None" by (simp only: labels_of_None not_False_eq_True)
      moreover obtain l where "map_of (zip (places_of run) (labels_from low step (length run))) p = Some l"
        using True by (metis map_of_zip_is_Some length_labels_from length_map)
      ultimately show ?thesis
        unfolding put_run_labels [OF d] labels_of_zip [symmetric, OF length_labels_from]
        by simp
    next
      case False
      have "labels_of ?new p = None" using False by (simp add: labels_of_None)
      then show ?thesis
        unfolding put_run_labels [OF d] labels_of_zip [symmetric, OF length_labels_from]
        using assms(8) [OF False] by (simp add: map_add_def split: option.splits)
    qed
  qed
  ultimately show "st_ok (st_put_run low step run s)"
    using assms(7) by (simp add: st_ok_def iter rows)
qed

lemma step_fits:
  fixes low high n :: nat
  assumes "step = (high - low) div (n + 1)" and "0 < step"
  shows "low + step * n < high"
proof -
  have "step * (n + 1) \<le> high - low" unfolding assms(1) by (rule div_times_less_eq_dividend)
  moreover have "step * n < step * (n + 1)" using assms(2) by simp
  ultimately show ?thesis by linarith
qed

lemma keys_append:
  "keys_ascend (a @ b) \<longleftrightarrow> keys_ascend a \<and> keys_ascend b \<and> (\<forall>x\<in>set a. \<forall>y\<in>set b. fst x < fst y)"
  by (auto simp: sorted_wrt_append)

lemma keys_upto_last:
  assumes "keys_ascend (a @ [e])"
  shows "\<forall>x\<in>set (a @ [e]). fst x \<le> fst e"
  using assms [unfolded keys_append] by auto

lemma st_of_ok:
  assumes "distinct (places_of hs)" and "length hs < u64_max"
  shows "st_ok (st_of hs)" and "st_iter (st_of hs) = hs"
proof -
  define stride where "stride = u64_max div (length hs + 1)"
  have pos: "0 < stride" using assms(2) by (simp add: stride_def div_greater_zero_iff)
  have fit: "0 + stride * length hs < u64_max"
    using step_fits [of stride u64_max 0 "length hs"] pos by (simp add: stride_def)
  have "st_ok (st_put_run 0 stride hs st_empty) \<and> st_iter (st_put_run 0 stride hs st_empty) = [] @ hs @ []"
    using put_run_ok [where a = "[]" and b = "[]" and low = 0 and step = stride and run = hs and s = st_empty]
      pos fit assms(1) by (simp add: st_empty_def labels_of_def)
  then show "st_ok (st_of hs)" "st_iter (st_of hs) = hs"
    by (simp_all add: st_of_def stride_def Let_def)
qed

lemma st_remove_iter:
  assumes "st_ok s"
  shows "st_ok (st_remove p s)" and "st_iter (st_remove p s) = filter (\<lambda>h. place h \<noteq> p) (st_iter s)"
proof -
  have d: "distinct (places_of (map snd (st_rows s)))" and lab: "st_labels s = labels_of (st_rows s)"
    and asc: "keys_ascend (st_rows s)"
    using assms by (simp_all add: st_ok_def st_iter_def)
  have "st_ok (st_remove p s) \<and> st_iter (st_remove p s) = filter (\<lambda>h. place h \<noteq> p) (st_iter s)"
  proof (cases "st_labels s p")
    case None
    then have "p \<notin> set (places_of (st_iter s))" using lab labels_of_None [of "st_rows s" p] by (simp add: st_iter_def)
    then have "filter (\<lambda>h. place h \<noteq> p) (st_iter s) = st_iter s" by (auto intro!: filter_True)
    then show ?thesis using None assms by (simp add: st_remove_def)
  next
    case (Some l)
    then obtain h where h: "(l, h) \<in> set (st_rows s)" "place h = p"
      using lab labels_of_Some [OF d] by auto
    have dl: "distinct (map fst (st_rows s))" using asc strict_sorted_iff by auto
    have same: "fst e \<noteq> l \<longleftrightarrow> place (snd e) \<noteq> p" if e: "e \<in> set (st_rows s)" for e
    proof -
      have "place (snd e) = p" if "fst e = l"
        using eq_key_imp_eq_value [OF dl h(1), of "snd e"] e that h(2) by (metis prod.collapse)
      moreover have "fst e = l" if "place (snd e) = p"
        using labels_of_Some [OF d, of p "fst e"] e that Some lab by (metis option.inject prod.collapse)
      ultimately show ?thesis by blast
    qed
    then have rows: "om_remove l (st_rows s) = filter (\<lambda>e. place (snd e) \<noteq> p) (st_rows s)"
      by (simp add: om_remove_def cong: filter_cong)
    have "labels_of (filter (\<lambda>e. place (snd e) \<noteq> p) m) = (labels_of m)(p := None)" for m :: "(nat \<times> 'a held) list"
      by (induction m) (auto simp: labels_of_def fun_eq_iff)
    then have "st_ok (st_remove p s)"
      using assms Some rows by (auto simp: st_ok_def st_remove_def st_iter_def lab sorted_wrt_map
          sorted_wrt_filter distinct_map_filter)
    moreover have "st_iter (st_remove p s) = filter (\<lambda>h. place h \<noteq> p) (st_iter s)"
      using Some rows by (simp add: st_remove_def st_iter_def filter_map comp_def)
    ultimately show ?thesis by simp
  qed
  then show "st_ok (st_remove p s)" and "st_iter (st_remove p s) = filter (\<lambda>h. place h \<noteq> p) (st_iter s)"
    by simp_all
qed

text \<open>Where an anchor points in the listed order.\<close>

definition anchor_pos :: "anchor \<Rightarrow> 'l held list \<Rightarrow> nat" where
  "anchor_pos anc hs = (case anc of
     Front \<Rightarrow> 0
   | After p \<Rightarrow> (case position (\<lambda>h. place h = p) hs of None \<Rightarrow> length hs | Some i \<Rightarrow> Suc i)
   | Back \<Rightarrow> length hs)"

lemma anchor_label_splits:
  assumes "st_ok s"
  shows "map snd (om_upto (st_anchor_label anc s) (st_rows s)) = take (anchor_pos anc (st_iter s)) (st_iter s)"
    and "map snd (om_above (st_anchor_label anc s) (st_rows s)) = drop (anchor_pos anc (st_iter s)) (st_iter s)"
proof -
  let ?m = "st_rows s"
  have asc: "keys_ascend ?m" and pos: "\<forall>e\<in>set ?m. 0 < fst e" and lab: "st_labels s = labels_of ?m"
    and d: "distinct (places_of (map snd ?m))"
    using assms by (auto simp: st_ok_def st_iter_def)
  have whole: "om_upto (st_last s) ?m = ?m \<and> om_above (st_last s) ?m = []"
  proof (cases "?m = []")
    case False
    then have "?m = butlast ?m @ [last ?m]" by simp
    then have "\<forall>e\<in>set ?m. fst e \<le> fst (last ?m)" using asc keys_upto_last by metis
    then show ?thesis using False by (auto simp: st_last_def back_of_def om_upto_def om_above_def
          filter_empty_conv intro!: filter_True)
  qed (simp add: om_upto_def om_above_def)
  have "map snd (om_upto (st_anchor_label anc s) ?m) = take (anchor_pos anc (st_iter s)) (st_iter s) \<and>
    map snd (om_above (st_anchor_label anc s) ?m) = drop (anchor_pos anc (st_iter s)) (st_iter s)"
  proof (cases anc)
    case Front
    have "om_upto 0 ?m = [] \<and> om_above 0 ?m = ?m"
      using pos by (auto simp: om_upto_def om_above_def filter_empty_conv intro!: filter_True)
    then show ?thesis using Front by (simp add: st_anchor_label_def anchor_pos_def st_iter_def)
  next
    case Back
    then show ?thesis using whole by (simp add: st_anchor_label_def anchor_pos_def st_iter_def)
  next
    case (After p)
    show ?thesis
    proof (cases "position (\<lambda>h. place h = p) (st_iter s)")
      case None
      then have "st_labels s p = None"
        using lab labels_of_None [of ?m p] by (auto simp: position_None_iff st_iter_def)
      then show ?thesis using None After whole
        by (simp add: st_anchor_label_def anchor_pos_def st_iter_def)
    next
      case (Some i)
      note i = position_SomeD [OF Some]
      define l h where "l = fst (?m ! i)" and "h = snd (?m ! i)"
      have len: "i < length ?m" using i by (simp add: st_iter_def)
      have "(l, h) \<in> set ?m" "place h = p"
        using i len by (auto simp: l_def h_def st_iter_def)
      then have sl: "st_labels s p = Some l" using lab labels_of_Some [OF d] by auto
      have split: "?m = (take i ?m @ [(l, h)]) @ drop (Suc i) ?m"
        using len by (simp add: l_def h_def id_take_nth_drop)
      have "keys_ascend ((take i ?m @ [(l, h)]) @ drop (Suc i) ?m)"
        using asc split by metis
      then have ka: "keys_ascend (take i ?m @ [(l, h)])"
        and kb: "\<forall>x\<in>set (take i ?m @ [(l, h)]). \<forall>y\<in>set (drop (Suc i) ?m). fst x < fst y"
        unfolding keys_append by blast+
      have le: "\<forall>e\<in>set (take i ?m @ [(l, h)]). fst e \<le> l" using keys_upto_last [OF ka] by simp
      have gt: "\<forall>e\<in>set (drop (Suc i) ?m). l < fst e" using kb by simp
      have "om_upto l ?m = take i ?m @ [(l, h)]" "om_above l ?m = drop (Suc i) ?m"
        using om_upto_append [OF le gt, folded split] om_above_append [OF le gt, folded split] by simp_all
      then show ?thesis using After Some len sl
        by (simp add: st_anchor_label_def anchor_pos_def st_iter_def take_Suc_conv_app_nth h_def
            take_map drop_map)
    qed
  qed
  then show "map snd (om_upto (st_anchor_label anc s) ?m) = take (anchor_pos anc (st_iter s)) (st_iter s)"
    "map snd (om_above (st_anchor_label anc s) ?m) = drop (anchor_pos anc (st_iter s)) (st_iter s)"
    by simp_all
qed

subsection \<open>Respacing\<close>

text \<open>
  The window of a respacing: what is left of it, what it takes, and what is right of it. The
  floor and the ceiling are the labels next to the window.
\<close>

lemma window:
  assumes "keys_ascend (st_rows s)" and "0 < width"
    and l_def: "l = st_left low width s" and r_def: "r = st_right low width s"
  obtains P Q where "om_upto low (st_rows s) = P @ rev l" and "om_above low (st_rows s) = r @ Q"
    and "st_rows s = P @ rev l @ r @ Q"
    and "st_floor width l s = (case back_of P of None \<Rightarrow> 0 | Some e \<Rightarrow> fst e)"
    and "st_ceiling width r s = (case front_of Q of None \<Rightarrow> u64_max | Some e \<Rightarrow> fst e)"
    and "length l < width \<Longrightarrow> P = []" and "length r < width \<Longrightarrow> Q = []"
proof -
  let ?up = "om_upto low (st_rows s)" and ?ab = "om_above low (st_rows s)"
  define P where "P = take (length ?up - width) ?up"
  define Q where "Q = drop width ?ab"
  have up: "?up = P @ rev l" by (simp add: P_def l_def st_left_def take_rev)
  have ab: "?ab = r @ Q" by (simp add: Q_def r_def st_right_def)
  have rows: "st_rows s = P @ rev l @ r @ Q"
    using om_split [OF assms(1), of low] up ab by simp
  have short: "P = []" if "length l < width"
    using that by (simp add: P_def l_def st_left_def)
  have shortr: "Q = []" if "length r < width"
    using that by (simp add: Q_def r_def st_right_def)
  have asc: "keys_ascend (P @ rev l @ r @ Q)" using assms(1) rows by simp
  have floor: "st_floor width l s = (case back_of P of None \<Rightarrow> 0 | Some e \<Rightarrow> fst e)"
  proof (cases "length l = width")
    case True
    then have ne: "l \<noteq> []" using assms(2) by auto
    then have sp: "rev l = last l # rev (butlast l)" by (metis append_butlast_last_id rev_eq_Cons_iff rev_rev_ident)
    have k: "keys_ascend (P @ (last l # rev (butlast l) @ r @ Q))" using asc sp by simp
    have "om_below (fst (last l)) (P @ (last l # rev (butlast l) @ r @ Q)) = P"
      using k unfolding keys_append [of P] by (intro om_below_append) (auto simp: less_imp_le ball_Un)
    then have "om_below (fst (last l)) (st_rows s) = P" using rows sp by simp
    then show ?thesis using True ne by (simp add: st_floor_def back_of_def)
  next
    case False
    then have "length l < width" by (simp add: l_def st_left_def)
    then show ?thesis using False short by (simp add: st_floor_def split: option.split)
  qed
  have ceil: "st_ceiling width r s = (case front_of Q of None \<Rightarrow> u64_max | Some e \<Rightarrow> fst e)"
  proof (cases "length r = width")
    case True
    then have ne: "r \<noteq> []" using assms(2) by auto
    then have sp: "r = butlast r @ [last r]" by simp
    have k: "keys_ascend ((P @ rev l @ butlast r @ [last r]) @ Q)" using asc sp by simp
    have k1: "keys_ascend ((P @ rev l @ butlast r) @ [last r])"
      using k unfolding keys_append [of _ Q] by simp
    have "om_above (fst (last r)) ((P @ rev l @ butlast r @ [last r]) @ Q) = Q"
      using k keys_upto_last [OF k1] unfolding keys_append [of _ Q] by (intro om_above_append) auto
    then have "om_above (fst (last r)) (st_rows s) = Q" using rows sp by simp
    then show ?thesis using True ne by (simp add: st_ceiling_def back_of_def)
  next
    case False
    then have "length r < width" by (simp add: r_def st_right_def)
    then show ?thesis using False shortr by (simp add: st_ceiling_def split: option.split)
  qed
  show thesis by (rule that [OF up ab rows floor ceil short shortr])
qed

lemma remove_labels_rows:
  "st_rows (st_remove_labels es s) = filter (\<lambda>e. fst e \<notin> fst ` set es) (st_rows s)"
  "st_labels (st_remove_labels es s) = st_labels s"
proof -
  have "st_rows (st_remove_labels es s) = filter (\<lambda>e. fst e \<notin> fst ` set es) (st_rows s) \<and>
    st_labels (st_remove_labels es s) = st_labels s"
    unfolding st_remove_labels_def
    by (induction es arbitrary: s) (auto simp: om_remove_def intro!: filter_cong)
  then show "st_rows (st_remove_labels es s) = filter (\<lambda>e. fst e \<notin> fst ` set es) (st_rows s)"
    "st_labels (st_remove_labels es s) = st_labels s" by simp_all
qed

text \<open>What every way of putting a run owes: the invariant, and the run where it was asked for.\<close>

definition lands_after :: "(nat \<times> 'l held) list \<Rightarrow> 'l held list \<Rightarrow> (nat \<times> 'l held) list \<Rightarrow> 'l standing \<Rightarrow> bool" where
  "lands_after up run ab s \<longleftrightarrow> st_ok s \<and> st_iter s = map snd up @ run @ map snd ab"

lemma respace_here:
  assumes ok: "st_ok s" and w: "0 < width"
    and run: "distinct (places_of run)" "set (places_of run) \<inter> set (places_of (st_iter s)) = {}"
    and size: "length (st_rows s) + length run < u64_max"
    and l: "l = st_left low width s" and r: "r = st_right low width s"
    and step: "step = (st_ceiling width r s - st_floor width l s) div (length l + length run + length r + 1)"
    and fits: "room_between_labels \<le> step \<or> (length l < width \<and> length r < width)"
  shows "lands_after (om_upto low (st_rows s)) run (om_above low (st_rows s))
    (st_put_run (st_floor width l s) (max step 1) (rev (map snd l) @ run @ map snd r)
      (st_remove_labels (l @ r) s))"
proof -
  have asc: "keys_ascend (st_rows s)" using ok by (simp add: st_ok_def)
  obtain P Q where pq: "om_upto low (st_rows s) = P @ rev l" "om_above low (st_rows s) = r @ Q"
    "st_rows s = P @ rev l @ r @ Q"
    "st_floor width l s = (case back_of P of None \<Rightarrow> 0 | Some e \<Rightarrow> fst e)"
    "st_ceiling width r s = (case front_of Q of None \<Rightarrow> u64_max | Some e \<Rightarrow> fst e)"
    "length l < width \<Longrightarrow> P = []" "length r < width \<Longrightarrow> Q = []"
    using window [OF asc w l r] by blast
  define low' where "low' = st_floor width l s"
  define high where "high = st_ceiling width r s"
  define n where "n = length l + length run + length r"
  have pos: "0 < step"
  proof (cases "length l < width \<and> length r < width")
    case True
    then have "P = []" "Q = []" using pq by auto
    then have "step = u64_max div (n + 1)" using pq(4,5) step by (simp add: n_def)
    moreover have "n < u64_max" using size pq(3) by (simp add: n_def)
    ultimately show ?thesis by (simp add: div_greater_zero_iff)
  next
    case False
    then show ?thesis using fits by (auto simp: room_between_labels_def)
  qed
  have fit: "low' + step * n < high"
    using step_fits [of step high low' n] pos step by (simp add: low'_def high_def n_def)
  have k: "keys_ascend (P @ rev l @ r @ Q)" using asc pq(3) by simp
  have rng: "\<forall>e\<in>set (P @ rev l @ r @ Q). 0 < fst e \<and> fst e \<le> u64_max"
    using ok unfolding st_ok_def pq(3) by blast
  have P: "\<forall>e\<in>set P. 0 < fst e \<and> fst e \<le> low'"
  proof (cases "P = []")
    case False
    then have eq: "P = butlast P @ [last P]" by simp
    have "keys_ascend P" using k unfolding keys_append by blast
    then have "\<forall>e\<in>set P. fst e \<le> fst (last P)" using keys_upto_last eq by metis
    then show ?thesis using False rng pq(4) by (simp add: low'_def back_of_def)
  qed simp
  have Q: "\<forall>e\<in>set Q. high \<le> fst e \<and> fst e \<le> u64_max"
  proof (cases Q)
    case (Cons q Q')
    have "keys_ascend (q # Q')" using k Cons unfolding keys_append by blast
    then show ?thesis using Cons rng pq(5) by (auto simp: high_def)
  qed simp
  have high: "high \<le> u64_max"
    using Q pq(5) by (cases Q) (auto simp: high_def)
  let ?run = "rev (map snd l) @ run @ map snd r" and ?s = "st_remove_labels (l @ r) s"
  have rows: "st_rows ?s = P @ Q"
  proof -
    have k1: "\<forall>x\<in>set P. \<forall>y\<in>set (rev l @ r @ Q). fst x < fst y" using k unfolding keys_append by blast
    have "keys_ascend ((P @ rev l @ r) @ Q)" using k by simp
    then have k2: "\<forall>x\<in>set (P @ rev l @ r). \<forall>y\<in>set Q. fst x < fst y" unfolding keys_append [of _ Q] by blast
    have "fst e \<noteq> fst x" if "e \<in> set P \<or> e \<in> set Q" "x \<in> set (l @ r)" for e x
    proof (cases "e \<in> set P")
      case True
      then have "fst e < fst x" using k1 that(2) by (simp add: ball_Un) blast
      then show ?thesis by simp
    next
      case False
      then have "fst x < fst e" using k2 that by auto
      then show ?thesis by simp
    qed
    then have "fst e \<notin> fst ` set (l @ r)" if "e \<in> set P \<or> e \<in> set Q" for e
      using that by (metis imageE)
    then show ?thesis unfolding remove_labels_rows pq(3)
      by (auto intro!: filter_True simp: filter_empty_conv)
  qed
  have kPQ: "keys_ascend (P @ Q)" using k unfolding keys_append by (simp add: ball_Un)
  have d: "distinct (places_of (map snd P @ ?run @ map snd Q))"
  proof -
    have "mset (map snd P @ ?run @ map snd Q) = mset (run @ st_iter s)"
      by (simp add: st_iter_def pq(3))
    then have "mset (places_of (map snd P @ ?run @ map snd Q)) = mset (places_of (run @ st_iter s))"
      by (metis mset_map)
    moreover have "distinct (places_of (run @ st_iter s))" using run ok by (auto simp: st_ok_def)
    ultimately show ?thesis using distinct_mset_eq by blast
  qed
  have lab: "st_labels ?s p = labels_of (P @ Q) p" if "p \<notin> set (places_of ?run)" for p
  proof -
    have "labels_of (rev l) p = None" "labels_of r p = None"
      unfolding labels_of_None using that by (auto simp: rev_map [symmetric])
    moreover have "st_labels ?s p = labels_of (P @ rev l @ r @ Q) p"
      using ok by (simp add: remove_labels_rows st_ok_def flip: pq(3))
    ultimately show ?thesis by (simp split: option.split)
  qed
  have m: "max step (Suc 0) = step" and len: "length ?run = n" using pos by (simp_all add: n_def)
  have "\<forall>e\<in>set Q. low' + step * length ?run < fst e \<and> fst e \<le> u64_max"
    using Q fit len by fastforce
  moreover have "low' + step * length ?run \<le> u64_max" using fit high len by simp
  ultimately have "st_ok (st_put_run low' step ?run ?s)"
    "st_iter (st_put_run low' step ?run ?s) = map snd P @ ?run @ map snd Q"
    using put_run_ok [OF pos kPQ P _ _ rows d lab] by blast+
  then show ?thesis by (simp add: lands_after_def pq(1,2) m low'_def rev_map)
qed

lemma respace_from_lands:
  assumes "st_ok s" and "0 < width"
    and "distinct (places_of run)" "set (places_of run) \<inter> set (places_of (st_iter s)) = {}"
    and "length (st_rows s) + length run < u64_max"
  shows "lands_after (om_upto low (st_rows s)) run (om_above low (st_rows s)) (st_respace_from width low run s)"
  using assms
proof (induction width low run s rule: st_respace_from.induct)
  case (1 width low run s)
  let ?l = "st_left low width s" and ?r = "st_right low width s"
  let ?step = "(st_ceiling width ?r s - st_floor width ?l s) div (length ?l + length run + length ?r + 1)"
  show ?case
  proof (cases "?step < room_between_labels \<and> \<not> (length ?l < width \<and> length ?r < width)")
    case True
    have "lands_after (om_upto low (st_rows s)) run (om_above low (st_rows s)) (st_respace_from (width * 2) low run s)"
      by (rule 1(1)) (use 1(2-) True in auto)
    then show ?thesis
      using True 1(3) by (subst st_respace_from.simps) (simp only: Let_def if_True split: if_split, simp)
  next
    case False
    then have fits: "room_between_labels \<le> ?step \<or> (length ?l < width \<and> length ?r < width)" by auto
    show ?thesis
      using respace_here [OF 1(2-6) refl refl refl fits] False
      by (subst st_respace_from.simps) (simp only: Let_def if_False)
  qed
qed

lemma st_insert_lands:
  assumes ok: "st_ok s"
    and run: "distinct (places_of run)" "set (places_of run) \<inter> set (places_of (st_iter s)) = {}"
    and size: "length (st_iter s) + length run < u64_max"
  shows "st_ok (st_insert anc run s)"
    and "st_iter (st_insert anc run s) = vec_splice (anchor_pos anc (st_iter s)) run (st_iter s)"
proof -
  define low where "low = st_anchor_label anc s"
  let ?up = "om_upto low (st_rows s)" and ?ab = "om_above low (st_rows s)"
  define high where "high = (case front_of ?ab of None \<Rightarrow> u64_max | Some e \<Rightarrow> fst e)"
  define step where "step = (high - low) div (length run + 1)"
  have rows: "st_rows s = ?up @ ?ab" using ok by (simp add: st_ok_def om_split)
  have rng: "\<forall>e\<in>set (st_rows s). 0 < fst e \<and> fst e \<le> u64_max" using ok by (simp add: st_ok_def)
  have "st_ok (st_insert anc run s) \<and> st_iter (st_insert anc run s) = map snd ?up @ run @ map snd ?ab"
  proof (cases "run = []")
    case True
    have "map snd ?up @ map snd ?ab = st_iter s" by (metis rows map_append st_iter_def)
    then show ?thesis using True ok by (simp add: st_insert_def)
  next
    case ne: False
    show ?thesis
    proof (cases "step < room_between_labels")
      case True
      then have "st_insert anc run s = st_respace_from 16 low run s"
        using ne by (simp add: st_insert_def Let_def low_def [symmetric] high_def [symmetric]
            step_def [symmetric] st_respace_def del: One_nat_def)
      then show ?thesis
        using respace_from_lands [OF ok _ run, of 16 low] size by (simp add: lands_after_def st_iter_def)
    next
      case False
      then have eq: "st_insert anc run s = st_put_run low step run s"
        using ne by (simp add: st_insert_def Let_def low_def step_def high_def)
      have pos: "0 < step" using False by (simp add: room_between_labels_def)
      have fit: "low + step * length run < high" by (rule step_fits [OF step_def pos])
      have up: "\<forall>e\<in>set ?up. 0 < fst e \<and> fst e \<le> low" using rng by (auto simp: om_upto_def)
      have asc: "keys_ascend (?up @ ?ab)" using ok rows by (simp add: st_ok_def)
      have ab: "\<forall>e\<in>set ?ab. high \<le> fst e \<and> fst e \<le> u64_max"
      proof (cases ?ab)
        case (Cons q Q)
        have "keys_ascend (q # Q)" using asc Cons unfolding keys_append by simp
        moreover have "\<forall>e\<in>set (q # Q). fst e \<le> u64_max" using rng rows Cons by (metis Un_iff set_append)
        ultimately show ?thesis using Cons by (auto simp: high_def)
      qed simp
      have high: "high \<le> u64_max" using ab by (cases ?ab) (auto simp: high_def)
      have d: "distinct (places_of (map snd ?up @ run @ map snd ?ab))"
      proof -
        have "mset (map snd ?up @ run @ map snd ?ab) = mset (run @ st_iter s)"
          unfolding st_iter_def by (subst (3) rows) simp
        then have "mset (places_of (map snd ?up @ run @ map snd ?ab)) = mset (places_of (run @ st_iter s))"
          by (metis mset_map)
        moreover have "distinct (places_of (run @ st_iter s))" using run ok by (auto simp: st_ok_def)
        ultimately show ?thesis using distinct_mset_eq by blast
      qed
      have b: "\<forall>e\<in>set ?ab. low + step * length run < fst e \<and> fst e \<le> u64_max"
        using ab fit by fastforce
      have le: "low + step * length run \<le> u64_max" using fit high by simp
      have lab: "st_labels s p = labels_of (?up @ ?ab) p" for p
        using ok rows by (simp add: st_ok_def)
      show ?thesis using put_run_ok [OF pos asc up b le rows d lab] unfolding eq by blast
    qed
  qed
  then show "st_ok (st_insert anc run s)"
    "st_iter (st_insert anc run s) = vec_splice (anchor_pos anc (st_iter s)) run (st_iter s)"
    using anchor_label_splits [OF ok, of anc] by (simp_all add: low_def vec_splice_def)
qed

lemma st_relocate_lands:
  "st_ok s \<Longrightarrow> st_ok (st_relocate moved s) \<and> st_iter (st_relocate moved s) = map (relocate_held moved) (st_iter s)"
proof -
  assume ok: "st_ok s"
  have p: "place (relocate_held moved h) = place h" for h :: "'a held"
    by (simp add: relocate_held_def split: option.split)
  have "labels_of (map (\<lambda>(l, h). (l, relocate_held moved h)) m) = labels_of m" for m :: "(nat \<times> 'a held) list"
    by (induction m) (auto simp: labels_of_def p)
  then show ?thesis
    using ok by (auto simp: st_ok_def st_relocate_def st_iter_def case_prod_unfold comp_def p)
qed

lemma st_around_splits:
  assumes "st_ok s" and "p \<in> set (places_of (st_iter s))"
  shows "st_around (Some p) s =
    (take (anchor_pos (After p) (st_iter s)) (st_iter s), drop (anchor_pos (After p) (st_iter s)) (st_iter s))"
proof -
  obtain l where "st_labels s p = Some l"
    using assms st_contains_iff by (metis not_None_eq st_contains_def)
  then show ?thesis
    using anchor_label_splits [OF assms(1), of "After p"] by (simp add: st_around_def st_anchor_label_def)
qed

lemma st_around_nowhere:
  assumes "st_ok s"
  shows "st_around None s = ([], st_iter s)"
  using anchor_label_splits [OF assms, of Front] by (simp add: st_around_def st_anchor_label_def anchor_pos_def)

subsection \<open>The contract\<close>

text \<open>
  What the queue relies on: a container of rows kept in an order, which takes a run at an anchor
  and gives rows up one place at a time, and whose rows have places of their own.
\<close>

locale ordered_rows =
  fixes ok :: "'s \<Rightarrow> bool"
    and listed :: "'s \<Rightarrow> 'l held list"
    and put :: "anchor \<Rightarrow> 'l held list \<Rightarrow> 's \<Rightarrow> 's"
    and give_up :: "nat \<Rightarrow> 's \<Rightarrow> 's"
    and has :: "nat \<Rightarrow> 's \<Rightarrow> bool"
  assumes places: "ok s \<Longrightarrow> distinct (places_of (listed s))"
    and has_iff: "ok s \<Longrightarrow> has p s \<longleftrightarrow> p \<in> set (places_of (listed s))"
    and put_keeps: "ok s \<Longrightarrow> distinct (places_of run) \<Longrightarrow>
      set (places_of run) \<inter> set (places_of (listed s)) = {} \<Longrightarrow>
      length (listed s) + length run < u64_max \<Longrightarrow> ok (put anc run s)"
    and put_lists: "ok s \<Longrightarrow> distinct (places_of run) \<Longrightarrow>
      set (places_of run) \<inter> set (places_of (listed s)) = {} \<Longrightarrow>
      length (listed s) + length run < u64_max \<Longrightarrow>
      listed (put anc run s) = vec_splice (anchor_pos anc (listed s)) run (listed s)"
    and give_up_keeps: "ok s \<Longrightarrow> ok (give_up p s)"
    and give_up_lists: "ok s \<Longrightarrow> listed (give_up p s) = filter (\<lambda>h. place h \<noteq> p) (listed s)"
begin

text \<open>Giving up several rows, one after another.\<close>

lemma give_up_places:
  "ok s \<Longrightarrow> ok (fold give_up ps s) \<and>
     listed (fold give_up ps s) = filter (\<lambda>k. place k \<notin> set ps) (listed s)"
proof (induction ps arbitrary: s)
  case (Cons p ps)
  have "ok (give_up p s)" using Cons.prems by (rule give_up_keeps)
  from Cons.IH [OF this] show ?case
    by (auto simp: give_up_lists [OF Cons.prems] intro!: filter_cong)
qed simp

lemma give_up_all:
  fixes hs :: "'l held list"
  shows "ok s \<Longrightarrow> ok (fold (\<lambda>h. give_up (place h)) hs s) \<and>
     listed (fold (\<lambda>h. give_up (place h)) hs s) = filter (\<lambda>k. place k \<notin> set (places_of hs)) (listed s)"
  using give_up_places [of s "places_of hs"] by (simp add: fold_map comp_def)

lemma give_up_all_fits:
  "ok s \<Longrightarrow> length (listed (fold (\<lambda>h. give_up (place h)) (hs :: 'l held list) s)) \<le> length (listed s)"
  using give_up_all [of s hs] by simp

lemma put_places:
  assumes "ok s" and "distinct (places_of run)" and "set (places_of run) \<inter> set (places_of (listed s)) = {}"
    and "length (listed s) + length run < u64_max"
  shows "mset (listed (put anc run s)) = mset run + mset (listed s)"
    and "set (places_of (listed (put anc run s))) = set (places_of run) \<union> set (places_of (listed s))"
  by (simp_all add: put_lists [OF assms] image_Un)

text \<open>Rows taken out and put back elsewhere are the rows there were.\<close>

lemma move_lists:
  assumes "ok s" and "set hs \<subseteq> set (listed s)" and "distinct (places_of hs)"
    and "length (listed s) + length hs < u64_max"
  defines "s' \<equiv> fold (\<lambda>h. give_up (place h)) hs s"
  shows "ok (put anc hs s')" and "mset (listed (put anc hs s')) = mset (listed s)"
proof -
  have s': "ok s'" "listed s' = filter (\<lambda>k. place k \<notin> set (places_of hs)) (listed s)"
    using give_up_all [OF assms(1), of hs] by (simp_all add: s'_def)
  have apart: "set (places_of hs) \<inter> set (places_of (listed s')) = {}"
    unfolding s'(2) disjoint_iff by (auto simp: image_iff) metis
  have fits: "length (listed s') + length hs < u64_max"
    using give_up_all_fits [OF assms(1), of hs] assms(4) by (simp add: s'_def)
  show "ok (put anc hs s')" by (rule put_keeps [OF s'(1) assms(3) apart fits])
  have d: "distinct (listed s)" and inj: "inj_on place (set (listed s))"
    using places [OF assms(1)] by (simp_all add: distinct_map)
  have "mset (filter (\<lambda>k. place k \<in> set (places_of hs)) (listed s)) = mset hs"
  proof (rule set_eq_iff_mset_eq_distinct [THEN iffD1])
    show "distinct (filter (\<lambda>k. place k \<in> set (places_of hs)) (listed s))" "distinct hs"
      using d assms(3) by (simp_all add: distinct_map)
    show "set (filter (\<lambda>k. place k \<in> set (places_of hs)) (listed s)) = set hs"
      using assms(2) inj by (auto dest: inj_onD)
  qed
  moreover have "mset (filter Q xs) + mset (filter (\<lambda>x. \<not> Q x) xs) = mset xs"
    for Q and xs :: "'l held list" by (induction xs) auto
  ultimately show "mset (listed (put anc hs s')) = mset (listed s)"
    using put_places(1) [OF s'(1) assms(3) apart fits, of anc] s'(2) by metis
qed

end

interpretation standing_rows: ordered_rows st_ok st_iter st_insert st_remove st_contains
proof
  fix s :: "'l standing" and run :: "'l held list" and anc and p
  show "st_ok s \<Longrightarrow> distinct (places_of (st_iter s))" by (simp add: st_ok_def)
  show "st_ok s \<Longrightarrow> st_contains p s \<longleftrightarrow> p \<in> set (places_of (st_iter s))" by (rule st_contains_iff)
  show "st_ok s \<Longrightarrow> st_ok (st_remove p s)"
    "st_ok s \<Longrightarrow> st_iter (st_remove p s) = filter (\<lambda>h. place h \<noteq> p) (st_iter s)"
    by (fact st_remove_iter)+
qed (fact st_insert_lands)+

end
