(* ===== verification/PlayQueue.thy ===== *)
theory PlayQueue
  imports Standing
begin

text \<open>
  The play queue (\<open>Queue\<close> in \<open>crates/resonate-engine/src/queue.rs\<close>, and \<open>RepeatMode\<close> of
  \<open>command.rs\<close>): the rows in the order they play, the rows that wait to be played next, the
  order the rows stand in while they are shuffled, and which row is heard. Every operation
  takes the queue and gives back the changed queue, with what it answers where it answers.

  \<open>q_order\<close> holds the rows in playing order, \<open>q_after\<close> how many of them have been heard or are
  being heard, and \<open>q_next\<close> the rows waiting between the two: the rows a listener sees are
  \<open>take after order @ next @ drop after order\<close>. When the seat is \<open>SeatNext\<close> the row being heard
  is the head of \<open>q_next\<close>.

  This theory holds the state and the operations; \<open>QueueInvariant\<close> and the theories over it
  hold what is proved of them.
\<close>

datatype repeat_mode = RepeatOff | RepeatTrack | RepeatQueue

datatype seat = Nowhere | SeatInOrder | SeatNext

datatype row = RowInOrder nat | RowNext nat

datatype waits = WaitsInOrder | WaitsNext

datatype removal = Playing | Queued

datatype placement = PlaceNext | PlaceQueued | PlaceAt nat

record 'l queue =
  q_order :: "'l held list"
  q_unshuffled :: "'l standing"
  q_next :: "'l held list"
  q_places :: nat
  q_ids :: unclaimed
  q_after :: nat
  q_seat :: seat
  q_repeat :: repeat_mode
  q_shuffle :: bool
  q_shuffler :: u64
  q_revision :: u64
  q_rows_revision :: u64
  q_stamp :: u64
  q_playing_from :: u64

definition queue_new :: "u64 \<Rightarrow> 'l queue" where
  "queue_new seed = \<lparr>q_order = [], q_unshuffled = st_empty, q_next = [], q_places = 0,
     q_ids = beside ([] :: 'l queue_item list), q_after = 0, q_seat = Nowhere, q_repeat = RepeatOff,
     q_shuffle = False, q_shuffler = seed, q_revision = 0, q_rows_revision = 0, q_stamp = 0,
     q_playing_from = 0\<rparr>"

subsection \<open>What is read\<close>

definition q_len :: "'l queue \<Rightarrow> nat" where
  "q_len q = length (q_order q) + length (q_next q)"

definition last_heard :: "'l queue \<Rightarrow> 'l held option" where
  "last_heard q = (case checked_sub (q_after q) 1 of None \<Rightarrow> None | Some at \<Rightarrow> get (q_order q) at)"

definition heard :: "'l queue \<Rightarrow> 'l held option" where
  "heard q = (case q_seat q of
     Nowhere \<Rightarrow> None
   | SeatInOrder \<Rightarrow> last_heard q
   | SeatNext \<Rightarrow> front_of (q_next q))"

definition heard_place :: "'l queue \<Rightarrow> nat option" where
  "heard_place q = map_option place (heard q)"

definition current :: "'l queue \<Rightarrow> 'l queue_item option" where
  "current q = map_option item (heard q)"

definition q_position :: "'l queue \<Rightarrow> nat option" where
  "q_position q = (case q_seat q of
     SeatInOrder \<Rightarrow> map_option place (last_heard q)
   | Nowhere \<Rightarrow> None
   | SeatNext \<Rightarrow> None)"

definition cursor :: "'l queue \<Rightarrow> nat option" where
  "cursor q = (case q_seat q of
     Nowhere \<Rightarrow> None
   | SeatInOrder \<Rightarrow> checked_sub (q_after q) 1
   | SeatNext \<Rightarrow> Some (q_after q))"

definition playing_next :: "'l queue \<Rightarrow> span option" where
  "playing_next q = (case checked_sub (length (q_next q)) 1 of
     None \<Rightarrow> None
   | Some l \<Rightarrow> Some (span_between (q_after q) (q_after q + l)))"

definition in_play_order :: "'l queue \<Rightarrow> 'l held list" where
  "in_play_order q =
     (let at = min (q_after q) (length (q_order q))
      in take at (q_order q) @ q_next q @ drop at (q_order q))"

definition waiting :: "'l queue \<Rightarrow> 'l held list" where
  "waiting q = (case q_seat q of
     SeatNext \<Rightarrow> drop 1 (q_next q)
   | Nowhere \<Rightarrow> q_next q
   | SeatInOrder \<Rightarrow> q_next q)"

definition flagged :: "'l queue \<Rightarrow> ('l held \<times> waits) list" where
  "flagged q =
     (let after = min (q_after q) (length (q_order q))
      in map (\<lambda>h. (h, WaitsInOrder)) (take after (q_order q))
         @ map (\<lambda>h. (h, WaitsNext)) (q_next q)
         @ map (\<lambda>h. (h, WaitsInOrder)) (drop after (q_order q)))"

definition row_at :: "nat \<Rightarrow> 'l queue \<Rightarrow> row option" where
  "row_at drawn q =
     (if drawn < q_after q then Some (RowInOrder drawn)
      else
        let past = drawn - q_after q
        in if past < length (q_next q) then Some (RowNext past)
           else
             let at = drawn - length (q_next q)
             in if at < length (q_order q) then Some (RowInOrder at) else None)"

definition drawn_at :: "row \<Rightarrow> 'l queue \<Rightarrow> nat" where
  "drawn_at r q = (case r of
     RowInOrder at \<Rightarrow> (if at < q_after q then at else at + length (q_next q))
   | RowNext at \<Rightarrow> q_after q + at)"

definition row_waits :: "row \<Rightarrow> waits" where
  "row_waits r = (case r of RowInOrder _ \<Rightarrow> WaitsInOrder | RowNext _ \<Rightarrow> WaitsNext)"

text \<open>The rows of a published queue, with the place each was loaded at.\<close>

definition in_load_order :: "'l held list \<Rightarrow> nat list" where
  "in_load_order rows =
     (let by_place = sort_key (\<lambda>row. case get rows row of None \<Rightarrow> 0 | Some h \<Rightarrow> place h) [0..<length rows]
      in fold (\<lambda>(at, row) loaded. loaded[row := at]) (enumerate 0 by_place) (replicate (length rows) 0))"

definition queue_rows :: "'l row_hash \<Rightarrow> 'l queue_item list \<Rightarrow> 'l held list" where
  "queue_rows H items = map (\<lambda>(p, i). held_at H p i) (enumerate 0 items)"

record 'l listing =
  l_shuffled :: bool
  l_unshuffled :: "'l standing"
  l_waiting :: "'l held list"
  l_last_heard :: "nat option"

record 'l queued =
  qd_revision :: u64
  qd_rows_revision :: u64
  qd_rows :: "'l held list"
  qd_next :: "span option"
  qd_stamp :: u64
  qd_listing :: "'l listing"

definition published :: "'l queue \<Rightarrow> 'l queued" where
  "published q = \<lparr>qd_revision = q_revision q, qd_rows_revision = q_rows_revision q,
     qd_rows = in_play_order q, qd_next = playing_next q, qd_stamp = q_stamp q,
     qd_listing = \<lparr>l_shuffled = q_shuffle q, l_unshuffled = q_unshuffled q,
       l_waiting = q_next q, l_last_heard = map_option place (last_heard q)\<rparr>\<rparr>"

fun unlisted_once :: "nat set \<Rightarrow> 'l held list \<Rightarrow> 'l held list" where
  "unlisted_once unlisted [] = []"
| "unlisted_once unlisted (h # hs) =
     (if place h \<in> unlisted then h # unlisted_once (unlisted - {place h}) hs
      else unlisted_once unlisted hs)"

definition qd_listed :: "'l queued \<Rightarrow> 'l held list option" where
  "qd_listed p =
     (let listing = qd_listing p
      in if \<not> l_shuffled listing then None
         else
           let unlisted = set (places_of (qd_rows p));
               (heard_rows, to_come) = st_around (l_last_heard listing) (l_unshuffled listing);
               listed = unlisted_once unlisted (heard_rows @ l_waiting listing @ to_come)
           in if length listed = length (qd_rows p) then Some listed else None)"

definition in_list_order :: "'l queued \<Rightarrow> 'l queue_item list" where
  "in_list_order p = (case qd_listed p of
     Some listed \<Rightarrow> map item listed
   | None \<Rightarrow> map item (qd_rows p))"

subsection \<open>The bookkeeping every change of the rows does\<close>

definition rows_moved :: "'l queue \<Rightarrow> 'l queue" where
  "rows_moved q = q\<lparr>q_revision := q_revision q + 1, q_rows_revision := q_rows_revision q + 1\<rparr>"

definition stamp_afresh :: "'l queue \<Rightarrow> 'l queue" where
  "stamp_afresh q = q\<lparr>q_playing_from := stamped (q_order q),
     q_stamp := fold (\<lambda>h s. stamp_with s (stamp h)) (q_next q) (stamped (q_order q))\<rparr>"

definition hold :: "'l row_hash \<Rightarrow> 'l queue_item \<Rightarrow> 'l queue \<Rightarrow> 'l held \<times> 'l queue" where
  "hold H i q = (held_at H (q_places q) i, q\<lparr>q_places := q_places q + 1\<rparr>)"

fun hold_all :: "'l row_hash \<Rightarrow> 'l queue_item list \<Rightarrow> 'l queue \<Rightarrow> 'l held list \<times> 'l queue" where
  "hold_all H [] q = ([], q)"
| "hold_all H (i # is) q =
     (let (h, q1) = hold H i q; (hs, q2) = hold_all H is q1 in (h # hs, q2))"

definition joined :: "waits \<Rightarrow> 'l held \<Rightarrow> 'l queue \<Rightarrow> 'l queue" where
  "joined w h q =
     (let q = q\<lparr>q_stamp := stamp_with (q_stamp q) (stamp h)\<rparr>
      in if w = WaitsInOrder then q\<lparr>q_playing_from := stamp_with (q_playing_from q) (stamp h)\<rparr> else q)"

definition left :: "waits \<Rightarrow> 'l held \<Rightarrow> 'l queue \<Rightarrow> 'l queue" where
  "left w h q =
     (let q = q\<lparr>q_ids := release (item_id (item h)) (q_ids q),
                q_stamp := stamp_without (q_stamp q) (stamp h)\<rparr>
      in if w = WaitsInOrder then q\<lparr>q_playing_from := stamp_without (q_playing_from q) (stamp h)\<rparr> else q)"

definition standing_of :: "'l held list \<Rightarrow> 'l queue \<Rightarrow> 'l standing" where
  "standing_of hs q = (if q_shuffle q then st_of hs else st_empty)"

definition seat_after :: "nat \<Rightarrow> 'l queue \<Rightarrow> 'l queue" where
  "seat_after after q =
     (if after \<noteq> q_after q \<and> q_next q \<noteq> [] then q\<lparr>q_revision := q_revision q + 1, q_after := after\<rparr>
      else q\<lparr>q_after := after\<rparr>)"

definition let_go_of_what_was_heard :: "'l queue \<Rightarrow> nat option \<times> 'l queue" where
  "let_go_of_what_was_heard q = (case q_next q of
     [] \<Rightarrow> (None, q)
   | h # rest \<Rightarrow> (Some (place h), rows_moved (left WaitsNext h (q\<lparr>q_next := rest\<rparr>))))"

subsection \<open>Shuffling\<close>

fun reshuffle_from :: "nat \<Rightarrow> 'l held list \<Rightarrow> u64 \<Rightarrow> 'l held list \<times> u64" where
  "reshuffle_from remaining order s =
     (if remaining > 1
      then
        let (pick, s') = next_below remaining s
        in reshuffle_from (remaining - 1) (vec_swap pick (remaining - 1) order) s'
      else (order, s))"

declare reshuffle_from.simps [simp del]

definition reshuffle :: "'l queue \<Rightarrow> 'l queue" where
  "reshuffle q =
     (let (order, s) = reshuffle_from (length (q_order q)) (q_order q) (q_shuffler q)
      in q\<lparr>q_revision := q_revision q + 1, q_order := order, q_shuffler := s\<rparr>)"

definition reshuffle_keeping :: "nat \<Rightarrow> 'l queue \<Rightarrow> 'l queue" where
  "reshuffle_keeping playing q =
     (let q = reshuffle q;
          q = (case position (\<lambda>h. place h = playing) (q_order q) of
                 Some at \<Rightarrow> q\<lparr>q_order := vec_swap 0 at (q_order q)\<rparr>
               | None \<Rightarrow> q)
      in q\<lparr>q_after := 1\<rparr>)"

definition reshuffle_after_a_pass :: "'l queue \<Rightarrow> 'l queue" where
  "reshuffle_after_a_pass q =
     (let last_place = map_option place (back_of (q_order q));
          q = reshuffle q;
          later = length (q_order q) - 1
      in if later = 0 \<or> map_option place (front_of (q_order q)) \<noteq> last_place then q
         else
           let (n, s) = next_below later (q_shuffler q)
           in q\<lparr>q_shuffler := s, q_order := vec_swap 0 (1 + n) (q_order q)\<rparr>)"

definition wrap_to_the_start :: "'l queue \<Rightarrow> 'l queue" where
  "wrap_to_the_start q =
     (let q = (if q_shuffle q then reshuffle_after_a_pass q else q)
      in q\<lparr>q_after := 1, q_seat := SeatInOrder\<rparr>)"

definition set_shuffle :: "bool \<Rightarrow> 'l queue \<Rightarrow> 'l queue" where
  "set_shuffle shuffled q =
     (if q_shuffle q = shuffled then q
      else
        let q = q\<lparr>q_shuffle := shuffled\<rparr>;
            heard_last = map_option place (last_heard q)
        in if shuffled then
             let q = q\<lparr>q_unshuffled := st_of (q_order q)\<rparr>
             in (case (q_seat q, heard_last) of
                   (SeatInOrder, Some p) \<Rightarrow> reshuffle_keeping p q
                 | (SeatNext, Some p) \<Rightarrow> reshuffle_keeping p q
                 | _ \<Rightarrow> reshuffle q)
           else
             let q = q\<lparr>q_order := st_iter (q_unshuffled q), q_unshuffled := st_empty\<rparr>;
                 after = (case (q_seat q, heard_last) of
                   (Nowhere, _) \<Rightarrow> length (q_order q)
                 | (_, Some p) \<Rightarrow> (case position (\<lambda>h. place h = p) (q_order q) of None \<Rightarrow> 0 | Some at \<Rightarrow> at + 1)
                 | (_, None) \<Rightarrow> 0)
             in q\<lparr>q_after := after, q_revision := q_revision q + 1\<rparr>)"

definition set_repeat :: "repeat_mode \<Rightarrow> 'l queue \<Rightarrow> 'l queue" where
  "set_repeat r q = q\<lparr>q_repeat := r\<rparr>"

subsection \<open>Loading and resuming\<close>

definition load :: "'l row_hash \<Rightarrow> 'l queue_item list \<Rightarrow> nat \<Rightarrow> 'l queue \<Rightarrow> nat option \<times> 'l queue" where
  "load H items start_at q =
     (let kept = map item (waiting q);
          (loaded, minting) = one_id_each items (beside kept);
          count = length loaded;
          q = q\<lparr>q_places := 0\<rparr>;
          (order, q) = hold_all H loaded q;
          (next_rows, q) = hold_all H kept q;
          q = q\<lparr>q_ids := minting, q_unshuffled := standing_of order q, q_order := order, q_next := next_rows\<rparr>;
          q = rows_moved (stamp_afresh q)
      in case checked_sub count 1 of
           None \<Rightarrow>
             let q = q\<lparr>q_after := 0, q_seat := if q_next q = [] then Nowhere else SeatNext\<rparr>
             in (heard_place q, q)
         | Some l \<Rightarrow>
             let start = min start_at l;
                 q = (if q_shuffle q then reshuffle_keeping start q else q\<lparr>q_after := start + 1\<rparr>);
                 q = q\<lparr>q_seat := SeatInOrder\<rparr>
             in (heard_place q, q))"

fun restored_rows :: "'l row_hash \<Rightarrow> 'l resumable list \<Rightarrow> unclaimed \<Rightarrow> 'l queue \<Rightarrow> 'l held list \<times> unclaimed \<times> 'l queue" where
  "restored_rows H [] minting q = ([], minting, q)"
| "restored_rows H (r # rs) minting q =
     (let (claimed, minting) = (case res_held r of None \<Rightarrow> (None, minting) | Some i \<Rightarrow> claim i minting);
          (i, minting) = (case claimed of Some i \<Rightarrow> (i, minting) | None \<Rightarrow> mint minting);
          (h, q) = hold H \<lparr>item_id = i, location = res_location r, item_span = res_span r\<rparr> q;
          (hs, minting, q) = restored_rows H rs minting q
      in (h # hs, minting, q))"

definition restored_split :: "nat list \<Rightarrow> span option \<Rightarrow> nat \<Rightarrow> nat list \<times> nat list \<times> nat \<times> seat" where
  "restored_split drawn next_span r =
     (if drawn = [] then ([], [], 0, Nowhere)
      else case next_span of
        None \<Rightarrow> (drawn, [], r + 1, SeatInOrder)
      | Some n \<Rightarrow>
          (if span_holds n r then
             let rest = span_last n + 1
             in (take r drawn @ drop rest drawn, drop r (take rest drawn), r, SeatNext)
           else
             (take (span_first n) drawn @ drop (span_last n + 1) drawn,
              drop (span_first n) (take (span_last n + 1) drawn),
              (if r < span_first n then r else r - span_rows n) + 1, SeatInOrder)))"

definition rows_named :: "'a list \<Rightarrow> nat list \<Rightarrow> 'a list" where
  "rows_named rows loaded = List.map_filter (get rows) loaded"

definition restore :: "'l row_hash \<Rightarrow> 'l resumption \<Rightarrow> 'l queue \<Rightarrow> nat option \<times> 'l queue" where
  "restore H res q =
     (let r = res_landing res;
          shuffled = res_shuffle res;
          drawn = res_in_play_order res;
          next_span = (case res_next res of
             Some n \<Rightarrow> if span_last n < length drawn then Some n else None
           | None \<Rightarrow> None);
          q = q\<lparr>q_places := 0\<rparr>;
          (rows, minting, q) = restored_rows H (res_rows res) (beside ([] :: 'l queue_item list)) q;
          q = q\<lparr>q_ids := minting, q_shuffle := shuffled\<rparr>;
          (order, waiting_rows, after, seated) = restored_split drawn next_span r;
          q = q\<lparr>q_unshuffled := if shuffled then st_of (rows_named rows (sort order)) else st_empty\<rparr>;
          q = q\<lparr>q_order := rows_named rows order, q_next := rows_named rows waiting_rows,
                q_after := after, q_seat := seated\<rparr>;
          q = rows_moved (stamp_afresh q)
      in (heard_place q, q))"

subsection \<open>Playing on\<close>

record reckoning =
  rk_seat :: seat
  rk_after :: nat
  rk_let_go :: nat

definition advanced_from :: "reckoning \<Rightarrow> 'l queue \<Rightarrow> reckoning option" where
  "advanced_from rk q =
     (if rk_seat rk = Nowhere then None
      else
        let let_go = (if rk_seat rk = SeatNext then rk_let_go rk + 1 else rk_let_go rk)
        in if length (q_next q) > let_go then Some (rk\<lparr>rk_seat := SeatNext, rk_let_go := let_go\<rparr>)
           else if rk_after rk < length (q_order q) then
             Some \<lparr>rk_seat = SeatInOrder, rk_after = rk_after rk + 1, rk_let_go = let_go\<rparr>
           else if q_repeat q = RepeatQueue \<and> \<not> q_shuffle q \<and> q_order q \<noteq> [] then
             Some \<lparr>rk_seat = SeatInOrder, rk_after = 1, rk_let_go = let_go\<rparr>
           else None)"

fun advanced_by :: "nat \<Rightarrow> reckoning \<Rightarrow> 'l queue \<Rightarrow> reckoning option" where
  "advanced_by 0 rk q = Some rk"
| "advanced_by (Suc n) rk q = (case advanced_from rk q of None \<Rightarrow> None | Some rk' \<Rightarrow> advanced_by n rk' q)"

definition reckoned_after :: "nat \<Rightarrow> 'l queue \<Rightarrow> reckoning option" where
  "reckoned_after rows_ahead q =
     (let rk = \<lparr>rk_seat = q_seat q, rk_after = q_after q, rk_let_go = 0\<rparr>
      in if q_repeat q = RepeatTrack then Some rk else advanced_by rows_ahead rk q)"

definition waiting_at :: "reckoning \<Rightarrow> 'l queue \<Rightarrow> nat" where
  "waiting_at rk q = length (q_next q) - rk_let_go rk - (if rk_seat rk = SeatNext then 1 else 0)"

definition is_last_after :: "nat \<Rightarrow> 'l queue \<Rightarrow> bool" where
  "is_last_after rows_ahead q = (case reckoned_after rows_ahead q of
     None \<Rightarrow> False
   | Some rk \<Rightarrow> rk_seat rk \<noteq> Nowhere \<and> waiting_at rk q = 0 \<and> rk_after rk \<ge> length (q_order q))"

definition wraps_next_after :: "nat \<Rightarrow> 'l queue \<Rightarrow> bool" where
  "wraps_next_after rows_ahead q \<longleftrightarrow> q_repeat q = RepeatQueue \<and> is_last_after rows_ahead q"

definition wraps_next :: "'l queue \<Rightarrow> bool" where
  "wraps_next q = wraps_next_after 0 q"

definition ends_with_the_row_after :: "nat \<Rightarrow> 'l queue \<Rightarrow> bool" where
  "ends_with_the_row_after rows_ahead q \<longleftrightarrow> q_repeat q = RepeatOff \<and> is_last_after rows_ahead q"

definition ends_with_this_row :: "'l queue \<Rightarrow> bool" where
  "ends_with_this_row q = ends_with_the_row_after 0 q"

definition hand_on :: "'l queue \<Rightarrow> 'l queue" where
  "hand_on q =
     (if q_next q \<noteq> [] then q\<lparr>q_seat := SeatNext\<rparr>
      else if q_after q < length (q_order q) then q\<lparr>q_after := q_after q + 1, q_seat := SeatInOrder\<rparr>
      else if q_repeat q = RepeatQueue \<and> q_order q \<noteq> [] then wrap_to_the_start q
      else q\<lparr>q_seat := Nowhere\<rparr>)"

definition advance :: "bool \<Rightarrow> 'l queue \<Rightarrow> nat option \<times> 'l queue" where
  "advance natural q =
     (if q_seat q = Nowhere then (None, q)
      else if natural \<and> q_repeat q = RepeatTrack then (heard_place q, q)
      else
        let q = (if q_seat q = SeatNext then snd (let_go_of_what_was_heard q) else q);
            q = (if q_next q \<noteq> [] then q\<lparr>q_seat := SeatNext\<rparr>
                 else if q_after q < length (q_order q) then
                   q\<lparr>q_after := q_after q + 1, q_seat := SeatInOrder\<rparr>
                 else if q_repeat q = RepeatQueue \<and> q_order q \<noteq> [] then wrap_to_the_start q
                 else q\<lparr>q_seat := Nowhere\<rparr>)
        in (heard_place q, q))"

definition follows_naturally_after :: "nat \<Rightarrow> 'l queue \<Rightarrow> 'l queue_item option" where
  "follows_naturally_after rows_ahead q =
     (if q_seat q = Nowhere then None
      else if q_repeat q = RepeatTrack then current q
      else case reckoned_after rows_ahead q of
        None \<Rightarrow> None
      | Some rk \<Rightarrow>
          let waits = (if rk_seat rk = SeatNext then get (q_next q) (rk_let_go rk + 1)
                       else get (q_next q) (rk_let_go rk));
              h = (case waits of
                     Some h \<Rightarrow> Some h
                   | None \<Rightarrow> (case get (q_order q) (rk_after rk) of
                       Some h \<Rightarrow> Some h
                     | None \<Rightarrow> if q_repeat q = RepeatQueue \<and> \<not> q_shuffle q then front_of (q_order q) else None))
          in map_option item h)"

definition retreat :: "'l queue \<Rightarrow> nat option \<times> 'l queue" where
  "retreat q = (case q_seat q of
     Nowhere \<Rightarrow> (None, q)
   | SeatNext \<Rightarrow>
       (let q = (if q_after q > 0 then q\<lparr>q_seat := SeatInOrder\<rparr>
                 else if q_repeat q = RepeatQueue \<and> q_order q \<noteq> [] then
                   (seat_after (length (q_order q)) q)\<lparr>q_seat := SeatInOrder\<rparr>
                 else q)
        in (heard_place q, q))
   | SeatInOrder \<Rightarrow>
       (let q = (if q_after q > 1 then seat_after (q_after q - 1) q
                 else if q_repeat q = RepeatQueue then seat_after (length (q_order q)) q
                 else q)
        in (heard_place q, q)))"

definition jump_to :: "nat \<Rightarrow> 'l queue \<Rightarrow> nat option \<times> 'l queue" where
  "jump_to at q = (case row_at at q of
     None \<Rightarrow> (None, q)
   | Some (RowNext w) \<Rightarrow>
       (if w = 0 \<and> q_seat q = SeatNext then (heard_place q, q)
        else
          let (wanted, q) =
                (if q_seat q = SeatNext then
                   (let (gone, q) = let_go_of_what_was_heard q
                    in if gone \<noteq> None then (w - 1, q) else (w, q))
                 else (w, q))
          in if wanted \<ge> length (q_next q) then (None, q)
             else
               let h = q_next q ! wanted;
                   q = q\<lparr>q_next := h # vec_remove wanted (q_next q), q_seat := SeatNext,
                         q_revision := q_revision q + 1\<rparr>
               in (heard_place q, q))
   | Some (RowInOrder i) \<Rightarrow>
       (let q = (if q_seat q = SeatNext then snd (let_go_of_what_was_heard q) else q);
            q = (seat_after (i + 1) q)\<lparr>q_seat := SeatInOrder\<rparr>
        in (heard_place q, q)))"

subsection \<open>Rows that arrive\<close>

definition landing :: "placement \<Rightarrow> 'l queue \<Rightarrow> row" where
  "landing at q = (case cursor q of
     None \<Rightarrow>
       (let e = length (q_order q)
        in RowInOrder (case at of PlaceAt r \<Rightarrow> min r e | PlaceNext \<Rightarrow> e | PlaceQueued \<Rightarrow> e))
   | Some playing \<Rightarrow>
       (case at of
          PlaceNext \<Rightarrow> RowNext (if q_seat q = SeatNext then 1 else 0)
        | PlaceQueued \<Rightarrow> RowNext (length (q_next q))
        | PlaceAt r \<Rightarrow>
            (if r \<le> playing then RowInOrder r
             else if r \<le> q_after q + length (q_next q) then RowNext (r - q_after q)
             else RowInOrder (min (r - length (q_next q)) (length (q_order q))))))"

definition unshuffled_anchor :: "nat \<Rightarrow> 'l queue \<Rightarrow> anchor" where
  "unshuffled_anchor at q = (case checked_sub at 1 of
     None \<Rightarrow> Front
   | Some before \<Rightarrow>
       (if at \<ge> length (q_order q) then Back
        else (case get (q_order q) before of None \<Rightarrow> Back | Some h \<Rightarrow> After (place h))))"

definition land_in_order :: "nat \<Rightarrow> 'l held list \<Rightarrow> bool \<Rightarrow> 'l queue \<Rightarrow> 'l queue" where
  "land_in_order at landed before_the_queued q =
     (let count = length landed;
          q = (if q_shuffle q
               then q\<lparr>q_unshuffled := st_insert (unshuffled_anchor at q) landed (q_unshuffled q)\<rparr>
               else q);
          q = q\<lparr>q_order := vec_splice at landed (q_order q)\<rparr>
      in case q_seat q of
           Nowhere \<Rightarrow> q\<lparr>q_after := at + 1, q_seat := SeatInOrder\<rparr>
         | SeatInOrder \<Rightarrow> (if at < q_after q then q\<lparr>q_after := q_after q + count\<rparr> else q)
         | SeatNext \<Rightarrow>
             (if at < q_after q \<or> (at = q_after q \<and> before_the_queued)
              then q\<lparr>q_after := q_after q + count\<rparr> else q))"

definition insert_rows :: "'l row_hash \<Rightarrow> 'l queue_item list \<Rightarrow> placement \<Rightarrow> 'l queue \<Rightarrow> nat option \<times> 'l queue" where
  "insert_rows H items at q =
     (if items = [] then (None, q)
      else
        let (arrived, ids) = one_id_each items (q_ids q);
            q = q\<lparr>q_ids := ids\<rparr>;
            r = landing at q;
            before_the_queued = (q_seat q = SeatNext \<and>
              (case at of
                 PlaceAt a \<Rightarrow> (case cursor q of Some playing \<Rightarrow> a \<le> playing | None \<Rightarrow> False)
               | PlaceNext \<Rightarrow> False
               | PlaceQueued \<Rightarrow> False));
            (landed, q) = hold_all H arrived q;
            q = fold (joined (row_waits r)) landed q;
            q = (case r of
                   RowNext i \<Rightarrow> q\<lparr>q_next := vec_splice i landed (q_next q)\<rparr>
                 | RowInOrder i \<Rightarrow> land_in_order i landed before_the_queued q);
            q = rows_moved q
        in (Some (drawn_at r q), q))"

definition insert_to_hear :: "'l row_hash \<Rightarrow> 'l queue_item list \<Rightarrow> placement \<Rightarrow> 'l queue \<Rightarrow> nat option \<times> 'l queue" where
  "insert_to_hear H items at q =
     (let run_first = q_places q;
          in_run = (\<lambda>p. run_first \<le> p \<and> p < run_first + length items)
      in case insert_rows H items at q of
           (None, q) \<Rightarrow> (None, q)
         | (Some r, q) \<Rightarrow>
             let (h, q) = jump_to r q
             in (case (q_seat q, map_option place (front_of (q_next q))) of
                   (SeatNext, Some hd_place) \<Rightarrow>
                     let rest = filter (\<lambda>h. in_run (place h)) (drop 1 (q_next q));
                         kept = filter (\<lambda>h. place h = hd_place \<or> \<not> in_run (place h)) (q_next q)
                     in (h, q\<lparr>q_next := vec_splice 1 rest kept, q_revision := q_revision q + 1\<rparr>)
                 | _ \<Rightarrow> (h, q)))"

subsection \<open>Rows that leave\<close>

definition rows_in :: "span list \<Rightarrow> 'l queue \<Rightarrow> row list" where
  "rows_in runs q = List.map_filter (\<lambda>r. row_at r q) (concat (map span_range runs))"

definition positions_of :: "(row \<Rightarrow> nat option) \<Rightarrow> row list \<Rightarrow> nat list" where
  "positions_of pick rs = remdups (sort (List.map_filter pick rs))"

definition order_position :: "row \<Rightarrow> nat option" where
  "order_position r = (case r of RowInOrder at \<Rightarrow> Some at | RowNext _ \<Rightarrow> None)"

definition next_position :: "row \<Rightarrow> nat option" where
  "next_position r = (case r of RowInOrder _ \<Rightarrow> None | RowNext at \<Rightarrow> Some at)"

definition drop_from_order :: "nat \<Rightarrow> nat list \<times> 'l queue \<Rightarrow> nat list \<times> 'l queue" where
  "drop_from_order at s =
     (let (dropped, q) = s; h = q_order q ! at
      in (place h # dropped, left WaitsInOrder h (q\<lparr>q_order := vec_remove at (q_order q)\<rparr>)))"

definition drop_from_next :: "nat \<Rightarrow> nat list \<times> 'l queue \<Rightarrow> nat list \<times> 'l queue" where
  "drop_from_next at s =
     (let (dropped, q) = s; h = q_next q ! at
      in (place h # dropped, left WaitsNext h (q\<lparr>q_next := vec_remove at (q_next q)\<rparr>)))"

definition remove_all :: "span list \<Rightarrow> 'l queue \<Rightarrow> (span + removal) \<times> 'l queue" where
  "remove_all runs q =
     (case find (\<lambda>rows. span_last rows \<ge> q_len q) runs of
        Some outside \<Rightarrow> (Inl outside, q)
      | None \<Rightarrow>
          let heard_at = heard_place q;
              from_order = positions_of order_position (rows_in runs q);
              from_next = positions_of next_position (rows_in runs q);
              heard_before = length (filter (\<lambda>at. at < q_after q) from_order);
              (dropped, q) = fold drop_from_order (rev from_order) ([], q);
              (dropped, q) = fold drop_from_next (rev from_next) (dropped, q);
              q = q\<lparr>q_unshuffled := fold st_remove dropped (q_unshuffled q)\<rparr>;
              q = rows_moved (q\<lparr>q_after := q_after q - heard_before\<rparr>)
          in if (case heard_at of Some p \<Rightarrow> p \<in> set dropped | None \<Rightarrow> False)
             then (Inr Playing, hand_on q)
             else (Inr Queued, q))"

definition remove_rows :: "span \<Rightarrow> 'l queue \<Rightarrow> removal option \<times> 'l queue" where
  "remove_rows rows q =
     (case remove_all [rows] q of (Inl _, q) \<Rightarrow> (None, q) | (Inr r, q) \<Rightarrow> (Some r, q))"

subsection \<open>Rows that move\<close>

text \<open>\<open>slice\<close> of a vector: what is left, and the run taken out.\<close>

definition vec_slice :: "nat \<times> nat \<Rightarrow> 'a list \<Rightarrow> 'a list \<times> 'a list" where
  "vec_slice r xs = (take (fst r) xs @ drop (snd r) xs, drop (fst r) (take (snd r) xs))"

definition clamp :: "nat \<Rightarrow> nat \<Rightarrow> nat \<Rightarrow> nat" where
  "clamp n lo hi = (if n < lo then lo else if n > hi then hi else n)"

record 'l lifted =
  lf_passed :: "'l held list"
  lf_queued :: "'l held list"
  lf_upcoming :: "'l held list"
  lf_kept_passed :: nat

definition carries :: "'l lifted \<Rightarrow> nat \<Rightarrow> bool" where
  "carries lf p \<longleftrightarrow>
     (case back_of (lf_passed lf) of Some h \<Rightarrow> place h = p | None \<Rightarrow> False) \<or>
     (case front_of (lf_queued lf) of Some h \<Rightarrow> place h = p | None \<Rightarrow> False)"

definition lift :: "span \<Rightarrow> 'l queue \<Rightarrow> 'l lifted \<times> 'l queue" where
  "lift rows q =
     (let passed = min (q_after q) (length (q_order q));
          queued = length (q_next q);
          e = length (q_order q) + queued;
          within = (\<lambda>from to offset.
            (clamp (span_first rows) from to - offset, clamp (span_last rows + 1) from to - offset));
          (order1, upcoming) = vec_slice (within (passed + queued) e queued) (q_order q);
          (order2, lifted_passed) = vec_slice (within 0 passed 0) order1;
          (next', lifted_queued) = vec_slice (within passed (passed + queued) passed) (q_next q)
      in (\<lparr>lf_passed = lifted_passed, lf_queued = lifted_queued, lf_upcoming = upcoming,
           lf_kept_passed = passed - length lifted_passed\<rparr>,
          q\<lparr>q_order := order2, q_next := next'\<rparr>))"

definition waits_beside :: "nat \<Rightarrow> 'l lifted \<Rightarrow> nat option \<Rightarrow> 'l queue \<Rightarrow> waits" where
  "waits_beside to lf heard_at q = (case checked_sub to 1 of
     None \<Rightarrow> WaitsInOrder
   | Some before \<Rightarrow>
       (let kept_queued = length (q_next q);
            beside_it = (\<lambda>h. case h of
              Some k \<Rightarrow> (if Some (place k) = heard_at then WaitsNext else WaitsInOrder)
            | None \<Rightarrow> WaitsInOrder)
        in if before < lf_kept_passed lf then beside_it (get (q_order q) before)
           else if before < lf_kept_passed lf + kept_queued then WaitsNext
           else beside_it (get (q_order q) (before - kept_queued))))"

definition after_before :: "nat \<Rightarrow> 'l held list \<Rightarrow> anchor" where
  "after_before at order = (case checked_sub at 1 of
     None \<Rightarrow> Front
   | Some before \<Rightarrow> (case get order before of None \<Rightarrow> Front | Some h \<Rightarrow> After (place h)))"

fun unshuffled_from :: "'l held list \<Rightarrow> nat list \<Rightarrow> anchor \<Rightarrow> 'l held list \<Rightarrow> 'l standing \<Rightarrow> 'l standing" where
  "unshuffled_from order [] anc absent s = st_insert anc absent s"
| "unshuffled_from order (at # ats) anc absent s = (case get order at of
     None \<Rightarrow> st_insert anc absent s
   | Some h \<Rightarrow>
       (if st_contains (place h) s then unshuffled_from order ats anc [] (st_insert anc absent s)
        else if Some at = checked_sub (length order) 1 then
          unshuffled_from order ats anc []
            (st_insert (if at = 0 then Front else Back) [h] (st_insert anc absent s))
        else
          unshuffled_from order ats (if absent = [] then after_before at order else anc)
            (absent @ [h]) s))"

definition unshuffled_in :: "'l held list \<Rightarrow> nat \<Rightarrow> nat \<Rightarrow> 'l queue \<Rightarrow> 'l queue" where
  "unshuffled_in order from to q =
     q\<lparr>q_unshuffled := unshuffled_from order [from..<to] Front [] (q_unshuffled q)\<rparr>"

definition unshuffle_moved :: "nat \<Rightarrow> 'l held list \<Rightarrow> 'l held list \<Rightarrow> 'l queue \<Rightarrow> 'l queue" where
  "unshuffle_moved order_at into_order into_next q =
     unshuffled_in (q_order q) order_at (order_at + length into_order)
       (q\<lparr>q_unshuffled := fold (\<lambda>h. st_remove (place h)) into_next (q_unshuffled q)\<rparr>)"

definition unshuffle_alongside :: "'l held list \<Rightarrow> 'l held list \<Rightarrow> 'l queue \<Rightarrow> 'l queue" where
  "unshuffle_alongside order next_rows q =
     unshuffled_in order 0 (length order)
       (q\<lparr>q_unshuffled := fold (\<lambda>h. st_remove (place h)) next_rows (q_unshuffled q)\<rparr>)"

text \<open>
  \<open>move_rows\<close> after its checks: the lifted rows put down where the move lands, with what changes
  for those that cross between the order and the rows that wait.
\<close>

definition put_lifted :: "nat \<Rightarrow> nat option \<Rightarrow> 'l lifted \<Rightarrow> 'l queue \<Rightarrow> 'l queue" where
  "put_lifted at heard_at lf q =
   (let carried = (case heard_at of Some p \<Rightarrow> carries lf p | None \<Rightarrow> False);
      waits = (if carried then None else Some (waits_beside at lf heard_at q));
      kept_passed = lf_kept_passed lf;
      kept_queued = length (q_next q);
      passed_len = length (lf_passed lf);
      into_order = (case waits of
          Some WaitsNext \<Rightarrow> 0
        | Some WaitsInOrder \<Rightarrow> passed_len + length (lf_queued lf) + length (lf_upcoming lf)
        | None \<Rightarrow> passed_len + length (lf_upcoming lf));
      crosses = (case waits of
          Some WaitsNext \<Rightarrow> passed_len + length (lf_upcoming lf) > 0
        | Some WaitsInOrder \<Rightarrow> lf_queued lf \<noteq> []
        | None \<Rightarrow> False);
      q = (case waits of
          Some WaitsNext \<Rightarrow>
            fold (\<lambda>h q. q\<lparr>q_playing_from := stamp_without (q_playing_from q) (stamp h)\<rparr>)
              (lf_passed lf @ lf_upcoming lf) q
        | Some WaitsInOrder \<Rightarrow>
            fold (\<lambda>h q. q\<lparr>q_playing_from := stamp_with (q_playing_from q) (stamp h)\<rparr>)
              (lf_queued lf) q
        | None \<Rightarrow> q);
      order_at = (if at \<le> kept_passed then at
                  else if at \<le> kept_passed + kept_queued then kept_passed
                  else at - kept_queued);
      next_at = min (at - kept_passed) kept_queued;
      after = (case heard_at of
          None \<Rightarrow> length (q_order q) + into_order
        | Some _ \<Rightarrow>
            (if carried then order_at + passed_len
             else if q_seat q = SeatNext then
               kept_passed + (if at \<le> kept_passed then into_order else 0)
             else kept_passed + (if order_at < kept_passed then into_order else 0)));
      (order_run, next_run) = (case waits of
          None \<Rightarrow> (lf_passed lf @ lf_upcoming lf, lf_queued lf)
        | Some WaitsInOrder \<Rightarrow> (lf_passed lf @ lf_queued lf @ lf_upcoming lf, [])
        | Some WaitsNext \<Rightarrow> ([], lf_passed lf @ lf_queued lf @ lf_upcoming lf));
      q = (if order_run \<noteq> [] then q\<lparr>q_order := vec_splice order_at order_run (q_order q)\<rparr> else q);
      q = (if next_run \<noteq> [] then q\<lparr>q_next := vec_splice next_at next_run (q_next q)\<rparr> else q);
      q = (if carried \<and> q_seat q = SeatNext \<and> next_at > 0
           then q\<lparr>q_next := (q_next q ! next_at) # vec_remove next_at (q_next q)\<rparr> else q);
      q = (if q_shuffle q \<and> crosses then unshuffle_moved order_at order_run next_run q else q)
   in q\<lparr>q_after := after, q_revision := q_revision q + 1\<rparr>)"

definition move_rows :: "span \<Rightarrow> nat \<Rightarrow> 'l queue \<Rightarrow> unit option \<times> 'l queue" where
  "move_rows rows to q =
     (case checked_sub (q_len q) 1 of
        None \<Rightarrow> (None, q)
      | Some l \<Rightarrow>
        if span_last rows > l \<or> to > l then (None, q)
        else if span_holds rows to then (Some (), q)
        else
          let heard_at = heard_place q;
              at = span_landing rows to;
              (lf, q) = lift rows q
          in (Some (), put_lifted at heard_at lf q))"

record 'l parting =
  pt_order :: "'l held list"
  pt_next :: "'l held list"
  pt_after :: "nat option"

definition part :: "seat \<Rightarrow> nat option \<Rightarrow> 'l held \<times> waits \<Rightarrow> 'l parting \<Rightarrow> 'l parting" where
  "part seated heard_at hw p =
     (let (h, w) = hw
      in if Some (place h) = heard_at then
           (if seated = SeatNext
            then p\<lparr>pt_after := Some (length (pt_order p)), pt_next := h # pt_next p\<rparr>
            else p\<lparr>pt_order := pt_order p @ [h], pt_after := Some (length (pt_order p) + 1)\<rparr>)
         else if w = WaitsNext then p\<lparr>pt_next := pt_next p @ [h]\<rparr>
         else p\<lparr>pt_order := pt_order p @ [h]\<rparr>)"

definition split_rows :: "('l held \<times> waits) list \<Rightarrow> nat option \<Rightarrow> 'l queue \<Rightarrow> 'l queue" where
  "split_rows drawn heard_at q =
     (let p = fold (part (q_seat q) heard_at) drawn \<lparr>pt_order = [], pt_next = [], pt_after = None\<rparr>;
          q = (if q_shuffle q then unshuffle_alongside (pt_order p) (pt_next p) q else q)
      in q\<lparr>q_after := (case pt_after p of Some a \<Rightarrow> a | None \<Rightarrow> length (pt_order p)),
           q_order := pt_order p, q_next := pt_next p, q_revision := q_revision q + 1,
           q_playing_from := stamped (pt_order p)\<rparr>)"

definition reorder :: "nat list \<Rightarrow> 'l queue \<Rightarrow> unit option \<times> 'l queue" where
  "reorder rows q =
     (if length rows \<noteq> q_len q then (None, q)
      else if \<not> names_once (replicate (length rows) False) rows then (None, q)
      else (Some (), split_rows (List.map_filter (get (flagged q)) rows) (heard_place q) q))"

definition relocated_in :: "('l \<times> 'l) list \<Rightarrow> 'l held list \<Rightarrow> bool" where
  "relocated_in moved hs = list_ex (\<lambda>h. landed_at moved (location (item h)) \<noteq> None) hs"

definition relocate :: "('l \<times> 'l) list \<Rightarrow> 'l queue \<Rightarrow> bool \<times> 'l queue" where
  "relocate moved q =
     (let relocated = (relocated_in moved (q_order q) \<or> relocated_in moved (q_next q));
          q = q\<lparr>q_order := map (relocate_held moved) (q_order q),
                q_next := map (relocate_held moved) (q_next q)\<rparr>
      in if \<not> relocated then (False, q)
         else (True, q\<lparr>q_unshuffled := st_relocate moved (q_unshuffled q),
                       q_revision := q_revision q + 1\<rparr>))"

end
