(* ===== verification/QueueInvariant.thy ===== *)
theory QueueInvariant
  imports PlayQueue
begin

text \<open>
  The invariant of the play queue, and that every operation of \<open>PlayQueue\<close> keeps it. The
  invariant is stated in parts, so that an operation which leaves a part alone says nothing of
  it: where the seat may be, that places and ids are each used once, that the shuffled order and
  the standing order hold the same rows, and that the running stamps are the sums they stand for.
\<close>

definition rows_of :: "'l queue \<Rightarrow> 'l held list" where
  "rows_of q = q_order q @ q_next q"

definition seat_ok :: "'l queue \<Rightarrow> bool" where
  "seat_ok q \<longleftrightarrow> q_after q \<le> length (q_order q) \<and>
     (case q_seat q of
        Nowhere \<Rightarrow> q_after q = length (q_order q) \<and> q_next q = []
      | SeatInOrder \<Rightarrow> 0 < q_after q
      | SeatNext \<Rightarrow> q_next q \<noteq> [])"

definition places_ok :: "'l queue \<Rightarrow> bool" where
  "places_ok q \<longleftrightarrow> distinct (places_of (rows_of q)) \<and> (\<forall>h\<in>set (rows_of q). place h < q_places q)"

definition ids_ok :: "'l queue \<Rightarrow> bool" where
  "ids_ok q \<longleftrightarrow> distinct (ids_of (rows_of q)) \<and> taken (q_ids q) = set (ids_of (rows_of q))"

definition stands_ok :: "'l queue \<Rightarrow> bool" where
  "stands_ok q \<longleftrightarrow> (if q_shuffle q
     then st_ok (q_unshuffled q) \<and> mset (st_iter (q_unshuffled q)) = mset (q_order q)
     else q_unshuffled q = st_empty)"

definition stamps_ok :: "'l queue \<Rightarrow> bool" where
  "stamps_ok q \<longleftrightarrow> q_stamp q = stamped (rows_of q) \<and> q_playing_from q = stamped (q_order q)"

definition fits :: "'l queue \<Rightarrow> bool" where
  "fits q \<longleftrightarrow> q_len q < u64_max"

definition queue_ok :: "'l queue \<Rightarrow> bool" where
  "queue_ok q \<longleftrightarrow> seat_ok q \<and> places_ok q \<and> ids_ok q \<and> stands_ok q \<and> stamps_ok q \<and> fits q"

lemmas queue_parts = seat_ok_def places_ok_def ids_ok_def stands_ok_def stamps_ok_def fits_def

lemma queue_okI:
  "seat_ok q \<Longrightarrow> places_ok q \<Longrightarrow> ids_ok q \<Longrightarrow> stands_ok q \<Longrightarrow> stamps_ok q \<Longrightarrow> fits q \<Longrightarrow> queue_ok q"
  by (simp add: queue_ok_def)

lemma queue_okD:
  assumes "queue_ok q"
  shows "seat_ok q" "places_ok q" "ids_ok q" "stands_ok q" "stamps_ok q" "fits q"
  using assms by (simp_all add: queue_ok_def)

text \<open>The same rows, in whatever order, with the same counters: places, ids and stamps agree.\<close>

definition same_rows :: "'l queue \<Rightarrow> 'l queue \<Rightarrow> bool" where
  "same_rows q q' \<longleftrightarrow> mset (rows_of q') = mset (rows_of q) \<and> q_places q' = q_places q \<and>
     q_ids q' = q_ids q \<and> q_stamp q' = q_stamp q"

lemma same_rows_refl [simp]: "same_rows q q"
  by (simp add: same_rows_def)

lemma same_rows_trans: "same_rows q r \<Longrightarrow> same_rows r s \<Longrightarrow> same_rows q s"
  by (simp add: same_rows_def)

lemma same_rows_keeps:
  assumes "same_rows q q'"
  shows "places_ok q \<Longrightarrow> places_ok q'" "ids_ok q \<Longrightarrow> ids_ok q'" "fits q \<Longrightarrow> fits q'"
    "q_stamp q = stamped (rows_of q) \<Longrightarrow> q_stamp q' = stamped (rows_of q')"
proof -
  have m: "mset (rows_of q') = mset (rows_of q)" using assms by (simp add: same_rows_def)
  have s: "set (rows_of q') = set (rows_of q)" using m by (metis set_mset_mset)
  have p: "mset (places_of (rows_of q')) = mset (places_of (rows_of q))" using m by simp
  have i: "mset (ids_of (rows_of q')) = mset (ids_of (rows_of q))" using m by simp
  show "places_ok q \<Longrightarrow> places_ok q'"
    using assms s distinct_mset_eq [OF p] by (simp add: places_ok_def same_rows_def)
  show "ids_ok q \<Longrightarrow> ids_ok q'"
    using assms s distinct_mset_eq [OF i] by (simp add: ids_ok_def same_rows_def)
  have "length (rows_of q') = length (rows_of q)" using m by (metis size_mset)
  then show "fits q \<Longrightarrow> fits q'" by (simp add: fits_def q_len_def rows_of_def)
  show "q_stamp q = stamped (rows_of q) \<Longrightarrow> q_stamp q' = stamped (rows_of q')"
    using assms stamped_mset [OF m] by (simp add: same_rows_def)
qed

lemma queue_ok_same_rows:
  assumes "queue_ok q" and "same_rows q q'" and "seat_ok q'" and "stands_ok q'"
    and "q_playing_from q' = stamped (q_order q')"
  shows "queue_ok q'"
  using assms same_rows_keeps [OF assms(2)] by (auto simp: queue_ok_def stamps_ok_def)

lemma queue_new_ok [simp]: "queue_ok (queue_new seed)"
  by (simp add: queue_ok_def queue_parts queue_new_def rows_of_def beside_def q_len_def u64_max_def)

text \<open>What the counters of revisions and the shuffler say has no part in the invariant.\<close>

lemma seat_ok_cong:
  "q_order q' = q_order q \<Longrightarrow> q_next q' = q_next q \<Longrightarrow> q_after q' = q_after q \<Longrightarrow> q_seat q' = q_seat q \<Longrightarrow>
     seat_ok q' = seat_ok q"
  by (simp add: seat_ok_def split: seat.split)

lemma rows_of_update [simp]:
  "rows_of (q\<lparr>q_revision := r\<rparr>) = rows_of q" "rows_of (q\<lparr>q_rows_revision := r\<rparr>) = rows_of q"
  "rows_of (q\<lparr>q_after := a\<rparr>) = rows_of q" "rows_of (q\<lparr>q_seat := st\<rparr>) = rows_of q"
  "rows_of (q\<lparr>q_shuffler := sh\<rparr>) = rows_of q" "rows_of (q\<lparr>q_repeat := rp\<rparr>) = rows_of q"
  "rows_of (q\<lparr>q_shuffle := b\<rparr>) = rows_of q" "rows_of (q\<lparr>q_unshuffled := u\<rparr>) = rows_of q"
  "rows_of (q\<lparr>q_ids := i\<rparr>) = rows_of q" "rows_of (q\<lparr>q_places := p\<rparr>) = rows_of q"
  "rows_of (q\<lparr>q_stamp := s\<rparr>) = rows_of q" "rows_of (q\<lparr>q_playing_from := s\<rparr>) = rows_of q"
  by (simp_all add: rows_of_def)

lemma seat_cases:
  assumes "seat_ok q"
  obtains (nowhere) "q_seat q = Nowhere" "q_after q = length (q_order q)" "q_next q = []" "heard q = None"
  | (in_order) a where "q_seat q = SeatInOrder" "q_after q = Suc a" "a < length (q_order q)"
      "heard q = Some (q_order q ! a)"
  | (queued) h hs where "q_seat q = SeatNext" "q_next q = h # hs" "q_after q \<le> length (q_order q)"
      "heard q = Some h"
proof (cases "q_seat q")
  case Nowhere
  then show thesis using assms by (intro nowhere) (simp_all add: seat_ok_def heard_def)
next
  case SeatInOrder
  then obtain a where "q_after q = Suc a" using assms by (cases "q_after q") (simp_all add: seat_ok_def)
  then show thesis using assms SeatInOrder
    by (intro in_order [of a]) (simp_all add: seat_ok_def heard_def last_heard_def checked_sub_def)
next
  case SeatNext
  then obtain h hs where "q_next q = h # hs" using assms by (cases "q_next q") (simp_all add: seat_ok_def)
  then show thesis using assms SeatNext by (intro queued) (simp_all add: seat_ok_def heard_def)
qed

lemma heard_in_rows: "heard q = Some h \<Longrightarrow> h \<in> set (rows_of q)"
  by (auto simp: heard_def last_heard_def rows_of_def front_of_def split: seat.splits option.splits dest: get_in_set)

subsection \<open>Shuffling keeps the rows\<close>

lemma reshuffle_from_mset:
  "remaining \<le> length order \<Longrightarrow> mset (fst (reshuffle_from remaining order s)) = mset order"
proof (induction remaining order s rule: reshuffle_from.induct)
  case (1 remaining order s)
  show ?case
  proof (cases "remaining > 1")
    case True
    obtain pick s' where ps: "next_below remaining s = (pick, s')" by fastforce
    then have "pick < remaining" using next_below_bound [of remaining s] True by simp
    then have "mset (vec_swap pick (remaining - 1) order) = mset order"
      using 1(2) True by (intro mset_vec_swap) auto
    moreover have "mset (fst (reshuffle_from (remaining - 1) (vec_swap pick (remaining - 1) order) s'))
        = mset (vec_swap pick (remaining - 1) order)"
      using 1(2) True ps by (intro 1(1)) auto
    ultimately show ?thesis using True ps by (simp add: reshuffle_from.simps [of remaining])
  qed (simp add: reshuffle_from.simps [of remaining])
qed

lemma reshuffle_mset [simp]: "mset (q_order (reshuffle q)) = mset (q_order q)"
  using reshuffle_from_mset [of "length (q_order q)" "q_order q" "q_shuffler q"]
  by (simp add: reshuffle_def case_prod_unfold Let_def)

lemma reshuffle_length [simp]: "length (q_order (reshuffle q)) = length (q_order q)"
  by (metis reshuffle_mset size_mset)

text \<open>What shuffling the order changes: the order, the shuffler and the revision.\<close>

definition only_shuffled :: "'l queue \<Rightarrow> 'l queue \<Rightarrow> bool" where
  "only_shuffled q q' \<longleftrightarrow> mset (q_order q') = mset (q_order q) \<and> q_next q' = q_next q \<and>
     q_unshuffled q' = q_unshuffled q \<and> q_places q' = q_places q \<and> q_ids q' = q_ids q \<and>
     q_seat q' = q_seat q \<and> q_repeat q' = q_repeat q \<and> q_shuffle q' = q_shuffle q \<and>
     q_stamp q' = q_stamp q \<and> q_playing_from q' = q_playing_from q"

lemma only_shuffled_length: "only_shuffled q q' \<Longrightarrow> length (q_order q') = length (q_order q)"
  unfolding only_shuffled_def by (metis size_mset)

lemma only_shuffled_same_rows: "only_shuffled q q' \<Longrightarrow> same_rows q q'"
  by (simp add: only_shuffled_def same_rows_def rows_of_def)

lemma only_shuffled_reshuffle: "only_shuffled q (reshuffle q)"
  using reshuffle_mset [of q] by (simp add: only_shuffled_def reshuffle_def case_prod_unfold Let_def)

lemma after_reshuffle [simp]: "q_after (reshuffle q) = q_after q"
  by (simp add: reshuffle_def case_prod_unfold Let_def)

lemma only_shuffled_keeping: "only_shuffled q (reshuffle_keeping p q)"
proof -
  have "at < length (q_order (reshuffle q)) \<Longrightarrow> 0 < length (q_order (reshuffle q))" for at by linarith
  then show ?thesis
    using only_shuffled_reshuffle [of q]
    by (auto simp: reshuffle_keeping_def only_shuffled_def Let_def dest!: position_SomeD split: option.splits)
qed

lemma only_shuffled_pass: "only_shuffled q (reshuffle_after_a_pass q)"
proof -
  let ?o = "q_order (reshuffle q)"
  have "mset (vec_swap 0 (1 + fst (next_below (length ?o - 1) s)) ?o) = mset (q_order q)"
    if "length ?o - 1 \<noteq> 0" for s
  proof -
    have "fst (next_below (length ?o - 1) s) < length ?o - 1"
      using that by (simp add: next_below_bound)
    then have "1 + fst (next_below (length ?o - 1) s) < length ?o" "0 < length ?o" by linarith+
    then have "mset (vec_swap 0 (1 + fst (next_below (length ?o - 1) s)) ?o) = mset ?o"
      by (intro mset_vec_swap)
    then show ?thesis by simp
  qed
  then show ?thesis
    using only_shuffled_reshuffle [of q]
    by (simp add: reshuffle_after_a_pass_def only_shuffled_def Let_def case_prod_unfold)
qed

lemma reshuffle_keeping_after [simp]: "q_after (reshuffle_keeping p q) = 1"
  by (simp add: reshuffle_keeping_def Let_def)

lemma wrap_to_the_start_facts:
  "q_after (wrap_to_the_start q) = 1" "q_seat (wrap_to_the_start q) = SeatInOrder"
  "only_shuffled (q\<lparr>q_seat := SeatInOrder\<rparr>) (wrap_to_the_start q)"
  using only_shuffled_pass [of q]
  by (simp_all add: wrap_to_the_start_def Let_def only_shuffled_def)

lemma stands_ok_shuffled:
  "stands_ok q \<Longrightarrow> only_shuffled q q' \<Longrightarrow> stands_ok q'"
  by (simp add: stands_ok_def only_shuffled_def)

lemma queue_ok_shuffled:
  assumes "queue_ok q" and "only_shuffled q q'" and "seat_ok q'"
  shows "queue_ok q'"
proof -
  have "q_playing_from q' = stamped (q_order q')"
    using assms by (metis only_shuffled_def queue_okD(5) stamped_mset stamps_ok_def)
  then show ?thesis
    using assms queue_ok_same_rows only_shuffled_same_rows stands_ok_shuffled queue_okD(4) by blast
qed

subsection \<open>The invariant without the seat\<close>

definition held_ok :: "'l queue \<Rightarrow> bool" where
  "held_ok q \<longleftrightarrow> places_ok q \<and> ids_ok q \<and> stands_ok q \<and> stamps_ok q \<and> fits q"

lemma queue_ok_held: "queue_ok q \<longleftrightarrow> seat_ok q \<and> held_ok q"
  by (auto simp: queue_ok_def held_ok_def)

lemma held_ok_cong:
  assumes "q_order q' = q_order q" "q_next q' = q_next q" "q_places q' = q_places q" "q_ids q' = q_ids q"
    "q_shuffle q' = q_shuffle q" "q_unshuffled q' = q_unshuffled q" "q_stamp q' = q_stamp q"
    "q_playing_from q' = q_playing_from q"
  shows "held_ok q' = held_ok q"
  using assms by (simp add: held_ok_def queue_parts rows_of_def q_len_def)

lemma held_ok_update [simp]:
  "held_ok (q\<lparr>q_revision := r\<rparr>) = held_ok q" "held_ok (q\<lparr>q_rows_revision := r\<rparr>) = held_ok q"
  "held_ok (q\<lparr>q_after := a\<rparr>) = held_ok q" "held_ok (q\<lparr>q_seat := st\<rparr>) = held_ok q"
  "held_ok (q\<lparr>q_shuffler := sh\<rparr>) = held_ok q" "held_ok (q\<lparr>q_repeat := rp\<rparr>) = held_ok q"
  by (rule held_ok_cong; simp)+

lemma held_ok_rows_moved [simp]: "held_ok (rows_moved q) = held_ok q"
  by (simp add: rows_moved_def)

lemma rows_moved_simps [simp]:
  "q_order (rows_moved q) = q_order q" "q_next (rows_moved q) = q_next q" "q_after (rows_moved q) = q_after q"
  "q_seat (rows_moved q) = q_seat q" "q_places (rows_moved q) = q_places q" "q_ids (rows_moved q) = q_ids q"
  "q_unshuffled (rows_moved q) = q_unshuffled q" "q_repeat (rows_moved q) = q_repeat q"
  "q_shuffle (rows_moved q) = q_shuffle q" "q_stamp (rows_moved q) = q_stamp q"
  "q_playing_from (rows_moved q) = q_playing_from q" "rows_of (rows_moved q) = rows_of q"
  by (simp_all add: rows_moved_def rows_of_def)

lemma seat_ok_rows_moved [simp]: "seat_ok (rows_moved q) = seat_ok q"
  by (rule seat_ok_cong) simp_all

lemma seat_after_simps [simp]:
  "q_order (seat_after a q) = q_order q" "q_next (seat_after a q) = q_next q" "q_after (seat_after a q) = a"
  "q_seat (seat_after a q) = q_seat q" "q_shuffle (seat_after a q) = q_shuffle q"
  "q_repeat (seat_after a q) = q_repeat q" "held_ok (seat_after a q) = held_ok q"
  by (simp_all add: seat_after_def)

lemma left_simps [simp]:
  "q_order (left w h q) = q_order q" "q_next (left w h q) = q_next q" "q_after (left w h q) = q_after q"
  "q_seat (left w h q) = q_seat q" "q_places (left w h q) = q_places q"
  "q_ids (left w h q) = release (item_id (item h)) (q_ids q)"
  "q_unshuffled (left w h q) = q_unshuffled q" "q_repeat (left w h q) = q_repeat q"
  "q_shuffle (left w h q) = q_shuffle q" "q_stamp (left w h q) = q_stamp q - stamp h"
  "q_playing_from (left w h q) = (if w = WaitsInOrder then q_playing_from q - stamp h else q_playing_from q)"
  "rows_of (left w h q) = rows_of q"
  by (simp_all add: left_def rows_of_def stamp_without_def Let_def)

text \<open>A row that leaves takes its place, its id and its stamp with it.\<close>

lemma row_leaves:
  assumes "mset (rows_of q) = add_mset h (mset (rows_of q'))"
    and "q_places q' = q_places q" and "q_ids q' = release (item_id (item h)) (q_ids q)"
    and "q_stamp q' = q_stamp q - stamp h"
  shows "places_ok q \<Longrightarrow> places_ok q'" "ids_ok q \<Longrightarrow> ids_ok q'" "fits q \<Longrightarrow> fits q'"
    "q_stamp q = stamped (rows_of q) \<Longrightarrow> q_stamp q' = stamped (rows_of q')"
proof -
  have m: "mset (rows_of q) = mset (h # rows_of q')" using assms(1) by simp
  have s: "set (rows_of q) = insert h (set (rows_of q'))" using m by (metis list.set(2) set_mset_mset)
  have p: "mset (places_of (rows_of q)) = mset (places_of (h # rows_of q'))" using m by (metis mset_map)
  have i: "mset (ids_of (rows_of q)) = mset (ids_of (h # rows_of q'))" using m by (metis mset_map)
  show "places_ok q \<Longrightarrow> places_ok q'"
    using assms(2) s distinct_mset_eq [OF p] by (simp add: places_ok_def)
  show "ids_ok q \<Longrightarrow> ids_ok q'"
    using assms(3) s distinct_mset_eq [OF i] by (auto simp: ids_ok_def release_def)
  have "length (rows_of q) = Suc (length (rows_of q'))" using m by (metis length_Cons size_mset)
  then show "fits q \<Longrightarrow> fits q'" by (simp add: fits_def q_len_def rows_of_def)
  show "q_stamp q = stamped (rows_of q) \<Longrightarrow> q_stamp q' = stamped (rows_of q')"
    using assms(4) stamped_mset [OF m] by simp
qed

lemma let_go_Cons:
  assumes "q_next q = h # hs"
  defines "q' \<equiv> snd (let_go_of_what_was_heard q)"
  shows "fst (let_go_of_what_was_heard q) = Some (place h)"
    and "q_next q' = hs" "q_order q' = q_order q" "q_after q' = q_after q" "q_seat q' = q_seat q"
    "q_repeat q' = q_repeat q" "q_shuffle q' = q_shuffle q"
    and "held_ok q \<Longrightarrow> held_ok q'"
proof -
  have q': "q' = rows_moved (left WaitsNext h (q\<lparr>q_next := hs\<rparr>))"
    and f: "fst (let_go_of_what_was_heard q) = Some (place h)"
    using assms by (simp_all add: let_go_of_what_was_heard_def)
  show "fst (let_go_of_what_was_heard q) = Some (place h)" by (fact f)
  show simps: "q_next q' = hs" "q_order q' = q_order q" "q_after q' = q_after q" "q_seat q' = q_seat q"
    "q_repeat q' = q_repeat q" "q_shuffle q' = q_shuffle q"
    by (simp_all add: q')
  have "mset (rows_of q) = add_mset h (mset (rows_of q'))"
    using assms(1) by (simp add: rows_of_def simps)
  note l = row_leaves [OF this, simplified q', simplified]
  show "held_ok q \<Longrightarrow> held_ok q'"
    using l by (simp add: held_ok_def q' stands_ok_def stamps_ok_def) 
qed

subsection \<open>Playing on keeps the invariant\<close>

lemma held_ok_shuffled: "held_ok q \<Longrightarrow> only_shuffled q q' \<Longrightarrow> held_ok q'"
proof -
  assume h: "held_ok q" and s: "only_shuffled q q'"
  note k = same_rows_keeps [OF only_shuffled_same_rows [OF s]]
  have "mset (q_order q') = mset (q_order q)" "q_playing_from q' = q_playing_from q"
    using s by (simp_all add: only_shuffled_def)
  then have "q_playing_from q' = stamped (q_order q')"
    using h stamped_mset [of "q_order q" "q_order q'"] by (simp add: held_ok_def stamps_ok_def)
  then show ?thesis
    using h k stands_ok_shuffled [OF _ s] by (simp add: held_ok_def stamps_ok_def)
qed

lemma wrap_to_the_start_ok:
  assumes "held_ok q" and "q_order q \<noteq> []"
  shows "queue_ok (wrap_to_the_start q)"
proof -
  have "held_ok (wrap_to_the_start q)"
    by (rule held_ok_shuffled [OF _ wrap_to_the_start_facts(3)]) (simp add: assms(1))
  moreover have "length (q_order (wrap_to_the_start q)) = length (q_order q)"
    using only_shuffled_length [OF wrap_to_the_start_facts(3)] by simp
  ultimately show ?thesis
    using assms(2) by (simp add: queue_ok_held seat_ok_def wrap_to_the_start_facts Suc_le_eq)
qed

lemma hand_on_ok:
  assumes "held_ok q" and "q_after q \<le> length (q_order q)"
  shows "queue_ok (hand_on q)"
proof -
  consider "q_next q \<noteq> []" | "q_next q = []" "q_after q < length (q_order q)"
    | "q_next q = []" "q_after q = length (q_order q)" "q_repeat q = RepeatQueue \<and> q_order q \<noteq> []"
    | "q_next q = []" "q_after q = length (q_order q)" "\<not> (q_repeat q = RepeatQueue \<and> q_order q \<noteq> [])"
    using assms(2) by linarith
  then show ?thesis
  proof cases
    case 3
    then show ?thesis using wrap_to_the_start_ok [OF assms(1)] by (simp add: hand_on_def)
  qed (use assms in \<open>auto simp: hand_on_def queue_ok_held seat_ok_def\<close>)
qed

text \<open>Advancing lets go of a row that waited to be heard, and hands on.\<close>

lemma advance_hand_on:
  assumes "q_seat q \<noteq> Nowhere" and "\<not> (natural \<and> q_repeat q = RepeatTrack)"
  shows "advance natural q =
    (let q = hand_on (if q_seat q = SeatNext then snd (let_go_of_what_was_heard q) else q)
     in (heard_place q, q))"
proof -
  have "(q_seat q = Nowhere) = False" "(natural \<and> q_repeat q = RepeatTrack) = False" using assms by auto
  then show ?thesis unfolding advance_def hand_on_def Let_def by (simp only: if_False)
qed

lemma advance_ok:
  assumes "queue_ok q"
  shows "queue_ok (snd (advance natural q))"
proof -
  have seat: "seat_ok q" and held: "held_ok q" using assms by (simp_all add: queue_ok_held)
  show ?thesis
  proof (cases "q_seat q = Nowhere \<or> (natural \<and> q_repeat q = RepeatTrack)")
    case True
    then show ?thesis using assms by (auto simp: advance_def)
  next
    case False
    from seat show ?thesis
    proof (cases rule: seat_cases)
      case in_order
      then show ?thesis using False hand_on_ok [OF held] by (simp add: advance_hand_on Let_def)
    next
      case (queued h hs)
      then show ?thesis
        using False hand_on_ok [OF let_go_Cons(8) [OF queued(2) held]] let_go_Cons [OF queued(2)]
        by (simp add: advance_hand_on Let_def)
    qed (use False in auto)
  qed
qed

lemma retreat_ok:
  assumes "queue_ok q"
  shows "queue_ok (snd (retreat q))"
proof -
  have seat: "seat_ok q" and held: "held_ok q" using assms by (simp_all add: queue_ok_held)
  from seat show ?thesis
  proof (cases rule: seat_cases)
    case nowhere
    then show ?thesis using assms by (simp add: retreat_def)
  next
    case (in_order a)
    then show ?thesis using held by (auto simp: retreat_def queue_ok_held seat_ok_def Let_def)
  next
    case (queued h hs)
    then show ?thesis using held by (auto simp: retreat_def queue_ok_held seat_ok_def Let_def)
  qed
qed

lemma row_at_facts:
  assumes "seat_ok q"
  shows "row_at at q = None \<longleftrightarrow> q_len q \<le> at"
    and "row_at at q = Some (RowInOrder i) \<Longrightarrow> i < length (q_order q)"
    and "row_at at q = Some (RowNext i) \<Longrightarrow> i < length (q_next q) \<and> at = q_after q + i"
  using assms by (auto simp: row_at_def q_len_def seat_ok_def Let_def split: if_splits)

text \<open>A row waiting to be heard is brought to the head of those that wait.\<close>

lemma held_ok_brought:
  assumes "held_ok q" and "w < length (q_next q)"
  shows "held_ok (q\<lparr>q_next := (q_next q ! w) # vec_remove w (q_next q)\<rparr>)"
proof -
  let ?q = "q\<lparr>q_next := (q_next q ! w) # vec_remove w (q_next q)\<rparr>"
  have "same_rows q ?q"
    using mset_vec_remove_add [OF assms(2)] by (simp add: same_rows_def rows_of_def)
  from same_rows_keeps [OF this] show ?thesis
    using assms(1) by (auto simp: held_ok_def stamps_ok_def stands_ok_def)
qed

lemma jump_to_ok:
  assumes "queue_ok q"
  shows "queue_ok (snd (jump_to at q))"
proof -
  have seat: "seat_ok q" and held: "held_ok q" using assms by (simp_all add: queue_ok_held)
  have le: "q_after q \<le> length (q_order q)" using seat by (simp add: seat_ok_def)
  show ?thesis
  proof (cases "row_at at q")
    case None
    then show ?thesis using assms by (simp add: jump_to_def)
  next
    case (Some r)
    show ?thesis
    proof (cases r)
      case (RowInOrder i)
      have i: "i < length (q_order q)" using row_at_facts(2) [OF seat] Some RowInOrder by simp
      define p where "p = (if q_seat q = SeatNext then snd (let_go_of_what_was_heard q) else q)"
      have "held_ok p \<and> q_order p = q_order q"
      proof (cases "q_seat q = SeatNext")
        case True
        with seat obtain h hs where "q_next q = h # hs" by (auto simp: seat_ok_def neq_Nil_conv)
        from let_go_Cons(3,8) [OF this] show ?thesis using True held by (simp add: p_def)
      qed (simp add: p_def held)
      then show ?thesis
        using Some RowInOrder i by (simp add: jump_to_def Let_def p_def [symmetric] queue_ok_held seat_ok_def Suc_le_eq)
    next
      case (RowNext w)
      have w: "w < length (q_next q)" using row_at_facts(3) [OF seat] Some RowNext by simp
      have *: "queue_ok (p\<lparr>q_next := (q_next p ! v) # vec_remove v (q_next p), q_seat := SeatNext,
                 q_revision := r\<rparr>)"
        if "held_ok p" "v < length (q_next p)" "q_after p \<le> length (q_order p)" for p :: "'a queue" and v r
        using held_ok_brought [OF that(1,2)] that(3) by (simp add: queue_ok_held seat_ok_def)
      show ?thesis
      proof (cases "q_seat q = SeatNext")
        case False
        then show ?thesis using * [OF held w le] w Some RowNext by (simp add: jump_to_def Let_def)
      next
        case True
        with seat obtain h hs where hs: "q_next q = h # hs" by (auto simp: seat_ok_def neq_Nil_conv)
        show ?thesis
        proof (cases w)
          case 0
          then show ?thesis using Some RowNext True assms by (simp add: jump_to_def)
        next
          case (Suc v)
          then show ?thesis
            using * [OF let_go_Cons(8) [OF hs held], of v] let_go_Cons [OF hs] w hs le True Some RowNext
            by (simp add: jump_to_def Let_def case_prod_unfold)
        qed
      qed
    qed
  qed
qed

lemma set_repeat_ok: "queue_ok q \<Longrightarrow> queue_ok (set_repeat r q)"
  by (simp add: queue_ok_held set_repeat_def) (simp add: seat_ok_def split: seat.splits)

lemma st_of_held:
  assumes "places_ok q" and "fits q"
  shows "st_ok (st_of (q_order q))" "st_iter (st_of (q_order q)) = q_order q"
  using assms st_of_ok [of "q_order q"] by (simp_all add: places_ok_def rows_of_def fits_def q_len_def)

lemma last_heard_in_order:
  "seat_ok q \<Longrightarrow> last_heard q = (if q_after q = 0 then None else Some (q_order q ! (q_after q - 1)))"
  by (auto simp: last_heard_def checked_sub_def seat_ok_def)

lemma set_shuffle_ok:
  assumes "queue_ok q"
  shows "queue_ok (set_shuffle b q)"
proof (cases "q_shuffle q = b")
  case True
  then show ?thesis using assms by (simp add: set_shuffle_def)
next
  case False
  have seat: "seat_ok q" and held: "held_ok q" using assms by (simp_all add: queue_ok_held)
  have held': "places_ok q" "ids_ok q" "stands_ok q" "stamps_ok q" "fits q"
    using held by (simp_all add: held_ok_def)
  show ?thesis
  proof (cases b)
    case True
    let ?q = "q\<lparr>q_shuffle := True, q_unshuffled := st_of (q_order q)\<rparr>"
    have "held_ok ?q"
      using held' st_of_held [OF held'(1,5)]
      by (simp add: held_ok_def queue_parts rows_of_def q_len_def)
    then have r: "held_ok (reshuffle ?q)" "held_ok (reshuffle_keeping p ?q)" for p
      using held_ok_shuffled only_shuffled_reshuffle only_shuffled_keeping by blast+
    have l: "length (q_order (reshuffle_keeping p ?q)) = length (q_order q)" for p
      using only_shuffled_length [OF only_shuffled_keeping, of p ?q] by simp
    have n: "q_next (reshuffle_keeping p ?q) = q_next q" "q_next (reshuffle ?q) = q_next q"
      "q_seat (reshuffle_keeping p ?q) = q_seat q" "q_seat (reshuffle ?q) = q_seat q" for p
      using only_shuffled_reshuffle [of ?q] only_shuffled_keeping [of ?q p] by (simp_all add: only_shuffled_def)
    have pos: "1 \<le> length (q_order q)" if "last_heard q = Some h" for h
      using that by (auto simp: last_heard_def get_Some_iff split: option.splits)
    have sh: "last_heard (q\<lparr>q_shuffle := True\<rparr>) = last_heard q"
      by (simp add: last_heard_def cong: option.case_cong)
    show ?thesis
    proof (cases "last_heard q")
      case None
      then have "set_shuffle b q = reshuffle ?q"
        using True False by (auto simp: set_shuffle_def Let_def sh split: seat.splits)
      moreover have "seat_ok (reshuffle ?q)"
        using seat n by (simp add: seat_ok_def split: seat.splits)
      ultimately show ?thesis using r by (simp add: queue_ok_held)
    next
      case (Some h)
      show ?thesis
      proof (cases "q_seat q")
        case Nowhere
        then have "set_shuffle b q = reshuffle ?q"
          using True False by (auto simp: set_shuffle_def Let_def sh)
        moreover have "seat_ok (reshuffle ?q)"
          using seat n Nowhere by (simp add: seat_ok_def)
        ultimately show ?thesis using r by (simp add: queue_ok_held)
      next
        case SeatInOrder
        then have "set_shuffle b q = reshuffle_keeping (place h) ?q"
          using True False Some by (auto simp: set_shuffle_def Let_def sh)
        moreover have "seat_ok (reshuffle_keeping (place h) ?q)"
          using n l pos [OF Some] SeatInOrder by (simp add: seat_ok_def)
        ultimately show ?thesis using r by (simp add: queue_ok_held)
      next
        case SeatNext
        then have "set_shuffle b q = reshuffle_keeping (place h) ?q"
          using True False Some by (auto simp: set_shuffle_def Let_def sh)
        moreover have "seat_ok (reshuffle_keeping (place h) ?q)"
          using n l pos [OF Some] SeatNext seat by (simp add: seat_ok_def)
        ultimately show ?thesis using r by (simp add: queue_ok_held)
      qed
    qed
  next
    case off: False
    then have m: "mset (st_iter (q_unshuffled q)) = mset (q_order q)" "q_shuffle q"
      using held'(3) False by (simp_all add: stands_ok_def)
    let ?o = "st_iter (q_unshuffled q)"
    define after where "after = (case (q_seat q, map_option place (last_heard q)) of
         (Nowhere, _) \<Rightarrow> length ?o
       | (_, Some p) \<Rightarrow> (case position (\<lambda>h. place h = p) ?o of None \<Rightarrow> 0 | Some at \<Rightarrow> at + 1)
       | (_, None) \<Rightarrow> 0)"
    have eq: "set_shuffle b q = q\<lparr>q_shuffle := False, q_order := ?o, q_unshuffled := st_empty,
        q_after := after, q_revision := q_revision q + 1\<rparr>"
      using off m(2) by (simp add: set_shuffle_def Let_def after_def last_heard_def cong: option.case_cong seat.case_cong)
    let ?q = "set_shuffle b q"
    have sr: "same_rows q ?q" using m(1) by (simp add: eq same_rows_def rows_of_def)
    have "seat_ok ?q"
    proof -
      have len: "length ?o = length (q_order q)" using m(1) by (metis size_mset)
      have bound: "(case position (\<lambda>h. place h = p) ?o of None \<Rightarrow> 0 | Some at \<Rightarrow> at + 1) \<le> length ?o" for p
        using position_SomeD [of "\<lambda>h. place h = p" ?o] by (auto split: option.split simp: Suc_le_eq)
      have found: "0 < (case position (\<lambda>h. place h = place h') ?o of None \<Rightarrow> 0 | Some at \<Rightarrow> at + 1)"
        if "last_heard q = Some h'" for h'
      proof -
        have "h' \<in> set (q_order q)" using that by (auto simp: last_heard_def dest: get_in_set split: option.splits)
        then have "h' \<in> set ?o" using m(1) by (metis set_mset_mset)
        then show ?thesis using position_None_iff [of "\<lambda>h. place h = place h'" ?o]
          by (auto split: option.split)
      qed
      show ?thesis
        using seat bound found last_heard_in_order [OF seat]
        by (cases "q_seat q"; cases "last_heard q") (auto simp: seat_ok_def eq after_def)
    qed
    then show ?thesis
      using queue_ok_same_rows [OF assms sr] held'(4) stamped_mset [OF m(1)]
      by (simp add: stands_ok_def stamps_ok_def eq)
  qed
qed

subsection \<open>Rows that arrive keep the invariant\<close>

definition held_from :: "'l row_hash \<Rightarrow> nat \<Rightarrow> 'l queue_item list \<Rightarrow> 'l held list" where
  "held_from H p is = map (\<lambda>(p, i). held_at H p i) (enumerate p is)"

lemma held_from_Nil [simp]: "held_from H p [] = []"
  by (simp add: held_from_def)

lemma held_from_Cons [simp]: "held_from H p (i # is) = held_at H p i # held_from H (Suc p) is"
  by (simp add: held_from_def)

lemma held_from_facts [simp]:
  "length (held_from H p is) = length is" "map item (held_from H p is) = is"
  "places_of (held_from H p is) = [p..<p + length is]" "held_from H p is = [] \<longleftrightarrow> is = []"
proof -
  have "places_of (held_from H p is) = [p..<p + length is]"
    by (induction "is" arbitrary: p) (simp_all add: upt_conv_Cons del: upt_Suc)
  moreover have "map item (held_from H p is) = is" by (induction "is" arbitrary: p) simp_all
  moreover have "length (held_from H p is) = length is" by (simp add: held_from_def)
  ultimately show "length (held_from H p is) = length is" "map item (held_from H p is) = is"
    "places_of (held_from H p is) = [p..<p + length is]" "held_from H p is = [] \<longleftrightarrow> is = []"
    by (auto simp: held_from_def)
qed

lemma ids_of_held_from [simp]: "ids_of (held_from H p is) = map item_id is"
  by (induction "is" arbitrary: p) simp_all

lemma hold_all_eq: "hold_all H is q = (held_from H (q_places q) is, q\<lparr>q_places := q_places q + length is\<rparr>)"
  by (induction H "is" q rule: hold_all.induct) (simp_all add: hold_def Let_def)

lemma joined_all:
  "fold (joined w) hs q = q\<lparr>q_stamp := q_stamp q + stamped hs,
     q_playing_from := (if w = WaitsInOrder then q_playing_from q + stamped hs else q_playing_from q)\<rparr>"
  by (induction hs arbitrary: q) (auto simp: joined_def stamp_with_def Let_def add.assoc)

text \<open>Fresh rows join the rows of the queue.\<close>

lemma rows_join:
  assumes "mset (rows_of q') = mset hs + mset (rows_of q)"
    and "places_of hs = [q_places q..<q_places q + length hs]" and "q_places q' = q_places q + length hs"
    and "distinct (ids_of hs)" and "set (ids_of hs) \<inter> taken (q_ids q) = {}"
    and "taken (q_ids q') = taken (q_ids q) \<union> set (ids_of hs)"
    and "q_stamp q' = q_stamp q + stamped hs" and "q_len q + length hs < u64_max"
  shows "places_ok q \<Longrightarrow> places_ok q'" "ids_ok q \<Longrightarrow> ids_ok q'" "fits q'"
    "q_stamp q = stamped (rows_of q) \<Longrightarrow> q_stamp q' = stamped (rows_of q')"
proof -
  have m: "mset (rows_of q') = mset (hs @ rows_of q)" using assms(1) by simp
  have s: "set (rows_of q') = set hs \<union> set (rows_of q)" using m by (metis set_append set_mset_mset)
  have p: "mset (places_of (rows_of q')) = mset (places_of (hs @ rows_of q))" using m by (metis mset_map)
  have i: "mset (ids_of (rows_of q')) = mset (ids_of (hs @ rows_of q))" using m by (metis mset_map)
  have range: "q_places q \<le> place h \<and> place h < q_places q + length hs" if "h \<in> set hs" for h
  proof -
    have "place h \<in> set (places_of hs)" using that by simp
    then show ?thesis unfolding assms(2) by simp
  qed
  show "places_ok q'" if "places_ok q"
  proof -
    have "set (places_of hs) \<inter> set (places_of (rows_of q)) = {}"
      using that range by (fastforce simp: places_ok_def)
    moreover have "distinct (places_of hs)" by (simp add: assms(2))
    ultimately have "distinct (places_of (rows_of q'))"
      using that distinct_mset_eq [OF p] by (simp add: places_ok_def)
    moreover have "place h < q_places q'" if "h \<in> set (rows_of q')" for h
      using that \<open>places_ok q\<close> range s by (fastforce simp: places_ok_def assms(3))
    ultimately show ?thesis by (simp add: places_ok_def)
  qed
  show "ids_ok q'" if "ids_ok q"
    using that assms(4-6) s distinct_mset_eq [OF i] by (auto simp: ids_ok_def)
  have "length (rows_of q') = length hs + length (rows_of q)" using m by (metis length_append size_mset)
  then show "fits q'" using assms(8) by (simp add: fits_def q_len_def rows_of_def)
  show "q_stamp q = stamped (rows_of q) \<Longrightarrow> q_stamp q' = stamped (rows_of q')"
    using assms(7) stamped_mset [OF m] by simp
qed

lemma landing_facts:
  assumes "seat_ok q"
  shows "landing at q = RowInOrder i \<Longrightarrow> i \<le> length (q_order q)"
    and "landing at q = RowNext i \<Longrightarrow> i \<le> length (q_next q) \<and> q_seat q \<noteq> Nowhere \<and> (q_seat q = SeatNext \<longrightarrow> 0 < i)"
  using assms
  by (auto simp: landing_def cursor_def seat_ok_def Let_def checked_sub_def Suc_le_eq
      split: seat.splits placement.splits if_splits)

text \<open>What an insertion does, in one step.\<close>

definition before_queued :: "placement \<Rightarrow> 'l queue \<Rightarrow> bool" where
  "before_queued at q \<longleftrightarrow> q_seat q = SeatNext \<and>
     (case at of PlaceAt a \<Rightarrow> a \<le> q_after q | PlaceNext \<Rightarrow> False | PlaceQueued \<Rightarrow> False)"

lemma before_queued_eq:
  "(q_seat q = SeatNext \<and>
    (case at of
       PlaceAt a \<Rightarrow> (case cursor q of Some playing \<Rightarrow> a \<le> playing | None \<Rightarrow> False)
     | PlaceNext \<Rightarrow> False
     | PlaceQueued \<Rightarrow> False)) = before_queued at q"
  by (cases "q_seat q = SeatNext"; cases at) (simp_all add: before_queued_def cursor_def)

lemma insert_rows_eq:
  fixes H :: "'l row_hash" and q :: "'l queue" and at :: placement
  assumes "items \<noteq> []" and "one_id_each items (q_ids q) = (arrived, ids)"
  defines "landed \<equiv> held_from H (q_places q) arrived" and "r \<equiv> landing at q"
  defines "q1 \<equiv> q\<lparr>q_ids := ids, q_places := q_places q + length arrived, q_stamp := q_stamp q + stamped landed,
     q_playing_from := (if row_waits r = WaitsInOrder then q_playing_from q + stamped landed else q_playing_from q)\<rparr>"
  defines "q2 \<equiv> (case r of
       RowNext i \<Rightarrow> q1\<lparr>q_next := vec_splice i landed (q_next q)\<rparr>
     | RowInOrder i \<Rightarrow> land_in_order i landed (before_queued at q) q1)"
  shows "insert_rows H items at q = (Some (drawn_at r (rows_moved q2)), rows_moved q2)"
proof -
  have [simp]: "landing at (q\<lparr>q_ids := ids\<rparr>) = landing at q" "cursor (q\<lparr>q_ids := ids\<rparr>) = cursor q"
    by (cases "q_seat q"; cases at; simp add: landing_def cursor_def Let_def checked_sub_def)+
  have [simp]: "before_queued at (q\<lparr>q_ids := ids\<rparr>) = before_queued at q"
    by (cases at) (simp_all add: before_queued_def)
  show ?thesis
    using assms(1,2)
    by (cases "landing at q") (simp_all add: insert_rows_def Let_def before_queued_eq hold_all_eq joined_all
        q2_def q1_def r_def landed_def)
qed

lemma land_in_order_facts:
  fixes q :: "'l queue"
  shows "q_order (land_in_order at landed b q) = vec_splice at landed (q_order q)"
    "q_next (land_in_order at landed b q) = q_next q" "q_places (land_in_order at landed b q) = q_places q"
    "q_ids (land_in_order at landed b q) = q_ids q" "q_stamp (land_in_order at landed b q) = q_stamp q"
    "q_playing_from (land_in_order at landed b q) = q_playing_from q"
    "q_shuffle (land_in_order at landed b q) = q_shuffle q"
    "q_repeat (land_in_order at landed b q) = q_repeat q"
    "q_unshuffled (land_in_order at landed b q) =
       (if q_shuffle q then st_insert (unshuffled_anchor at q) landed (q_unshuffled q) else q_unshuffled q)"
    "q_seat (land_in_order at landed b q) = (if q_seat q = Nowhere then SeatInOrder else q_seat q)"
    "q_after (land_in_order at landed b q) =
       (case q_seat q of
          Nowhere \<Rightarrow> at + 1
        | SeatInOrder \<Rightarrow> q_after q + (if at < q_after q then length landed else 0)
        | SeatNext \<Rightarrow> q_after q + (if at < q_after q \<or> (at = q_after q \<and> b) then length landed else 0))"
  by (auto simp: land_in_order_def Let_def split: seat.split)

lemma insert_rows_ok:
  assumes ok: "queue_ok q" and size: "q_len q + length items < u64_max"
    and room: "length items \<le> room (q_ids q)"
  shows "queue_ok (snd (insert_rows H items at q))"
proof (cases "items = []")
  case True
  then show ?thesis using ok by (simp add: insert_rows_def)
next
  case False
  obtain arrived ids where ai: "one_id_each items (q_ids q) = (arrived, ids)" by fastforce
  note fresh = one_id_each_fresh [OF room ai]
  have len: "length arrived = length items" using one_id_each_rows [OF ai] by (metis length_map)
  define landed where "landed = held_from H (q_places q) arrived"
  define r where "r = landing at q"
  define q1 where "q1 = q\<lparr>q_ids := ids, q_places := q_places q + length arrived,
     q_stamp := q_stamp q + stamped landed,
     q_playing_from := (if row_waits r = WaitsInOrder then q_playing_from q + stamped landed else q_playing_from q)\<rparr>"
  define q2 where "q2 = (case r of
       RowNext i \<Rightarrow> q1\<lparr>q_next := vec_splice i landed (q_next q)\<rparr>
     | RowInOrder i \<Rightarrow> land_in_order i landed (before_queued at q) q1)"
  have eq: "snd (insert_rows H items at q) = rows_moved q2"
    using insert_rows_eq [OF False ai, of H at, folded landed_def, folded r_def, folded q1_def, folded q2_def]
    by simp
  have seat: "seat_ok q" and h: "places_ok q" "ids_ok q" "stands_ok q" "stamps_ok q"
    using ok by (simp_all add: queue_ok_def)
  have apart: "set (places_of landed) \<inter> set (places_of (rows_of q)) = {}"
    using h(1) by (fastforce simp: places_ok_def landed_def)
  have join: "mset (rows_of q2) = mset landed + mset (rows_of q)"
    "q_places q2 = q_places q + length landed" "q_ids q2 = ids" "q_stamp q2 = q_stamp q + stamped landed"
    by (simp_all add: q2_def q1_def rows_of_def land_in_order_facts landed_def split: row.split)
  have rj: "places_ok q2" "ids_ok q2" "fits q2" "q_stamp q2 = stamped (rows_of q2)"
    using rows_join [OF join(1)] join(2-4) fresh size h len
    by (simp_all add: landed_def stamps_ok_def)
  have lands: "stands_ok q2 \<and> seat_ok q2 \<and> q_playing_from q2 = stamped (q_order q2)"
  proof (cases r)
    case (RowNext i)
    have i: "i \<le> length (q_next q)" "q_seat q \<noteq> Nowhere" "q_seat q = SeatNext \<longrightarrow> 0 < i"
      using landing_facts(2) [OF seat, of at i] RowNext r_def by simp_all
    then show ?thesis using h(3,4) seat RowNext
      by (auto simp: q2_def q1_def stands_ok_def seat_ok_def stamps_ok_def row_waits_def vec_splice_def
          split: seat.splits)
  next
    case (RowInOrder i)
    have i: "i \<le> length (q_order q)" using landing_facts(1) [OF seat] RowInOrder r_def by simp
    have a: "distinct (places_of landed)" by (simp add: landed_def)
    have "stands_ok q2"
    proof (cases "q_shuffle q")
      case True
      let ?u = "q_unshuffled q"
      have u: "st_ok ?u" "mset (st_iter ?u) = mset (q_order q)" using h(3) True by (simp_all add: stands_ok_def)
      have "set (st_iter ?u) = set (q_order q)" using u(2) by (metis set_mset_mset)
      then have ap: "set (places_of landed) \<inter> set (places_of (st_iter ?u)) = {}"
        using apart by (auto simp: rows_of_def)
      have "length (st_iter ?u) = length (q_order q)" using u(2) by (metis size_mset)
      then have sz: "length (st_iter ?u) + length landed < u64_max"
        using size len by (simp add: q_len_def landed_def)
      show ?thesis
        using standing_rows.put_keeps [OF u(1) a ap sz] standing_rows.put_lists [OF u(1) a ap sz] u(2) True RowInOrder
        by (simp add: stands_ok_def q2_def q1_def land_in_order_facts)
    qed (use h(3) RowInOrder in \<open>simp add: stands_ok_def q2_def q1_def land_in_order_facts\<close>)
    moreover have "seat_ok q2"
    proof -
      have "0 < length landed" using False len by (simp add: landed_def)
      then show ?thesis
        using seat i RowInOrder by (auto simp: seat_ok_def q2_def q1_def land_in_order_facts Suc_le_eq split: seat.splits)
    qed
    moreover have "mset (vec_splice i landed (q_order q)) = mset (landed @ q_order q)" by simp
    then have "q_playing_from q2 = stamped (q_order q2)"
      using h(4) RowInOrder stamped_mset [of "vec_splice i landed (q_order q)" "landed @ q_order q"]
      by (simp add: q2_def q1_def land_in_order_facts stamps_ok_def row_waits_def)
    ultimately show ?thesis by blast
  qed
  have "queue_ok q2" using lands rj by (simp add: queue_ok_held held_ok_def stamps_ok_def)
  then show ?thesis unfolding eq by (simp add: queue_ok_held)
qed

lemma insert_to_hear_ok:
  assumes ok: "queue_ok q" and size: "q_len q + length items < u64_max"
    and room: "length items \<le> room (q_ids q)"
  shows "queue_ok (snd (insert_to_hear H items at q))"
proof -
  obtain r q1 where q1: "insert_rows H items at q = (r, q1)" by fastforce
  have ok1: "queue_ok q1" using insert_rows_ok [OF ok size room, of H at] q1 by simp
  show ?thesis
  proof (cases r)
    case None
    then show ?thesis using q1 ok1 by (simp add: insert_to_hear_def Let_def)
  next
    case (Some r')
    obtain h q2 where q2: "jump_to r' q1 = (h, q2)" by fastforce
    have ok2: "queue_ok q2" using jump_to_ok [OF ok1, of r'] q2 by simp
    define in_run where "in_run = (\<lambda>p. q_places q \<le> p \<and> p < q_places q + length items)"
    show ?thesis
    proof (cases "q_seat q2 = SeatNext \<and> q_next q2 \<noteq> []")
      case False
      then have "insert_to_hear H items at q = (h, q2)"
        using q1 q2 Some by (cases "q_next q2"; cases "q_seat q2") (simp_all add: insert_to_hear_def Let_def)
      then show ?thesis using ok2 by simp
    next
      case True
      then obtain k ks where k: "q_next q2 = k # ks" by (auto simp: neq_Nil_conv)
      let ?rest = "filter (\<lambda>h. in_run (place h)) ks"
      let ?kept = "filter (\<lambda>h. place h = place k \<or> \<not> in_run (place h)) (k # ks)"
      let ?q = "q2\<lparr>q_next := vec_splice 1 ?rest ?kept, q_revision := q_revision q2 + 1\<rparr>"
      have eq: "insert_to_hear H items at q = (h, ?q)"
        using q1 q2 Some True k by (simp add: insert_to_hear_def Let_def in_run_def)
      have "place x \<noteq> place k" if "x \<in> set ks" for x
      proof -
        have "distinct (places_of (k # ks))"
          using ok2 k by (simp add: queue_ok_def places_ok_def rows_of_def)
        then show ?thesis using that by (metis distinct.simps(2) imageI list.set_map list.simps(9))
      qed
      then have "filter (\<lambda>h. place h = place k \<or> \<not> in_run (place h)) ks = filter (\<lambda>h. \<not> in_run (place h)) ks"
        by (intro filter_cong) auto
      then have "mset (vec_splice 1 ?rest ?kept) = mset (q_next q2)"
        by (simp add: k)
      then have sr: "same_rows q2 ?q" by (simp add: same_rows_def rows_of_def)
      moreover have "seat_ok ?q" using ok2 True by (auto simp: queue_ok_held seat_ok_def)
      ultimately have "queue_ok ?q"
        using ok2 queue_okD(4,5) [OF ok2] by (intro queue_ok_same_rows [OF ok2 sr])
          (simp_all add: stands_ok_def stamps_ok_def)
      then show ?thesis using eq by simp
    qed
  qed
qed

subsection \<open>Loading and resuming give a queue that holds the invariant\<close>

lemma stamp_afresh_simps [simp]:
  "q_order (stamp_afresh q) = q_order q" "q_next (stamp_afresh q) = q_next q" "q_after (stamp_afresh q) = q_after q"
  "q_seat (stamp_afresh q) = q_seat q" "q_places (stamp_afresh q) = q_places q" "q_ids (stamp_afresh q) = q_ids q"
  "q_unshuffled (stamp_afresh q) = q_unshuffled q" "q_shuffle (stamp_afresh q) = q_shuffle q"
  "q_repeat (stamp_afresh q) = q_repeat q"
  "q_playing_from (stamp_afresh q) = stamped (q_order q)" "q_stamp (stamp_afresh q) = stamped (rows_of q)"
  "rows_of (stamp_afresh q) = rows_of q"
  by (simp_all add: stamp_afresh_def rows_of_def fold_stamps stamped_sum)

lemma stamps_ok_afresh [simp]: "stamps_ok (stamp_afresh q)"
  by (simp add: stamps_ok_def)

lemma room_beside: "length is < u64_max \<Longrightarrow> u64_max - length is \<le> room (beside is)"
proof -
  have "card ({1..u64_max} - set (map item_id is)) \<ge> card {1..u64_max} - card (set (map item_id is))"
    by (rule diff_card_le_card_Diff) simp
  moreover have "card (set (map item_id is)) \<le> length is" by (metis card_length length_map)
  moreover have "{1..u64_max} - set (map item_id is) = {k. 1 \<le> k \<and> k \<le> u64_max \<and> k \<notin> set (map item_id is)}"
    by auto
  ultimately show ?thesis by (simp add: room_def beside_def)
qed

lemma waiting_rows:
  "q_next q = (if q_seat q = SeatNext then take 1 (q_next q) else []) @ waiting q"
  by (simp add: waiting_def split: seat.split)

lemma load_ok:
  assumes ok: "queue_ok q" and size: "length (waiting q) + length items < u64_max"
  shows "queue_ok (snd (load H items start_at q))"
proof -
  define kept where "kept = map item (waiting q)"
  have dk: "distinct (map item_id kept)"
  proof -
    have "ids_of (waiting q) = map item_id kept" by (simp add: kept_def)
    moreover have "distinct (ids_of (q_next q))" using ok by (simp add: queue_ok_def ids_ok_def rows_of_def)
    ultimately show ?thesis by (metis distinct_append map_append waiting_rows)
  qed
  obtain loaded minting where lm: "one_id_each items (beside kept) = (loaded, minting)" by fastforce
  have room: "length items \<le> room (beside kept)"
    using room_beside [of kept] size by (simp add: kept_def)
  note fresh = one_id_each_fresh [OF room lm]
  have len: "length loaded = length items" using one_id_each_rows [OF lm] by (metis length_map)
  let ?order = "held_from H 0 loaded" and ?next = "held_from H (length loaded) kept"
  define q1 where "q1 = rows_moved (stamp_afresh (q\<lparr>q_places := length loaded + length kept, q_ids := minting,
     q_unshuffled := (if q_shuffle q then st_of ?order else st_empty), q_order := ?order, q_next := ?next\<rparr>))"
  have order: "q_order q1 = ?order" and nxt: "q_next q1 = ?next" and seat: "q_seat q1 = q_seat q"
    and rows: "rows_of q1 = ?order @ ?next"
    by (simp_all add: q1_def) (simp add: rows_of_def)
  have "held_ok q1"
  proof -
    have "places_of ?order @ places_of ?next = [0..<length loaded + length kept]"
      by (simp add: upt_add_eq_append [symmetric])
    then have d: "distinct (places_of (?order @ ?next))" and b: "set (places_of (?order @ ?next)) = {0..<length loaded + length kept}"
      by (metis distinct_upt map_append, metis map_append set_upt)
    have "place h < length loaded + length kept" if "h \<in> set (?order @ ?next)" for h
      using that b by (metis atLeastLessThan_iff imageI list.set_map)
    then have "places_ok q1"
      using d unfolding places_ok_def rows by (simp add: q1_def)
    moreover have "ids_ok q1"
      using fresh dk unfolding ids_ok_def rows
      by (auto simp: q1_def beside_def)
    moreover have "st_ok (st_of ?order)" "st_iter (st_of ?order) = ?order"
      using st_of_ok [of ?order] d size len by simp_all
    then have "stands_ok q1" by (simp add: stands_ok_def q1_def)
    moreover have "stamps_ok q1" by (simp add: q1_def stamps_ok_def)
    moreover have "fits q1" using size len by (simp add: fits_def q_len_def order nxt kept_def)
    ultimately show ?thesis by (simp add: held_ok_def)
  qed
  show ?thesis
  proof (cases "loaded = []")
    case True
    have "snd (load H items start_at q) = q1\<lparr>q_after := 0, q_seat := if ?next = [] then Nowhere else SeatNext\<rparr>"
      using True lm by (simp add: load_def Let_def kept_def [symmetric] hold_all_eq q1_def checked_sub_def standing_of_def)
    then show ?thesis using \<open>held_ok q1\<close> True
      by (simp add: queue_ok_held seat_ok_def order nxt)
  next
    case False
    define start where "start = min start_at (length loaded - 1)"
    have start: "start < length loaded" using False by (cases loaded) (simp_all add: start_def)
    have eq: "snd (load H items start_at q) = (if q_shuffle q1 then reshuffle_keeping start q1
        else q1\<lparr>q_after := start + 1\<rparr>)\<lparr>q_seat := SeatInOrder\<rparr>"
      using False lm by (simp add: load_def Let_def kept_def [symmetric] hold_all_eq q1_def checked_sub_def
          standing_of_def start_def Suc_le_eq)
    have "held_ok (reshuffle_keeping start q1)"
      by (rule held_ok_shuffled [OF \<open>held_ok q1\<close> only_shuffled_keeping])
    moreover have "length (q_order (reshuffle_keeping start q1)) = length loaded"
      using only_shuffled_length [OF only_shuffled_keeping, of start q1] by (simp add: order)
    ultimately show ?thesis unfolding eq
      using \<open>held_ok q1\<close> start by (auto simp: queue_ok_held seat_ok_def order)
  qed
qed

lemma restored_rows_facts:
  assumes "restored_rows H rs u q = (hs, u', q')" and "length rs \<le> room u"
  shows "places_of hs = [q_places q..<q_places q + length rs] \<and> length hs = length rs \<and>
    distinct (ids_of hs) \<and> set (ids_of hs) \<inter> taken u = {} \<and> taken u' = taken u \<union> set (ids_of hs) \<and>
    map (\<lambda>h. location (item h)) hs = map res_location rs \<and> map (\<lambda>h. item_span (item h)) hs = map res_span rs \<and>
    (\<forall>h\<in>set hs. stamp h = row_stamp H (item h) (place h)) \<and>
    q' = q\<lparr>q_places := q_places q + length rs\<rparr>"
  using assms
proof (induction rs arbitrary: u q hs u' q')
  case (Cons r rs)
  obtain claimed u1 where c: "(case res_held r of None \<Rightarrow> (None, u) | Some i \<Rightarrow> claim i u) = (claimed, u1)"
    by fastforce
  obtain i u2 where m: "(case claimed of Some i \<Rightarrow> (i, u1) | None \<Rightarrow> mint u1) = (i, u2)" by fastforce
  have r0: "0 < room u" using Cons.prems(2) by simp
  have fresh: "i \<notin> taken u \<and> taken u2 = insert i (taken u) \<and> room u - 1 \<le> room u2"
  proof (cases "res_held r")
    case None
    then have "mint u = (i, u2)" using c m by auto
    moreover obtain n where "mint u = (n, \<lparr>taken = insert n (taken u), upnext = n - 1\<rparr>)" "n \<notin> taken u"
      using mint_fresh [OF r0] by metis
    ultimately show ?thesis using room_mint [OF r0] by auto
  next
    case (Some j)
    then have "claim_or_mint j u = (i, u2)"
      using c m by (auto simp: claim_or_mint_def split: option.splits)
    from claim_or_mint_fresh [OF r0 this] show ?thesis by simp
  qed
  obtain ks u3 q3 where k: "restored_rows H rs u2 (q\<lparr>q_places := q_places q + 1\<rparr>) = (ks, u3, q3)"
    by (metis prod_cases3)
  have eq: "hs = held_at H (q_places q) \<lparr>item_id = i, location = res_location r, item_span = res_span r\<rparr> # ks"
    "u' = u3" "q' = q3"
    using Cons.prems(1) c m k by (auto simp: Let_def hold_def)
  have "length rs \<le> room u2" using fresh Cons.prems(2) by (simp add: le_diff_conv)
  from Cons.IH [OF k this] show ?case
    using fresh eq by (auto simp: upt_conv_Cons simp del: upt_Suc)
qed simp

lemma rows_named_map: "(\<And>i. i \<in> set is \<Longrightarrow> i < length rows) \<Longrightarrow> rows_named rows is = map ((!) rows) is"
  by (induction "is") (simp_all add: rows_named_def List.map_filter_simps)

lemma restored_split_facts:
  assumes "restored_split drawn n r = (order, wait, after, st)"
    and "drawn \<noteq> [] \<Longrightarrow> r < length drawn"
    and "\<And>s. n = Some s \<Longrightarrow> span_ok s \<and> span_last s < length drawn"
  shows "mset order + mset wait = mset drawn" "after \<le> length order"
    "case st of Nowhere \<Rightarrow> drawn = [] | SeatInOrder \<Rightarrow> 0 < after | SeatNext \<Rightarrow> wait \<noteq> []"
    "drawn \<noteq> [] \<Longrightarrow> (case st of Nowhere \<Rightarrow> False | SeatInOrder \<Rightarrow> order ! (after - 1) = drawn ! r | SeatNext \<Rightarrow> hd wait = drawn ! r)"
    "(\<And>s. n = Some s \<Longrightarrow> span_holds s r \<or> span_first s = r + 1) \<Longrightarrow> take after order @ wait @ drop after order = drawn"
proof -
  have whole: "take a drawn @ drop a (take b drawn) @ drop b drawn = drawn" if "a \<le> b" for a b
    using that by (metis append_assoc append_take_drop_id drop_take min.absorb1 take_drop take_take)
  have cut: "mset (take a drawn @ drop b drawn) + mset (drop a (take b drawn)) = mset drawn" if "a \<le> b" for a b
    using arg_cong [OF whole [OF that], of mset] by (simp add: ac_simps)
  show "mset order + mset wait = mset drawn"
    using assms cut by (auto simp: restored_split_def Let_def span_holds_def span_ok_def split: if_splits option.splits)
  show "after \<le> length order"
    using assms by (auto simp: restored_split_def Let_def span_holds_def span_ok_def span_rows_def split: if_splits option.splits)
  show "case st of Nowhere \<Rightarrow> drawn = [] | SeatInOrder \<Rightarrow> 0 < after | SeatNext \<Rightarrow> wait \<noteq> []"
    using assms by (auto simp: restored_split_def Let_def span_holds_def span_ok_def split: if_splits option.splits)
  show "drawn \<noteq> [] \<Longrightarrow> (case st of Nowhere \<Rightarrow> False | SeatInOrder \<Rightarrow> order ! (after - 1) = drawn ! r | SeatNext \<Rightarrow> hd wait = drawn ! r)"
    using assms by (auto simp: restored_split_def Let_def span_holds_def span_ok_def span_rows_def nth_append hd_drop_conv_nth
        split: if_splits option.splits)
  show "(\<And>s. n = Some s \<Longrightarrow> span_holds s r \<or> span_first s = r + 1) \<Longrightarrow> take after order @ wait @ drop after order = drawn"
    using assms whole by (auto simp: restored_split_def Let_def span_holds_def span_ok_def split: if_splits option.splits)
qed

lemma restore_eq:
  fixes H :: "'l row_hash" and q :: "'l queue"
  assumes "restored_rows H (res_rows res) (beside ([] :: 'l queue_item list)) (q\<lparr>q_places := 0\<rparr>) = (rows, minting, q1)"
    and "res_in_play_order res = drawn"
    and "restored_split drawn (case res_next res of
            Some n \<Rightarrow> if span_last n < length drawn then Some n else None
          | None \<Rightarrow> None) (res_landing res) = (order, wait, after, st)"
    and "q1 = q\<lparr>q_places := length (res_rows res)\<rparr>"
  shows "restore H res q =
    (let q2 = rows_moved (stamp_afresh (q\<lparr>q_places := length (res_rows res), q_ids := minting,
           q_shuffle := res_shuffle res,
           q_unshuffled := (if res_shuffle res then st_of (rows_named rows (sort order)) else st_empty),
           q_order := rows_named rows order, q_next := rows_named rows wait, q_after := after, q_seat := st\<rparr>))
     in (heard_place q2, q2))"
  using assms(1-3) by (simp add: restore_def Let_def assms(4))

lemma restore_ok:
  fixes H :: "'l row_hash" and q :: "'l queue"
  assumes size: "length (res_rows res) < u64_max"
    and span: "\<And>n. res_next res = Some n \<Longrightarrow> span_ok n"
  shows "queue_ok (snd (restore H res q))"
proof -
  let ?n = "length (res_rows res)"
  obtain rows minting q1 where rr: "restored_rows H (res_rows res) (beside ([] :: 'l queue_item list)) (q\<lparr>q_places := 0\<rparr>) = (rows, minting, q1)"
    by (metis prod_cases3)
  define drawn where "drawn = res_in_play_order res"
  define nxt where "nxt = (case res_next res of Some n \<Rightarrow> if span_last n < length drawn then Some n else None | None \<Rightarrow> None)"
  obtain order wait after st where sp: "restored_split drawn nxt (res_landing res) = (order, wait, after, st)"
    by (metis prod_cases4)
  have "?n \<le> room (beside ([] :: 'l queue_item list))" using room_beside [of "[] :: 'l queue_item list"] size by simp
  note f = restored_rows_facts [OF rr this]
  have q1: "q1 = q\<lparr>q_places := ?n\<rparr>" using f by simp
  have perm: "mset drawn = mset [0..<?n]" by (simp add: drawn_def res_in_play_order_def plays_in_perm)
  have len: "length drawn = ?n" using perm by (metis length_upt minus_nat.diff_0 size_mset)
  have land: "res_landing res < length drawn" if "drawn \<noteq> []"
    using that len by (cases "res_rows res") (auto simp: res_landing_def)
  have nok: "span_ok s \<and> span_last s < length drawn" if "nxt = Some s" for s
    using that span by (auto simp: nxt_def split: option.splits if_splits)
  note s = restored_split_facts [OF sp land nok]
  have both: "mset (order @ wait) = mset [0..<?n]" using s(1) perm by simp
  then have small: "i < ?n" if "i \<in> set (order @ wait)" for i
    using that by (metis atLeastLessThan_iff set_mset_mset set_upt)
  have named: "rows_named rows order = map ((!) rows) order" "rows_named rows wait = map ((!) rows) wait"
    "rows_named rows (sort order) = map ((!) rows) (sort order)"
    using small f by (auto intro!: rows_named_map)
  define q2 where "q2 = rows_moved (stamp_afresh (q\<lparr>q_places := ?n, q_ids := minting,
       q_shuffle := res_shuffle res,
       q_unshuffled := (if res_shuffle res then st_of (rows_named rows (sort order)) else st_empty),
       q_order := rows_named rows order, q_next := rows_named rows wait, q_after := after, q_seat := st\<rparr>))"
  have eq: "snd (restore H res q) = q2"
    using restore_eq [OF rr drawn_def [symmetric] sp [unfolded nxt_def] q1] by (simp add: q2_def Let_def)
  have rows: "mset (rows_of q2) = mset rows"
  proof -
    have "mset (rows_of q2) = mset (map ((!) rows) (order @ wait))"
      by (simp add: q2_def rows_of_def named)
    also have "\<dots> = mset (map ((!) rows) [0..<?n])" using both by (metis mset_map)
    also have "map ((!) rows) [0..<?n] = rows" using f by (metis map_nth)
    finally show ?thesis .
  qed
  have sets: "set (rows_of q2) = set rows" using rows by (metis set_mset_mset)
  have pl: "places_of rows = [0..<?n]" using f by simp
  have "places_ok q2"
  proof -
    have "distinct (places_of (rows_of q2))"
      using distinct_mset_eq [of "places_of (rows_of q2)" "places_of rows"] rows
      by (metis distinct_upt mset_map pl)
    moreover have "place h < ?n" if "h \<in> set (rows_of q2)" for h
    proof -
      have "place h \<in> set (places_of rows)" using that sets by simp
      then show ?thesis by (simp add: pl)
    qed
    ultimately show ?thesis by (simp add: places_ok_def q2_def)
  qed
  moreover have "ids_ok q2"
    using distinct_mset_eq [of "ids_of (rows_of q2)" "ids_of rows"] rows f sets
    by (simp add: ids_ok_def q2_def beside_def)
  moreover have len2: "length order + length wait = ?n" using both by (metis length_append length_upt minus_nat.diff_0 size_mset)
  have "stands_ok q2"
  proof (cases "res_shuffle res")
    case True
    let ?u = "map ((!) rows) (sort order)"
    have "distinct (places_of (q_order q2))" using \<open>places_ok q2\<close> by (simp add: places_ok_def rows_of_def)
    moreover have "mset (places_of ?u) = mset (places_of (q_order q2))"
      by (simp add: q2_def named mset_map [symmetric] del: mset_map map_map) (simp add: mset_sort)
    ultimately have "distinct (places_of ?u)" using distinct_mset_eq by metis
    moreover have "length ?u < u64_max" using len2 size by simp
    ultimately have "st_ok (st_of ?u)" "st_iter (st_of ?u) = ?u" by (rule st_of_ok)+
    then show ?thesis using True by (simp add: stands_ok_def q2_def named)
  qed (simp add: stands_ok_def q2_def)
  moreover have "stamps_ok q2" by (simp add: q2_def stamps_ok_def)
  moreover have "fits q2" using len2 size by (simp add: fits_def q_len_def q2_def named)
  moreover have "seat_ok q2"
  proof -
    have "order = [] \<and> wait = []" if "drawn = []" using that s(1) by simp
    then show ?thesis using s(2,3) by (auto simp: seat_ok_def q2_def named split: seat.splits)
  qed
  ultimately show ?thesis unfolding eq by (simp add: queue_ok_held held_ok_def)
qed

subsection \<open>Rows that leave\<close>

definition taken_at :: "'l held list \<Rightarrow> nat list \<Rightarrow> nat set" where
  "taken_at hs ats = (\<lambda>a. place (hs ! a)) ` set ats"

lemma taken_at_snoc: "taken_at hs (ats @ [a]) = insert (place (hs ! a)) (taken_at hs ats)"
  by (auto simp: taken_at_def)

lemma taken_at_vec_remove:
  assumes "\<And>b. b \<in> set ats \<Longrightarrow> b < a" and "a < length hs"
  shows "taken_at (vec_remove a hs) ats = taken_at hs ats"
  unfolding taken_at_def using assms by (intro image_cong) (auto simp: vec_remove_def nth_append)

lemma vec_remove_filter:
  assumes "distinct (places_of hs)" and "a < length hs"
  shows "vec_remove a hs = filter (\<lambda>h. place h \<noteq> place (hs ! a)) hs"
proof -
  have hs: "hs = take a hs @ hs ! a # drop (Suc a) hs" using assms(2) by (simp add: id_take_nth_drop)
  have d: "distinct (places_of (take a hs @ hs ! a # drop (Suc a) hs))" using assms(1) hs by simp
  then have "place (hs ! a) \<notin> set (places_of (take a hs))" "place (hs ! a) \<notin> set (places_of (drop (Suc a) hs))"
    by auto
  then have "\<forall>h\<in>set (take a hs). place h \<noteq> place (hs ! a)" "\<forall>h\<in>set (drop (Suc a) hs). place h \<noteq> place (hs ! a)"
    by (metis imageI list.set_map)+
  then have "filter (\<lambda>h. place h \<noteq> place (hs ! a)) (take a hs @ hs ! a # drop (Suc a) hs) = vec_remove a hs"
    by (simp add: vec_remove_def)
  then show ?thesis using hs by simp
qed

lemma vec_remove_all_filter:
  assumes "sorted_wrt (<) ats" and "distinct (places_of hs)" and "\<forall>a\<in>set ats. a < length hs"
  shows "fold vec_remove (rev ats) hs = filter (\<lambda>h. place h \<notin> taken_at hs ats) hs"
  using assms
proof (induction ats arbitrary: hs rule: rev_induct)
  case (snoc a ats)
  have lt: "b < a" if "b \<in> set ats" for b using snoc.prems(1) that by (simp add: sorted_wrt_append)
  let ?ks = "vec_remove a hs"
  have "\<forall>b\<in>set ats. b < length ?ks" using lt snoc.prems(3) by fastforce
  moreover have "distinct (places_of ?ks)"
    using snoc.prems(2,3) by (simp add: vec_remove_filter distinct_map_filter)
  ultimately have "fold vec_remove (rev ats) ?ks = filter (\<lambda>h. place h \<notin> taken_at ?ks ats) ?ks"
    using snoc.prems(1) by (intro snoc.IH) (simp_all add: sorted_wrt_append)
  moreover have "taken_at ?ks ats = taken_at hs ats"
    by (rule taken_at_vec_remove [OF lt]) (use snoc.prems(3) in auto)
  ultimately show ?case
    using snoc.prems(2,3) by (simp add: vec_remove_filter taken_at_snoc)
qed (simp add: taken_at_def)

text \<open>Dropping the rows at some positions of the order, or of the rows that wait.\<close>

definition counts_ok :: "'l queue \<Rightarrow> bool" where
  "counts_ok q \<longleftrightarrow> places_ok q \<and> ids_ok q \<and> stamps_ok q \<and> fits q"

lemma drop_from_order_ok:
  assumes "counts_ok q" and "a < length (q_order q)"
  shows "counts_ok (snd (drop_from_order a (d, q)))"
proof -
  let ?q = "snd (drop_from_order a (d, q))" and ?h = "q_order q ! a"
  have q': "?q = left WaitsInOrder ?h (q\<lparr>q_order := vec_remove a (q_order q)\<rparr>)"
    by (simp add: drop_from_order_def Let_def)
  have m: "add_mset ?h (mset (vec_remove a (q_order q))) = mset (q_order q)"
    by (rule mset_vec_remove_add [OF assms(2)])
  then have rows: "mset (rows_of q) = add_mset ?h (mset (rows_of ?q))"
    unfolding q' by (simp add: rows_of_def flip: m)
  note l = row_leaves [OF rows]
  have "mset (q_order q) = mset (?h # vec_remove a (q_order q))" using m by simp
  from stamped_mset [OF this] have "stamped (q_order q) = stamp ?h + stamped (vec_remove a (q_order q))" by simp
  then show ?thesis using assms(1) l by (simp add: counts_ok_def stamps_ok_def q')
qed

lemma drop_from_next_ok:
  assumes "counts_ok q" and "a < length (q_next q)"
  shows "counts_ok (snd (drop_from_next a (d, q)))"
proof -
  let ?q = "snd (drop_from_next a (d, q))" and ?h = "q_next q ! a"
  have q': "?q = left WaitsNext ?h (q\<lparr>q_next := vec_remove a (q_next q)\<rparr>)"
    by (simp add: drop_from_next_def Let_def)
  have m: "add_mset ?h (mset (vec_remove a (q_next q))) = mset (q_next q)"
    by (rule mset_vec_remove_add [OF assms(2)])
  then have rows: "mset (rows_of q) = add_mset ?h (mset (rows_of ?q))"
    unfolding q' by (simp add: rows_of_def flip: m)
  note l = row_leaves [OF rows]
  then show ?thesis using assms(1) l by (simp add: counts_ok_def stamps_ok_def q')
qed

text \<open>What dropping rows leaves alone.\<close>

definition untouched :: "'l queue \<Rightarrow> 'l queue \<Rightarrow> bool" where
  "untouched q q' \<longleftrightarrow> q_after q' = q_after q \<and> q_seat q' = q_seat q \<and> q_shuffle q' = q_shuffle q \<and>
     q_unshuffled q' = q_unshuffled q \<and> q_repeat q' = q_repeat q \<and> q_places q' = q_places q"

locale dropping =
  fixes rows :: "'l queue \<Rightarrow> 'l held list"
    and others :: "'l queue \<Rightarrow> 'l held list"
    and drop_at :: "nat \<Rightarrow> nat list \<times> 'l queue \<Rightarrow> nat list \<times> 'l queue"
  assumes drops: "rows (snd (drop_at a (d, q))) = vec_remove a (rows q)"
    and leaves: "others (snd (drop_at a (d, q))) = others q" "untouched q (snd (drop_at a (d, q)))"
    and noted: "fst (drop_at a (d, q)) = place (rows q ! a) # d"
    and keeps: "counts_ok q \<Longrightarrow> a < length (rows q) \<Longrightarrow> counts_ok (snd (drop_at a (d, q)))"
begin

lemma drop_all:
  assumes "sorted_wrt (<) ats" and "\<forall>a\<in>set ats. a < length (rows q)" and "counts_ok q"
    and "fold drop_at (rev ats) (d, q) = (e, p)"
  shows "counts_ok p \<and> rows p = fold vec_remove (rev ats) (rows q) \<and> others p = others q \<and>
    untouched q p \<and> set e = set d \<union> taken_at (rows q) ats"
  using assms
proof (induction ats arbitrary: d q rule: rev_induct)
  case (snoc a ats)
  have lt: "b < a" if "b \<in> set ats" for b using snoc.prems(1) that by (simp add: sorted_wrt_append)
  obtain d1 q1 where dq: "drop_at a (d, q) = (d1, q1)" by fastforce
  note one = drops [where a = a and d = d and q = q] leaves [where a = a and d = d and q = q] noted [where a = a and d = d and q = q]
  have "counts_ok q1" using keeps [OF snoc.prems(3), where a = a and d = d] snoc.prems(2) dq by simp
  moreover have "\<forall>b\<in>set ats. b < length (rows q1)" using lt snoc.prems(2) one(1) dq by fastforce
  moreover have "fold drop_at (rev ats) (d1, q1) = (e, p)" using snoc.prems(4) dq by simp
  ultimately have IH: "counts_ok p \<and> rows p = fold vec_remove (rev ats) (rows q1) \<and> others p = others q1 \<and>
    untouched q1 p \<and> set e = set d1 \<union> taken_at (rows q1) ats"
    using snoc.prems(1) by (intro snoc.IH) (simp_all add: sorted_wrt_append)
  moreover have "taken_at (vec_remove a (rows q)) ats = taken_at (rows q) ats"
    by (rule taken_at_vec_remove [OF lt]) (use snoc.prems(2) in auto)
  ultimately show ?case using one dq by (simp add: untouched_def taken_at_snoc insert_commute)
qed (simp_all add: taken_at_def untouched_def)

end

interpretation order_drops: dropping q_order q_next drop_from_order
proof
  fix a d and q :: "'l queue"
  show "counts_ok q \<Longrightarrow> a < length (q_order q) \<Longrightarrow> counts_ok (snd (drop_from_order a (d, q)))"
    by (rule drop_from_order_ok)
qed (simp_all add: drop_from_order_def Let_def untouched_def)

interpretation next_drops: dropping q_next q_order drop_from_next
proof
  fix a d and q :: "'l queue"
  show "counts_ok q \<Longrightarrow> a < length (q_next q) \<Longrightarrow> counts_ok (snd (drop_from_next a (d, q)))"
    by (rule drop_from_next_ok)
qed (simp_all add: drop_from_next_def Let_def untouched_def)

lemma sorted_remdups_sort: "sorted_wrt (<) (remdups (sort xs :: nat list))"
  by (simp add: strict_sorted_iff)

text \<open>What a removal does, in one step: the rows chosen are dropped wherever they wait.\<close>

definition chosen_places :: "span list \<Rightarrow> 'l queue \<Rightarrow> nat set" where
  "chosen_places runs q = {place (in_play_order q ! r) |r. r < q_len q \<and> (\<exists>s\<in>set runs. span_holds s r)}"

lemma in_play_order_nth:
  assumes "seat_ok q"
  shows "length (in_play_order q) = q_len q"
    and "row_at r q = Some (RowInOrder i) \<Longrightarrow> in_play_order q ! r = q_order q ! i"
    and "row_at r q = Some (RowNext i) \<Longrightarrow> in_play_order q ! r = q_next q ! i"
  using assms
  by (auto simp: in_play_order_def row_at_def seat_ok_def q_len_def nth_append Let_def split: if_splits)

definition is_chosen :: "span list \<Rightarrow> nat \<Rightarrow> bool" where
  "is_chosen runs r \<longleftrightarrow> list_ex (\<lambda>s. span_holds s r) runs"

lemma rows_in_set:
  "set (rows_in runs q) = {w. \<exists>r. is_chosen runs r \<and> row_at r q = Some w}"
  by (force simp: rows_in_def is_chosen_def list_ex_iff set_map_filter set_span_range)

lemma order_positions_set:
  "set (positions_of order_position rs) = {i. RowInOrder i \<in> set rs}"
proof -
  have "order_position r = Some i \<longleftrightarrow> r = RowInOrder i" for r i
    by (cases r) (simp_all add: order_position_def)
  then show ?thesis by (auto simp: positions_of_def set_map_filter)
qed

lemma next_positions_set:
  "set (positions_of next_position rs) = {i. RowNext i \<in> set rs}"
proof -
  have "next_position r = Some i \<longleftrightarrow> r = RowNext i" for r i
    by (cases r) (simp_all add: next_position_def)
  then show ?thesis by (auto simp: positions_of_def set_map_filter)
qed

lemma positions_sorted: "sorted_wrt (<) (positions_of pick rs)"
  by (simp add: positions_of_def sorted_remdups_sort)

lemma chosen_places_split:
  assumes "seat_ok q"
  shows "chosen_places runs q =
    taken_at (q_order q) (positions_of order_position (rows_in runs q)) \<union>
    taken_at (q_next q) (positions_of next_position (rows_in runs q))"
proof -
  note nth = in_play_order_nth [OF assms] and at = row_at_facts [OF assms]
  have "p \<in> chosen_places runs q \<longleftrightarrow>
    (\<exists>r w. is_chosen runs r \<and> row_at r q = Some w \<and> p = place (in_play_order q ! r))" for p
    using at(1) by (auto simp: chosen_places_def is_chosen_def list_ex_iff) (metis leD option.exhaust, metis leI option.distinct(1))
  moreover have "(\<exists>r w. is_chosen runs r \<and> row_at r q = Some w \<and> p = place (in_play_order q ! r)) \<longleftrightarrow>
    (\<exists>r i. is_chosen runs r \<and> row_at r q = Some (RowInOrder i) \<and> p = place (q_order q ! i)) \<or>
    (\<exists>r i. is_chosen runs r \<and> row_at r q = Some (RowNext i) \<and> p = place (q_next q ! i))" for p
    using nth(2,3) by (metis row.exhaust)
  ultimately show ?thesis
    unfolding taken_at_def order_positions_set next_positions_set rows_in_set by blast
qed

definition keep_rows :: "nat set \<Rightarrow> 'l held list \<Rightarrow> 'l held list" where
  "keep_rows gone hs = filter (\<lambda>h. place h \<notin> gone) hs"

lemma taken_apart:
  assumes "places_ok q" and "\<forall>a\<in>set is. a < length (q_order q)" and "\<forall>a\<in>set js. a < length (q_next q)"
  shows "filter (\<lambda>h. place h \<notin> taken_at (q_order q) is) (q_order q)
      = keep_rows (taken_at (q_order q) is \<union> taken_at (q_next q) js) (q_order q)"
    and "filter (\<lambda>h. place h \<notin> taken_at (q_next q) js) (q_next q)
      = keep_rows (taken_at (q_order q) is \<union> taken_at (q_next q) js) (q_next q)"
proof -
  have "place h \<noteq> place k" if "h \<in> set (q_order q)" "k \<in> set (q_next q)" for h k
    using assms(1) that by (auto simp: places_ok_def rows_of_def)
  then show "filter (\<lambda>h. place h \<notin> taken_at (q_order q) is) (q_order q)
      = keep_rows (taken_at (q_order q) is \<union> taken_at (q_next q) js) (q_order q)"
    "filter (\<lambda>h. place h \<notin> taken_at (q_next q) js) (q_next q)
      = keep_rows (taken_at (q_order q) is \<union> taken_at (q_next q) js) (q_next q)"
    using assms(2,3) by (auto simp: keep_rows_def taken_at_def intro!: filter_cong) (metis nth_mem)+
qed

text \<open>How many of the rows already heard are dropped.\<close>

lemma kept_before:
  assumes "sorted_wrt (<) ats" and "distinct (places_of hs)" and "\<forall>a\<in>set ats. a < length hs" and "n \<le> length hs"
  shows "n - length (filter (\<lambda>a. a < n) ats) = length (filter (\<lambda>h. place h \<notin> taken_at hs ats) (take n hs))"
proof -
  have "\<exists>a. h = hs ! a \<and> a < n" if "h \<in> set (take n hs)" for h
    using that by (auto simp: in_set_conv_nth)
  have eq: "filter (\<lambda>h. place h \<in> taken_at hs ats) (take n hs) = map ((!) hs) (filter (\<lambda>a. a \<in> set ats) [0..<n])"
  proof -
    have "take n hs = map ((!) hs) [0..<n]" using assms(4) by (rule take_nths)
    moreover have same: "place (hs ! i) \<in> taken_at hs ats \<longleftrightarrow> i \<in> set ats" if "i < n" for i
      using that assms(2-4) by (auto simp: taken_at_def distinct_conv_nth) (metis less_le_trans)
    have "filter (\<lambda>i. place (hs ! i) \<in> taken_at hs ats) [0..<n] = filter (\<lambda>a. a \<in> set ats) [0..<n]"
      using same by (intro filter_cong) simp_all
    ultimately show ?thesis by (simp add: filter_map comp_def)
  qed
  have "length (filter (\<lambda>a. a \<in> set ats) [0..<n]) = card (set ats \<inter> {..<n})"
  proof -
    have "length (filter (\<lambda>a. a \<in> set ats) [0..<n]) = card (set (filter (\<lambda>a. a \<in> set ats) [0..<n]))"
      by (simp only: distinct_card distinct_filter distinct_upt)
    moreover have "set (filter (\<lambda>a. a \<in> set ats) [0..<n]) = set ats \<inter> {..<n}" by auto
    ultimately show ?thesis by simp
  qed
  moreover have "length (filter (\<lambda>a. a < n) ats) = card (set ats \<inter> {..<n})"
  proof -
    have "distinct ats" using assms(1) strict_sorted_iff by blast
    then have "length (filter (\<lambda>a. a < n) ats) = card (set (filter (\<lambda>a. a < n) ats))"
      by (simp only: distinct_card distinct_filter)
    moreover have "set (filter (\<lambda>a. a < n) ats) = set ats \<inter> {..<n}" by auto
    ultimately show ?thesis by simp
  qed
  moreover have "length (filter (\<lambda>h. place h \<in> taken_at hs ats) (take n hs)) +
      length (filter (\<lambda>h. place h \<notin> taken_at hs ats) (take n hs)) = n"
    using sum_length_filter_compl [of "\<lambda>h. place h \<in> taken_at hs ats" "take n hs"] assms(4) by simp
  ultimately show ?thesis using eq by simp
qed

lemma remove_empty [simp]: "fold st_remove ps st_empty = st_empty"
  by (induction ps) (simp_all add: st_remove_def st_empty_def)

lemma find_None_iff_all: "find P xs = None \<longleftrightarrow> (\<forall>x\<in>set xs. \<not> P x)"
  by (induction xs) auto

lemma remove_all_gives:
  assumes ok: "queue_ok q" and within: "\<forall>s\<in>set runs. span_last s < q_len q"
  defines "gone \<equiv> chosen_places runs q"
  obtains p where "remove_all runs q =
      (if (case heard_place q of Some h \<Rightarrow> h \<in> gone | None \<Rightarrow> False) then (Inr Playing, hand_on p) else (Inr Queued, p))"
    and "held_ok p" and "q_order p = keep_rows gone (q_order q)" and "q_next p = keep_rows gone (q_next q)"
    and "q_after p = length (keep_rows gone (take (q_after q) (q_order q)))"
    and "q_seat p = q_seat q" and "q_repeat p = q_repeat q" and "q_shuffle p = q_shuffle q"
proof -
  have seat: "seat_ok q" and counts: "counts_ok q" and places: "places_ok q" and stands: "stands_ok q"
    using ok by (simp_all add: queue_ok_def counts_ok_def)
  let ?is = "positions_of order_position (rows_in runs q)" and ?js = "positions_of next_position (rows_in runs q)"
  have is_small: "\<forall>a\<in>set ?is. a < length (q_order q)" and js_small: "\<forall>a\<in>set ?js. a < length (q_next q)"
    using row_at_facts(2,3) [OF seat] unfolding order_positions_set next_positions_set rows_in_set by blast+
  obtain d1 q1 where s1: "fold drop_from_order (rev ?is) ([], q) = (d1, q1)" by fastforce
  note f1 = order_drops.drop_all [OF positions_sorted is_small counts s1]
  then have counts1: "counts_ok q1" and js1: "\<forall>a\<in>set ?js. a < length (q_next q1)" using js_small by simp_all
  obtain d2 q2 where s2: "fold drop_from_next (rev ?js) (d1, q1) = (d2, q2)" by fastforce
  note f2 = next_drops.drop_all [OF positions_sorted js1 counts1 s2]
  have d2: "set d2 = gone"
    using f1 f2 chosen_places_split [OF seat, of runs] by (simp add: gone_def)
  have dist: "distinct (places_of (q_order q))" "distinct (places_of (q_next q))"
    using places by (simp_all add: places_ok_def rows_of_def)
  note apart = taken_apart [OF places is_small js_small, folded chosen_places_split [OF seat] gone_def]
  have order2: "q_order q2 = keep_rows gone (q_order q)"
    using f1 f2 vec_remove_all_filter [OF positions_sorted dist(1) is_small] apart(1) by simp
  have next2: "q_next q2 = keep_rows gone (q_next q)"
    using f1 f2 vec_remove_all_filter [OF positions_sorted dist(2) js_small] apart(2) by simp
  have le: "q_after q \<le> length (q_order q)" using seat by (simp add: seat_ok_def)
  have "length (filter (\<lambda>h. place h \<notin> taken_at (q_order q) ?is) (take (q_after q) (q_order q)))
      = length (keep_rows gone (take (q_after q) (q_order q)))"
  proof -
    have "place h \<in> gone \<longleftrightarrow> place h \<in> taken_at (q_order q) ?is" if "h \<in> set (q_order q)" for h
    proof -
      have "place h \<noteq> place k" if "k \<in> set (q_next q)" for k
        using places that \<open>h \<in> set (q_order q)\<close> by (auto simp: places_ok_def rows_of_def)
      then have "place h \<notin> taken_at (q_next q) ?js"
        using js_small by (auto simp: taken_at_def) (metis nth_mem)
      then show ?thesis using chosen_places_split [OF seat, of runs] by (simp add: gone_def)
    qed
    then have "filter (\<lambda>h. place h \<notin> taken_at (q_order q) ?is) (take (q_after q) (q_order q))
        = keep_rows gone (take (q_after q) (q_order q))"
      unfolding keep_rows_def by (intro filter_cong) (auto dest: in_set_takeD)
    then show ?thesis by simp
  qed
  then have after: "q_after q - length (filter (\<lambda>a. a < q_after q) ?is)
      = length (keep_rows gone (take (q_after q) (q_order q)))"
    using kept_before [OF positions_sorted dist(1) is_small le] by simp
  define p where "p = rows_moved (q2\<lparr>q_unshuffled := fold st_remove d2 (q_unshuffled q2),
      q_after := q_after q2 - length (filter (\<lambda>a. a < q_after q) ?is)\<rparr>)"
  have u: "untouched q q2" using f1 f2 by (simp add: untouched_def)
  have stands2: "stands_ok p"
  proof (cases "q_shuffle q")
    case True
    then have st: "st_ok (q_unshuffled q)" "mset (st_iter (q_unshuffled q)) = mset (q_order q)"
      using stands by (simp_all add: stands_ok_def)
    have "mset (keep_rows gone (st_iter (q_unshuffled q))) = mset (keep_rows gone (q_order q))"
      using st(2) by (simp add: keep_rows_def)
    then show ?thesis
      using True u order2 standing_rows.give_up_places [OF st(1), of d2]
      by (simp add: stands_ok_def p_def untouched_def d2 keep_rows_def)
  next
    case False
    then show ?thesis using stands u by (simp add: stands_ok_def p_def untouched_def)
  qed
  have "counts_ok q2" using f2 by simp
  then have "held_ok p"
    using stands2 by (simp add: held_ok_def counts_ok_def p_def places_ok_def ids_ok_def stamps_ok_def fits_def q_len_def)
  moreover have "q_order p = keep_rows gone (q_order q)" "q_next p = keep_rows gone (q_next q)"
    by (simp_all add: p_def order2 next2)
  moreover have "q_after p = length (keep_rows gone (take (q_after q) (q_order q)))"
    using u after by (simp add: p_def untouched_def)
  moreover have "q_seat p = q_seat q" "q_repeat p = q_repeat q" "q_shuffle p = q_shuffle q"
    using u by (simp_all add: p_def untouched_def)
  moreover have "find (\<lambda>rows. span_last rows \<ge> q_len q) runs = None"
    using within by (simp add: find_None_iff_all not_le)
  then have "remove_all runs q =
      (if (case heard_place q of Some h \<Rightarrow> h \<in> gone | None \<Rightarrow> False) then (Inr Playing, hand_on p) else (Inr Queued, p))"
    by (cases "heard_place q") (simp_all add: remove_all_def Let_def s1 s2 p_def d2)
  ultimately show thesis by (rule that [rotated 1])
qed

lemma remove_all_outside:
  "\<exists>s\<in>set runs. q_len q \<le> span_last s \<Longrightarrow> \<exists>s\<in>set runs. remove_all runs q = (Inl s, q) \<and> q_len q \<le> span_last s"
proof -
  assume "\<exists>s\<in>set runs. q_len q \<le> span_last s"
  then obtain s where "find (\<lambda>rows. span_last rows \<ge> q_len q) runs = Some s"
    by (metis find_None_iff_all not_None_eq)
  moreover from this have "s \<in> set runs" "q_len q \<le> span_last s" by (auto simp: find_Some_iff)
  ultimately show ?thesis by (intro bexI [of _ s]) (simp_all add: remove_all_def)
qed

lemma keep_rows_le: "length (keep_rows gone (take n hs)) \<le> length (keep_rows gone hs)"
proof -
  have "keep_rows gone hs = keep_rows gone (take n hs) @ keep_rows gone (drop n hs)"
    by (simp add: keep_rows_def flip: filter_append)
  then show ?thesis by simp
qed

lemma remove_all_ok:
  assumes ok: "queue_ok q"
  shows "queue_ok (snd (remove_all runs q))"
proof (cases "\<exists>s\<in>set runs. q_len q \<le> span_last s")
  case True
  then show ?thesis using remove_all_outside [OF True] ok by auto
next
  case False
  then have within: "\<forall>s\<in>set runs. span_last s < q_len q" by auto
  obtain p where p: "remove_all runs q =
      (if (case heard_place q of Some h \<Rightarrow> h \<in> chosen_places runs q | None \<Rightarrow> False)
       then (Inr Playing, hand_on p) else (Inr Queued, p))"
    "held_ok p" "q_order p = keep_rows (chosen_places runs q) (q_order q)"
    "q_next p = keep_rows (chosen_places runs q) (q_next q)"
    "q_after p = length (keep_rows (chosen_places runs q) (take (q_after q) (q_order q)))"
    "q_seat p = q_seat q"
    by (rule remove_all_gives [OF ok within])
  have le: "q_after p \<le> length (q_order p)" by (simp add: p keep_rows_le)
  show ?thesis
  proof (cases "case heard_place q of Some h \<Rightarrow> h \<in> chosen_places runs q | None \<Rightarrow> False")
    case True
    then show ?thesis using p(1) hand_on_ok [OF p(2) le] by simp
  next
    case heard_stays: False
    have seat: "seat_ok q" using ok by (simp add: queue_ok_def)
    from seat have "seat_ok p"
    proof (cases rule: seat_cases)
      case nowhere
      then show ?thesis by (simp add: seat_ok_def p keep_rows_def)
    next
      case (in_order a)
      then have "place (q_order q ! a) \<notin> chosen_places runs q"
        using heard_stays by (simp add: heard_place_def)
      moreover have "q_order q ! a \<in> set (take (q_after q) (q_order q))"
        using in_order by (auto simp: take_Suc_conv_app_nth)
      ultimately have "keep_rows (chosen_places runs q) (take (q_after q) (q_order q)) \<noteq> []"
        by (auto simp: keep_rows_def filter_empty_conv)
      then show ?thesis using in_order le by (simp add: seat_ok_def p)
    next
      case (queued h hs)
      then show ?thesis using heard_stays le by (simp add: seat_ok_def p keep_rows_def heard_place_def)
    qed
    then show ?thesis using heard_stays p(1,2) by (simp add: queue_ok_held)
  qed
qed

lemma remove_rows_ok: "queue_ok q \<Longrightarrow> queue_ok (snd (remove_rows rows q))"
  using remove_all_ok [of q "[rows]"] by (auto simp: remove_rows_def split: prod.splits sum.splits)

subsection \<open>Rows that are found elsewhere\<close>

lemma relocate_held_simps [simp]:
  "place (relocate_held moved h) = place h" "stamp (relocate_held moved h) = stamp h"
  "item_id (item (relocate_held moved h)) = item_id (item h)"
  by (simp_all add: relocate_held_def split: option.split)

lemma stamped_relocate [simp]: "stamped (map (relocate_held moved) hs) = stamped hs"
  by (simp add: stamped_sum comp_def)

lemma relocated_in_none: "\<not> relocated_in moved hs \<Longrightarrow> map (relocate_held moved) hs = hs"
  by (induction hs) (auto simp: relocated_in_def relocate_held_def split: option.splits)

lemma relocate_ok:
  assumes "queue_ok q"
  shows "queue_ok (snd (relocate moved q))"
proof (cases "relocated_in moved (q_order q) \<or> relocated_in moved (q_next q)")
  case False
  then have "snd (relocate moved q) = q" by (simp add: relocate_def Let_def relocated_in_none)
  then show ?thesis using assms by simp
next
  case True
  let ?q = "snd (relocate moved q)"
  have eq: "?q = q\<lparr>q_order := map (relocate_held moved) (q_order q),
        q_next := map (relocate_held moved) (q_next q),
        q_unshuffled := st_relocate moved (q_unshuffled q), q_revision := q_revision q + 1\<rparr>"
    using True by (simp add: relocate_def Let_def)
  have rows: "rows_of ?q = map (relocate_held moved) (rows_of q)" by (simp add: eq rows_of_def)
  have "places_of (rows_of ?q) = places_of (rows_of q)" "ids_of (rows_of ?q) = ids_of (rows_of q)"
    unfolding rows by (simp_all add: comp_def)
  moreover have "stands_ok ?q"
  proof (cases "q_shuffle q")
    case True
    then show ?thesis using assms st_relocate_lands [of "q_unshuffled q" moved]
      by (simp add: queue_ok_def stands_ok_def eq)
  next
    case False
    then show ?thesis using assms by (simp add: queue_ok_def stands_ok_def eq st_relocate_def st_empty_def)
  qed
  moreover have "\<forall>h\<in>set (rows_of ?q). place h < q_places q"
    using assms unfolding rows by (auto simp: queue_ok_def places_ok_def)
  moreover have "seat_ok ?q" using assms by (simp add: queue_ok_def seat_ok_def eq split: seat.splits)
  moreover have "q_stamp ?q = stamped (rows_of ?q)" "q_playing_from ?q = stamped (q_order ?q)"
    using assms unfolding rows by (simp_all add: queue_ok_def stamps_ok_def eq)
  moreover have "q_places ?q = q_places q" "q_ids ?q = q_ids q" "q_len ?q = q_len q"
    by (simp_all add: eq q_len_def)
  ultimately show ?thesis using assms
    by (simp add: queue_ok_def places_ok_def ids_ok_def stamps_ok_def fits_def)
qed

subsection \<open>The standing order follows the playing order\<close>

lemma st_insert_Nil [simp]: "st_insert anc [] s = s"
  by (simp add: st_insert_def)

lemma st_remove_absent: "st_ok s \<Longrightarrow> p \<notin> set (places_of (st_iter s)) \<Longrightarrow> st_remove p s = s"
  using standing_rows.has_iff [of s p] by (simp add: st_remove_def st_contains_def)

lemma remove_absent_all:
  "st_ok s \<Longrightarrow> set (places_of hs) \<inter> set (places_of (st_iter s)) = {} \<Longrightarrow>
     fold (\<lambda>h. st_remove (place h)) hs s = s"
  by (induction hs) (auto simp: st_remove_absent)

lemma unshuffled_from_all_there:
  "\<forall>a\<in>set ats. a < length order \<and> st_contains (place (order ! a)) s \<Longrightarrow>
     unshuffled_from order ats anc [] s = s"
  by (induction ats arbitrary: anc) auto

lemma put_one_more:
  assumes "st_ok s" and "distinct (places_of run)" and "set (places_of run) \<inter> set (places_of (st_iter s)) = {}"
    and "length (st_iter s) + length run < u64_max"
  shows "st_ok (st_insert anc run s)" "mset (st_iter (st_insert anc run s)) = mset run + mset (st_iter s)"
    "set (places_of (st_iter (st_insert anc run s))) = set (places_of run) \<union> set (places_of (st_iter s))"
    "st_contains p (st_insert anc run s) \<longleftrightarrow> p \<in> set (places_of run) \<or> st_contains p s"
    "length (st_iter (st_insert anc run s)) = length run + length (st_iter s)"
proof -
  show ok: "st_ok (st_insert anc run s)" by (rule standing_rows.put_keeps [OF assms])
  show m: "mset (st_iter (st_insert anc run s)) = mset run + mset (st_iter s)"
    and p: "set (places_of (st_iter (st_insert anc run s))) = set (places_of run) \<union> set (places_of (st_iter s))"
    by (fact standing_rows.put_places [OF assms])+
  show "st_contains p (st_insert anc run s) \<longleftrightarrow> p \<in> set (places_of run) \<or> st_contains p s"
    unfolding st_contains_iff [OF ok] st_contains_iff [OF assms(1)] p by blast
  have "mset (st_iter (st_insert anc run s)) = mset (run @ st_iter s)" using m by simp
  then show "length (st_iter (st_insert anc run s)) = length run + length (st_iter s)"
    by (metis length_append size_mset)
qed

lemma unshuffled_from_puts:
  assumes "st_ok s" and "\<forall>a\<in>set ats. a < length order"
    and "distinct (places_of (absent @ map ((!) order) ats))"
    and "set (places_of absent) \<inter> set (places_of (st_iter s)) = {}"
    and "length (st_iter s) + length absent +
      length (filter (\<lambda>h. \<not> st_contains (place h) s) (map ((!) order) ats)) < u64_max"
  shows "st_ok (unshuffled_from order ats anc absent s) \<and>
    mset (st_iter (unshuffled_from order ats anc absent s)) =
      mset (st_iter s) + mset absent + mset (filter (\<lambda>h. \<not> st_contains (place h) s) (map ((!) order) ats))"
  using assms
proof (induction ats arbitrary: anc absent s)
  case Nil
  then show ?case using put_one_more [where s = s and run = absent and anc = anc] by simp
next
  case (Cons a ats)
  let ?h = "order ! a" and ?rest = "map ((!) order) ats"
  have get: "get order a = Some ?h" using Cons.prems(2) by simp
  have d: "distinct (places_of absent)" "place ?h \<notin> set (places_of absent)" "distinct (places_of ?rest)"
    "set (places_of absent) \<inter> set (places_of ?rest) = {}" "place ?h \<notin> set (places_of ?rest)"
    using Cons.prems(3) by auto
  have len: "length (st_iter s) + length absent < u64_max" using Cons.prems(5) by simp
  note put = put_one_more [OF Cons.prems(1) d(1) Cons.prems(4) len]
  have same: "filter (\<lambda>h. \<not> st_contains (place h) t) ?rest = filter (\<lambda>h. \<not> st_contains (place h) s) ?rest"
    if "\<And>p. st_contains p t \<longleftrightarrow> p \<in> X \<or> st_contains p s" "X \<inter> set (places_of ?rest) = {}" for t X
    using that by (intro filter_cong) (auto simp: image_iff)
  show ?case
  proof (cases "st_contains (place ?h) s")
    case True
    let ?t = "st_insert anc absent s"
    have "filter (\<lambda>h. \<not> st_contains (place h) ?t) ?rest = filter (\<lambda>h. \<not> st_contains (place h) s) ?rest"
      by (rule same [OF put(4) d(4)])
    moreover from this have "st_ok (unshuffled_from order ats anc [] ?t) \<and>
      mset (st_iter (unshuffled_from order ats anc [] ?t)) =
        mset (st_iter ?t) + mset [] + mset (filter (\<lambda>h. \<not> st_contains (place h) ?t) ?rest)"
      using put Cons.prems(2,5) d True by (intro Cons.IH) auto
    ultimately show ?thesis using True get put(2) by (simp add: ac_simps)
  next
    case False
    then have out: "place ?h \<notin> set (places_of (st_iter s))" using st_contains_iff [OF Cons.prems(1)] by blast
    show ?thesis
    proof (cases "Some a = checked_sub (length order) 1")
      case True
      let ?t = "st_insert anc absent s" and ?anc = "if a = 0 then Front else Back"
      let ?u = "st_insert ?anc [?h] ?t"
      have "set (places_of [?h]) \<inter> set (places_of (st_iter ?t)) = {}" using put(3) d(2) out by simp
      moreover have "length (st_iter ?t) + length [?h] < u64_max" using put(5) Cons.prems(5) False by simp
      ultimately have put2: "st_ok ?u" "mset (st_iter ?u) = mset [?h] + mset (st_iter ?t)"
        "set (places_of (st_iter ?u)) = set (places_of [?h]) \<union> set (places_of (st_iter ?t))"
        "\<And>p. st_contains p ?u \<longleftrightarrow> p \<in> set (places_of [?h]) \<or> st_contains p ?t"
        "length (st_iter ?u) = length [?h] + length (st_iter ?t)"
        using put_one_more [OF put(1), where run = "[?h]" and anc = ?anc] by simp_all
      have "filter (\<lambda>h. \<not> st_contains (place h) ?u) ?rest = filter (\<lambda>h. \<not> st_contains (place h) s) ?rest"
        by (rule same [of ?u "insert (place ?h) (set (places_of absent))"]) (use put2(4) put(4) d in auto)
      moreover from this have "st_ok (unshuffled_from order ats anc [] ?u) \<and>
        mset (st_iter (unshuffled_from order ats anc [] ?u)) =
          mset (st_iter ?u) + mset [] + mset (filter (\<lambda>h. \<not> st_contains (place h) ?u) ?rest)"
        using put put2 Cons.prems(2,5) d False by (intro Cons.IH) auto
      ultimately show ?thesis using False True get put(2) put2(2) by (simp add: ac_simps)
    next
      case more: False
      let ?anc = "if absent = [] then after_before a order else anc"
      have "st_ok (unshuffled_from order ats ?anc (absent @ [?h]) s) \<and>
        mset (st_iter (unshuffled_from order ats ?anc (absent @ [?h]) s)) =
          mset (st_iter s) + mset (absent @ [?h]) + mset (filter (\<lambda>h. \<not> st_contains (place h) s) ?rest)"
        using Cons.prems d out False by (intro Cons.IH) auto
      then show ?thesis using False more get by (simp add: ac_simps)
    qed
  qed
qed

subsection \<open>Reordering\<close>

lemma in_play_order_mset: "mset (in_play_order q) = mset (rows_of q)"
proof -
  let ?a = "min (q_after q) (length (q_order q))"
  have "mset (take ?a (q_order q)) + mset (drop ?a (q_order q)) = mset (q_order q)"
    by (metis append_take_drop_id mset_append)
  then show ?thesis by (simp add: in_play_order_def rows_of_def Let_def ac_simps)
qed

lemma in_play_order_set: "set (in_play_order q) = set (rows_of q)"
  by (metis in_play_order_mset set_mset_mset)

lemma map_filter_get:
  "\<forall>i\<in>set is. i < length xs \<Longrightarrow> List.map_filter (get xs) is = map ((!) xs) is"
  by (induction "is") (simp_all add: List.map_filter_simps)

lemma names_once_perm:
  assumes "names_once (replicate (length is) False) is"
  shows "mset is = mset [0..<length is]" "\<forall>i\<in>set is. i < length is"
proof -
  have "plays_in is (length is) = is" using assms by (simp add: plays_in_def)
  then show m: "mset is = mset [0..<length is]" using plays_in_perm [of "is" "length is"] by simp
  show "\<forall>i\<in>set is. i < length is" using m by (metis atLeastLessThan_iff set_mset_mset set_upt)
qed

lemma mset_map_nth:
  "mset is = mset [0..<length xs] \<Longrightarrow> mset (map ((!) xs) is) = mset xs"
  by (metis map_nth mset_map)

lemma flagged_rows: "seat_ok q \<Longrightarrow> map fst (flagged q) = in_play_order q"
  by (simp add: flagged_def in_play_order_def Let_def comp_def)

lemma flagged_mset:
  assumes "seat_ok q"
  shows "mset (flagged q) = mset (map (\<lambda>h. (h, WaitsInOrder)) (q_order q)) + mset (map (\<lambda>h. (h, WaitsNext)) (q_next q))"
proof -
  let ?a = "min (q_after q) (length (q_order q))"
  have "mset (map (\<lambda>h. (h, WaitsInOrder)) (take ?a (q_order q))) + mset (map (\<lambda>h. (h, WaitsInOrder)) (drop ?a (q_order q)))
      = mset (map (\<lambda>h. (h, WaitsInOrder)) (q_order q))"
    by (metis append_take_drop_id map_append mset_append)
  then show ?thesis by (simp add: flagged_def Let_def ac_simps)
qed

text \<open>Where each row goes when the rows are parted again.\<close>

definition goes_in_order :: "seat \<Rightarrow> nat option \<Rightarrow> 'l held \<times> waits \<Rightarrow> bool" where
  "goes_in_order seated heard_at hw \<longleftrightarrow>
     (if Some (place (fst hw)) = heard_at then seated \<noteq> SeatNext else snd hw = WaitsInOrder)"

lemma parted_rows:
  "mset (pt_order (fold (part st h) drawn p)) = mset (pt_order p) + mset (map fst (filter (goes_in_order st h) drawn)) \<and>
   mset (pt_next (fold (part st h) drawn p)) = mset (pt_next p) + mset (map fst (filter (\<lambda>d. \<not> goes_in_order st h d) drawn))"
proof (induction drawn arbitrary: p)
  case (Cons d drawn)
  obtain k w where d: "d = (k, w)" by fastforce
  have w: "w \<noteq> WaitsNext \<longleftrightarrow> w = WaitsInOrder" by (cases w) simp_all
  show ?case
    using Cons.IH [of "part st h d p"] w by (auto simp: part_def goes_in_order_def d Let_def)
qed simp

lemma parted_seat:
  fixes h :: "nat option" and drawn :: "('l held \<times> waits) list" and p :: "'l parting"
  assumes "case pt_after p of None \<Rightarrow> True | Some a \<Rightarrow> a \<le> length (pt_order p) \<and> (st \<noteq> SeatNext \<longrightarrow> 0 < a)"
    and "st = SeatNext \<Longrightarrow> pt_after p \<noteq> None \<Longrightarrow> pt_next p \<noteq> []"
  defines "r \<equiv> fold (part st h) drawn p"
  shows "case pt_after r of None \<Rightarrow> True | Some a \<Rightarrow> a \<le> length (pt_order r) \<and> (st \<noteq> SeatNext \<longrightarrow> 0 < a)"
    and "st = SeatNext \<Longrightarrow> pt_after r \<noteq> None \<Longrightarrow> pt_next r \<noteq> []"
    and "pt_after p \<noteq> None \<or> h \<in> Some ` place ` set (map fst drawn) \<Longrightarrow> pt_after r \<noteq> None"
proof -
  have "(case pt_after r of None \<Rightarrow> True | Some a \<Rightarrow> a \<le> length (pt_order r) \<and> (st \<noteq> SeatNext \<longrightarrow> 0 < a)) \<and>
    (st = SeatNext \<longrightarrow> pt_after r \<noteq> None \<longrightarrow> pt_next r \<noteq> []) \<and>
    (pt_after p \<noteq> None \<or> h \<in> Some ` place ` set (map fst drawn) \<longrightarrow> pt_after r \<noteq> None)"
    using assms(1,2) unfolding r_def
  proof (induction drawn arbitrary: p)
    case (Cons d drawn)
    obtain k w where d: "d = (k, w)" by fastforce
    let ?p = "part st h d p"
    have a: "case pt_after ?p of None \<Rightarrow> True | Some a \<Rightarrow> a \<le> length (pt_order ?p) \<and> (st \<noteq> SeatNext \<longrightarrow> 0 < a)"
      using Cons.prems(1) by (auto simp: part_def d Let_def split: option.splits)
    have b: "st = SeatNext \<Longrightarrow> pt_after ?p \<noteq> None \<Longrightarrow> pt_next ?p \<noteq> []"
      using Cons.prems(2) by (auto simp: part_def d Let_def split: if_splits)
    have c: "pt_after p \<noteq> None \<or> Some (place (fst d)) = h \<Longrightarrow> pt_after ?p \<noteq> None"
      by (auto simp: part_def d Let_def)
    from Cons.IH [OF a b] have IH: "case pt_after (fold (part st h) drawn ?p) of None \<Rightarrow> True
        | Some a \<Rightarrow> a \<le> length (pt_order (fold (part st h) drawn ?p)) \<and> (st \<noteq> SeatNext \<longrightarrow> 0 < a)"
      "st = SeatNext \<longrightarrow> pt_after (fold (part st h) drawn ?p) \<noteq> None \<longrightarrow> pt_next (fold (part st h) drawn ?p) \<noteq> []"
      "pt_after ?p \<noteq> None \<or> h \<in> Some ` place ` set (map fst drawn) \<longrightarrow> pt_after (fold (part st h) drawn ?p) \<noteq> None"
      by blast+
    have "pt_after ?p \<noteq> None \<or> h \<in> Some ` place ` set (map fst drawn)"
      if "pt_after p \<noteq> None \<or> h \<in> Some ` place ` set (map fst (d # drawn))"
      using that c by auto
    then show ?case using IH unfolding fold_Cons comp_def by blast
  qed (simp split: option.splits)
  then show "case pt_after r of None \<Rightarrow> True | Some a \<Rightarrow> a \<le> length (pt_order r) \<and> (st \<noteq> SeatNext \<longrightarrow> 0 < a)"
    "st = SeatNext \<Longrightarrow> pt_after r \<noteq> None \<Longrightarrow> pt_next r \<noteq> []"
    "pt_after p \<noteq> None \<or> h \<in> Some ` place ` set (map fst drawn) \<Longrightarrow> pt_after r \<noteq> None"
    by simp_all
qed

lemma parted_nothing_heard: "pt_after (fold (part st None) drawn p) = pt_after p"
  by (induction drawn arbitrary: p) (auto simp: part_def)

lemma goes_where_it_waited:
  assumes "seat_ok q" and "places_ok q" and "d \<in> set (flagged q)"
  shows "goes_in_order (q_seat q) (heard_place q) d \<longleftrightarrow> snd d = WaitsInOrder"
proof -
  have dist: "place x \<noteq> place y" if "x \<in> set (q_order q)" "y \<in> set (q_next q)" for x y
    using assms(2) that by (auto simp: places_ok_def rows_of_def)
  have "set_mset (mset (flagged q)) = (\<lambda>h. (h, WaitsInOrder)) ` set (q_order q) \<union> (\<lambda>h. (h, WaitsNext)) ` set (q_next q)"
    unfolding flagged_mset [OF assms(1)] by simp
  then have d: "d \<in> (\<lambda>h. (h, WaitsInOrder)) ` set (q_order q) \<union> (\<lambda>h. (h, WaitsNext)) ` set (q_next q)"
    using assms(3) by simp
  from assms(1) show ?thesis
  proof (cases rule: seat_cases)
    case (in_order a)
    then have "q_order q ! a \<in> set (q_order q)" by simp
    then have "place (q_order q ! a) \<noteq> place y" if "y \<in> set (q_next q)" for y using dist that by blast
    then show ?thesis using d in_order by (auto simp: goes_in_order_def heard_place_def) metis
  next
    case (queued h hs)
    then show ?thesis using d dist by (auto simp: goes_in_order_def heard_place_def)
  qed (use d in \<open>auto simp: goes_in_order_def heard_place_def\<close>)
qed

lemma filter_flagged_mset:
  assumes "seat_ok q"
  shows "mset (map fst (filter (\<lambda>d. snd d = WaitsInOrder) (flagged q))) = mset (q_order q)"
    and "mset (map fst (filter (\<lambda>d. \<not> snd d = WaitsInOrder) (flagged q))) = mset (q_next q)"
  by (simp_all add: flagged_mset [OF assms] mset_filter [symmetric] filter_map comp_def del: mset_filter)
    (simp_all add: flagged_mset [OF assms] filter_mset_image_mset image_mset.compositionality comp_def)

lemma reorder_parts:
  assumes ok: "queue_ok q" and "length rows = q_len q" and once: "names_once (replicate (length rows) False) rows"
  defines "drawn \<equiv> map ((!) (flagged q)) rows"
  defines "p \<equiv> fold (part (q_seat q) (heard_place q)) drawn \<lparr>pt_order = [], pt_next = [], pt_after = None\<rparr>"
  shows "List.map_filter (get (flagged q)) rows = drawn" "mset drawn = mset (flagged q)"
    "mset (pt_order p) = mset (q_order q)" "mset (pt_next p) = mset (q_next q)"
proof -
  have seat: "seat_ok q" and places: "places_ok q" using ok by (simp_all add: queue_ok_def)
  have len: "length (flagged q) = length rows"
    using flagged_rows [OF seat] in_play_order_nth(1) [OF seat] assms(2) by (metis length_map)
  show "List.map_filter (get (flagged q)) rows = drawn"
    unfolding drawn_def by (rule map_filter_get) (use names_once_perm(2) [OF once] len in simp)
  show m: "mset drawn = mset (flagged q)"
    unfolding drawn_def by (rule mset_map_nth) (use names_once_perm(1) [OF once] len in simp)
  have set: "set drawn = set (flagged q)" using m by (metis set_mset_mset)
  have f: "filter (goes_in_order (q_seat q) (heard_place q)) drawn = filter (\<lambda>d. snd d = WaitsInOrder) drawn"
    "filter (\<lambda>d. \<not> goes_in_order (q_seat q) (heard_place q) d) drawn = filter (\<lambda>d. \<not> snd d = WaitsInOrder) drawn"
    using goes_where_it_waited [OF seat places] set by (auto intro!: filter_cong)
  have fm: "mset (map fst (filter P drawn)) = mset (map fst (filter P (flagged q)))" for P
    using m by (metis mset_filter mset_map)
  note parted = parted_rows [of "q_seat q" "heard_place q" drawn "\<lparr>pt_order = [], pt_next = [], pt_after = None\<rparr>"]
  show "mset (pt_order p) = mset (q_order q)"
    using conjunct1 [OF parted] unfolding f fm filter_flagged_mset [OF seat] by (simp add: p_def)
  show "mset (pt_next p) = mset (q_next q)"
    using conjunct2 [OF parted] unfolding f fm filter_flagged_mset [OF seat] by (simp add: p_def)
qed

lemma unshuffle_alongside_same:
  assumes ok: "queue_ok q" and "q_shuffle q" and "mset order = mset (q_order q)" and "mset nxt = mset (q_next q)"
  shows "unshuffle_alongside order nxt q = q"
proof -
  let ?s = "q_unshuffled q"
  have st: "st_ok ?s" "mset (st_iter ?s) = mset (q_order q)" and places: "places_ok q"
    using ok assms(2) by (simp_all add: queue_ok_def stands_ok_def)
  have sets: "set (st_iter ?s) = set (q_order q)" "set order = set (q_order q)" "set nxt = set (q_next q)"
    using st(2) assms(3,4) by (metis set_mset_mset)+
  have "set (places_of nxt) \<inter> set (places_of (st_iter ?s)) = {}"
    using places by (auto simp: places_ok_def rows_of_def sets)
  then have "fold (\<lambda>h. st_remove (place h)) nxt ?s = ?s" by (rule remove_absent_all [OF st(1)])
  moreover have "st_contains (place (order ! a)) ?s" if "a < length order" for a
    using that nth_mem [OF that] unfolding st_contains_iff [OF st(1)] by (simp add: sets)
  then have "unshuffled_from order [0..<length order] Front [] ?s = ?s"
    by (intro unshuffled_from_all_there) simp
  ultimately show ?thesis by (simp add: unshuffle_alongside_def unshuffled_in_def)
qed

lemma reorder_ok:
  assumes ok: "queue_ok q"
  shows "queue_ok (snd (reorder rows q))"
proof (cases "length rows = q_len q \<and> names_once (replicate (length rows) False) rows")
  case False
  then show ?thesis using ok by (auto simp: reorder_def)
next
  case True
  let ?drawn = "map ((!) (flagged q)) rows"
  define p where "p = fold (part (q_seat q) (heard_place q)) ?drawn \<lparr>pt_order = [], pt_next = [], pt_after = None\<rparr>"
  note parts = reorder_parts [OF ok conjunct1 [OF True] conjunct2 [OF True], folded p_def]
  have seat: "seat_ok q" and stands: "stands_ok q" using ok by (simp_all add: queue_ok_def)
  let ?q = "q\<lparr>q_after := (case pt_after p of Some a \<Rightarrow> a | None \<Rightarrow> length (pt_order p)),
      q_order := pt_order p, q_next := pt_next p, q_revision := q_revision q + 1,
      q_playing_from := stamped (pt_order p)\<rparr>"
  have eq: "snd (reorder rows q) = ?q"
  proof -
    have "snd (reorder rows q) = split_rows ?drawn (heard_place q) q"
      using conjunct1 [OF True] conjunct2 [OF True] parts(1) unfolding reorder_def by (simp only: if_False not_True_eq_False snd_conv simp_thms)
    also have "\<dots> = ?q"
      unfolding split_rows_def p_def [symmetric] Let_def
      using unshuffle_alongside_same [OF ok _ parts(3,4)] by (simp split: option.split)
    finally show ?thesis .
  qed
  have sr: "same_rows q ?q" using parts by (simp add: same_rows_def rows_of_def)
  have "seat_ok ?q"
  proof -
    let ?e = "\<lparr>pt_order = [], pt_next = [], pt_after = None\<rparr> :: 'a parting"
    note ps = parted_seat [of ?e "q_seat q" "heard_place q" ?drawn, simplified, folded p_def]
    have heard_in: "heard_place q \<in> Some ` place ` set (map fst ?drawn)" if somewhere: "q_seat q \<noteq> Nowhere"
    proof -
      have "set (map fst ?drawn) = set (rows_of q)"
        using parts(2) flagged_rows [OF seat] by (metis (no_types, lifting) in_play_order_set list.set_map set_mset_mset)
      moreover obtain h where "heard q = Some h"
        using seat somewhere by (cases rule: seat_cases) auto
      ultimately show ?thesis using heard_in_rows by (force simp: heard_place_def)
    qed
    show ?thesis
    proof (cases "q_seat q")
      case Nowhere
      then have "q_next q = []" "heard_place q = None" using seat by (auto simp: seat_ok_def heard_place_def heard_def)
      moreover from this have "pt_after p = None" by (simp add: p_def parted_nothing_heard)
      ultimately show ?thesis using Nowhere parts(4) by (simp add: seat_ok_def)
    next
      case SeatInOrder
      then show ?thesis using ps heard_in by (auto simp: seat_ok_def split: option.splits)
    next
      case SeatNext
      then have "pt_next p \<noteq> []" using seat parts(4) by (auto simp: seat_ok_def)
      then show ?thesis using ps(1) SeatNext by (auto simp: seat_ok_def split: option.splits)
    qed
  qed
  then show ?thesis unfolding eq
    using parts stands by (intro queue_ok_same_rows [OF ok sr]) (simp_all add: stands_ok_def)
qed

end
