(* ===== verification/QueueMoves.thy ===== *)
theory QueueMoves
  imports QueueInvariant
begin

text \<open>
  Moving a run of rows (\<open>Queue::move_rows\<close>): the run is lifted out of the order and of the rows
  that wait, and put down where it lands. What is heard stays heard, the rows stay the rows,
  and unless the run carries the row being heard it lands exactly where it was dropped.
\<close>

subsection \<open>Moving rows\<close>

text \<open>A run of a list, and what is left of the list without it.\<close>

definition run_of :: "nat \<Rightarrow> nat \<Rightarrow> 'a list \<Rightarrow> 'a list" where
  "run_of f p xs = drop f (take p xs)"

definition rest_of :: "nat \<Rightarrow> nat \<Rightarrow> 'a list \<Rightarrow> 'a list" where
  "rest_of f p xs = take f xs @ drop p xs"

lemma vec_slice_run: "vec_slice (f, p) xs = (rest_of f p xs, run_of f p xs)"
  by (simp add: vec_slice_def rest_of_def run_of_def)

lemma run_rest_mset: "f \<le> p \<Longrightarrow> mset (run_of f p xs) + mset (rest_of f p xs) = mset xs"
proof -
  assume "f \<le> p"
  then have "take f xs @ run_of f p xs @ drop p xs = xs"
    unfolding run_of_def by (metis append_assoc append_take_drop_id drop_take min.absorb1 take_drop take_take)
  from arg_cong [OF this, of mset] show ?thesis by (simp add: rest_of_def ac_simps)
qed

lemma run_of_min [simp]: "run_of (min f (length xs)) (min p (length xs)) xs = run_of f p xs"
  by (auto simp: run_of_def min_def)

lemma rest_of_min [simp]: "rest_of (min f (length xs)) (min p (length xs)) xs = rest_of f p xs"
  by (auto simp: rest_of_def min_def)

lemma clamp_within: "lo \<le> hi \<Longrightarrow> clamp n lo hi = lo + min (n - lo) (hi - lo)"
  by (auto simp: clamp_def)

lemma run_of_append:
  "f \<le> p \<Longrightarrow> run_of f p (xs @ ys) = run_of f p xs @ run_of (f - length xs) (p - length xs) ys"
  by (auto simp: run_of_def min_def)

lemma rest_of_append:
  "f < p \<Longrightarrow> rest_of f p (xs @ ys) = rest_of f p xs @ rest_of (f - length xs) (p - length xs) ys"
  by (cases "f \<le> length xs") (auto simp: rest_of_def)

lemma rest_of_beyond [simp]: "rest_of (length xs + f) (length xs + p) (xs @ ys) = xs @ rest_of f p ys"
  by (simp add: rest_of_def)

lemma run_of_beyond [simp]: "run_of (length xs + f) (length xs + p) (xs @ ys) = run_of f p ys"
  by (simp add: run_of_def)

lemma rest_of_before: "f \<le> p \<Longrightarrow> p \<le> length xs \<Longrightarrow> rest_of f p (xs @ ys) = rest_of f p xs @ ys"
  by (simp add: rest_of_def)

lemma run_of_before: "p \<le> length xs \<Longrightarrow> run_of f p (xs @ ys) = run_of f p xs"
  by (simp add: run_of_def)

text \<open>The rows on the two sides of those that wait, and the three runs a lifting takes.\<close>

lemma lift_gives:
  assumes "seat_ok q" and "span_ok rows"
  defines "f \<equiv> span_first rows" and "p \<equiv> span_last rows + 1" and "a \<equiv> q_after q" and "n \<equiv> length (q_next q)"
  defines "P \<equiv> take a (q_order q)" and "U \<equiv> drop a (q_order q)"
  shows "lift rows q =
    (\<lparr>lf_passed = run_of f p P, lf_queued = run_of (f - a) (p - a) (q_next q),
      lf_upcoming = run_of (f - a - n) (p - a - n) U, lf_kept_passed = length (rest_of f p P)\<rparr>,
     q\<lparr>q_order := rest_of f p P @ rest_of (f - a - n) (p - a - n) U,
       q_next := rest_of (f - a) (p - a) (q_next q)\<rparr>)"
proof -
  have le: "a \<le> length (q_order q)" using assms(1) by (simp add: seat_ok_def a_def)
  have fp: "f \<le> p" using assms(2) by (simp add: span_ok_def f_def p_def)
  have order: "q_order q = P @ U" and lenP: "length P = a" and lenO: "length (q_order q) = a + length U"
    using le by (simp_all add: P_def U_def)
  define u1 u2 where "u1 = min (f - (a + n)) (length U)" and "u2 = min (p - (a + n)) (length U)"
  have c: "clamp k (a + n) (length (q_order q) + n) - n = length P + min (k - (a + n)) (length U)" for k
    by (simp add: clamp_within lenO lenP)
  have s1: "vec_slice (clamp f (a + n) (length (q_order q) + n) - n, clamp p (a + n) (length (q_order q) + n) - n) (q_order q)
      = (P @ rest_of u1 u2 U, run_of u1 u2 U)"
    unfolding c unfolding order vec_slice_run u1_def u2_def by (simp del: run_of_min rest_of_min)
  have k0: "clamp k 0 a = min k (length P)" for k by (simp add: clamp_within lenP)
  have s2: "vec_slice (clamp f 0 a - 0, clamp p 0 a - 0) (P @ rest_of u1 u2 U) = (rest_of f p P @ rest_of u1 u2 U, run_of f p P)"
    unfolding k0 diff_zero vec_slice_run
    using fp by (simp add: rest_of_before run_of_before min_le_iff_disj le_less_trans min.coboundedI1)
  have kn: "clamp k a (a + n) - a = min (k - a) n" for k by (simp add: clamp_within)
  have s3: "vec_slice (clamp f a (a + n) - a, clamp p a (a + n) - a) (q_next q)
      = (rest_of (f - a) (p - a) (q_next q), run_of (f - a) (p - a) (q_next q))"
    unfolding kn vec_slice_run by (simp add: n_def)
  have kept: "a - length (run_of f p P) = length (rest_of f p P)"
    using run_rest_mset [OF fp, of P] lenP by (metis add_diff_cancel_left' size_mset size_union)
  have m: "min a (length (q_order q)) = a" using le by simp
  show ?thesis
    unfolding lift_def Let_def f_def [symmetric] p_def [symmetric] a_def [symmetric] n_def [symmetric] m
      s1 s2 s3 prod.case kept
    by (simp add: u1_def u2_def diff_diff_left)
qed

text \<open>The rows as they are seen, and the run that is moved, in the same terms.\<close>

lemma play_parts:
  assumes "seat_ok q" and "span_ok rows"
  defines "f \<equiv> span_first rows" and "p \<equiv> span_last rows + 1" and "a \<equiv> q_after q" and "n \<equiv> length (q_next q)"
  defines "P \<equiv> take a (q_order q)" and "U \<equiv> drop a (q_order q)"
  shows "in_play_order q = P @ q_next q @ U"
    and "run_of f p (in_play_order q) = run_of f p P @ run_of (f - a) (p - a) (q_next q) @ run_of (f - a - n) (p - a - n) U"
    and "rest_of f p (in_play_order q) = rest_of f p P @ rest_of (f - a) (p - a) (q_next q) @ rest_of (f - a - n) (p - a - n) U"
proof -
  have le: "a \<le> length (q_order q)" using assms(1) by (simp add: seat_ok_def a_def)
  then have lenP: "length P = a" by (simp add: P_def)
  have fp: "f < p" using assms(2) by (simp add: span_ok_def f_def p_def)
  show play: "in_play_order q = P @ q_next q @ U"
    using le by (simp add: in_play_order_def P_def U_def a_def Let_def)
  show "run_of f p (in_play_order q) = run_of f p P @ run_of (f - a) (p - a) (q_next q) @ run_of (f - a - n) (p - a - n) U"
    unfolding play using fp by (simp add: run_of_append lenP n_def diff_le_mono)
  show "rest_of f p (in_play_order q) = rest_of f p P @ rest_of (f - a) (p - a) (q_next q) @ rest_of (f - a - n) (p - a - n) U"
  proof (cases "p \<le> a")
    case True
    then show ?thesis unfolding play using fp by (simp add: rest_of_append lenP) (simp add: rest_of_def)
  next
    case False
    then have "rest_of (f - a) (p - a) (q_next q @ U) =
        rest_of (f - a) (p - a) (q_next q) @ rest_of (f - a - n) (p - a - n) U"
      using fp by (intro rest_of_append [of "f - a" "p - a" "q_next q" U, folded n_def]) linarith
    then show ?thesis unfolding play using fp by (simp add: rest_of_append lenP)
  qed
qed

text \<open>What putting down does, for each way the run can wait.\<close>

definition order_at_of :: "nat \<Rightarrow> 'l lifted \<Rightarrow> 'l queue \<Rightarrow> nat" where
  "order_at_of at lf q = (if at \<le> lf_kept_passed lf then at
     else if at \<le> lf_kept_passed lf + length (q_next q) then lf_kept_passed lf
     else at - length (q_next q))"

definition next_at_of :: "nat \<Rightarrow> 'l lifted \<Rightarrow> 'l queue \<Rightarrow> nat" where
  "next_at_of at lf q = min (at - lf_kept_passed lf) (length (q_next q))"

definition block_of :: "'l lifted \<Rightarrow> 'l held list" where
  "block_of lf = lf_passed lf @ lf_queued lf @ lf_upcoming lf"

definition brought :: "nat \<Rightarrow> 'a list \<Rightarrow> 'a list" where
  "brought i xs = (if 0 < i then (xs ! i) # vec_remove i xs else xs)"

lemma fold_playing_from:
  "fold (\<lambda>h q. q\<lparr>q_playing_from := stamp_without (q_playing_from q) (stamp h)\<rparr>) hs q
    = q\<lparr>q_playing_from := q_playing_from q - stamped hs\<rparr>"
  "fold (\<lambda>h q. q\<lparr>q_playing_from := stamp_with (q_playing_from q) (stamp h)\<rparr>) hs q
    = q\<lparr>q_playing_from := q_playing_from q + stamped hs\<rparr>"
  by (induction hs arbitrary: q) (simp_all add: stamp_without_def stamp_with_def algebra_simps)

lemma put_ifs:
  "(if run \<noteq> [] then q\<lparr>q_order := vec_splice i run (q_order q)\<rparr> else q) = q\<lparr>q_order := vec_splice i run (q_order q)\<rparr>"
  "(if run \<noteq> [] then q\<lparr>q_next := vec_splice i run (q_next q)\<rparr> else q) = q\<lparr>q_next := vec_splice i run (q_next q)\<rparr>"
  "(if c \<and> q_seat q = SeatNext \<and> i > 0 then q\<lparr>q_next := (q_next q ! i) # vec_remove i (q_next q)\<rparr> else q)
    = q\<lparr>q_next := (if c \<and> q_seat q = SeatNext then brought i (q_next q) else q_next q)\<rparr>"
  "(if b then unshuffle_moved i run run' q else q) = q\<lparr>q_unshuffled :=
      (if b then unshuffled_from (q_order q) [i..<i + length run] Front []
         (fold (\<lambda>h. st_remove (place h)) run' (q_unshuffled q)) else q_unshuffled q)\<rparr>"
  by (simp_all add: brought_def unshuffle_moved_def unshuffled_in_def)

lemma put_carried:
  assumes "carries lf h"
  shows "put_lifted at (Some h) lf q = q\<lparr>
    q_order := vec_splice (order_at_of at lf q) (lf_passed lf @ lf_upcoming lf) (q_order q),
    q_next := (if q_seat q = SeatNext
      then brought (next_at_of at lf q) (vec_splice (next_at_of at lf q) (lf_queued lf) (q_next q))
      else vec_splice (next_at_of at lf q) (lf_queued lf) (q_next q)),
    q_after := order_at_of at lf q + length (lf_passed lf), q_revision := q_revision q + 1\<rparr>"
  using assms unfolding put_lifted_def put_ifs Let_def
  by (simp add: order_at_of_def next_at_of_def)

lemma put_next:
  assumes "heard_at = Some h" and "\<not> carries lf h" and "waits_beside at lf heard_at q = WaitsNext"
  shows "put_lifted at heard_at lf q = q\<lparr>
    q_playing_from := q_playing_from q - stamped (lf_passed lf @ lf_upcoming lf),
    q_next := vec_splice (next_at_of at lf q) (block_of lf) (q_next q),
    q_unshuffled := (if q_shuffle q \<and> lf_passed lf @ lf_upcoming lf \<noteq> []
      then fold (\<lambda>h. st_remove (place h)) (block_of lf) (q_unshuffled q) else q_unshuffled q),
    q_after := lf_kept_passed lf, q_revision := q_revision q + 1\<rparr>"
  using assms unfolding put_lifted_def put_ifs Let_def
  by (auto simp: next_at_of_def block_of_def fold_playing_from)

lemma put_in_order:
  assumes "\<And>h. heard_at = Some h \<Longrightarrow> \<not> carries lf h" and "waits_beside at lf heard_at q = WaitsInOrder"
  defines "order' \<equiv> vec_splice (order_at_of at lf q) (block_of lf) (q_order q)"
  shows "put_lifted at heard_at lf q = q\<lparr>
    q_playing_from := q_playing_from q + stamped (lf_queued lf),
    q_order := order',
    q_unshuffled := (if q_shuffle q \<and> lf_queued lf \<noteq> []
      then unshuffled_from order' [order_at_of at lf q..<order_at_of at lf q + length (block_of lf)] Front [] (q_unshuffled q)
      else q_unshuffled q),
    q_after := (case heard_at of None \<Rightarrow> length (q_order q) + length (block_of lf)
      | Some h \<Rightarrow> lf_kept_passed lf +
          (if (if q_seat q = SeatNext then at \<le> lf_kept_passed lf else order_at_of at lf q < lf_kept_passed lf)
           then length (block_of lf) else 0)),
    q_revision := q_revision q + 1\<rparr>"
proof -
  have c: "(case heard_at of None \<Rightarrow> False | Some h \<Rightarrow> carries lf h) = False"
    using assms(1) by (simp split: option.split)
  show ?thesis
    unfolding order'_def put_lifted_def put_ifs Let_def c
    using assms(2)
    by (cases heard_at) (simp_all add: order_at_of_def block_of_def fold_playing_from)
qed

text \<open>A move as the listener sees it: the run of rows, put down at \<open>at\<close> among the rest.\<close>

definition block_moved :: "span \<Rightarrow> nat \<Rightarrow> 'a list \<Rightarrow> 'a list" where
  "block_moved rows at xs =
     vec_splice at (run_of (span_first rows) (span_last rows + 1) xs)
       (rest_of (span_first rows) (span_last rows + 1) xs)"

lemma vec_splice_front: "i \<le> length xs \<Longrightarrow> vec_splice i run (xs @ ys) = vec_splice i run xs @ ys"
  by (simp add: vec_splice_def)

lemma vec_splice_back: "length xs \<le> i \<Longrightarrow> vec_splice i run (xs @ ys) = xs @ vec_splice (i - length xs) run ys"
  by (simp add: vec_splice_def)

text \<open>
  The state a lifting leaves, with what is known of it: \<open>X\<close>, \<open>Y\<close> and \<open>Z\<close> are left of the rows
  heard, waiting and to come.
\<close>

definition lifted_ok :: "'l queue \<Rightarrow> 'l lifted \<Rightarrow> 'l held list \<Rightarrow> 'l held list \<Rightarrow> 'l held list \<Rightarrow> bool" where
  "lifted_ok q lf X Y Z \<longleftrightarrow>
     lf_kept_passed lf = length X \<and>
     mset (lf_passed lf) + mset (lf_upcoming lf) + mset (X @ Z) = mset (q_order q) \<and>
     mset (lf_queued lf) + mset Y = mset (q_next q) \<and>
     length X + length (lf_passed lf) = q_after q"

lemma lift_facts:
  assumes "seat_ok q" and "span_ok rows"
  obtains lf X Y Z where "lift rows q = (lf, q\<lparr>q_order := X @ Z, q_next := Y\<rparr>)" and "lifted_ok q lf X Y Z"
    and "block_of lf = run_of (span_first rows) (span_last rows + 1) (in_play_order q)"
    and "X @ Y @ Z = rest_of (span_first rows) (span_last rows + 1) (in_play_order q)"
    and "q_seat q = Nowhere \<Longrightarrow> Y = [] \<and> Z = [] \<and> lf_queued lf = [] \<and> lf_upcoming lf = []"
    and "q_seat q = SeatInOrder \<Longrightarrow> lf_passed lf = [] \<or> last (lf_passed lf) \<noteq> q_order q ! (q_after q - 1) \<Longrightarrow>
      X \<noteq> [] \<and> last X = q_order q ! (q_after q - 1)"
    and "\<And>h hs. q_next q = h # hs \<Longrightarrow> lf_queued lf = [] \<or> hd (lf_queued lf) \<noteq> h \<Longrightarrow> Y \<noteq> [] \<and> hd Y = h"
proof -
  let ?f = "span_first rows" and ?p = "span_last rows + 1" and ?a = "q_after q" and ?n = "length (q_next q)"
  let ?P = "take ?a (q_order q)" and ?U = "drop ?a (q_order q)"
  have fp: "?f \<le> ?p" using assms(2) by (simp add: span_ok_def)
  have le: "?a \<le> length (q_order q)" using assms(1) by (simp add: seat_ok_def)
  let ?X = "rest_of ?f ?p ?P" and ?Y = "rest_of (?f - ?a) (?p - ?a) (q_next q)"
    and ?Z = "rest_of (?f - ?a - ?n) (?p - ?a - ?n) ?U"
  let ?lf = "\<lparr>lf_passed = run_of ?f ?p ?P, lf_queued = run_of (?f - ?a) (?p - ?a) (q_next q),
      lf_upcoming = run_of (?f - ?a - ?n) (?p - ?a - ?n) ?U, lf_kept_passed = length ?X\<rparr>"
  have lift: "lift rows q = (?lf, q\<lparr>q_order := ?X @ ?Z, q_next := ?Y\<rparr>)"
    by (rule lift_gives [OF assms])
  have m1: "mset (run_of ?f ?p ?P) + mset ?X = mset ?P" by (rule run_rest_mset [OF fp])
  have m2: "mset (run_of (?f - ?a) (?p - ?a) (q_next q)) + mset ?Y = mset (q_next q)"
    by (rule run_rest_mset) (use fp in simp)
  have m3: "mset (run_of (?f - ?a - ?n) (?p - ?a - ?n) ?U) + mset ?Z = mset ?U"
    by (rule run_rest_mset) (use fp in simp)
  have mO: "mset ?P + mset ?U = mset (q_order q)" by (metis append_take_drop_id mset_append)
  have lifted: "lifted_ok q ?lf ?X ?Y ?Z"
  proof -
    have "size (mset (run_of ?f ?p ?P) + mset ?X) = ?a" unfolding m1 using le by simp
    then have "length ?X + length (run_of ?f ?p ?P) = ?a" by simp
    moreover have "mset (run_of ?f ?p ?P) + mset (run_of (?f - ?a - ?n) (?p - ?a - ?n) ?U) + mset (?X @ ?Z) = mset (q_order q)"
      unfolding mO [symmetric] m1 [symmetric] m3 [symmetric] by (simp add: ac_simps)
    ultimately show ?thesis using m2 by (simp add: lifted_ok_def)
  qed
  note play = play_parts [OF assms]
  have block: "block_of ?lf = run_of ?f ?p (in_play_order q)" by (simp only: block_of_def play(2) lifted.simps)
  have rest: "?X @ ?Y @ ?Z = rest_of ?f ?p (in_play_order q)" by (simp only: play(3))
  have now: "?Y = [] \<and> ?Z = [] \<and> lf_queued ?lf = [] \<and> lf_upcoming ?lf = []" if "q_seat q = Nowhere"
    using that assms(1) by (simp add: seat_ok_def rest_of_def run_of_def)
  have ino: "?X \<noteq> [] \<and> last ?X = q_order q ! (?a - 1)"
    if "q_seat q = SeatInOrder" "lf_passed ?lf = [] \<or> last (lf_passed ?lf) \<noteq> q_order q ! (?a - 1)"
  proof -
    have pos: "0 < ?a" using that(1) assms(1) by (simp add: seat_ok_def)
    then have ne: "?P \<noteq> []" using le by auto
    have lastP: "last ?P = q_order q ! (?a - 1)"
      using last_conv_nth [OF ne] le pos by (simp add: min_def)
    show ?thesis
    proof (cases "?p < ?a")
      case True
      then show ?thesis using le lastP by (simp add: rest_of_def last_append) 
    next
      case False
      then have "run_of ?f ?p ?P = drop ?f ?P" by (simp add: run_of_def)
      moreover have "last (drop ?f ?P) = last ?P" if "?f < ?a" using that le by (simp add: last_drop)
      ultimately have "?a \<le> ?f" using that(2) lastP le by (cases "?f < ?a") auto
      then show ?thesis using False le lastP ne by (simp add: rest_of_def)
    qed
  qed
  have nx: "?Y \<noteq> [] \<and> hd ?Y = h"
    if "q_next q = h # hs" "lf_queued ?lf = [] \<or> hd (lf_queued ?lf) \<noteq> h" for h hs
  proof (cases "?f - ?a")
    case 0
    then have "lf_queued ?lf = take (?p - ?a) (h # hs)" using that(1) by (simp add: run_of_def)
    then have "?p - ?a = 0" using that(2) by (cases "?p - ?a") auto
    then show ?thesis using that(1) 0 by (simp add: rest_of_def)
  next
    case (Suc k)
    then show ?thesis using that(1) by (simp add: rest_of_def)
  qed
  show thesis by (rule that [OF lift lifted block rest now ino nx])
qed

lemma same_place:
  "places_ok q \<Longrightarrow> x \<in> set (rows_of q) \<Longrightarrow> y \<in> set (rows_of q) \<Longrightarrow> place x = place y \<Longrightarrow> x = y"
  by (auto simp: places_ok_def distinct_map dest: inj_onD)

lemma order_next_apart:
  "places_ok q \<Longrightarrow> x \<in> set (q_order q) \<Longrightarrow> y \<in> set (q_next q) \<Longrightarrow> place x \<noteq> place y"
  by (auto simp: places_ok_def rows_of_def)

text \<open>What a put-down owes, for each way the run can wait.\<close>

definition put_down :: "'l queue \<Rightarrow> 'l queue \<Rightarrow> bool" where
  "put_down q q' \<longleftrightarrow> queue_ok q' \<and> heard q' = heard q \<and> same_rows q q'"

lemma put_downI:
  assumes "queue_ok q" and "same_rows q q'" and "seat_ok q'" and "stands_ok q'"
    and "q_playing_from q' = stamped (q_order q')" and "heard q' = heard q"
  shows "put_down q q'"
  using assms queue_ok_same_rows [OF assms(1-5)] by (simp add: put_down_def)

lemma brought_mset: "i < length xs \<or> i = 0 \<Longrightarrow> mset (brought i xs) = mset xs"
  by (auto simp: brought_def mset_vec_remove_add)

lemma hd_brought_splice:
  assumes "run \<noteq> []" and "i \<le> length xs"
  shows "brought i (vec_splice i run xs) \<noteq> [] \<and> hd (brought i (vec_splice i run xs)) = hd run"
  using assms by (auto simp: brought_def vec_splice_def nth_append hd_conv_nth)

lemma lifted_sets:
  assumes "lifted_ok q lf X Y Z"
  shows "set (lf_passed lf) \<union> set (lf_upcoming lf) \<union> set X \<union> set Z = set (q_order q)"
    "set (lf_queued lf) \<union> set Y = set (q_next q)"
proof -
  have "set_mset (mset (lf_passed lf) + mset (lf_upcoming lf) + mset (X @ Z)) = set (q_order q)"
    using assms by (simp only: lifted_ok_def set_mset_mset)
  then show "set (lf_passed lf) \<union> set (lf_upcoming lf) \<union> set X \<union> set Z = set (q_order q)" by auto
  have "set_mset (mset (lf_queued lf) + mset Y) = set (q_next q)"
    using assms by (simp only: lifted_ok_def set_mset_mset)
  then show "set (lf_queued lf) \<union> set Y = set (q_next q)" by auto
qed

lemma carries_heard:
  assumes ok: "queue_ok q" and lf: "lifted_ok q lf X Y Z" and heard: "heard q = Some h"
  shows "q_seat q = SeatInOrder \<Longrightarrow> carries lf (place h) \<longleftrightarrow> lf_passed lf \<noteq> [] \<and> last (lf_passed lf) = h"
    and "q_seat q = SeatNext \<Longrightarrow> carries lf (place h) \<longleftrightarrow> lf_queued lf \<noteq> [] \<and> hd (lf_queued lf) = h"
proof -
  have seat: "seat_ok q" and places: "places_ok q" using ok by (simp_all add: queue_ok_def)
  note sets = lifted_sets [OF lf]
  have c: "carries lf p \<longleftrightarrow> (lf_passed lf \<noteq> [] \<and> place (last (lf_passed lf)) = p) \<or>
      (lf_queued lf \<noteq> [] \<and> place (hd (lf_queued lf)) = p)" for p
    by (cases "lf_queued lf") (auto simp: carries_def back_of_def)
  have inO: "last (lf_passed lf) \<in> set (q_order q)" if "lf_passed lf \<noteq> []"
    using last_in_set [OF that] sets(1) by blast
  have inN: "hd (lf_queued lf) \<in> set (q_next q)" if "lf_queued lf \<noteq> []"
    using hd_in_set [OF that] sets(2) by blast
  show "carries lf (place h) \<longleftrightarrow> lf_passed lf \<noteq> [] \<and> last (lf_passed lf) = h" if "q_seat q = SeatInOrder"
  proof -
    have h: "h \<in> set (q_order q)"
      using that heard by (auto simp: heard_def last_heard_def dest: get_in_set split: option.splits)
    have "place (hd (lf_queued lf)) \<noteq> place h" if "lf_queued lf \<noteq> []"
      using order_next_apart [OF places h inN [OF that]] by simp
    moreover have "last (lf_passed lf) = h" if "lf_passed lf \<noteq> []" "place (last (lf_passed lf)) = place h"
      using same_place [OF places _ _ that(2)] inO [OF that(1)] \<open>h \<in> set (q_order q)\<close> by (simp add: rows_of_def)
    ultimately show ?thesis unfolding c by blast
  qed
  show "carries lf (place h) \<longleftrightarrow> lf_queued lf \<noteq> [] \<and> hd (lf_queued lf) = h" if "q_seat q = SeatNext"
  proof -
    have "h \<in> set (q_next q)"
      using that heard by (cases "q_next q") (auto simp: heard_def)
    then have "place (last (lf_passed lf)) \<noteq> place h" if "lf_passed lf \<noteq> []"
      using order_next_apart [OF places inO [OF that]] by blast
    moreover have "hd (lf_queued lf) = h" if "lf_queued lf \<noteq> []" "place (hd (lf_queued lf)) = place h"
      using same_place [OF places _ _ that(2)] inN [OF that(1)] \<open>h \<in> set (q_next q)\<close> by (simp add: rows_of_def)
    ultimately show ?thesis unfolding c by blast
  qed
qed

lemma put_carried_ok:
  assumes ok: "queue_ok q" and lf: "lifted_ok q lf X Y Z" and heard: "heard q = Some h"
    and carried: "carries lf (place h)" and at: "at \<le> length (X @ Y @ Z)"
  shows "put_down q (put_lifted at (Some (place h)) lf (q\<lparr>q_order := X @ Z, q_next := Y\<rparr>))"
proof -
  let ?q1 = "q\<lparr>q_order := X @ Z, q_next := Y\<rparr>"
  let ?q' = "put_lifted at (Some (place h)) lf ?q1"
  define oa where "oa = order_at_of at lf ?q1"
  define na where "na = next_at_of at lf ?q1"
  have na: "na \<le> length Y" by (simp add: na_def next_at_of_def)
  have oa: "oa \<le> length (X @ Z)"
    using at lf by (auto simp: oa_def order_at_of_def lifted_ok_def)
  let ?run = "lf_passed lf @ lf_upcoming lf"
  define order' where "order' = vec_splice oa ?run (X @ Z)"
  define next' where "next' = (if q_seat q = SeatNext then brought na (vec_splice na (lf_queued lf) Y)
      else vec_splice na (lf_queued lf) Y)"
  have eq: "?q' = q\<lparr>q_order := order', q_next := next', q_after := oa + length (lf_passed lf),
      q_revision := q_revision q + 1\<rparr>"
    using put_carried [OF carried, of at ?q1] by (simp add: order'_def next'_def oa_def na_def)
  have m_order: "mset order' = mset (q_order q)"
    using lf by (simp add: order'_def lifted_ok_def)
  have le: "oa + length (lf_passed lf) \<le> length order'" using oa by (simp add: order'_def)
  have stands: "stands_ok ?q'" using queue_okD(4) [OF ok] by (simp add: eq stands_ok_def m_order)
  have pf: "q_playing_from ?q' = stamped (q_order ?q')"
    using queue_okD(5) [OF ok] stamped_mset [OF m_order] by (simp add: eq stamps_ok_def)
  have seat: "seat_ok q" using ok by (simp add: queue_ok_def)
  from seat show ?thesis
  proof (cases rule: seat_cases)
    case nowhere
    then show ?thesis using heard by simp
  next
    case (in_order a)
    then have p: "lf_passed lf \<noteq> []" "last (lf_passed lf) = h"
      using carries_heard(1) [OF ok lf heard] carried by simp_all
    have m_next: "mset next' = mset (q_next q)" using lf in_order by (simp add: next'_def lifted_ok_def)
    have "get order' (oa + length (lf_passed lf) - 1) = Some h"
    proof -
      have "order' = (take oa (X @ Z) @ butlast (lf_passed lf)) @ h # (lf_upcoming lf @ drop oa (X @ Z))"
        unfolding order'_def vec_splice_def using append_butlast_last_id [OF p(1)] p(2)
        by (metis append.assoc append_Cons append_Nil)
      moreover have "length (take oa (X @ Z) @ butlast (lf_passed lf)) = oa + length (lf_passed lf) - 1"
        using oa p(1) by (cases "lf_passed lf") auto
      ultimately show ?thesis by (metis get_Cons_0 get_append diff_self_eq_0 less_irrefl)
    qed
    then have "heard ?q' = heard q"
      using in_order heard p(1) by (simp add: eq heard_def last_heard_def checked_sub_def Suc_le_eq)
    moreover have "seat_ok ?q'" using in_order le p(1) by (simp add: seat_ok_def eq)
    ultimately show ?thesis
      by (intro put_downI [OF ok] stands pf) (simp_all add: eq same_rows_def rows_of_def m_order m_next)
  next
    case (queued k ks)
    then have p: "lf_queued lf \<noteq> []" "hd (lf_queued lf) = h"
      using carries_heard(2) [OF ok lf heard] carried by simp_all
    note hd = hd_brought_splice [OF p(1) na]
    have next': "next' = brought na (vec_splice na (lf_queued lf) Y)" using queued by (simp add: next'_def)
    have "na < length (vec_splice na (lf_queued lf) Y)" using na p(1) by (simp add: le_less_trans)
    then have m_next: "mset next' = mset (q_next q)" using lf by (simp add: next' brought_mset lifted_ok_def)
    have "heard ?q' = heard q"
      using queued heard hd p(2) by (simp add: eq heard_def next' front_of_eq_hd)
    moreover have "seat_ok ?q'" using queued le hd by (simp add: seat_ok_def eq next')
    ultimately show ?thesis
      by (intro put_downI [OF ok] stands pf) (simp_all add: eq same_rows_def rows_of_def m_order m_next)
  qed
qed

text \<open>Which side of the border between order and waiting rows a landing is on.\<close>

lemma lifted_rest_heard:
  assumes ok: "queue_ok q" and lf: "lifted_ok q lf X Y Z" and heard: "heard q = Some h"
    and "k \<in> set (X @ Z)" and "place k = place h"
  shows "q_seat q = SeatInOrder" "k = h"
proof -
  have places: "places_ok q" and seat: "seat_ok q" using ok by (simp_all add: queue_ok_def)
  have k: "k \<in> set (q_order q)" using assms(4) lifted_sets(1) [OF lf] by auto
  from seat show "q_seat q = SeatInOrder"
  proof (cases rule: seat_cases)
    case (queued h' hs)
    then show ?thesis using heard order_next_apart [OF places k, of h] assms(5) by simp
  qed (use heard in auto)
  show "k = h"
    using same_place [OF places _ heard_in_rows [OF heard] assms(5)] k by (simp add: rows_of_def)
qed

lemma waits_next_where:
  assumes ok: "queue_ok q" and lf: "lifted_ok q lf X Y Z"
    and now: "q_seat q = Nowhere \<Longrightarrow> Y = [] \<and> Z = []"
    and stay: "q_seat q = SeatInOrder \<Longrightarrow> X \<noteq> [] \<and> heard q = Some (last X)"
    and w: "waits_beside at lf (heard_place q) (q\<lparr>q_order := X @ Z, q_next := Y\<rparr>) = WaitsNext"
  shows "length X \<le> at" "at \<le> length X + length Y" "q_seat q \<noteq> Nowhere"
    "q_seat q = SeatNext \<Longrightarrow> length X < at"
proof -
  have kept: "lf_kept_passed lf = length X" using lf by (simp add: lifted_ok_def)
  have places: "places_ok q" using ok by (simp add: queue_ok_def)
  have at: "0 < at" using w by (auto simp: waits_beside_def checked_sub_def split: if_splits)
  have dXZ: "distinct (X @ Z)"
  proof -
    have "distinct (q_order q)" using places by (simp add: places_ok_def rows_of_def distinct_map)
    moreover have "mset (lf_passed lf @ lf_upcoming lf @ X @ Z) = mset (q_order q)"
      using lf by (simp add: lifted_ok_def ac_simps)
    ultimately have "distinct (lf_passed lf @ lf_upcoming lf @ X @ Z)" using distinct_mset_eq by blast
    then show ?thesis by simp
  qed
  have beside: "i = length X - 1 \<and> X \<noteq> [] \<and> q_seat q = SeatInOrder"
    if gi: "get (X @ Z) i = Some k" and hk: "Some (place k) = heard_place q" for i k
  proof -
    obtain h where h: "heard q = Some h" "place k = place h"
      using hk by (cases "heard q") (auto simp: heard_place_def)
    have s: "q_seat q = SeatInOrder" "k = h"
      using lifted_rest_heard [OF ok lf h(1) get_in_set [OF gi] h(2)] by simp_all
    then have X: "X \<noteq> []" "k = last X" using stay h(1) by auto
    have "(X @ Z) ! (length X - 1) = k" using X by (simp add: nth_append last_conv_nth)
    moreover have "(X @ Z) ! i = k" "i < length (X @ Z)" using gi by (simp_all add: get_Some_iff)
    moreover have "length X - 1 < length (X @ Z)" using X(1) by (cases X) auto
    ultimately have "i = length X - 1" using nth_eq_iff_index_eq [OF dXZ] by metis
    then show ?thesis using X s by simp
  qed
  have three: "(at - 1 < length X \<and> (\<exists>k. get (X @ Z) (at - 1) = Some k \<and> Some (place k) = heard_place q)) \<or>
      (length X \<le> at - 1 \<and> at - 1 < length X + length Y) \<or>
      (length X + length Y \<le> at - 1 \<and> (\<exists>k. get (X @ Z) (at - 1 - length Y) = Some k \<and> Some (place k) = heard_place q))"
    using w at by (auto simp: waits_beside_def kept checked_sub_def Let_def split: if_splits option.splits)
  have "at = length X \<and> q_seat q = SeatInOrder \<or> length X < at \<and> at \<le> length X + length Y"
    using three
  proof (elim disjE conjE exE)
    fix k assume "at - 1 < length X" "get (X @ Z) (at - 1) = Some k" "Some (place k) = heard_place q"
    then have "at - 1 = length X - 1 \<and> X \<noteq> [] \<and> q_seat q = SeatInOrder" using beside by blast
    then show ?thesis using at by (cases X) auto
  next
    fix k assume "length X + length Y \<le> at - 1" "get (X @ Z) (at - 1 - length Y) = Some k" "Some (place k) = heard_place q"
    then have "at - 1 - length Y = length X - 1 \<and> X \<noteq> []" using beside by blast
    then show ?thesis using \<open>length X + length Y \<le> at - 1\<close> by (cases X) auto
  qed (use at in auto)
  then show "length X \<le> at" "at \<le> length X + length Y" "q_seat q \<noteq> Nowhere" "q_seat q = SeatNext \<Longrightarrow> length X < at"
    using now by auto
qed

lemma waits_in_order_where:
  assumes lf: "lifted_ok q lf X Y Z"
    and stay: "q_seat q = SeatInOrder \<Longrightarrow> X \<noteq> [] \<and> heard q = Some (last X)"
    and w: "waits_beside at lf (heard_place q) (q\<lparr>q_order := X @ Z, q_next := Y\<rparr>) = WaitsInOrder"
  shows "at \<le> length X \<or> length X + length Y < at"
    and "q_seat q = SeatInOrder \<Longrightarrow> at \<noteq> length X"
proof -
  have kept: "lf_kept_passed lf = length X" using lf by (simp add: lifted_ok_def)
  show "at \<le> length X \<or> length X + length Y < at"
    using w by (auto simp: waits_beside_def kept checked_sub_def Let_def split: if_splits)
  show "at \<noteq> length X" if "q_seat q = SeatInOrder"
  proof
    assume at: "at = length X"
    have X: "X \<noteq> []" "heard q = Some (last X)" using stay [OF that] by simp_all
    then have "get (X @ Z) (length X - 1) = Some (last X)"
      by (simp add: get_append last_conv_nth)
    then show False
      using w X at by (simp add: waits_beside_def kept checked_sub_def heard_place_def Suc_le_eq)
  qed
qed

lemma put_next_ok:
  assumes ok: "queue_ok q" and lf: "lifted_ok q lf X Y Z"
    and now: "q_seat q = Nowhere \<Longrightarrow> Y = [] \<and> Z = []"
    and stay: "q_seat q = SeatInOrder \<Longrightarrow> X \<noteq> [] \<and> heard q = Some (last X)"
    and stayn: "q_seat q = SeatNext \<Longrightarrow> Y \<noteq> [] \<and> heard q = Some (hd Y)"
    and not_carried: "\<And>h. heard_place q = Some h \<Longrightarrow> \<not> carries lf h"
    and w: "waits_beside at lf (heard_place q) (q\<lparr>q_order := X @ Z, q_next := Y\<rparr>) = WaitsNext"
  defines "q' \<equiv> put_lifted at (heard_place q) lf (q\<lparr>q_order := X @ Z, q_next := Y\<rparr>)"
  shows "put_down q q'" and "in_play_order q' = vec_splice at (block_of lf) (X @ Y @ Z)"
proof -
  let ?q1 = "q\<lparr>q_order := X @ Z, q_next := Y\<rparr>"
  note where_at = waits_next_where [OF ok lf now stay w]
  have places: "places_ok q" and seat: "seat_ok q" and stands: "stands_ok q" and stamps: "stamps_ok q"
    using ok by (simp_all add: queue_ok_def)
  have kept: "lf_kept_passed lf = length X" using lf by (simp add: lifted_ok_def)
  have na: "next_at_of at lf ?q1 = at - length X" using where_at by (simp add: next_at_of_def kept)
  obtain hp where hp: "heard_place q = Some hp"
    using where_at(3) stay stayn by (cases "q_seat q") (auto simp: heard_place_def)
  define next' where "next' = vec_splice (at - length X) (block_of lf) Y"
  have eq: "q' = q\<lparr>q_order := X @ Z, q_next := next',
    q_playing_from := q_playing_from q - stamped (lf_passed lf @ lf_upcoming lf),
    q_unshuffled := (if q_shuffle q \<and> lf_passed lf @ lf_upcoming lf \<noteq> []
      then fold (\<lambda>h. st_remove (place h)) (block_of lf) (q_unshuffled q) else q_unshuffled q),
    q_after := length X, q_revision := q_revision q + 1\<rparr>"
    using put_next [OF hp not_carried [OF hp] w] by (simp add: q'_def na kept next'_def cong: if_cong)
  have mO: "mset (q_order q) = mset (lf_passed lf @ lf_upcoming lf) + mset (X @ Z)"
    and mN: "mset (q_next q) = mset (lf_queued lf) + mset Y"
    using lf by (simp_all add: lifted_ok_def)
  have sr: "same_rows q q'"
    by (simp add: eq same_rows_def rows_of_def next'_def block_of_def mO mN ac_simps)
  have "mset (q_order q) = mset ((lf_passed lf @ lf_upcoming lf) @ X @ Z)" using mO by simp
  then have pf: "q_playing_from q' = stamped (q_order q')"
    using stamps stamped_mset by (fastforce simp: eq stamps_ok_def)
  have st: "stands_ok q'"
  proof (cases "q_shuffle q \<and> lf_passed lf @ lf_upcoming lf \<noteq> []")
    case False
    then show ?thesis using stands mO by (auto simp: stands_ok_def eq)
  next
    case True
    have u: "st_ok (q_unshuffled q)" "mset (st_iter (q_unshuffled q)) = mset (q_order q)"
      using stands True by (simp_all add: stands_ok_def)
    let ?gone = "set (places_of (block_of lf))"
    have "mset (rows_of q) = mset (block_of lf @ X @ Y @ Z)"
      by (simp add: rows_of_def block_of_def mO mN ac_simps)
    then have "distinct (places_of (block_of lf @ X @ Y @ Z))"
      using places distinct_mset_eq by (metis mset_map places_ok_def)
    then have d: "?gone \<inter> set (places_of (X @ Z)) = {}" by auto
    have "mset (filter (\<lambda>h. place h \<notin> ?gone) (st_iter (q_unshuffled q)))
        = mset (filter (\<lambda>h. place h \<notin> ?gone) ((lf_passed lf @ lf_upcoming lf) @ X @ Z))"
      using u(2) mO by (simp only: mset_filter mset_append)
    also have "filter (\<lambda>h. place h \<notin> ?gone) ((lf_passed lf @ lf_upcoming lf) @ X @ Z)
        = filter (\<lambda>h. place h \<notin> ?gone) (lf_passed lf @ lf_upcoming lf) @ filter (\<lambda>h. place h \<notin> ?gone) (X @ Z)"
      by (simp only: filter_append)
    also have "filter (\<lambda>h. place h \<notin> ?gone) (lf_passed lf @ lf_upcoming lf) = []"
      by (auto simp: filter_empty_conv block_of_def)
    also have "filter (\<lambda>h. place h \<notin> ?gone) (X @ Z) = X @ Z"
      using d by (intro filter_True) (metis disjoint_iff imageI list.set_map)
    finally show ?thesis
      using standing_rows.give_up_all [OF u(1), of "block_of lf"] True by (simp add: stands_ok_def eq)
  qed
  have so: "seat_ok q'" and hd: "heard q' = heard q"
  proof -
    have next_hd: "Y \<noteq> [] \<Longrightarrow> length X < at \<Longrightarrow> next' \<noteq> [] \<and> hd next' = hd Y"
      by (cases Y; cases "at - length X") (auto simp: next'_def vec_splice_def)
    show "seat_ok q'"
      using where_at(3,4) stay stayn next_hd by (cases "q_seat q") (auto simp: seat_ok_def eq)
    show "heard q' = heard q"
      using where_at(3,4) stay stayn next_hd
      by (cases "q_seat q") (auto simp: eq heard_def last_heard_def checked_sub_def get_append Suc_le_eq
          last_conv_nth front_of_eq_hd)
  qed
  show "put_down q q'" by (rule put_downI [OF ok sr so st pf hd])
  show "in_play_order q' = vec_splice at (block_of lf) (X @ Y @ Z)"
    using where_at(1,2) by (simp add: eq in_play_order_def next'_def vec_splice_back vec_splice_front)
qed

lemma run_spliced: "i \<le> length xs \<Longrightarrow> map ((!) (vec_splice i run xs)) [i..<i + length run] = run"
  by (intro nth_equalityI) (simp_all add: vec_splice_def nth_append min_def)

lemma put_in_order_ok:
  assumes ok: "queue_ok q" and lf: "lifted_ok q lf X Y Z"
    and now: "q_seat q = Nowhere \<Longrightarrow> Y = [] \<and> Z = []"
    and stay: "q_seat q = SeatInOrder \<Longrightarrow> X \<noteq> [] \<and> heard q = Some (last X)"
    and stayn: "q_seat q = SeatNext \<Longrightarrow> Y \<noteq> [] \<and> heard q = Some (hd Y)"
    and not_carried: "\<And>h. heard_place q = Some h \<Longrightarrow> \<not> carries lf h"
    and w: "waits_beside at lf (heard_place q) (q\<lparr>q_order := X @ Z, q_next := Y\<rparr>) = WaitsInOrder"
    and at: "at \<le> length (X @ Y @ Z)"
  defines "q' \<equiv> put_lifted at (heard_place q) lf (q\<lparr>q_order := X @ Z, q_next := Y\<rparr>)"
  shows "put_down q q'" and "in_play_order q' = vec_splice at (block_of lf) (X @ Y @ Z)"
proof -
  let ?q1 = "q\<lparr>q_order := X @ Z, q_next := Y\<rparr>"
  note where_at = waits_in_order_where [OF lf stay w]
  have places: "places_ok q" and seat: "seat_ok q" and stands: "stands_ok q" and stamps: "stamps_ok q"
    and fits: "fits q"
    using ok by (simp_all add: queue_ok_def)
  have kept: "lf_kept_passed lf = length X" using lf by (simp add: lifted_ok_def)
  define oa where "oa = (if at \<le> length X then at else at - length Y)"
  have oa_eq: "order_at_of at lf ?q1 = oa" using where_at(1) by (auto simp: order_at_of_def kept oa_def)
  have oa: "oa \<le> length (X @ Z)" using at by (auto simp: oa_def)
  let ?B = "block_of lf"
  define order' where "order' = vec_splice oa ?B (X @ Z)"
  define after where "after = (case heard_place q of None \<Rightarrow> length (X @ Z) + length ?B
      | Some h \<Rightarrow> length X + (if (if q_seat q = SeatNext then at \<le> length X else oa < length X) then length ?B else 0))"
  have eq: "q' = q\<lparr>q_order := order', q_next := Y,
    q_playing_from := q_playing_from q + stamped (lf_queued lf),
    q_unshuffled := (if q_shuffle q \<and> lf_queued lf \<noteq> []
      then unshuffled_from order' [oa..<oa + length ?B] Front [] (q_unshuffled q) else q_unshuffled q),
    q_after := after, q_revision := q_revision q + 1\<rparr>"
    using put_in_order [OF not_carried w] by (simp add: q'_def oa_eq kept order'_def after_def cong: if_cong option.case_cong)
  have mO: "mset (q_order q) = mset (lf_passed lf @ lf_upcoming lf) + mset (X @ Z)"
    and mN: "mset (q_next q) = mset (lf_queued lf) + mset Y"
    using lf by (simp_all add: lifted_ok_def)
  have mO': "mset order' = mset (q_order q) + mset (lf_queued lf)"
    by (simp add: order'_def mO block_of_def ac_simps)
  have sr: "same_rows q q'" by (simp add: eq same_rows_def rows_of_def mO' mN ac_simps)
  have "mset order' = mset (q_order q @ lf_queued lf)" using mO' by simp
  then have pf: "q_playing_from q' = stamped (q_order q')"
    using stamps stamped_mset by (fastforce simp: eq stamps_ok_def)
  have dist: "distinct (places_of (q_order q @ q_next q))" using places by (simp add: places_ok_def rows_of_def)
  have st: "stands_ok q'"
  proof (cases "q_shuffle q \<and> lf_queued lf \<noteq> []")
    case False
    then show ?thesis using stands mO' by (auto simp: stands_ok_def eq)
  next
    case True
    let ?u = "q_unshuffled q"
    have u: "st_ok ?u" "mset (st_iter ?u) = mset (q_order q)"
      using stands True by (simp_all add: stands_ok_def)
    have run: "map ((!) order') [oa..<oa + length ?B] = ?B"
      unfolding order'_def by (rule run_spliced [OF oa])
    have small: "\<forall>a\<in>set [oa..<oa + length ?B]. a < length order'" using oa by (auto simp: order'_def)
    have len: "length (st_iter ?u) = length (q_order q)" using u(2) by (metis size_mset)
    have lB: "length ?B \<le> length (q_order q) + length (q_next q)"
    proof -
      have "size (mset ?B) \<le> size (mset (q_order q) + mset (q_next q))"
        unfolding mO mN by (simp add: block_of_def)
      then show ?thesis by simp
    qed
    have inB: "filter (\<lambda>h. \<not> st_contains (place h) ?u) ?B = lf_queued lf"
    proof -
      have su: "set (st_iter ?u) = set (q_order q)"
        using u(2) by (metis set_mset_mset)
      have pin: "place h \<in> set (places_of (q_order q))" if "h \<in> set (lf_passed lf) \<or> h \<in> set (lf_upcoming lf)" for h
        using that lifted_sets(1) [OF lf] by (metis UnI1 UnI2 imageI list.set_map)
      have qout: "place h \<notin> set (places_of (q_order q))" if "h \<in> set (lf_queued lf)" for h
        using that lifted_sets(2) [OF lf] dist by (auto simp: image_iff)
      have "filter (\<lambda>h. \<not> st_contains (place h) ?u) (lf_passed lf) = []"
        "filter (\<lambda>h. \<not> st_contains (place h) ?u) (lf_upcoming lf) = []"
        using pin by (simp_all add: filter_empty_conv st_contains_iff [OF u(1)] su)
      moreover have "filter (\<lambda>h. \<not> st_contains (place h) ?u) (lf_queued lf) = lf_queued lf"
        using qout by (intro filter_True) (simp add: st_contains_iff [OF u(1)] su)
      ultimately show ?thesis by (simp add: block_of_def)
    qed
    have dB: "distinct (places_of ([] @ map ((!) order') [oa..<oa + length ?B]))"
    proof -
      have "mset (q_order q @ q_next q) = mset (?B @ X @ Y @ Z)" using mO mN by (simp add: block_of_def ac_simps)
      then have "distinct (places_of (?B @ X @ Y @ Z))" using dist distinct_mset_eq by (metis mset_map)
      then show ?thesis by (simp add: run)
    qed
    have "length (st_iter ?u) + length ([] :: 'a held list) +
        length (filter (\<lambda>h. \<not> st_contains (place h) ?u) (map ((!) order') [oa..<oa + length ?B])) < u64_max"
    proof -
      have "size (mset (lf_queued lf) + mset Y) = length (q_next q)" using mN by (metis size_mset)
      then have "length (lf_queued lf) \<le> length (q_next q)" by simp
      then show ?thesis using fits by (simp add: run inB len fits_def q_len_def)
    qed
    then have "st_ok (unshuffled_from order' [oa..<oa + length ?B] Front [] ?u) \<and>
      mset (st_iter (unshuffled_from order' [oa..<oa + length ?B] Front [] ?u)) =
        mset (st_iter ?u) + mset [] + mset (filter (\<lambda>h. \<not> st_contains (place h) ?u) (map ((!) order') [oa..<oa + length ?B]))"
      by (intro unshuffled_from_puts [OF u(1) small dB]) simp_all
    then show ?thesis using True u(2) mO' by (simp add: stands_ok_def eq run inB)
  qed
  have cases3: "q_seat q = Nowhere \<Longrightarrow> heard_place q = None"
    "q_seat q = SeatInOrder \<Longrightarrow> heard_place q = Some (place (last X))"
    "q_seat q = SeatNext \<Longrightarrow> heard_place q = Some (place (hd Y))"
    using stay stayn by (simp_all add: heard_place_def heard_def)
  have so: "seat_ok q'"
    using cases3 now stay stayn oa
    by (cases "q_seat q") (auto simp: seat_ok_def eq after_def order'_def)
  have hd: "heard q' = heard q"
  proof (cases "q_seat q")
    case Nowhere
    then show ?thesis by (simp add: eq heard_def)
  next
    case SeatNext
    then show ?thesis using stayn by (simp add: eq heard_def front_of_eq_hd)
  next
    case SeatInOrder
    then have X: "X \<noteq> []" "heard q = Some (last X)" using stay by simp_all
    have "get order' (after - 1) = Some (last X)"
    proof (cases "oa < length X")
      case True
      then have "order' = (take oa X @ ?B @ drop oa X) @ Z" by (simp add: order'_def vec_splice_def)
      moreover have "after = length (take oa X @ ?B @ drop oa X)"
        using True SeatInOrder cases3 by (simp add: after_def)
      moreover have "last (take oa X @ ?B @ drop oa X) = last X" "take oa X @ ?B @ drop oa X \<noteq> []"
        using True by (simp_all add: last_append last_drop)
      ultimately show ?thesis by (metis get_last_prefix)
    next
      case False
      then have "order' = X @ vec_splice (oa - length X) ?B Z" by (simp add: order'_def vec_splice_back)
      moreover have "after = length X" using False SeatInOrder cases3 by (simp add: after_def)
      ultimately show ?thesis using X(1) by (simp add: get_append last_conv_nth)
    qed
    moreover have "0 < after" using X(1) SeatInOrder cases3 by (simp add: after_def)
    ultimately show ?thesis using SeatInOrder X(2) by (simp add: eq heard_def last_heard_def checked_sub_def)
  qed
  show "put_down q q'" by (rule put_downI [OF ok sr so st pf hd])
  show "in_play_order q' = vec_splice at ?B (X @ Y @ Z)"
  proof (cases "at \<le> length X")
    case True
    then have "order' = vec_splice at ?B X @ Z" by (simp add: order'_def oa_def vec_splice_front)
    moreover have "after = length (vec_splice at ?B X)"
      using True where_at(2) cases3 now by (cases "q_seat q") (auto simp: after_def oa_def)
    ultimately show ?thesis using True by (simp add: eq in_play_order_def Let_def vec_splice_front)
  next
    case False
    then have far: "length X + length Y < at" "oa = at - length Y" using where_at(1) by (simp_all add: oa_def)
    then have "order' = X @ vec_splice (oa - length X) ?B Z" by (simp add: order'_def vec_splice_back)
    moreover have "q_seat q \<noteq> Nowhere" using now at far(1) by auto
    then have "after = length X" using False far cases3 by (cases "q_seat q") (auto simp: after_def)
    ultimately show ?thesis using far
      by (simp add: eq in_play_order_def Let_def vec_splice_back diff_diff_left add.commute)
  qed
qed

text \<open>A move, whatever it carries.\<close>

lemma move_rows_lands:
  assumes ok: "queue_ok q" and rows: "span_ok rows" "span_last rows < q_len q"
    and to: "to < q_len q" "\<not> span_holds rows to"
  obtains q' where "move_rows rows to q = (Some (), q')" and "put_down q q'"
    and "(\<And>h. heard q = Some h \<Longrightarrow> h \<notin> set (run_of (span_first rows) (span_last rows + 1) (in_play_order q))) \<Longrightarrow>
      in_play_order q' = block_moved rows (span_landing rows to) (in_play_order q)"
proof -
  have seat: "seat_ok q" using ok by (simp add: queue_ok_def)
  obtain lf X Y Z where lift: "lift rows q = (lf, q\<lparr>q_order := X @ Z, q_next := Y\<rparr>)"
    and lf: "lifted_ok q lf X Y Z"
    and block: "block_of lf = run_of (span_first rows) (span_last rows + 1) (in_play_order q)"
    and rest: "X @ Y @ Z = rest_of (span_first rows) (span_last rows + 1) (in_play_order q)"
    and nowhere: "q_seat q = Nowhere \<Longrightarrow> Y = [] \<and> Z = [] \<and> lf_queued lf = [] \<and> lf_upcoming lf = []"
    and ino: "q_seat q = SeatInOrder \<Longrightarrow> lf_passed lf = [] \<or> last (lf_passed lf) \<noteq> q_order q ! (q_after q - 1) \<Longrightarrow>
      X \<noteq> [] \<and> last X = q_order q ! (q_after q - 1)"
    and nxt: "\<And>h hs. q_next q = h # hs \<Longrightarrow> lf_queued lf = [] \<or> hd (lf_queued lf) \<noteq> h \<Longrightarrow> Y \<noteq> [] \<and> hd Y = h"
    by (rule lift_facts [OF seat rows(1)]) (rule that)
  let ?q1 = "q\<lparr>q_order := X @ Z, q_next := Y\<rparr>" and ?at = "span_landing rows to"
  define q' where "q' = put_lifted ?at (heard_place q) lf ?q1"
  have move: "move_rows rows to q = (Some (), q')"
    using rows(2) to lift by (auto simp: move_rows_def checked_sub_def q'_def)
  have at: "?at \<le> length (X @ Y @ Z)"
    using rows to in_play_order_nth(1) [OF seat]
    by (auto simp: rest rest_of_def span_landing_def span_ok_def span_holds_def)
  show thesis
  proof (cases "\<exists>h. heard q = Some h \<and> carries lf (place h)")
    case True
    then obtain h where h: "heard q = Some h" "carries lf (place h)" by blast
    have "put_down q q'" using put_carried_ok [OF ok lf h at] h(1) by (simp add: q'_def heard_place_def)
    moreover have "h \<in> set (block_of lf)"
    proof -
      have "q_seat q \<noteq> Nowhere" using h(1) by (auto simp: heard_def)
      then show ?thesis
        using carries_heard [OF ok lf h(1)] h(2) by (cases "q_seat q") (auto simp: block_of_def)
    qed
    ultimately show ?thesis using move h(1) block by (intro that) auto
  next
    case False
    have not_carried: "\<And>p. heard_place q = Some p \<Longrightarrow> \<not> carries lf p" using False by (auto simp: heard_place_def)
    have now: "q_seat q = Nowhere \<Longrightarrow> Y = [] \<and> Z = []" using nowhere by simp
    have stay: "q_seat q = SeatInOrder \<Longrightarrow> X \<noteq> [] \<and> heard q = Some (last X)"
    proof -
      assume s: "q_seat q = SeatInOrder"
      with seat have h: "heard q = Some (q_order q ! (q_after q - 1))" by (cases rule: seat_cases) auto
      then show ?thesis using ino [OF s] False carries_heard(1) [OF ok lf h s] by auto
    qed
    have stayn: "q_seat q = SeatNext \<Longrightarrow> Y \<noteq> [] \<and> heard q = Some (hd Y)"
    proof -
      assume s: "q_seat q = SeatNext"
      with seat obtain h hs where h: "q_next q = h # hs" "heard q = Some h" by (cases rule: seat_cases) auto
      then show ?thesis using nxt [OF h(1)] False carries_heard(2) [OF ok lf h(2) s] by auto
    qed
    have landed: "put_down q q' \<and> in_play_order q' = vec_splice ?at (block_of lf) (X @ Y @ Z)"
    proof (cases "waits_beside ?at lf (heard_place q) ?q1")
      case WaitsNext
      show ?thesis
        using put_next_ok [OF ok lf now stay stayn not_carried WaitsNext] by (simp add: q'_def)
    next
      case WaitsInOrder
      show ?thesis
        using put_in_order_ok [OF ok lf now stay stayn not_carried WaitsInOrder at] by (simp add: q'_def)
    qed
    show ?thesis
    proof (rule that [OF move])
      show "put_down q q'" using landed by (rule conjunct1)
      show "in_play_order q' = block_moved rows ?at (in_play_order q)"
        using conjunct2 [OF landed] by (simp only: block_moved_def block rest)
    qed
  qed
qed

lemma move_rows_ok:
  assumes ok: "queue_ok q" and "span_ok rows"
  shows "queue_ok (snd (move_rows rows to q))"
proof (cases "span_last rows < q_len q \<and> to < q_len q \<and> \<not> span_holds rows to")
  case True
  then show ?thesis
    using move_rows_lands [OF ok assms(2), of to] by (metis put_down_def snd_conv)
next
  case False
  then have "snd (move_rows rows to q) = q"
    by (cases "q_len q") (auto simp: move_rows_def checked_sub_def)
  then show ?thesis using ok by simp
qed

end
