(* ===== verification/QueueBehaviour.thy ===== *)
theory QueueBehaviour
  imports QueueMoves
begin

text \<open>
  What the play queue does, operation by operation: the invariant over every run of operations,
  what is heard next, and what each edit does to the rows as the listener sees them.
\<close>

subsection \<open>Runs of operations\<close>

text \<open>
  One call of the queue, whatever the engine calls. The guards are what the engine can rely on:
  fewer than \<open>2^64 - 1\<close> rows in all, ids left to mint, and spans built by their constructors.
\<close>

inductive queue_step :: "'l row_hash \<Rightarrow> 'l queue \<Rightarrow> 'l queue \<Rightarrow> bool" for H where
  step_load: "length (waiting q) + length items < u64_max \<Longrightarrow>
     queue_step H q (snd (load H items start_at q))"
| step_restore: "length (res_rows res) < u64_max \<Longrightarrow> (\<forall>n. res_next res = Some n \<longrightarrow> span_ok n) \<Longrightarrow>
     queue_step H q (snd (restore H res q))"
| step_insert: "q_len q + length items < u64_max \<Longrightarrow> length items \<le> room (q_ids q) \<Longrightarrow>
     queue_step H q (snd (insert_rows H items at q))"
| step_insert_to_hear: "q_len q + length items < u64_max \<Longrightarrow> length items \<le> room (q_ids q) \<Longrightarrow>
     queue_step H q (snd (insert_to_hear H items at q))"
| step_remove: "queue_step H q (snd (remove_all runs q))"
| step_move: "span_ok rows \<Longrightarrow> queue_step H q (snd (move_rows rows to q))"
| step_reorder: "queue_step H q (snd (reorder named q))"
| step_relocate: "queue_step H q (snd (relocate moved q))"
| step_repeat: "queue_step H q (set_repeat mode q)"
| step_shuffle: "queue_step H q (set_shuffle shuffled q)"
| step_advance: "queue_step H q (snd (advance natural q))"
| step_retreat: "queue_step H q (snd (retreat q))"
| step_jump: "queue_step H q (snd (jump_to row q))"

inductive queue_reached :: "'l row_hash \<Rightarrow> 'l queue \<Rightarrow> bool" for H where
  reached_new: "queue_reached H (queue_new seed)"
| reached_step: "queue_reached H q \<Longrightarrow> queue_step H q q' \<Longrightarrow> queue_reached H q'"

lemmas ops_keep =
  load_ok restore_ok insert_rows_ok insert_to_hear_ok remove_all_ok move_rows_ok reorder_ok
  relocate_ok set_repeat_ok set_shuffle_ok advance_ok retreat_ok jump_to_ok

lemma step_keeps: "queue_step H q q' \<Longrightarrow> queue_ok q \<Longrightarrow> queue_ok q'"
  by (induction rule: queue_step.induct) (auto intro: ops_keep)

lemma reached_ok: "queue_reached H q \<Longrightarrow> queue_ok q"
  by (induction rule: queue_reached.induct) (auto intro: step_keeps)

subsection \<open>What is heard next\<close>

definition natural_advances :: "nat \<Rightarrow> 'l queue \<Rightarrow> 'l queue" where
  "natural_advances n q = ((\<lambda>q. snd (advance True q)) ^^ n) q"

lemma natural_advances_0 [simp]: "natural_advances 0 q = q"
  by (simp add: natural_advances_def)

lemma natural_advances_Suc: "natural_advances (Suc n) q = natural_advances n (snd (advance True q))"
  by (simp add: natural_advances_def funpow_Suc_right del: funpow.simps)

lemma advance_nowhere [simp]: "q_seat q = Nowhere \<Longrightarrow> advance natural q = (None, q)"
  by (simp add: advance_def)

lemma natural_nowhere: "q_seat q = Nowhere \<Longrightarrow> natural_advances n q = q"
  by (induction n) (simp_all add: natural_advances_Suc)

lemma natural_advances_repeat: "q_repeat (natural_advances n q) = q_repeat q"
proof (induction n arbitrary: q)
  case (Suc n)
  have "q_repeat (snd (let_go_of_what_was_heard q)) = q_repeat q"
    by (simp add: let_go_of_what_was_heard_def rows_moved_def left_def Let_def split: list.split)
  moreover have "q_repeat (hand_on p) = q_repeat p" for p :: "'a queue"
    using wrap_to_the_start_facts(3) [of p] by (simp add: hand_on_def only_shuffled_def)
  ultimately have "q_repeat (snd (advance True q)) = q_repeat q"
  proof (cases "q_seat q = Nowhere \<or> q_repeat q = RepeatTrack")
    case False
    then have "q_seat q \<noteq> Nowhere" "\<not> (True \<and> q_repeat q = RepeatTrack)" by simp_all
    from advance_hand_on [OF this] show ?thesis
      using \<open>q_repeat (snd (let_go_of_what_was_heard q)) = q_repeat q\<close> \<open>\<And>p. q_repeat (hand_on p) = q_repeat p\<close>
      by (simp add: Let_def)
  qed (auto simp: advance_def)
  then show ?case using Suc by (simp add: natural_advances_Suc)
qed simp

text \<open>A reckoning over a queue, and the queue advanced that far.\<close>

definition reckons :: "'l queue \<Rightarrow> reckoning \<Rightarrow> 'l queue \<Rightarrow> bool" where
  "reckons q rk q' \<longleftrightarrow> q_order q' = q_order q \<and> q_repeat q' = q_repeat q \<and> q_shuffle q' = q_shuffle q \<and>
     q_seat q' = rk_seat rk \<and> q_after q' = rk_after rk \<and> q_next q' = drop (rk_let_go rk) (q_next q)"

lemma advance_simps:
  assumes "q_seat q \<noteq> Nowhere" and "q_repeat q \<noteq> RepeatTrack"
  shows "snd (advance natural q) = hand_on (if q_seat q = SeatNext then snd (let_go_of_what_was_heard q) else q)"
  using assms by (simp add: advance_hand_on Let_def)

lemma wraps_iff:
  assumes "queue_ok q"
  shows "wraps_next q \<longleftrightarrow> q_repeat q = RepeatQueue \<and> q_seat q \<noteq> Nowhere \<and> waiting q = [] \<and> q_after q = length (q_order q)"
proof -
  have "seat_ok q" using assms by (simp add: queue_ok_def)
  then show ?thesis
  proof (cases rule: seat_cases)
    case (queued h hs)
    then show ?thesis
      by (auto simp: wraps_next_def wraps_next_after_def is_last_after_def reckoned_after_def waiting_at_def waiting_def)
  qed (auto simp: wraps_next_def wraps_next_after_def is_last_after_def reckoned_after_def waiting_at_def waiting_def)
qed

text \<open>Where a shuffled pass ends and repeats, the reckoning stops: its next order is not drawn yet.\<close>

lemma reckons_no_further:
  assumes r: "reckons q rk q'" and ok: "queue_ok q'" and shuffled: "q_shuffle q" and wraps: "wraps_next q'"
  shows "advanced_from rk q = None"
    and "(if rk_seat rk = SeatNext then get (q_next q) (rk_let_go rk + 1) else get (q_next q) (rk_let_go rk)) = None"
    and "get (q_order q) (rk_after rk) = None"
proof -
  have w: "q_repeat q' = RepeatQueue" "q_seat q' \<noteq> Nowhere" "waiting q' = []" "q_after q' = length (q_order q')"
    using wraps wraps_iff [OF ok] by simp_all
  have s: "q_order q' = q_order q" "q_seat q' = rk_seat rk" "q_after q' = rk_after rk"
    "q_next q' = drop (rk_let_go rk) (q_next q)"
    using r by (simp_all add: reckons_def)
  have len: "length (q_next q) \<le> (if rk_seat rk = SeatNext then rk_let_go rk + 1 else rk_let_go rk)"
    using w(2,3) s(2,4) by (cases "q_seat q'") (auto simp: waiting_def)
  then show "advanced_from rk q = None" "get (q_order q) (rk_after rk) = None"
    "(if rk_seat rk = SeatNext then get (q_next q) (rk_let_go rk + 1) else get (q_next q) (rk_let_go rk)) = None"
    using w s shuffled by (auto simp: advanced_from_def get_def split: if_splits)
qed

lemma reckons_step:
  assumes r: "reckons q rk q'" and ok: "queue_ok q'" and rep: "q_repeat q \<noteq> RepeatTrack"
    and wraps: "q_shuffle q \<longrightarrow> \<not> wraps_next q'"
  shows "advanced_from rk q = Some rk' \<Longrightarrow> reckons q rk' (snd (advance True q'))"
    and "advanced_from rk q = None \<Longrightarrow> q_seat (snd (advance True q')) = Nowhere"
proof -
  have rs: "q_repeat q' \<noteq> RepeatTrack" using r rep by (simp add: reckons_def)
  have seat: "seat_ok q'" using ok by (simp add: queue_ok_def)
  note wraps' = wraps [unfolded wraps_iff [OF ok]]
  have "(\<forall>rk'. advanced_from rk q = Some rk' \<longrightarrow> reckons q rk' (snd (advance True q'))) \<and>
    (advanced_from rk q = None \<longrightarrow> q_seat (snd (advance True q')) = Nowhere)"
    using seat
  proof (cases rule: seat_cases)
    case nowhere
    then show ?thesis using r by (simp add: advanced_from_def reckons_def)
  next
    case (in_order a)
    then show ?thesis
      using r wraps' rs by (auto simp: advance_simps hand_on_def advanced_from_def reckons_def wrap_to_the_start_def
          waiting_def Let_def split: if_splits)
  next
    case (queued h hs)
    define p where "p = snd (let_go_of_what_was_heard q')"
    have lg: "q_next p = hs" "q_order p = q_order q'" "q_after p = q_after q'" "q_repeat p = q_repeat q'"
      "q_shuffle p = q_shuffle q'"
      unfolding p_def by (rule let_go_Cons [OF queued(2)])+
    have d: "drop (Suc (rk_let_go rk)) (q_next q) = hs"
      using r queued by (intro drop_Cons_Suc [of _ _ h]) (simp add: reckons_def)
    then have ne: "hs \<noteq> [] \<longleftrightarrow> Suc (rk_let_go rk) < length (q_next q)" by auto
    have "snd (advance True q') = hand_on p"
      using queued rs by (simp add: advance_simps p_def)
    moreover have "q_order q' = q_order q" "q_repeat q' = q_repeat q" "q_shuffle q' = q_shuffle q"
      "rk_seat rk = SeatNext" "rk_after rk = q_after q'"
      using r queued by (simp_all add: reckons_def)
    moreover have "q_shuffle q \<longrightarrow> \<not> (q_repeat q = RepeatQueue \<and> hs = [] \<and> q_after q' = length (q_order q))"
      using wraps' queued calculation by (simp add: waiting_def)
    ultimately show ?thesis
      using lg d ne queued(3)
      by (auto simp: hand_on_def advanced_from_def reckons_def wrap_to_the_start_def Let_def)
  qed
  then show "advanced_from rk q = Some rk' \<Longrightarrow> reckons q rk' (snd (advance True q'))"
    "advanced_from rk q = None \<Longrightarrow> q_seat (snd (advance True q')) = Nowhere" by blast+
qed

lemma reckons_until:
  assumes "reckons q rk q'" and "queue_ok q'" and "q_repeat q \<noteq> RepeatTrack"
    and "q_shuffle q \<longrightarrow> (\<forall>m<n. \<not> wraps_next (natural_advances m q'))"
  shows "case advanced_by n rk q of
      Some rk' \<Rightarrow> reckons q rk' (natural_advances n q')
    | None \<Rightarrow> q_seat (natural_advances n q') = Nowhere"
  using assms(1,2,4)
proof (induction n arbitrary: rk q')
  case (Suc n)
  have here: "q_shuffle q \<longrightarrow> \<not> wraps_next q'" using Suc.prems(3) natural_advances_0 by (metis zero_less_Suc)
  have later: "q_shuffle q \<longrightarrow> (\<forall>m<n. \<not> wraps_next (natural_advances m (snd (advance True q'))))"
    using Suc.prems(3) by (auto simp flip: natural_advances_Suc)
  note step = reckons_step [OF Suc.prems(1,2) assms(3) here]
  have ok': "queue_ok (snd (advance True q'))" by (rule advance_ok [OF Suc.prems(2)])
  show ?case
  proof (cases "advanced_from rk q")
    case None
    then show ?thesis using step(2) by (simp add: natural_advances_Suc natural_nowhere)
  next
    case (Some rk')
    then show ?thesis
      using Suc.IH [OF step(1) [OF Some] ok' later] by (simp add: natural_advances_Suc split: option.splits)
  qed
qed simp

lemma reckons_stops:
  assumes "reckons q rk q'" and "queue_ok q'" and "q_repeat q \<noteq> RepeatTrack" and "q_shuffle q"
    and "m < n" and "wraps_next (natural_advances m q')"
  shows "advanced_by n rk q = None"
  using assms(1,2,5,6)
proof (induction n arbitrary: rk q' m)
  case (Suc n)
  show ?case
  proof (cases "wraps_next q'")
    case True
    then show ?thesis using reckons_no_further(1) [OF Suc.prems(1,2) assms(4)] by simp
  next
    case False
    then obtain k where k: "m = Suc k" using Suc.prems(4) by (cases m) simp_all
    have here: "q_shuffle q \<longrightarrow> \<not> wraps_next q'" using False by simp
    show ?thesis
    proof (cases "advanced_from rk q")
      case (Some rk')
      have "advanced_by n rk' q = None"
        using Suc.prems(3,4)
        by (intro Suc.IH [OF reckons_step(1) [OF Suc.prems(1,2) assms(3) here Some] advance_ok [OF Suc.prems(2)], of k])
          (simp_all add: k natural_advances_Suc)
      then show ?thesis using Some by simp
    qed simp
  qed
qed simp

lemma current_next:
  assumes r: "reckons q rk q'" and ok: "queue_ok q'" and "q_repeat q \<noteq> RepeatTrack"
    and wraps: "q_shuffle q \<longrightarrow> \<not> wraps_next q'" and "q_seat q' \<noteq> Nowhere"
  shows "current (snd (advance True q')) = map_option item
     (case (if rk_seat rk = SeatNext then get (q_next q) (rk_let_go rk + 1) else get (q_next q) (rk_let_go rk)) of
        Some h \<Rightarrow> Some h
      | None \<Rightarrow> (case get (q_order q) (rk_after rk) of
          Some h \<Rightarrow> Some h
        | None \<Rightarrow> if q_repeat q = RepeatQueue \<and> \<not> q_shuffle q then front_of (q_order q) else None))"
proof -
  have rs: "q_repeat q' \<noteq> RepeatTrack" using r assms(3) by (simp add: reckons_def)
  have seat: "seat_ok q'" using ok by (simp add: queue_ok_def)
  note wraps' = wraps [unfolded wraps_iff [OF ok]]
  from seat show ?thesis
  proof (cases rule: seat_cases)
    case nowhere
    then show ?thesis using assms(5) by simp
  next
    case (in_order a)
    have g: "get (q_next q) (rk_let_go rk) = front_of (q_next q')"
      using r by (simp add: reckons_def get_drop)
    have s: "rk_seat rk = SeatInOrder" "rk_after rk = q_after q'" "q_order q' = q_order q"
      "q_repeat q' = q_repeat q" "q_shuffle q' = q_shuffle q"
      using r in_order by (simp_all add: reckons_def)
    show ?thesis
      using rs in_order wraps' s unfolding g
      by (cases "q_next q'") (auto simp: advance_simps hand_on_def current_def heard_def last_heard_def
          wrap_to_the_start_def checked_sub_def front_of_def waiting_def Let_def)
  next
    case (queued h hs)
    note lg = let_go_Cons [OF queued(2)]
    have d: "drop (Suc (rk_let_go rk)) (q_next q) = hs"
      using r queued by (intro drop_Cons_Suc [of _ _ h]) (simp add: reckons_def)
    then have g: "get (q_next q) (rk_let_go rk + 1) = front_of hs"
      by (simp add: get_drop)
    have s: "rk_seat rk = SeatNext" "rk_after rk = q_after q'" "q_order q' = q_order q"
      "q_repeat q' = q_repeat q" "q_shuffle q' = q_shuffle q"
      using r queued by (simp_all add: reckons_def)
    show ?thesis
      using rs queued wraps' s lg unfolding g
      by (cases hs) (auto simp: advance_simps hand_on_def current_def heard_def last_heard_def
          wrap_to_the_start_def checked_sub_def front_of_def waiting_def Let_def)
  qed
qed

lemma reckons_start:
  "reckons q \<lparr>rk_seat = q_seat q, rk_after = q_after q, rk_let_go = 0\<rparr> q"
  by (simp add: reckons_def)

lemma current_nowhere [simp]: "q_seat q = Nowhere \<Longrightarrow> current q = None"
  by (simp add: current_def heard_def)

lemma advanced_seat: "advanced_from rk q = Some rk' \<Longrightarrow> rk_seat rk' \<noteq> Nowhere"
  by (auto simp: advanced_from_def Let_def split: if_splits)

lemma advanced_by_seat: "advanced_by (Suc n) rk q = Some rk' \<Longrightarrow> rk_seat rk' \<noteq> Nowhere"
proof (induction n arbitrary: rk)
  case 0
  then show ?case using advanced_seat by (auto split: option.splits)
next
  case (Suc n)
  then obtain z where "advanced_from rk q = Some z" by (auto split: option.splits)
  then show ?case using Suc by simp
qed

lemma track_repeats:
  "q_repeat q = RepeatTrack \<Longrightarrow> natural_advances n q = q"
  by (induction n) (simp_all add: natural_advances_Suc advance_def)

lemma follows_naturally:
  assumes ok: "queue_ok q"
  shows "follows_naturally_after n q =
    (if q_shuffle q \<and> (\<exists>m\<le>n. wraps_next (natural_advances m q)) then None
     else current (natural_advances (Suc n) q))"
proof (cases "q_seat q = Nowhere \<or> q_repeat q = RepeatTrack")
  case True
  have "\<not> wraps_next (natural_advances m q)" for m
    using True wraps_iff [OF ok] by (auto simp: natural_nowhere track_repeats)
  then show ?thesis using True
    by (auto simp: follows_naturally_after_def natural_nowhere track_repeats)
next
  case False
  let ?rk = "\<lparr>rk_seat = q_seat q, rk_after = q_after q, rk_let_go = 0\<rparr>"
  have rep: "q_repeat q \<noteq> RepeatTrack" using False by simp
  have run: "natural_advances (Suc n) q = snd (advance True (natural_advances n q))"
    by (simp add: natural_advances_def)
  have okn: "queue_ok (natural_advances n q)" for n
    using ok by (induction n) (simp_all add: natural_advances_def advance_ok)
  show ?thesis
  proof (cases "q_shuffle q \<and> (\<exists>m<n. wraps_next (natural_advances m q))")
    case True
    then obtain m where m: "q_shuffle q" "m < n" "wraps_next (natural_advances m q)" by blast
    have "advanced_by n ?rk q = None" by (rule reckons_stops [OF reckons_start ok rep m])
    then have "follows_naturally_after n q = None"
      using False by (simp add: follows_naturally_after_def reckoned_after_def)
    moreover have "m \<le> n" using m(2) by simp
    ultimately show ?thesis using m by auto
  next
    case none: False
    then have before: "q_shuffle q \<longrightarrow> (\<forall>m<n. \<not> wraps_next (natural_advances m q))" by blast
    note many = reckons_until [OF reckons_start ok rep before]
    have now: "(\<exists>m\<le>n. wraps_next (natural_advances m q)) \<longleftrightarrow> wraps_next (natural_advances n q)" if "q_shuffle q"
      using none that by (metis le_neq_implies_less order_refl)
    show ?thesis
    proof (cases "advanced_by n ?rk q")
      case None
      then have "q_seat (natural_advances n q) = Nowhere" using many by simp
      then show ?thesis using False None unfolding run
        by (simp add: follows_naturally_after_def reckoned_after_def)
    next
      case (Some rk')
      then have r: "reckons q rk' (natural_advances n q)" using many by simp
      have "rk_seat rk' \<noteq> Nowhere"
        using Some advanced_by_seat False by (cases n) (auto simp del: advanced_by.simps(2))
      then have somewhere: "q_seat (natural_advances n q) \<noteq> Nowhere" using r by (simp add: reckons_def)
      have follows: "follows_naturally_after n q = map_option item
         (case (if rk_seat rk' = SeatNext then get (q_next q) (rk_let_go rk' + 1) else get (q_next q) (rk_let_go rk')) of
            Some h \<Rightarrow> Some h
          | None \<Rightarrow> (case get (q_order q) (rk_after rk') of
              Some h \<Rightarrow> Some h
            | None \<Rightarrow> if q_repeat q = RepeatQueue \<and> \<not> q_shuffle q then front_of (q_order q) else None))"
        using False Some by (simp add: follows_naturally_after_def reckoned_after_def Let_def)
      show ?thesis
      proof (cases "q_shuffle q \<and> wraps_next (natural_advances n q)")
        case True
        then have sh: "q_shuffle q" and w: "wraps_next (natural_advances n q)" by simp_all
        show ?thesis
          using follows reckons_no_further(2,3) [OF r okn sh w] now [OF sh] sh w by simp
      next
        case no_wrap: False
        then have "q_shuffle q \<longrightarrow> \<not> wraps_next (natural_advances n q)" by blast
        from current_next [OF r okn rep this somewhere]
        show ?thesis using follows now no_wrap unfolding run by auto
      qed
    qed
  qed
qed

text \<open>The row after which playing ends.\<close>

lemma last_row_ends:
  assumes r: "reckons q rk q'" and ok: "seat_ok q'" and off: "q_repeat q = RepeatOff"
  shows "rk_seat rk \<noteq> Nowhere \<and> waiting_at rk q = 0 \<and> rk_after rk \<ge> length (q_order q) \<longleftrightarrow>
    q_seat q' \<noteq> Nowhere \<and> q_seat (snd (advance True q')) = Nowhere"
proof -
  have rs: "q_repeat q' = RepeatOff" using r off by (simp add: reckons_def)
  have rest: "q_order q' = q_order q" "rk_seat rk = q_seat q'" "rk_after rk = q_after q'"
    "q_next q' = drop (rk_let_go rk) (q_next q)"
    using r by (simp_all add: reckons_def)
  from ok show ?thesis
  proof (cases rule: seat_cases)
    case nowhere
    then show ?thesis using rest by simp
  next
    case (in_order a)
    have "waiting_at rk q = length (q_next q')" using in_order rest by (simp add: waiting_at_def)
    then show ?thesis using in_order rs rest
      by (auto simp: advance_simps hand_on_def)
  next
    case (queued h hs)
    note lg = let_go_Cons [OF queued(2)]
    have "length (q_next q) - rk_let_go rk = length (h # hs)" using queued(2) rest(4) by (metis length_drop)
    then have "waiting_at rk q = length hs" using queued rest by (simp add: waiting_at_def)
    then show ?thesis using queued rs rest lg(2-6)
      by (auto simp: advance_simps hand_on_def)
  qed
qed

lemma ends_after:
  assumes ok: "queue_ok q"
  shows "ends_with_the_row_after n q \<longleftrightarrow> q_repeat q = RepeatOff \<and>
    current (natural_advances n q) \<noteq> None \<and> current (natural_advances (Suc n) q) = None"
proof (cases "q_repeat q = RepeatOff")
  case off: True
  let ?rk = "\<lparr>rk_seat = q_seat q, rk_after = q_after q, rk_let_go = 0\<rparr>"
  have okn: "queue_ok (natural_advances n q)" for n
    using ok by (induction n) (simp_all add: natural_advances_def advance_ok)
  have seatn: "seat_ok (natural_advances n q)" for n using okn by (simp add: queue_ok_def)
  have none: "current p = None \<longleftrightarrow> q_seat p = Nowhere" if "seat_ok p" for p :: "'a queue"
    using that by (cases rule: seat_cases) (auto simp: current_def)
  have run: "natural_advances (Suc n) q = snd (advance True (natural_advances n q))"
    by (simp add: natural_advances_def)
  have "\<not> wraps_next (natural_advances m q)" for m
    using off natural_advances_repeat [of m q] by (simp add: wraps_next_def wraps_next_after_def)
  then have many: "case advanced_by n ?rk q of Some rk' \<Rightarrow> reckons q rk' (natural_advances n q)
      | None \<Rightarrow> q_seat (natural_advances n q) = Nowhere"
    by (intro reckons_until [OF reckons_start ok]) (simp_all add: off)
  show ?thesis
    using many off last_row_ends [OF _ seatn off, of _ n] none [OF seatn, of n] none [OF seatn, of "Suc n"]
    by (auto simp: ends_with_the_row_after_def is_last_after_def reckoned_after_def Let_def
        split: option.splits)
      (metis none okn queue_ok_def run)+
qed (simp add: ends_with_the_row_after_def)

subsection \<open>Hearing a row of one's choice\<close>

lemma jump_hears:
  assumes ok: "queue_ok q" and at: "at < q_len q"
  shows "heard (snd (jump_to at q)) = Some (in_play_order q ! at)"
    and "fst (jump_to at q) = Some (place (in_play_order q ! at))"
proof -
  have seat: "seat_ok q" using ok by (simp add: queue_ok_def)
  note nth = in_play_order_nth [OF seat] and facts = row_at_facts [OF seat]
  obtain r where r: "row_at at q = Some r" using facts(1) at by (metis leD not_None_eq)
  have main: "heard (snd (jump_to at q)) = Some (in_play_order q ! at) \<and>
      fst (jump_to at q) = Some (place (in_play_order q ! at))"
  proof (cases r)
    case (RowInOrder i)
    have i: "i < length (q_order q)" using facts(2) r RowInOrder by simp
    define p where "p = (if q_seat q = SeatNext then snd (let_go_of_what_was_heard q) else q)"
    have "q_order p = q_order q"
    proof (cases "q_seat q = SeatNext")
      case True
      with seat obtain h hs where "q_next q = h # hs" by (auto simp: seat_ok_def neq_Nil_conv)
      from let_go_Cons(3) [OF this] show ?thesis using True by (simp add: p_def)
    qed (simp add: p_def)
    then show ?thesis
      using r RowInOrder i nth(2) by (simp add: jump_to_def Let_def p_def [symmetric] heard_place_def heard_def
          last_heard_def checked_sub_def)
  next
    case (RowNext w)
    have w: "w < length (q_next q)" using facts(3) r RowNext by simp
    show ?thesis
    proof (cases "q_seat q = SeatNext")
      case False
      then show ?thesis using r RowNext w nth(3) by (simp add: jump_to_def Let_def heard_place_def heard_def)
    next
      case True
      with seat obtain h hs where hs: "q_next q = h # hs" by (auto simp: seat_ok_def neq_Nil_conv)
      note lg = let_go_Cons [OF hs]
      show ?thesis
        using r RowNext True w nth(3) hs lg(1,2)
        by (cases w) (auto simp: jump_to_def Let_def heard_place_def heard_def case_prod_unfold)
    qed
  qed
  then show "heard (snd (jump_to at q)) = Some (in_play_order q ! at)"
    "fst (jump_to at q) = Some (place (in_play_order q ! at))" by blast+
qed

lemma jump_outside: "queue_ok q \<Longrightarrow> q_len q \<le> at \<Longrightarrow> jump_to at q = (None, q)"
  using row_at_facts(1) [of q at] by (simp add: jump_to_def queue_ok_def)

subsection \<open>Rows that arrive land where they were put\<close>

definition put_at :: "placement \<Rightarrow> 'l queue \<Rightarrow> nat" where
  "put_at at q = (case at of
     PlaceAt r \<Rightarrow> min r (q_len q)
   | PlaceNext \<Rightarrow> (case cursor q of None \<Rightarrow> q_len q | Some c \<Rightarrow> Suc c)
   | PlaceQueued \<Rightarrow> (case cursor q of None \<Rightarrow> q_len q | Some _ \<Rightarrow> q_after q + length (q_next q)))"

lemma insert_lands:
  fixes H :: "'l row_hash" and q :: "'l queue" and at :: placement
  assumes ok: "queue_ok q" and ne: "items \<noteq> []"
    and arrived: "one_id_each items (q_ids q) = (arrived, ids)"
  defines "landed \<equiv> held_from H (q_places q) arrived"
  defines "q' \<equiv> snd (insert_rows H items at q)"
  shows "fst (insert_rows H items at q) = Some (put_at at q)"
    and "in_play_order q' = vec_splice (put_at at q) landed (in_play_order q)"
    and "q_seat q \<noteq> Nowhere \<Longrightarrow> heard q' = heard q"
    and "q_seat q = Nowhere \<Longrightarrow> heard q' = front_of landed"
proof -
  have seat: "seat_ok q" using ok by (simp add: queue_ok_def)
  define r where "r = landing at q"
  define q1 where "q1 = q\<lparr>q_ids := ids, q_places := q_places q + length arrived,
     q_stamp := q_stamp q + stamped landed,
     q_playing_from := (if row_waits r = WaitsInOrder then q_playing_from q + stamped landed else q_playing_from q)\<rparr>"
  define q2 where "q2 = (case r of
       RowNext i \<Rightarrow> q1\<lparr>q_next := vec_splice i landed (q_next q)\<rparr>
     | RowInOrder i \<Rightarrow> land_in_order i landed (before_queued at q) q1)"
  have eq: "insert_rows H items at q = (Some (drawn_at r (rows_moved q2)), rows_moved q2)"
    using insert_rows_eq [OF ne arrived, of H at, folded landed_def, folded r_def, folded q1_def, folded q2_def] .
  have len: "landed \<noteq> []" using ne one_id_each_rows [OF arrived] by (auto simp: landed_def)
  have "drawn_at r (rows_moved q2) = put_at at q \<and>
    in_play_order (rows_moved q2) = vec_splice (put_at at q) landed (in_play_order q) \<and>
    (q_seat q \<noteq> Nowhere \<longrightarrow> heard (rows_moved q2) = heard q) \<and>
    (q_seat q = Nowhere \<longrightarrow> heard (rows_moved q2) = front_of landed)"
  proof (cases r)
    case (RowNext i)
    have i: "i \<le> length (q_next q)" "q_seat q \<noteq> Nowhere" "q_seat q = SeatNext \<longrightarrow> 0 < i"
      using landing_facts(2) [OF seat, of at i] RowNext r_def by simp_all
    have d: "put_at at q = q_after q + i"
      using RowNext r_def seat i(2)
      by (auto simp: landing_def cursor_def put_at_def seat_ok_def checked_sub_def q_len_def Let_def
          split: seat.splits placement.splits if_splits)
    have hd: "q_seat q = SeatNext \<Longrightarrow> front_of (vec_splice i landed (q_next q)) = front_of (q_next q)"
      using i(1,3) by (cases "q_next q"; cases i) (auto simp: vec_splice_def front_of_def)
    from seat show ?thesis
    proof (cases rule: seat_cases)
      case (in_order a)
      then show ?thesis
        using RowNext i d
        by (simp add: q2_def q1_def drawn_at_def in_play_order_def vec_splice_def heard_def
            last_heard_def checked_sub_def Let_def)
    next
      case (queued h hs)
      then show ?thesis
        using RowNext i d hd
        by (simp add: q2_def q1_def drawn_at_def in_play_order_def heard_def Let_def vec_splice_back
            vec_splice_front del: append_Cons append.simps flip: append_Cons)
    qed (use i in simp)
  next
    case (RowInOrder i)
    have i: "i \<le> length (q_order q)" using landing_facts(1) [OF seat] RowInOrder r_def by simp
    have l0: "0 < length landed" using len by simp
    from seat show ?thesis
    proof (cases rule: seat_cases)
      case nowhere
      then have "put_at at q = i"
        using RowInOrder r_def by (auto simp: landing_def cursor_def put_at_def q_len_def split: placement.splits)
      then show ?thesis
        using nowhere RowInOrder i l0 add_strict_increasing [OF l0 i]
        by (simp add: q2_def q1_def drawn_at_def in_play_order_def land_in_order_facts heard_def last_heard_def
            checked_sub_def Let_def) (simp add: vec_splice_def get_def nth_append front_of_def)
    next
      case (in_order a)
      have d: "put_at at q = (if i < q_after q then i else i + length (q_next q)) \<and> i \<noteq> q_after q \<or>
          put_at at q = i + length (q_next q) \<and> i = q_after q \<and> i = length (q_order q)"
        using RowInOrder r_def in_order
        by (auto simp: landing_def cursor_def put_at_def q_len_def checked_sub_def split: placement.splits if_splits)
      have h: "get (vec_splice i landed (q_order q)) (a + (if i < Suc a then length landed else 0)) = Some (q_order q ! a)"
        using in_order i by (auto simp: get_def vec_splice_def nth_append min_def)
      show ?thesis
      proof (cases "i < q_after q")
        case True
        then show ?thesis
          using in_order RowInOrder i d h
          by (auto simp: q2_def q1_def drawn_at_def in_play_order_def land_in_order_facts heard_def last_heard_def
            checked_sub_def vec_splice_def Let_def drop_take)
      next
        case False
        then show ?thesis
          using in_order RowInOrder i d h
          by (auto simp: q2_def q1_def drawn_at_def in_play_order_def land_in_order_facts heard_def last_heard_def
            checked_sub_def vec_splice_def Let_def drop_take)
      qed
    next
      case (queued h hs)
      let ?before = "i < q_after q \<or> (i = q_after q \<and> before_queued at q)"
      have d: "put_at at q = (if ?before then i else i + length (q_next q))"
        using RowInOrder r_def queued
        by (auto simp: landing_def cursor_def put_at_def q_len_def before_queued_def split: placement.splits if_splits)
      show ?thesis
      proof (cases ?before)
        case True
        then show ?thesis
          using queued RowInOrder i d l0
          by (auto simp: q2_def q1_def drawn_at_def in_play_order_def land_in_order_facts heard_def vec_splice_def Let_def drop_take)
      next
        case False
        then have "q_after q \<le> i" by auto
        then obtain k where "i = k + q_after q" by (metis add.commute le_Suc_ex)
        then show ?thesis
          using queued RowInOrder i d l0 False
          by (auto simp: q2_def q1_def drawn_at_def in_play_order_def land_in_order_facts heard_def vec_splice_def Let_def drop_take)
      qed
    qed
  qed
  then show "fst (insert_rows H items at q) = Some (put_at at q)"
    "in_play_order q' = vec_splice (put_at at q) landed (in_play_order q)"
    "q_seat q \<noteq> Nowhere \<Longrightarrow> heard q' = heard q" "q_seat q = Nowhere \<Longrightarrow> heard q' = front_of landed"
    by (simp_all add: eq q'_def)
qed

subsection \<open>Rows that leave\<close>

lemma keep_rows_append: "keep_rows gone (xs @ ys) = keep_rows gone xs @ keep_rows gone ys"
  by (simp add: keep_rows_def)

lemma play_kept:
  assumes "q_order p = keep_rows gone (q_order q)" and "q_next p = keep_rows gone (q_next q)"
    and "q_after p = length (keep_rows gone (take (q_after q) (q_order q)))" and "seat_ok q"
  shows "in_play_order p = keep_rows gone (in_play_order q)"
proof -
  have o: "q_order q = take (q_after q) (q_order q) @ drop (q_after q) (q_order q)" by simp
  have "keep_rows gone (q_order q) = keep_rows gone (take (q_after q) (q_order q)) @ keep_rows gone (drop (q_after q) (q_order q))"
    by (subst o) (rule keep_rows_append)
  then show ?thesis
    using assms by (simp add: in_play_order_def seat_ok_def keep_rows_append Let_def)
qed

lemma play_handed_on:
  assumes "q_after q \<le> length (q_order q)"
  shows "mset (in_play_order (hand_on q)) = mset (in_play_order q)"
    and "\<not> (q_repeat q = RepeatQueue \<and> q_shuffle q \<and> q_next q = [] \<and> drop (q_after q) (q_order q) = []) \<Longrightarrow>
      in_play_order (hand_on q) = in_play_order q"
    and "q_next q @ drop (q_after q) (q_order q) \<noteq> [] \<Longrightarrow>
      heard (hand_on q) = front_of (q_next q @ drop (q_after q) (q_order q))"
proof -
  have *: "take a xs @ drop a xs = take b xs @ drop b xs" for a b and xs :: "'a held list" by simp
  have "mset (q_order (hand_on q)) = mset (q_order q) \<and> q_next (hand_on q) = q_next q"
    using wrap_to_the_start_facts(3) [of q] by (auto simp: hand_on_def only_shuffled_def)
  then show "mset (in_play_order (hand_on q)) = mset (in_play_order q)" by (simp add: in_play_order_mset rows_of_def)
  show "in_play_order (hand_on q) = in_play_order q"
    if "\<not> (q_repeat q = RepeatQueue \<and> q_shuffle q \<and> q_next q = [] \<and> drop (q_after q) (q_order q) = [])"
    using assms that by (auto simp: hand_on_def in_play_order_def wrap_to_the_start_def Let_def min_def)
  show "heard (hand_on q) = front_of (q_next q @ drop (q_after q) (q_order q))"
    if "q_next q @ drop (q_after q) (q_order q) \<noteq> []"
    using that by (cases "q_next q") (auto simp: hand_on_def heard_def last_heard_def checked_sub_def front_of_def
        get_def hd_drop_conv_nth)
qed

text \<open>The rows that wait behind the one being heard, in the order they will be played.\<close>

definition rows_to_come :: "'l queue \<Rightarrow> 'l held list" where
  "rows_to_come q = waiting q @ drop (q_after q) (q_order q)"

lemma remove_leaves:
  assumes ok: "queue_ok q" and within: "\<forall>s\<in>set runs. span_last s < q_len q"
  defines "gone \<equiv> chosen_places runs q" and "q' \<equiv> snd (remove_all runs q)"
  shows "mset (in_play_order q') = mset (keep_rows gone (in_play_order q))"
    and "\<not> (q_repeat q = RepeatQueue \<and> q_shuffle q \<and> (\<exists>h. heard q = Some h \<and> place h \<in> gone)
        \<and> keep_rows gone (rows_to_come q) = []) \<Longrightarrow> in_play_order q' = keep_rows gone (in_play_order q)"
    and "heard q = Some h \<Longrightarrow> place h \<notin> gone \<Longrightarrow> heard q' = Some h \<and> fst (remove_all runs q) = Inr Queued"
    and "heard q = Some h \<Longrightarrow> place h \<in> gone \<Longrightarrow> fst (remove_all runs q) = Inr Playing \<and>
      (keep_rows gone (rows_to_come q) \<noteq> [] \<longrightarrow> heard q' = front_of (keep_rows gone (rows_to_come q)))"
proof -
  have seat: "seat_ok q" using ok by (simp add: queue_ok_def)
  obtain p where p: "remove_all runs q =
      (if (case heard_place q of Some h \<Rightarrow> h \<in> gone | None \<Rightarrow> False) then (Inr Playing, hand_on p) else (Inr Queued, p))"
    "held_ok p" "q_order p = keep_rows gone (q_order q)" "q_next p = keep_rows gone (q_next q)"
    "q_after p = length (keep_rows gone (take (q_after q) (q_order q)))"
    "q_seat p = q_seat q" "q_repeat p = q_repeat q" "q_shuffle p = q_shuffle q"
    by (rule remove_all_gives [OF ok within, folded gone_def])
  have play: "in_play_order p = keep_rows gone (in_play_order q)" by (rule play_kept [OF p(3-5) seat])
  have le: "q_after p \<le> length (q_order p)" by (simp add: p keep_rows_le)
  note on = play_handed_on [OF le]
  have o: "q_order q = take (q_after q) (q_order q) @ drop (q_after q) (q_order q)" by simp
  have order: "q_order p = keep_rows gone (take (q_after q) (q_order q)) @ keep_rows gone (drop (q_after q) (q_order q))"
    unfolding p(3) by (subst o) (rule keep_rows_append)
  have come: "q_next p @ drop (q_after p) (q_order p) = keep_rows gone (rows_to_come q)"
    if "heard q = Some h" "place h \<in> gone" for h
    using seat
  proof (cases rule: seat_cases)
    case (queued k ks)
    then show ?thesis using that p(4,5) by (simp add: order rows_to_come_def waiting_def keep_rows_def)
  qed (use that p(4,5) in \<open>simp_all add: order rows_to_come_def waiting_def keep_rows_append\<close>)
  show "mset (in_play_order q') = mset (keep_rows gone (in_play_order q))"
    unfolding q'_def p(1) using play on(1) by simp
  show "in_play_order q' = keep_rows gone (in_play_order q)"
    if other: "\<not> (q_repeat q = RepeatQueue \<and> q_shuffle q \<and> (\<exists>h. heard q = Some h \<and> place h \<in> gone)
        \<and> keep_rows gone (rows_to_come q) = [])"
  proof (cases "\<exists>h. heard q = Some h \<and> place h \<in> gone")
    case True
    then obtain h where h: "heard q = Some h" "place h \<in> gone" by blast
    have "\<not> (q_repeat p = RepeatQueue \<and> q_shuffle p \<and> q_next p = [] \<and> drop (q_after p) (q_order p) = [])"
      using other h come [OF h] p(7,8) by (metis append_Nil)
    then show ?thesis using on(2) h play by (simp add: q'_def p(1) heard_place_def)
  next
    case False
    then show ?thesis using play by (simp add: q'_def p(1) heard_place_def split: option.split)
  qed
  show "fst (remove_all runs q) = Inr Playing \<and>
      (keep_rows gone (rows_to_come q) \<noteq> [] \<longrightarrow> heard q' = front_of (keep_rows gone (rows_to_come q)))"
    if h: "heard q = Some h" "place h \<in> gone"
    using on(3) come [OF h] h by (simp add: q'_def p(1) heard_place_def)
  show "heard q' = Some h \<and> fst (remove_all runs q) = Inr Queued" if h: "heard q = Some h" "place h \<notin> gone"
  proof -
    have eq: "remove_all runs q = (Inr Queued, p)" unfolding p(1) using h by (simp add: heard_place_def)
    from seat have "heard p = Some h"
    proof (cases rule: seat_cases)
      case nowhere
      then show ?thesis using h by simp
    next
      case (in_order a)
      then have "take (q_after q) (q_order q) = take a (q_order q) @ [h]"
        using h by (simp add: take_Suc_conv_app_nth)
      then have k: "keep_rows gone (take (q_after q) (q_order q)) = keep_rows gone (take a (q_order q)) @ [h]"
        using h(2) by (simp add: keep_rows_def)
      then show ?thesis
        using in_order p(5,6) order by (simp add: heard_def last_heard_def checked_sub_def get_append)
    next
      case (queued k ks)
      then show ?thesis using h p(4,6) by (simp add: heard_def keep_rows_def)
    qed
    then show ?thesis by (simp add: q'_def eq)
  qed
qed

lemma remove_outside:
  assumes "\<not> (\<forall>s\<in>set runs. span_last s < q_len q)"
  shows "\<exists>s\<in>set runs. q_len q \<le> span_last s \<and> remove_all runs q = (Inl s, q)"
proof -
  obtain s where s: "List.find (\<lambda>rows. span_last rows \<ge> q_len q) runs = Some s"
    using assms by (cases "List.find (\<lambda>rows. span_last rows \<ge> q_len q) runs") (auto simp: find_None_iff not_less)
  have "s \<in> set runs \<and> q_len q \<le> span_last s" using s by (auto simp: find_Some_iff)
  moreover have "remove_all runs q = (Inl s, q)" by (simp only: remove_all_def s option.case)
  ultimately show ?thesis by blast
qed

subsection \<open>Shuffling, and what the listing shows\<close>

text \<open>A pass over a shuffled queue is followed by one that does not begin with its last row.\<close>

lemma pass_does_not_repeat:
  assumes "distinct (places_of (q_order q))" and "2 \<le> length (q_order q)"
  shows "place (hd (q_order (reshuffle_after_a_pass q))) \<noteq> place (last (q_order q))"
proof -
  let ?o = "q_order (reshuffle q)"
  have len: "length ?o = length (q_order q)" by simp
  have d: "distinct (places_of ?o)"
    using assms(1) distinct_mset_eq [of "places_of ?o" "places_of (q_order q)"] reshuffle_mset [of q] by simp
  have ne: "q_order q \<noteq> []" "?o \<noteq> []" using assms(2) len by (cases "q_order q"; cases ?o; simp)+
  show ?thesis
  proof (cases "place (hd ?o) = place (last (q_order q))")
    case False
    then have "reshuffle_after_a_pass q = reshuffle q"
      using ne by (simp add: reshuffle_after_a_pass_def Let_def front_of_eq_hd back_of_def)
    then show ?thesis using False by simp
  next
    case True
    define n where "n = fst (next_below (length ?o - 1) (q_shuffler (reshuffle q)))"
    have n: "n < length ?o - 1" unfolding n_def by (rule next_below_bound) (use assms(2) len in simp)
    have "q_order (reshuffle_after_a_pass q) = vec_swap 0 (1 + n) ?o"
      using ne True assms(2) len
      by (simp add: reshuffle_after_a_pass_def Let_def front_of_eq_hd back_of_def case_prod_unfold n_def)
    moreover have "hd (vec_swap 0 (1 + n) ?o) = ?o ! (1 + n)"
      using n ne by (cases ?o) (simp_all add: vec_swap_def hd_conv_nth)
    moreover have "place (?o ! (1 + n)) \<noteq> place (?o ! 0)"
      using nth_eq_iff_index_eq [OF d, of "1 + n" 0] n ne(1) by (simp add: less_diff_conv)
    ultimately show ?thesis using True ne by (simp add: hd_conv_nth)
  qed
qed

lemma shuffle_off:
  assumes "q_shuffle q"
  shows "set_shuffle False q = q\<lparr>q_shuffle := False, q_order := st_iter (q_unshuffled q), q_unshuffled := st_empty,
    q_after := (case (q_seat q, map_option place (last_heard q)) of
         (Nowhere, _) \<Rightarrow> length (st_iter (q_unshuffled q))
       | (_, Some p) \<Rightarrow> (case position (\<lambda>h. place h = p) (st_iter (q_unshuffled q)) of None \<Rightarrow> 0 | Some at \<Rightarrow> at + 1)
       | (_, None) \<Rightarrow> 0), q_revision := q_revision q + 1\<rparr>"
  using assms by (simp add: set_shuffle_def Let_def last_heard_def cong: option.case_cong seat.case_cong)

lemma keeping_first:
  assumes "distinct (places_of (q_order q))" and "h \<in> set (q_order q)"
  shows "get (q_order (reshuffle_keeping (place h) q)) 0 = Some h"
proof -
  let ?o = "q_order (reshuffle q)"
  have set: "set ?o = set (q_order q)" by (metis reshuffle_mset set_mset_mset)
  have d: "inj_on place (set ?o)" using assms(1) by (simp add: set distinct_map)
  have "h \<in> set ?o" using set assms(2) by simp
  then obtain i where i: "position (\<lambda>k. place k = place h) ?o = Some i"
    using position_None_iff [of "\<lambda>k. place k = place h" ?o] by fastforce
  note at = position_SomeD [OF i]
  have "?o ! i = h" using at d \<open>h \<in> set ?o\<close> by (metis inj_onD nth_mem)
  moreover have "q_order q \<noteq> []" using at by auto
  ultimately show ?thesis
    using i at by (cases "i = 0") (simp_all add: reshuffle_keeping_def Let_def vec_swap_def get_def)
qed

text \<open>What is heard stays heard while the rest is shuffled around it.\<close>

lemma shuffle_on:
  assumes ok: "queue_ok q" and off: "\<not> q_shuffle q"
  shows "only_shuffled (q\<lparr>q_shuffle := True, q_unshuffled := st_of (q_order q)\<rparr>) (set_shuffle True q)"
    and "q_seat q \<noteq> Nowhere \<Longrightarrow> last_heard (set_shuffle True q) = last_heard q"
    and "heard (set_shuffle True q) = heard q"
proof -
  have seat: "seat_ok q" and places: "places_ok q" using ok by (simp_all add: queue_ok_def)
  have dist: "distinct (places_of (q_order q))" using places by (simp add: places_ok_def rows_of_def)
  let ?q = "q\<lparr>q_shuffle := True, q_unshuffled := st_of (q_order q)\<rparr>"
  have sh: "last_heard (q\<lparr>q_shuffle := True\<rparr>) = last_heard q"
    by (simp add: last_heard_def cong: option.case_cong)
  have keep: "last_heard (reshuffle_keeping (place h) ?q) = Some h" if "last_heard q = Some h" for h
  proof -
    have "h \<in> set (q_order q)" using that by (auto simp: last_heard_def dest: get_in_set split: option.splits)
    then show ?thesis using keeping_first [of ?q h] dist by (simp add: last_heard_def checked_sub_def)
  qed
  have eq: "set_shuffle True q = (case (q_seat q, last_heard q) of
      (Nowhere, _) \<Rightarrow> reshuffle ?q | (_, Some h) \<Rightarrow> reshuffle_keeping (place h) ?q | (_, None) \<Rightarrow> reshuffle ?q)"
    using off by (simp add: set_shuffle_def Let_def sh split: seat.split option.split)
  show os: "only_shuffled ?q (set_shuffle True q)"
    unfolding eq by (simp add: only_shuffled_reshuffle only_shuffled_keeping split: seat.split option.split)
  show lh: "last_heard (set_shuffle True q) = last_heard q" if "q_seat q \<noteq> Nowhere"
  proof (cases "last_heard q")
    case None
    then have "q_after q = 0" using last_heard_in_order [OF seat] by (auto split: if_splits)
    moreover have "set_shuffle True q = reshuffle ?q"
      using that None unfolding eq by (cases "q_seat q") simp_all
    ultimately show ?thesis using None by (simp add: last_heard_def checked_sub_def)
  next
    case (Some h)
    then show ?thesis using that keep unfolding eq by (cases "q_seat q") simp_all
  qed
  show "heard (set_shuffle True q) = heard q"
    using os lh by (cases "q_seat q") (simp_all add: heard_def only_shuffled_def)
qed

text \<open>Turning the shuffle on and off again gives back the queue.\<close>

lemma shuffle_on_then_off:
  assumes ok: "queue_ok q" and off: "\<not> q_shuffle q"
  defines "q' \<equiv> set_shuffle False (set_shuffle True q)"
  shows "q' = q\<lparr>q_shuffler := q_shuffler q', q_rows_revision := q_rows_revision q', q_revision := q_revision q'\<rparr>"
proof -
  have seat: "seat_ok q" and places: "places_ok q" and fits: "fits q" and un: "q_unshuffled q = st_empty"
    using ok off by (simp_all add: queue_ok_def stands_ok_def)
  note st = st_of_held [OF places fits]
  define p where "p = set_shuffle True q"
  note on = shuffle_on [OF ok off, folded p_def]
  have p: "q_unshuffled p = st_of (q_order q)" "q_seat p = q_seat q" "q_next p = q_next q" "q_places p = q_places q"
    "q_ids p = q_ids q" "q_repeat p = q_repeat q" "q_stamp p = q_stamp q" "q_playing_from p = q_playing_from q"
    "q_shuffle p"
    using on(1) by (simp_all add: only_shuffled_def)
  have dist: "distinct (places_of (q_order q))" using places by (simp add: places_ok_def rows_of_def)
  have after: "(case (q_seat p, map_option place (last_heard p)) of
         (Nowhere, _) \<Rightarrow> length (q_order q)
       | (_, Some p) \<Rightarrow> (case position (\<lambda>h. place h = p) (q_order q) of None \<Rightarrow> 0 | Some at \<Rightarrow> at + 1)
       | (_, None) \<Rightarrow> 0) = q_after q"
  proof (cases "q_seat q = Nowhere")
    case True
    then show ?thesis using seat p(2) by (simp add: seat_ok_def)
  next
    case False
    have "q_after q = Suc a \<Longrightarrow> position (\<lambda>h. place h = place (q_order q ! a)) (q_order q) = Some a" for a
      using seat by (intro position_unique [OF dist]) (simp add: seat_ok_def)
    then show ?thesis
      using False p(2) on(2) last_heard_in_order [OF seat]
      by (cases "q_seat q"; cases "q_after q") simp_all
  qed
  have eq: "q' = p\<lparr>q_shuffle := False, q_order := q_order q, q_unshuffled := st_empty, q_after := q_after q,
      q_revision := q_revision p + 1\<rparr>"
    unfolding q'_def p_def [symmetric] shuffle_off [OF p(9)] p(1) st(2) after ..
  show ?thesis by (rule queue.equality) (simp_all add: eq p un off)
qed

text \<open>The listing of a shuffled queue lists every row, and is what the queue plays unshuffled.\<close>

lemma unlisted_once_all:
  "distinct (places_of hs) \<Longrightarrow> set (places_of hs) \<subseteq> u \<Longrightarrow> unlisted_once u hs = hs"
proof (induction hs arbitrary: u)
  case (Cons h hs)
  have "place h \<notin> set (places_of hs)" using Cons.prems(1) by simp
  moreover have "set (places_of hs) \<subseteq> u" using Cons.prems(2) by simp
  ultimately have "set (places_of hs) \<subseteq> u - {place h}" by blast
  then show ?case using Cons by simp
qed simp

lemma listing_unshuffled:
  assumes ok: "queue_ok q" and on: "q_shuffle q"
  shows "qd_listed (published q) = Some (in_play_order (set_shuffle False q))"
    and "mset (in_play_order (set_shuffle False q)) = mset (in_play_order q)"
proof -
  have seat: "seat_ok q" and places: "places_ok q" and st: "st_ok (q_unshuffled q)"
    and m: "mset (st_iter (q_unshuffled q)) = mset (q_order q)"
    using ok on by (simp_all add: queue_ok_def stands_ok_def)
  let ?o = "st_iter (q_unshuffled q)" and ?q = "set_shuffle False q"
  define k where "k = (case map_option place (last_heard q) of
      None \<Rightarrow> 0 | Some p \<Rightarrow> (case position (\<lambda>h. place h = p) ?o of None \<Rightarrow> 0 | Some at \<Rightarrow> at + 1))"
  have len: "length ?o = length (q_order q)" using m by (metis size_mset)
  have around: "st_around (map_option place (last_heard q)) (q_unshuffled q) = (take k ?o, drop k ?o) \<and> k \<le> length ?o"
  proof (cases "last_heard q")
    case None
    then show ?thesis using st_around_nowhere [OF st] by (simp add: k_def)
  next
    case (Some h)
    then have "h \<in> set (q_order q)" by (auto simp: last_heard_def dest: get_in_set split: option.splits)
    then have h: "h \<in> set ?o" using m by (metis set_mset_mset)
    then obtain i where i: "position (\<lambda>k. place k = place h) ?o = Some i"
      using position_None_iff [of "\<lambda>k. place k = place h" ?o] by fastforce
    then show ?thesis
      using st_around_splits [OF st, of "place h"] h Some position_SomeD [OF i]
      by (simp add: k_def anchor_pos_def Suc_le_eq)
  qed
  have list: "mset (take k ?o @ q_next q @ drop k ?o) = mset (in_play_order q)"
  proof -
    have "mset (take k ?o) + mset (drop k ?o) = mset ?o" by (metis append_take_drop_id mset_append)
    then show ?thesis by (simp add: in_play_order_mset rows_of_def m [symmetric] ac_simps)
  qed
  have play: "in_play_order ?q = take k ?o @ q_next q @ drop k ?o"
  proof (cases "q_seat q = Nowhere")
    case True
    then have "q_next q = []" using seat by (simp add: seat_ok_def)
    then show ?thesis by (simp add: shuffle_off [OF on] in_play_order_def Let_def)
  next
    case False
    then have "q_after ?q = k"
      by (cases "q_seat q"; cases "last_heard q") (simp_all add: shuffle_off [OF on] k_def)
    moreover have "q_order ?q = ?o" "q_next ?q = q_next q" by (simp_all add: shuffle_off [OF on])
    ultimately show ?thesis using around by (simp add: in_play_order_def)
  qed
  have "mset (places_of (take k ?o @ q_next q @ drop k ?o)) = mset (places_of (in_play_order q))"
    using list by (metis mset_map)
  moreover have "mset (places_of (in_play_order q)) = mset (places_of (rows_of q))"
    using in_play_order_mset by (metis mset_map)
  ultimately have d: "distinct (places_of (take k ?o @ q_next q @ drop k ?o))"
    and s: "set (places_of (take k ?o @ q_next q @ drop k ?o)) = set (places_of (in_play_order q))"
    using places distinct_mset_eq by (metis places_ok_def, metis set_mset_mset)
  have l: "length (take k ?o @ q_next q @ drop k ?o) = length (in_play_order q)" using list by (metis size_mset)
  have "unlisted_once (set (places_of (in_play_order q))) (take k ?o @ q_next q @ drop k ?o)
      = take k ?o @ q_next q @ drop k ?o"
    using d s by (intro unlisted_once_all) simp_all
  then show "qd_listed (published q) = Some (in_play_order ?q)"
    using around on l unfolding play by (simp add: qd_listed_def published_def Let_def del: set_map length_append)
  show "mset (in_play_order ?q) = mset (in_play_order q)" unfolding play by (rule list)
qed

subsection \<open>Wrapping round, and reordering\<close>

lemma wraps_to_the_start:
  assumes ok: "queue_ok q" and wraps: "wraps_next q"
  shows "let q' = snd (advance natural q) in
    q_next q' = [] \<and> mset (q_order q') = mset (q_order q)
    \<and> mset (in_play_order q) = mset (in_play_order q') +
        (case (q_seat q, heard q) of (SeatNext, Some h) \<Rightarrow> {#h#} | _ \<Rightarrow> {#})
    \<and> heard q' = front_of (q_order q')
    \<and> (\<not> q_shuffle q \<longrightarrow> q_order q' = q_order q)
    \<and> (q_shuffle q \<and> 2 \<le> length (q_order q) \<longrightarrow> place (hd (q_order q')) \<noteq> place (last (q_order q)))"
proof -
  have w: "q_repeat q = RepeatQueue" "q_seat q \<noteq> Nowhere" "waiting q = []" "q_after q = length (q_order q)"
    using wraps wraps_iff [OF ok] by simp_all
  have nat: "\<not> (natural \<and> q_repeat q = RepeatTrack)" using w(1) by simp
  define p where "p = (if q_seat q = SeatNext then snd (let_go_of_what_was_heard q) else q)"
  define q' where "q' = snd (advance natural q)"
  have seat: "seat_ok q" using ok by (simp add: queue_ok_def)
  have p: "q_next p = [] \<and> q_order p = q_order q \<and> q_after p = q_after q \<and> q_repeat p = q_repeat q \<and> q_shuffle p = q_shuffle q \<and>
      mset (q_next q) = (case (q_seat q, heard q) of (SeatNext, Some h) \<Rightarrow> {#h#} | _ \<Rightarrow> {#})"
    using seat
  proof (cases rule: seat_cases)
    case (queued h hs)
    then have "hs = []" using w(3) by (simp add: waiting_def)
    then show ?thesis using queued(1,2,4) let_go_Cons(2-7) [OF queued(2)] by (simp add: p_def)
  qed (use w in \<open>auto simp: p_def waiting_def\<close>)
  have q': "q' = (if q_order q = [] then p\<lparr>q_seat := Nowhere\<rparr> else wrap_to_the_start p)"
    using advance_hand_on [OF w(2) nat] w(1,4) p by (simp add: q'_def p_def [symmetric] hand_on_def Let_def)
  have keeps: "q_next q' = [] \<and> mset (q_order q') = mset (q_order q)"
    using wrap_to_the_start_facts(3) [of p] p by (simp add: q' only_shuffled_def)
  have "heard q' = front_of (q_order q')"
    using wrap_to_the_start_facts(1,2) [of p] p
    by (simp add: q' heard_def last_heard_def checked_sub_def front_of_def)
  moreover have "q_order q' = q_order q" if "\<not> q_shuffle q" using that p by (simp add: q' wrap_to_the_start_def)
  moreover have "place (hd (q_order q')) \<noteq> place (last (q_order q))" if "q_shuffle q" "2 \<le> length (q_order q)"
  proof -
    have "distinct (places_of (q_order p))"
      using ok p by (simp add: queue_ok_def places_ok_def rows_of_def)
    then show ?thesis
      using pass_does_not_repeat [of p] that p by (auto simp: q' wrap_to_the_start_def Let_def)
  qed
  moreover have "mset (in_play_order q) = mset (in_play_order q') +
        (case (q_seat q, heard q) of (SeatNext, Some h) \<Rightarrow> {#h#} | _ \<Rightarrow> {#})"
    using keeps p by (simp add: in_play_order_mset rows_of_def)
  ultimately show ?thesis using keeps unfolding Let_def q'_def [symmetric] by blast
qed

lemma parted_heard:
  fixes drawn :: "('l held \<times> waits) list" and p :: "'l parting" and st :: seat and h :: "nat option"
  assumes "case pt_after p of None \<Rightarrow> True | Some a \<Rightarrow>
      (if st = SeatNext then pt_next p \<noteq> [] \<and> Some (place (hd (pt_next p))) = h
       else 0 < a \<and> a \<le> length (pt_order p) \<and> Some (place (pt_order p ! (a - 1))) = h)"
  defines "r \<equiv> fold (part st h) drawn p"
  shows "case pt_after r of None \<Rightarrow> True | Some a \<Rightarrow>
      (if st = SeatNext then pt_next r \<noteq> [] \<and> Some (place (hd (pt_next r))) = h
       else 0 < a \<and> a \<le> length (pt_order r) \<and> Some (place (pt_order r ! (a - 1))) = h)"
  using assms(1) unfolding r_def
proof (induction drawn arbitrary: p)
  case (Cons d drawn)
  obtain k w where d: "d = (k, w)" by fastforce
  let ?p = "part st h d p"
  have "case pt_after ?p of None \<Rightarrow> True | Some a \<Rightarrow>
      (if st = SeatNext then pt_next ?p \<noteq> [] \<and> Some (place (hd (pt_next ?p))) = h
       else 0 < a \<and> a \<le> length (pt_order ?p) \<and> Some (place (pt_order ?p ! (a - 1))) = h)"
    using Cons.prems by (auto simp: part_def d Let_def nth_append split: option.splits if_splits)
  from Cons.IH [OF this] show ?case by (simp only: fold.simps o_apply)
qed (simp only: fold.simps id_apply)

lemma parted_in_order:
  "\<forall>d\<in>set drawn. snd d = WaitsInOrder \<Longrightarrow> st \<noteq> SeatNext \<Longrightarrow>
     pt_order (fold (part st h) drawn p) = pt_order p @ map fst drawn \<and> pt_next (fold (part st h) drawn p) = pt_next p"
proof (induction drawn arbitrary: p)
  case (Cons d drawn)
  obtain k w where d: "d = (k, w)" by fastforce
  show ?case using Cons.IH [of "part st h d p"] Cons.prems by (auto simp: part_def d Let_def)
qed simp

lemma reorder_gives:
  assumes ok: "queue_ok q" and len: "length rows = q_len q" and once: "names_once (replicate (length rows) False) rows"
  defines "q' \<equiv> snd (reorder rows q)"
  shows "heard q' = heard q" and "fst (reorder rows q) = Some ()"
    and "q_next q = [] \<Longrightarrow> in_play_order q' = map ((!) (in_play_order q)) rows"
proof -
  let ?drawn = "map ((!) (flagged q)) rows"
  let ?e = "\<lparr>pt_order = [], pt_next = [], pt_after = None\<rparr> :: 'a parting"
  define p where "p = fold (part (q_seat q) (heard_place q)) ?drawn ?e"
  note parts = reorder_parts [OF ok len once, folded p_def]
  have seat: "seat_ok q" and places: "places_ok q" using ok by (simp_all add: queue_ok_def)
  have re: "reorder rows q = (Some (), split_rows ?drawn (heard_place q) q)"
    using len once parts(1) unfolding reorder_def by simp
  have q': "q_order q' = pt_order p" "q_next q' = pt_next p" "q_seat q' = q_seat q"
    "q_after q' = (case pt_after p of Some a \<Rightarrow> a | None \<Rightarrow> length (pt_order p))"
    using unshuffle_alongside_same [OF ok _ parts(3,4)]
    by (simp_all add: q'_def re split_rows_def p_def [symmetric] Let_def)
  show "fst (reorder rows q) = Some ()" by (simp add: re)
  have ps: "case pt_after p of None \<Rightarrow> True | Some a \<Rightarrow>
      (if q_seat q = SeatNext then pt_next p \<noteq> [] \<and> Some (place (hd (pt_next p))) = heard_place q
       else 0 < a \<and> a \<le> length (pt_order p) \<and> Some (place (pt_order p ! (a - 1))) = heard_place q)"
    using parted_heard [where p = ?e and st = "q_seat q" and h = "heard_place q" and drawn = ?drawn, folded p_def] by simp
  show heard: "heard q' = heard q"
  proof (cases "heard q")
    case None
    then have "q_seat q = Nowhere" using seat by (auto elim: seat_cases)
    then show ?thesis using None q' by (simp add: heard_def)
  next
    case (Some h)
    have "h \<in> set (rows_of q)" by (rule heard_in_rows [OF Some])
    then have "h \<in> set (map fst ?drawn)"
      using parts(2) flagged_rows [OF seat] in_play_order_set by (metis list.set_map set_mset_mset)
    then have "heard_place q \<in> Some ` place ` set (map fst ?drawn)" using Some by (simp add: heard_place_def)
    then obtain a where a: "pt_after p = Some a"
      using parted_seat(3) [where p = ?e and st = "q_seat q" and h = "heard_place q" and drawn = ?drawn] by (auto simp: p_def)
    have rows: "set (pt_order p) = set (q_order q)" "set (pt_next p) = set (q_next q)"
      using parts(3,4) by (metis set_mset_mset)+
    show ?thesis
    proof (cases "q_seat q = SeatNext")
      case True
      then have n: "pt_next p \<noteq> []" "place (hd (pt_next p)) = place h" using ps a Some by (simp_all add: heard_place_def)
      then have "hd (pt_next p) \<in> set (rows_of q)" using rows(2) hd_in_set by (fastforce simp: rows_of_def)
      then have "hd (pt_next p) = h" using same_place [OF places _ \<open>h \<in> set (rows_of q)\<close> n(2)] by simp
      then show ?thesis using True n Some q' by (simp add: heard_def front_of_eq_hd)
    next
      case False
      then have n: "0 < a" "a \<le> length (pt_order p)" "place (pt_order p ! (a - 1)) = place h"
        using ps a Some by (simp_all add: heard_place_def)
      have "a - 1 < length (pt_order p)" using n(1,2) by linarith
      then have "pt_order p ! (a - 1) \<in> set (rows_of q)" using rows(1) nth_mem by (fastforce simp: rows_of_def)
      then have "pt_order p ! (a - 1) = h" using same_place [OF places _ \<open>h \<in> set (rows_of q)\<close> n(3)] by simp
      moreover have "q_seat q = SeatInOrder" using False Some by (cases "q_seat q") (auto simp: heard_def)
      ultimately show ?thesis using n a Some q'
        by (simp add: heard_def last_heard_def checked_sub_def Suc_le_eq)
    qed
  qed
  show "in_play_order q' = map ((!) (in_play_order q)) rows" if "q_next q = []"
  proof -
    have st: "q_seat q \<noteq> SeatNext" using that seat by (auto simp: seat_ok_def)
    have "\<forall>d\<in>set (flagged q). snd d = WaitsInOrder" using that by (auto simp: flagged_def Let_def)
    moreover have "set ?drawn = set (flagged q)" using parts(2) by (metis set_mset_mset)
    ultimately have "pt_order p = map fst ?drawn \<and> pt_next p = []"
      using parted_in_order [OF _ st, of ?drawn "heard_place q" ?e] by (simp add: p_def)
    moreover have "map fst ?drawn = map ((!) (in_play_order q)) rows"
    proof -
      have "length (flagged q) = length rows"
        using flagged_rows [OF seat] in_play_order_nth(1) [OF seat] len by (metis length_map)
      then have "fst (flagged q ! i) = in_play_order q ! i" if "i \<in> set rows" for i
        using that names_once_perm(2) [OF once] flagged_rows [OF seat] by (metis nth_map)
      then show ?thesis by simp
    qed
    ultimately show ?thesis using q' by (simp add: in_play_order_def Let_def)
  qed
qed

end
