(* ===== verification/Kept.thy ===== *)
theory Kept
  imports QueueBehaviour
begin

text \<open>
  What is kept of a queue for the next run (\<open>crates/resonate-engine/src/kept.rs\<close>): the rows in
  the order they were loaded, the order they play in, and where the listener is. \<open>Keeping\<close> is the
  state machine that says what has to be written after each change. Of a \<open>PlayerState\<close> only the
  fields read here are modelled.
\<close>

datatype playback = Idle | Buffering | PlayingNow | Paused | Stopped

record player_state =
  ps_queue_position :: "nat option"
  ps_current :: "(frames \<times> nat) option"
  ps_shuffle :: bool
  ps_playback :: playback

record reordered =
  ro_order :: "nat list"
  ro_row :: nat
  ro_at :: frames
  ro_shuffle :: bool
  ro_next :: "span option"

datatype 'l keep = KeepQueue "'l resumption" | KeepOrder reordered | KeepPlace nat frames

record kept_held =
  kh_stamp :: u64
  kh_revision :: u64
  kh_shuffle :: bool

record keeping =
  kp_held :: "kept_held option"
  kp_kept :: "(nat \<times> frames) option"

definition keeping_new :: keeping where
  "keeping_new = \<lparr>kp_held = None, kp_kept = None\<rparr>"

definition kept_every :: duration where
  "kept_every = \<lparr>dur_secs = 1, dur_nanos = 0\<rparr>"

definition resumable_of :: "'l queue_item \<Rightarrow> 'l resumable" where
  "resumable_of i = \<lparr>res_location = location i, res_span = item_span i, res_held = None\<rparr>"

definition loaded_rows :: "'l queued \<Rightarrow> 'l resumable list \<times> nat list" where
  "loaded_rows p =
     (let order = in_load_order (qd_rows p);
          loaded = fold (\<lambda>(plays_at, h) loaded. loaded[order ! plays_at := Some (resumable_of (item h))])
                     (enumerate 0 (qd_rows p)) (replicate (length (qd_rows p)) None)
      in (List.map_filter id loaded, order))"

definition position_of :: "player_state \<Rightarrow> frames" where
  "position_of st = (case ps_current st of None \<Rightarrow> 0 | Some (at, _) \<Rightarrow> at)"

definition row_of :: "player_state \<Rightarrow> nat" where
  "row_of st = (case ps_queue_position st of None \<Rightarrow> 0 | Some r \<Rightarrow> r)"

definition resumption_of :: "player_state \<Rightarrow> 'l queued \<Rightarrow> 'l resumption" where
  "resumption_of st p =
     (let (rows, order) = loaded_rows p
      in \<lparr>res_rows = rows, res_order = order, res_row = row_of st, res_at = position_of st,
          res_shuffle = ps_shuffle st, res_next = qd_next p\<rparr>)"

definition moved_on :: "keeping \<Rightarrow> player_state \<Rightarrow> nat \<Rightarrow> frames \<Rightarrow> bool \<Rightarrow> bool" where
  "moved_on k st r at throttled = (case kp_kept k of
     None \<Rightarrow> True
   | Some (held_row, held_frames) \<Rightarrow>
       if held_row \<noteq> r then True
       else if \<not> throttled \<or> ps_playback st \<noteq> PlayingNow then held_frames \<noteq> at
       else (case ps_current st of
           None \<Rightarrow> held_frames \<noteq> at
         | Some (_, rate) \<Rightarrow>
             (if held_frames \<le> at then at - held_frames else held_frames - at) \<ge> from_duration kept_every rate))"

definition kept_by :: "player_state \<Rightarrow> 'l queued \<Rightarrow> bool \<Rightarrow> keeping \<Rightarrow> 'l keep option \<times> keeping" where
  "kept_by st p throttled k =
     (let r = row_of st;
          at = position_of st;
          now = \<lparr>kh_stamp = qd_stamp p, kh_revision = qd_revision p, kh_shuffle = ps_shuffle st\<rparr>;
          before = kp_held k;
          k = k\<lparr>kp_held := Some now\<rparr>
      in if (case before of None \<Rightarrow> True | Some b \<Rightarrow> kh_stamp b \<noteq> kh_stamp now)
         then (Some (KeepQueue (resumption_of st p)), k\<lparr>kp_kept := Some (r, at)\<rparr>)
         else if before \<noteq> Some now
         then (Some (KeepOrder \<lparr>ro_order = snd (loaded_rows p), ro_row = r, ro_at = at,
                 ro_shuffle = ps_shuffle st, ro_next = qd_next p\<rparr>), k\<lparr>kp_kept := Some (r, at)\<rparr>)
         else if ps_queue_position st = None \<or> \<not> moved_on k st r at throttled then (None, k)
         else (Some (KeepPlace r at), k\<lparr>kp_kept := Some (r, at)\<rparr>))"

definition keeping_kept :: "player_state \<Rightarrow> 'l queued \<Rightarrow> keeping \<Rightarrow> 'l keep option \<times> keeping" where
  "keeping_kept st p k = kept_by st p True k"

definition kept_on_leaving :: "player_state \<Rightarrow> 'l queued \<Rightarrow> keeping \<Rightarrow> 'l keep option \<times> keeping" where
  "kept_on_leaving st p k = kept_by st p False k"

subsection \<open>The load order names every row once\<close>

lemma fold_put:
  assumes "distinct (map fst kvs)" and "\<forall>k\<in>set (map fst kvs). k < length xs"
  shows "length (fold (\<lambda>(k, v) xs. xs[k := v]) kvs xs) = length xs"
    and "(k, v) \<in> set kvs \<Longrightarrow> fold (\<lambda>(k, v) xs. xs[k := v]) kvs xs ! k = v"
    and "k \<notin> set (map fst kvs) \<Longrightarrow> fold (\<lambda>(k, v) xs. xs[k := v]) kvs xs ! k = xs ! k"
proof -
  have "length (fold (\<lambda>(k, v) xs. xs[k := v]) kvs xs) = length xs \<and>
    (\<forall>k v. (k, v) \<in> set kvs \<longrightarrow> fold (\<lambda>(k, v) xs. xs[k := v]) kvs xs ! k = v) \<and>
    (\<forall>k. k \<notin> set (map fst kvs) \<longrightarrow> fold (\<lambda>(k, v) xs. xs[k := v]) kvs xs ! k = xs ! k)"
    using assms
  proof (induction kvs arbitrary: xs)
    case (Cons e kvs)
    obtain i w where e: "e = (i, w)" by fastforce
    have "distinct (map fst kvs)" "\<forall>k\<in>set (map fst kvs). k < length (xs[i := w])" "i \<notin> set (map fst kvs)"
      using Cons.prems e by auto
    note IH = Cons.IH [OF this(1,2)] and out = this(3)
    then have "fold (\<lambda>(k, v) xs. xs[k := v]) kvs (xs[i := w]) ! i = w"
      using Cons.prems(2) e by simp
    moreover have "fold (\<lambda>(k, v) xs. xs[k := v]) kvs (xs[i := w]) ! k = xs ! k"
      if "k \<notin> set (map fst (e # kvs))" for k
      using IH that e by simp
    ultimately show ?case using IH e by auto
  qed simp
  then show "length (fold (\<lambda>(k, v) xs. xs[k := v]) kvs xs) = length xs"
    "(k, v) \<in> set kvs \<Longrightarrow> fold (\<lambda>(k, v) xs. xs[k := v]) kvs xs ! k = v"
    "k \<notin> set (map fst kvs) \<Longrightarrow> fold (\<lambda>(k, v) xs. xs[k := v]) kvs xs ! k = xs ! k" by blast+
qed

lemma fold_enumerate_swap:
  "fold (\<lambda>(at, row) loaded. loaded[row := f at row]) (enumerate n rows) xs =
   fold (\<lambda>(k, v) xs. xs[k := v]) (map (\<lambda>(at, row). (row, f at row)) (enumerate n rows)) xs"
  by (induction rows arbitrary: n xs) simp_all

text \<open>The rank of each row by its place: the inverse of sorting the rows by place.\<close>

lemma in_load_order_perm:
  "length (in_load_order rows) = length rows" "mset (in_load_order rows) = mset [0..<length rows]"
proof -
  let ?n = "length rows"
  define by_place where "by_place = sort_key (\<lambda>row. case get rows row of None \<Rightarrow> 0 | Some h \<Rightarrow> place h) [0..<?n]"
  have perm: "mset by_place = mset [0..<?n]" by (simp add: by_place_def)
  then have d: "distinct by_place" and s: "set by_place = {0..<?n}" and l: "length by_place = ?n"
    using distinct_mset_eq [OF perm] by (simp_all, metis set_mset_mset set_upt, metis length_upt minus_nat.diff_0 size_mset)
  let ?kvs = "map (\<lambda>(at, row). (row, at)) (enumerate 0 by_place)"
  have keys: "map fst ?kvs = by_place"
    by (simp add: comp_def case_prod_unfold map_snd_enumerate)
  have eq: "in_load_order rows = fold (\<lambda>(k, v) xs. xs[k := v]) ?kvs (replicate ?n 0)"
    using fold_enumerate_swap [of "\<lambda>at row. at" 0 by_place "replicate ?n 0"]
    by (simp add: in_load_order_def by_place_def [symmetric] Let_def)
  have small: "\<forall>k\<in>set (map fst ?kvs). k < length (replicate ?n (0 :: nat))" unfolding keys s by simp
  have dk: "distinct (map fst ?kvs)" unfolding keys by (rule d)
  show len: "length (in_load_order rows) = ?n" unfolding eq fold_put(1) [OF dk small] by simp
  have at: "in_load_order rows ! (by_place ! k) = k" if "k < ?n" for k
  proof -
    have "(by_place ! k, k) \<in> set ?kvs"
    proof -
      have "(k, by_place ! k) \<in> set (enumerate 0 by_place)" using that l by (simp add: in_set_enumerate_eq)
      then show ?thesis by force
    qed
    then show ?thesis unfolding eq by (rule fold_put(2) [OF dk small])
  qed
  have "mset (map ((!) (in_load_order rows)) by_place) = mset (in_load_order rows)"
    by (rule mset_map_nth) (simp add: perm len)
  moreover have "map ((!) (in_load_order rows)) by_place = [0..<?n]"
    using at l by (intro nth_equalityI) simp_all
  ultimately show "mset (in_load_order rows) = mset [0..<?n]" by simp
qed

lemma map_filter_id_Some: "List.map_filter id (map Some xs) = xs"
  by (induction xs) (simp_all add: List.map_filter_simps)

text \<open>Each row as it is kept, at the place the play order names it by.\<close>

lemma loaded_rows_facts:
  fixes p :: "'l queued"
  defines "rows \<equiv> fst (loaded_rows p)" and "order \<equiv> snd (loaded_rows p)"
  shows "order = in_load_order (qd_rows p)" and "length rows = length (qd_rows p)"
    and "i < length (qd_rows p) \<Longrightarrow> rows ! (order ! i) = resumable_of (item (qd_rows p ! i))"
proof -
  let ?n = "length (qd_rows p)" and ?o = "in_load_order (qd_rows p)"
  note perm = in_load_order_perm [of "qd_rows p"]
  have d: "distinct ?o" and s: "set ?o = {0..<?n}"
    using distinct_mset_eq [OF perm(2)] perm(2) by (simp, metis set_mset_mset set_upt)
  let ?kvs = "map (\<lambda>(i, h). (?o ! i, Some (resumable_of (item h)))) (enumerate 0 (qd_rows p))"
  have gen: "fold (\<lambda>(i, h) loaded. loaded[?o ! i := Some (resumable_of (item h))]) (enumerate n hs) xs
      = fold (\<lambda>(k, v) xs. xs[k := v]) (map (\<lambda>(i, h). (?o ! i, Some (resumable_of (item h)))) (enumerate n hs)) xs"
    for n and hs :: "'l held list" and xs
    by (induction hs arbitrary: n xs) simp_all
  define loaded where "loaded = fold (\<lambda>(k, v) xs. xs[k := v]) ?kvs (replicate ?n None)"
  have keys: "map fst ?kvs = ?o"
    using perm(1) by (intro nth_equalityI) (simp_all add: nth_enumerate_eq)
  have dk: "distinct (map fst ?kvs)" and small: "\<forall>k\<in>set (map fst ?kvs). k < length (replicate ?n (None :: 'l resumable option))"
    unfolding keys using d s by auto
  have len: "length loaded = ?n" unfolding loaded_def fold_put(1) [OF dk small] by simp
  have at: "loaded ! (?o ! i) = Some (resumable_of (item (qd_rows p ! i)))" if "i < ?n" for i
  proof -
    have "(i, qd_rows p ! i) \<in> set (enumerate 0 (qd_rows p))" using that by (simp add: in_set_enumerate_eq)
    then have "(?o ! i, Some (resumable_of (item (qd_rows p ! i)))) \<in> set ?kvs" by force
    then show ?thesis unfolding loaded_def by (rule fold_put(2) [OF dk small])
  qed
  have "loaded = map Some (map the loaded)"
  proof (rule nth_equalityI)
    fix k assume "k < length loaded"
    then have "k \<in> set ?o" using len s by simp
    then obtain i where "i < ?n" "?o ! i = k" using perm(1) by (metis in_set_conv_nth)
    then show "loaded ! k = map Some (map the loaded) ! k" using at len \<open>k < length loaded\<close> by fastforce
  qed simp
  then have mf: "List.map_filter id loaded = map the loaded" by (metis map_filter_id_Some)
  have eq: "loaded_rows p = (map the loaded, ?o)"
    using gen [of 0 "qd_rows p" "replicate ?n None"] mf by (simp add: loaded_rows_def Let_def loaded_def)
  show "order = ?o" by (simp add: order_def eq)
  show "length rows = ?n" by (simp add: rows_def eq len)
  show "rows ! (order ! i) = resumable_of (item (qd_rows p ! i))" if "i < ?n"
  proof -
    have "?o ! i < ?n" using that perm(1) s nth_mem [of i ?o] by simp
    then show ?thesis using at [OF that] by (simp add: rows_def order_def eq len)
  qed
qed

text \<open>
  A queue that is kept and restored plays the same rows in the same order, and is heard at the
  same row of them; a queue that was not playing is heard at its first row.
\<close>

definition row_content :: "'l held \<Rightarrow> 'l \<times> frame_span option" where
  "row_content h = (location (item h), item_span (item h))"

lemma restored_content:
  assumes "restored_rows H rs u q = (hs, u', q')" and "length rs \<le> room u"
  shows "map row_content hs = map (\<lambda>r. (res_location r, res_span r)) rs"
proof -
  have "map row_content hs = zip (map (\<lambda>h. location (item h)) hs) (map (\<lambda>h. item_span (item h)) hs)"
    by (induction hs) (simp_all add: row_content_def)
  also have "\<dots> = zip (map res_location rs) (map res_span rs)"
    using restored_rows_facts [OF assms] by simp
  also have "\<dots> = map (\<lambda>r. (res_location r, res_span r)) rs" by (induction rs) simp_all
  finally show ?thesis .
qed

lemma keep_then_restore:
  fixes H :: "'l row_hash" and q q0 :: "'l queue" and st :: player_state
  assumes ok: "queue_ok q" and some: "q_len q \<noteq> 0" and st: "ps_queue_position st = cursor q"
  defines "q' \<equiv> snd (restore H (resumption_of st (published q)) q0)"
  shows "map row_content (in_play_order q') = map row_content (in_play_order q)"
    and "cursor q' = Some (case cursor q of None \<Rightarrow> 0 | Some r \<Rightarrow> r)"
proof -
  let ?p = "published q" and ?play = "in_play_order q"
  define rows where "rows = fst (loaded_rows ?p)"
  define order where "order = snd (loaded_rows ?p)"
  have seat: "seat_ok q" and fits: "fits q" using ok by (simp_all add: queue_ok_def)
  have play: "qd_rows ?p = ?play" "length ?play = q_len q"
    using in_play_order_nth(1) [OF seat] by (simp_all add: published_def)
  note lr = loaded_rows_facts [where p = ?p, folded rows_def order_def, unfolded play]
  note perm = in_load_order_perm [of ?play, folded lr(1), unfolded play]
  define res where "res = resumption_of st ?p"
  have res: "res_rows res = rows" "res_order res = order" "res_row res = row_of st" "res_next res = playing_next q"
    by (simp_all add: res_def resumption_of_def Let_def rows_def order_def published_def case_prod_unfold)
  have drawn: "res_in_play_order res = order"
  proof -
    have "distinct order" "\<forall>i\<in>set order. i < q_len q"
      using distinct_mset_eq [OF perm(2)] perm(2) by (simp, metis atLeastLessThan_iff set_mset_mset set_upt)
    then show ?thesis
      using perm(1) lr(2) by (simp add: res_in_play_order_def plays_in_def res names_once_iff)
  qed
  have row: "row_of st < q_len q"
    using seat
  proof (cases rule: seat_cases)
    case nowhere
    then show ?thesis using some st by (simp add: row_of_def cursor_def)
  next
    case (in_order a)
    then show ?thesis using st by (simp add: row_of_def cursor_def checked_sub_def q_len_def)
  next
    case (queued h hs)
    then show ?thesis using st by (simp add: row_of_def cursor_def q_len_def)
  qed
  have landing: "res_landing res = row_of st" using row lr(2) by (simp add: res_landing_def res)
  define nxt where "nxt = (case res_next res of Some n \<Rightarrow> if span_last n < length order then Some n else None | None \<Rightarrow> None)"
  have nxt: "nxt = playing_next q"
    using seat perm(1)
    by (auto simp: nxt_def res playing_next_def checked_sub_def span_between_def seat_ok_def q_len_def split: option.splits)
  have nok: "span_ok s \<and> span_last s < length order" if "nxt = Some s" for s
  proof -
    have "span_ok s" using that nxt by (auto simp: playing_next_def split: option.splits)
    then show ?thesis using that by (auto simp: nxt_def split: option.splits if_splits)
  qed
  have near: "span_holds s (row_of st) \<or> span_first s = row_of st + 1" if "nxt = Some s" for s
    using that st seat unfolding nxt
    by (cases "q_seat q") (auto simp: playing_next_def row_of_def cursor_def span_between_def span_holds_def
        checked_sub_def seat_ok_def split: option.splits if_splits)
  obtain order1 wait after sd where sp: "restored_split order nxt (res_landing res) = (order1, wait, after, sd)"
    by (metis prod_cases4)
  have land: "order \<noteq> [] \<Longrightarrow> res_landing res < length order" using row perm(1) landing by simp
  have ne: "order \<noteq> []" using some perm(1) by auto
  have drawn_split: "take after order1 @ wait @ drop after order1 = order"
    using restored_split_facts(5) [OF sp land] nok near landing by metis
  obtain hs u q1 where rr: "restored_rows H (res_rows res) (beside ([] :: 'l queue_item list)) (q0\<lparr>q_places := 0\<rparr>) = (hs, u, q1)"
    by (metis prod_cases3)
  have room: "length (res_rows res) \<le> room (beside ([] :: 'l queue_item list))"
    using room_beside [of "[] :: 'l queue_item list"] fits lr(2) by (simp add: fits_def res)
  note f = restored_rows_facts [OF rr room]
  have q1: "q1 = q0\<lparr>q_places := length (res_rows res)\<rparr>" using f by simp
  have q': "q_order q' = rows_named hs order1" "q_next q' = rows_named hs wait" "q_after q' = after" "q_seat q' = sd"
    using restore_eq [OF rr drawn sp [unfolded nxt_def] q1] by (simp_all add: q'_def res_def [symmetric] Let_def)
  have small: "i < length hs" if "i \<in> set (order1 @ wait)" for i
  proof -
    have "set (order1 @ wait) = set order" using drawn_split by (metis append_take_drop_id set_append sup_assoc sup_commute)
    moreover have "set order = {0..<q_len q}" using perm(2) by (metis set_mset_mset set_upt)
    ultimately show ?thesis using that f lr(2) by (simp add: res)
  qed
  have named: "rows_named hs order1 = map ((!) hs) order1" "rows_named hs wait = map ((!) hs) wait"
    using small by (auto intro!: rows_named_map)
  have le: "after \<le> length order1" using restored_split_facts(2) [OF sp land] nok by blast
  have "in_play_order q' = map ((!) hs) (take after order1 @ wait @ drop after order1)"
    using le by (simp add: in_play_order_def q' named take_map drop_map)
  then have p': "in_play_order q' = map ((!) hs) order" by (simp only: drawn_split)
  show "map row_content (in_play_order q') = map row_content ?play"
  proof (rule nth_equalityI)
    show "length (map row_content (in_play_order q')) = length (map row_content ?play)"
      by (simp add: p' perm(1) play)
    fix i assume "i < length (map row_content (in_play_order q'))"
    then have i: "i < q_len q" by (simp add: p' perm(1))
    then have "order ! i < length rows"
      using nth_mem [of i order] perm lr(2) by (metis atLeastLessThan_iff set_mset_mset set_upt)
    then have "row_content (hs ! (order ! i)) = (res_location (rows ! (order ! i)), res_span (rows ! (order ! i)))"
      using restored_content [OF rr room] f by (metis (no_types, lifting) length_map nth_map res(1))
    also have "\<dots> = row_content (?play ! i)"
      using lr(3) i play(2) by (simp add: resumable_of_def row_content_def)
    finally show "map row_content (in_play_order q') ! i = map row_content ?play ! i"
      using i by (simp add: p' perm(1) play(2))
  qed
  show "cursor q' = Some (case cursor q of None \<Rightarrow> 0 | Some r \<Rightarrow> r)"
  proof -
    have "cursor q' = Some (row_of st)"
      using sp ne near unfolding cursor_def q' landing
      by (auto simp: restored_split_def Let_def checked_sub_def split: option.splits if_splits)
    then show ?thesis by (simp add: row_of_def st)
  qed
qed

text \<open>Nothing more is kept until something moves.\<close>

lemma from_kept_every: "0 < rate \<Longrightarrow> 0 < from_duration kept_every rate"
  by (simp add: from_duration_def kept_every_def as_nanos_def nanos_per_second_def half_a_second_in_nanos_def
      Let_def u64_max_def div_greater_zero_iff)

lemma kept_once:
  assumes rates: "\<And>at rate. ps_current st = Some (at, rate) \<Longrightarrow> 0 < rate"
  shows "fst (kept_by st p throttled (snd (kept_by st p throttled k))) = None"
proof -
  define now where "now = \<lparr>kh_stamp = qd_stamp p, kh_revision = qd_revision p, kh_shuffle = ps_shuffle st\<rparr>"
  have still: "\<not> moved_on (k\<lparr>kp_held := h, kp_kept := Some (r, at)\<rparr>) st r at throttled" for k h r at
  proof (cases "ps_current st")
    case None
    then show ?thesis by (simp add: moved_on_def)
  next
    case (Some c)
    then obtain pos rate where c: "ps_current st = Some (pos, rate)" by (cases c) simp
    then have "0 < from_duration kept_every rate" using rates from_kept_every by blast
    then show ?thesis using c by (simp add: moved_on_def)
  qed
  have same: "moved_on (k\<lparr>kp_held := h\<rparr>) st r at throttled = moved_on k st r at throttled" for k h r at
    by (simp add: moved_on_def)
  have eq: "kept_by st p throttled k =
     (if (case kp_held k of None \<Rightarrow> True | Some b \<Rightarrow> kh_stamp b \<noteq> kh_stamp now)
      then (Some (KeepQueue (resumption_of st p)), k\<lparr>kp_held := Some now, kp_kept := Some (row_of st, position_of st)\<rparr>)
      else if kp_held k \<noteq> Some now
      then (Some (KeepOrder \<lparr>ro_order = snd (loaded_rows p), ro_row = row_of st, ro_at = position_of st,
              ro_shuffle = ps_shuffle st, ro_next = qd_next p\<rparr>),
            k\<lparr>kp_held := Some now, kp_kept := Some (row_of st, position_of st)\<rparr>)
      else if ps_queue_position st = None \<or> \<not> moved_on k st (row_of st) (position_of st) throttled
      then (None, k\<lparr>kp_held := Some now\<rparr>)
      else (Some (KeepPlace (row_of st) (position_of st)),
            k\<lparr>kp_held := Some now, kp_kept := Some (row_of st, position_of st)\<rparr>))" for k
    unfolding kept_by_def Let_def now_def [symmetric] same ..
  define k' where "k' = snd (kept_by st p throttled k)"
  have "kp_held k' = Some now \<and>
    (ps_queue_position st = None \<or> \<not> moved_on k' st (row_of st) (position_of st) throttled)"
    unfolding k'_def eq using still same by simp
  then show ?thesis unfolding k'_def [symmetric] eq [of k'] by auto
qed

end
