(* ===== verification/QueueContracts.thy ===== *)
theory QueueContracts
  imports Kept Dates
begin

text \<open>
  What the play queue, its standing order, the queue kept on disk, frame times and civil dates
  promise, each stated over the definitions of their theories, with a concrete input at which
  the hypotheses hold.
\<close>

subsection \<open>The inputs the witnesses use\<close>

definition sample_hash :: "nat row_hash" where
  "sample_hash p row = of_nat (p + 1) * of_nat (fst row + 3)"

definition sample_items :: "nat queue_item list" where
  "sample_items = [whole 1 10, whole 2 20, whole 2 30]"

definition sample_queue :: "nat queue" where
  "sample_queue = snd (load sample_hash sample_items 1 (queue_new 7))"

lemma sample_queue_reached: "queue_reached sample_hash sample_queue"
proof -
  have "queue_step sample_hash (queue_new 7) sample_queue"
    unfolding sample_queue_def
    by (rule step_load) (simp add: waiting_def queue_new_def sample_items_def u64_max_def)
  with reached_new show ?thesis by (rule reached_step)
qed

lemma sample_queue_ok: "queue_ok sample_queue"
  by (rule reached_ok [OF sample_queue_reached])

lemmas sample_runs =
  load_def waiting_def queue_new_def beside_def claim_or_mint_def claim_def mint_def
  free_from.simps u64_max_def hold_def rows_moved_def stamp_afresh_def in_play_order_def q_len_def
  cursor_def checked_sub_def whole_def standing_of_def numeral_2_eq_2 Let_def

lemma sample_facts:
  "in_play_order sample_queue =
     [held_at sample_hash 0 (whole 1 10), held_at sample_hash 1 (whole 2 20),
      held_at sample_hash 2 (whole 18446744073709551615 30)]"
  "q_order sample_queue = in_play_order sample_queue"
  "q_len sample_queue = 3" "q_repeat sample_queue = RepeatOff" "q_seat sample_queue = SeatInOrder"
  "\<not> q_shuffle sample_queue" "cursor sample_queue = Some 1" "q_next sample_queue = []" "q_after sample_queue = 2"
  "q_places sample_queue = 3"
  unfolding sample_queue_def sample_items_def by (simp_all add: sample_runs)

lemma sample_heard: "heard sample_queue = Some (held_at sample_hash 1 (whole 2 20))"
  by (simp add: heard_def last_heard_def sample_facts checked_sub_def)

definition sample_shuffled :: "nat queue" where
  "sample_shuffled = set_shuffle True sample_queue"

lemma sample_shuffled_ok: "queue_ok sample_shuffled" "q_shuffle sample_shuffled"
  unfolding sample_shuffled_def
  using set_shuffle_ok [OF sample_queue_ok] shuffle_on(1) [OF sample_queue_ok sample_facts(6)]
  by (simp_all add: only_shuffled_def)

subsection \<open>The play queue\<close>

text \<open>
  C1. Whatever operations run on a new queue, its invariant holds: the seat lies among the rows,
  no two rows share a place or an id, the ids in use are those of the rows, the standing order
  holds exactly the rows of the playing order while the queue is shuffled and none otherwise, and
  the two running stamps are the stamps of the rows.
\<close>

theorem queue_stays_ok: "queue_reached H q \<Longrightarrow> queue_ok q"
  by (rule reached_ok)

lemma queue_stays_ok_witness: "queue_ok sample_queue \<and> q_len sample_queue = 3"
  using queue_stays_ok [OF sample_queue_reached] by (simp add: sample_facts)

text \<open>
  C2. \<open>follows_naturally_after\<close> predicts the row that is heard when the current row and \<open>n\<close> more
  have played to their end, without changing the queue: it answers what playing on does answer,
  whatever is repeated or shuffled. The one exception is a shuffled queue whose pass begins again
  within those rows: the order of the new pass is not drawn yet, so nothing is predicted, though
  playing may go on.
\<close>

theorem follows_naturally_is_played:
  assumes "queue_ok q"
  shows "follows_naturally_after n q =
    (if q_shuffle q \<and> (\<exists>m\<le>n. wraps_next (natural_advances m q)) then None
     else current (natural_advances (Suc n) q))"
  by (rule follows_naturally [OF assms])

lemma follows_naturally_is_played_witness:
  "follows_naturally_after 0 sample_queue = current (natural_advances (Suc 0) sample_queue) \<and>
   follows_naturally_after 1 (set_repeat RepeatQueue sample_shuffled) =
     (if \<exists>m\<le>1. wraps_next (natural_advances m (set_repeat RepeatQueue sample_shuffled)) then None
      else current (natural_advances (Suc 1) (set_repeat RepeatQueue sample_shuffled)))"
  using follows_naturally_is_played [OF sample_queue_ok, of 0]
    follows_naturally_is_played [OF set_repeat_ok [OF sample_shuffled_ok(1)], of 1 RepeatQueue]
    sample_shuffled_ok(2)
  by (simp add: sample_facts set_repeat_def)

text \<open>
  C14. \<open>ends_with_the_row_after\<close> says exactly when the queue falls silent: repeating is off, a row
  is heard after \<open>n\<close> rows have played out, and none after the next.
\<close>

theorem silence_is_foretold:
  assumes "queue_ok q"
  shows "ends_with_the_row_after n q \<longleftrightarrow> q_repeat q = RepeatOff \<and>
    current (natural_advances n q) \<noteq> None \<and> current (natural_advances (Suc n) q) = None"
  by (rule ends_after [OF assms])

lemma silence_is_foretold_witness:
  "ends_with_the_row_after 1 sample_queue \<longleftrightarrow> q_repeat sample_queue = RepeatOff \<and>
    current (natural_advances 1 sample_queue) \<noteq> None \<and> current (natural_advances (Suc 1) sample_queue) = None"
  by (rule silence_is_foretold [OF sample_queue_ok])

text \<open>
  C15. Where \<open>wraps_next\<close> says the queue is at its last row and repeats, playing on begins the pass
  again: the first row of the playing order is heard, no row of that order is lost, they keep their
  order where the queue is not shuffled, and where it is and holds two of them the new pass does not
  begin with the row that ended the old one. Only a row that waited to be played next and was being
  heard leaves, as every such row does once it is heard; where there is no other row, the queue
  falls silent.
\<close>

theorem a_pass_begins_again:
  assumes "queue_ok q" and "wraps_next q"
  shows "let q' = snd (advance natural q) in
    q_next q' = [] \<and> mset (q_order q') = mset (q_order q)
    \<and> mset (in_play_order q) = mset (in_play_order q') +
        (case (q_seat q, heard q) of (SeatNext, Some h) \<Rightarrow> {#h#} | _ \<Rightarrow> {#})
    \<and> heard q' = front_of (q_order q')
    \<and> (\<not> q_shuffle q \<longrightarrow> q_order q' = q_order q)
    \<and> (q_shuffle q \<and> 2 \<le> length (q_order q) \<longrightarrow> place (hd (q_order q')) \<noteq> place (last (q_order q)))"
  by (rule wraps_to_the_start [OF assms])

lemma a_pass_begins_again_witness:
  "let q = set_repeat RepeatQueue (snd (jump_to 2 sample_queue)); q' = snd (advance True q) in
    heard q' = front_of (q_order q') \<and> q_next q' = [] \<and> mset (in_play_order q) = mset (in_play_order q')
    \<and> q_order q' = q_order q"
proof -
  let ?q = "set_repeat RepeatQueue (snd (jump_to 2 sample_queue))"
  have ok: "queue_ok ?q" by (intro set_repeat_ok jump_to_ok sample_queue_ok)
  have "wraps_next ?q"
    by (simp add: wraps_iff [OF ok]) (simp add: set_repeat_def jump_to_def row_at_def sample_facts waiting_def Let_def)
  moreover have "q_seat ?q = SeatInOrder" "\<not> q_shuffle ?q"
    by (simp_all add: set_repeat_def jump_to_def row_at_def sample_facts waiting_def Let_def seat_after_def)
  ultimately show ?thesis using a_pass_begins_again [OF ok, of True] by (simp add: Let_def)
qed

text \<open>
  C16. Hearing a row of one's choice: the row drawn at \<open>at\<close> is heard afterwards, wherever it waits,
  and its place is answered; past the end nothing changes and nothing is answered.
\<close>

theorem a_chosen_row_is_heard:
  assumes "queue_ok q"
  shows "(if at < q_len q
      then heard (snd (jump_to at q)) = Some (in_play_order q ! at) \<and>
           fst (jump_to at q) = Some (place (in_play_order q ! at))
      else jump_to at q = (None, q))"
  using jump_hears [OF assms] jump_outside [OF assms] by simp

lemma a_chosen_row_is_heard_witness:
  "heard (snd (jump_to 2 sample_queue)) = Some (in_play_order sample_queue ! 2)"
  using a_chosen_row_is_heard [OF sample_queue_ok, of 2] by (simp add: sample_facts)

text \<open>
  C17. Rows that are inserted land together, in their order, where they were put (at a row, after
  the row being heard, or after the rows already queued to play next), each with an id no row of
  the queue uses; the rows already there keep their order, what is heard stays heard, and a
  silent queue is at the first of the new rows.
\<close>

theorem inserted_rows_land:
  assumes "queue_ok q" and "items \<noteq> []" and "length items \<le> room (q_ids q)"
  shows "\<exists>arrived. map location arrived = map location items \<and> map item_span arrived = map item_span items
    \<and> distinct (map item_id arrived) \<and> set (map item_id arrived) \<inter> set (ids_of (in_play_order q)) = {}
    \<and> fst (insert_rows H items at q) = Some (put_at at q)
    \<and> in_play_order (snd (insert_rows H items at q)) =
        vec_splice (put_at at q) (held_from H (q_places q) arrived) (in_play_order q)
    \<and> heard (snd (insert_rows H items at q)) =
        (if q_seat q = Nowhere then front_of (held_from H (q_places q) arrived) else heard q)"
proof -
  obtain arrived ids where a: "one_id_each items (q_ids q) = (arrived, ids)" by fastforce
  have "seat_ok q" and ids: "ids_ok q" using assms(1) by (simp_all add: queue_ok_def)
  then have "set (in_play_order q) = set (rows_of q)" by (metis in_play_order_set set_mset_mset)
  then have "set (ids_of (in_play_order q)) = taken (q_ids q)" using ids by (auto simp: ids_ok_def)
  then show ?thesis
    using one_id_each_fresh [OF assms(3) a] one_id_each_rows [OF a] insert_lands [OF assms(1,2) a, of H at]
    by (intro exI [of _ arrived]) (simp add: inf_commute)
qed

lemma inserted_rows_land_witness:
  "fst (insert_rows sample_hash [whole 3 40] PlaceNext sample_queue) = Some 2"
proof -
  have "1 \<le> room (q_ids sample_queue)"
  proof -
    have "q_ids sample_queue = \<lparr>taken = {18446744073709551615, 2, 1}, upnext = 18446744073709551614\<rparr>"
      unfolding sample_queue_def sample_items_def by (simp add: sample_runs)
    then have "3 \<in> {k. 1 \<le> k \<and> k \<le> upnext (q_ids sample_queue) \<and> k \<notin> taken (q_ids sample_queue)}" by simp
    then show ?thesis unfolding room_def using card_gt_0_iff [THEN iffD2] room_finite by (metis One_nat_def Suc_leI empty_iff)
  qed
  then show ?thesis
    using inserted_rows_land [OF sample_queue_ok, of "[whole 3 40]" sample_hash PlaceNext]
    by (auto simp: put_at_def sample_facts)
qed

text \<open>
  C18. Removing runs of rows that lie in the queue leaves every other row, in its order. Where the row
  being heard is not among them it goes on being heard; where it is, the caller is told that what was
  playing has gone, and the first row left behind it is heard, if there is one. Only where there is
  none, and the queue is shuffled and repeats, a new pass begins, in an order drawn afresh. A run that
  reaches past the end is refused, and nothing changes.
\<close>

theorem removed_rows_leave:
  assumes "queue_ok q"
  shows "let gone = chosen_places runs q; left = keep_rows gone (in_play_order q);
      behind = keep_rows gone (rows_to_come q); q' = snd (remove_all runs q);
      heard_goes = (\<exists>h. heard q = Some h \<and> place h \<in> gone) in
    if \<exists>s\<in>set runs. q_len q \<le> span_last s
    then \<exists>s\<in>set runs. q_len q \<le> span_last s \<and> remove_all runs q = (Inl s, q)
    else mset (in_play_order q') = mset left
      \<and> (\<not> (q_repeat q = RepeatQueue \<and> q_shuffle q \<and> heard_goes \<and> behind = []) \<longrightarrow> in_play_order q' = left)
      \<and> (heard_goes \<longrightarrow> fst (remove_all runs q) = Inr Playing \<and> (behind \<noteq> [] \<longrightarrow> heard q' = front_of behind))
      \<and> (\<forall>h. heard q = Some h \<longrightarrow> \<not> heard_goes \<longrightarrow> heard q' = Some h \<and> fst (remove_all runs q) = Inr Queued)"
proof (cases "\<forall>s\<in>set runs. span_last s < q_len q")
  case True
  then have "\<not> (\<exists>s\<in>set runs. q_len q \<le> span_last s)" by (auto simp: not_le)
  then show ?thesis using remove_leaves [OF assms True] unfolding Let_def by auto
next
  case False
  then have "\<exists>s\<in>set runs. q_len q \<le> span_last s" by (auto simp: not_less)
  then show ?thesis using remove_outside [OF False] by (simp add: Let_def)
qed

lemma removed_rows_leave_witness:
  "in_play_order (snd (remove_all [span_one 0] sample_queue)) =
     keep_rows (chosen_places [span_one 0] sample_queue) (in_play_order sample_queue) \<and>
   remove_all [span_one 3] sample_queue = (Inl (span_one 3), sample_queue)"
  using removed_rows_leave [OF sample_queue_ok, of "[span_one 0]"] removed_rows_leave [OF sample_queue_ok, of "[span_one 3]"]
  by (simp add: sample_facts span_one_def Let_def)

text \<open>
  C32. Moving a run of rows that does not hold the row being heard puts the run down, whole and in
  its order, where \<open>Span::landing\<close> says; no other row changes its order, no row is lost, what is
  heard stays heard, and the queue keeps its invariant.
\<close>

theorem moved_rows_land:
  assumes "queue_ok q" and "span_ok rows" and "span_last rows < q_len q" and "to < q_len q" and "\<not> span_holds rows to"
    and "\<And>h. heard q = Some h \<Longrightarrow> h \<notin> set (run_of (span_first rows) (span_last rows + 1) (in_play_order q))"
  shows "\<exists>q'. move_rows rows to q = (Some (), q') \<and> queue_ok q' \<and> heard q' = heard q \<and>
    in_play_order q' = block_moved rows (span_landing rows to) (in_play_order q)"
  using move_rows_lands [OF assms(1-5)] assms(6) unfolding put_down_def by metis

lemma moved_rows_land_witness:
  "\<exists>q'. move_rows (span_one 0) 2 sample_queue = (Some (), q') \<and> queue_ok q' \<and> heard q' = heard sample_queue \<and>
    in_play_order q' = block_moved (span_one 0) (span_landing (span_one 0) 2) (in_play_order sample_queue)"
  by (rule moved_rows_land [OF sample_queue_ok])
    (simp_all add: sample_facts sample_heard span_one_def span_ok_def span_holds_def run_of_def held_at_def)

text \<open>
  Reordering by a list that names every row once is carried out, keeps the row being heard,
  and where no row waits to be played next puts the rows in exactly the order named.
\<close>

theorem reordered_as_named:
  assumes "queue_ok q" and "length rows = q_len q" and "names_once (replicate (length rows) False) rows"
  shows "fst (reorder rows q) = Some () \<and> heard (snd (reorder rows q)) = heard q \<and>
    (q_next q = [] \<longrightarrow> in_play_order (snd (reorder rows q)) = map ((!) (in_play_order q)) rows)"
  using reorder_gives [OF assms] by blast

lemma reordered_as_named_witness:
  "in_play_order (snd (reorder [2, 0, 1] sample_queue)) = map ((!) (in_play_order sample_queue)) [2, 0, 1]"
  using reordered_as_named [OF sample_queue_ok, of "[2, 0, 1]"] by (simp add: sample_facts numeral_3_eq_3)

text \<open>
  C33. Shuffling the queue and unshuffling it again gives back the queue that was, down to the
  seat: only the shuffler's state and the revisions have moved on.
\<close>

theorem shuffling_is_undone:
  assumes "queue_ok q" and "\<not> q_shuffle q"
  shows "\<exists>shuffler rows_revision revision. set_shuffle False (set_shuffle True q) =
    q\<lparr>q_shuffler := shuffler, q_rows_revision := rows_revision, q_revision := revision\<rparr>"
  using shuffle_on_then_off [OF assms] by blast

lemma shuffling_is_undone_witness:
  "in_play_order (set_shuffle False (set_shuffle True sample_queue)) = in_play_order sample_queue"
  using shuffling_is_undone [OF sample_queue_ok sample_facts(6)] by (auto simp: in_play_order_def)

text \<open>
  While a queue is shuffled the listing it publishes shows every row once, in the order the
  queue would play them in were the shuffle turned off now; the shuffled row being heard stays heard.
\<close>

theorem the_listing_is_the_unshuffled_order:
  assumes "queue_ok q" and "q_shuffle q"
  shows "qd_listed (published q) = Some (in_play_order (set_shuffle False q)) \<and>
    mset (in_play_order (set_shuffle False q)) = mset (in_play_order q)"
  using listing_unshuffled [OF assms] by blast

lemma the_listing_is_the_unshuffled_order_witness:
  "qd_listed (published sample_shuffled) = Some (in_play_order (set_shuffle False sample_shuffled))"
  using the_listing_is_the_unshuffled_order [OF sample_shuffled_ok] by blast

subsection \<open>The queue kept for the next run\<close>

text \<open>
  C34. A queue that is kept and restored in the next run, into whatever queue is there then, has
  the same rows (their locations and spans) in the same playing order, and the listener is at the
  row they were at, or at the first where they were at none.
\<close>

theorem kept_queue_comes_back:
  assumes "queue_ok q" and "q_len q \<noteq> 0" and "ps_queue_position st = cursor q"
  shows "let q' = snd (restore H (resumption_of st (published q)) q0) in
    map row_content (in_play_order q') = map row_content (in_play_order q) \<and>
    cursor q' = Some (case cursor q of None \<Rightarrow> 0 | Some r \<Rightarrow> r)"
  using keep_then_restore [OF assms] by (simp add: Let_def)

definition sample_state :: player_state where
  "sample_state = \<lparr>ps_queue_position = Some 1, ps_current = Some (4410, 44100), ps_shuffle = False, ps_playback = Paused\<rparr>"

lemma kept_queue_comes_back_witness:
  "cursor (snd (restore sample_hash (resumption_of sample_state (published sample_queue)) (queue_new 1))) = Some 1"
  using kept_queue_comes_back [OF sample_queue_ok, of sample_state sample_hash "queue_new 1"]
  by (simp add: sample_facts sample_state_def Let_def)

text \<open>
  What has been kept is not kept again: asked a second time with nothing changed, the keeping
  writes nothing.
\<close>

theorem kept_only_once:
  assumes "\<And>at rate. ps_current st = Some (at, rate) \<Longrightarrow> 0 < rate"
  shows "fst (kept_by st p throttled (snd (kept_by st p throttled k))) = None"
  by (rule kept_once) (rule assms)

lemma kept_only_once_witness:
  "fst (kept_by sample_state (published sample_queue) True
    (snd (kept_by sample_state (published sample_queue) True keeping_new))) = None"
  by (rule kept_only_once) (simp add: sample_state_def)

subsection \<open>The standing order, refined to lists\<close>

text \<open>
  C35. The labelled order map a shuffled queue keeps its unshuffled order in refines a plain list:
  inserting a run at an anchor, relabelling a window of rows where no labels are free, splices
  the run into the list at the anchor's position, and leaves the map well formed.
\<close>

theorem standing_insert_refines_splice:
  assumes "st_ok s" and "distinct (places_of run)" and "set (places_of run) \<inter> set (places_of (st_iter s)) = {}"
    and "length (st_iter s) + length run < u64_max"
  shows "st_ok (st_insert anc run s) \<and>
    st_iter (st_insert anc run s) = vec_splice (anchor_pos anc (st_iter s)) run (st_iter s)"
  using st_insert_lands [OF assms] by blast

lemma standing_insert_refines_splice_witness:
  "st_iter (st_insert Back [held_at sample_hash 5 (whole 1 10)] st_empty) = [held_at sample_hash 5 (whole 1 10)]"
  using standing_insert_refines_splice [of st_empty "[held_at sample_hash 5 (whole 1 10)]" Back]
  by (simp add: u64_max_def)

subsection \<open>Frame times\<close>

text \<open>
  A frame count turned into a duration, rounded down to a whole nanosecond, and back is the
  same count, at every sample rate the program accepts; the nanoseconds stay below a second.
\<close>

theorem frames_survive_durations:
  assumes "rate_ok hz" and "f \<le> u64_max"
  shows "from_duration (to_duration f hz) hz = f \<and> dur_nanos (to_duration f hz) < nanos_per_second"
  using from_to_duration [OF assms] to_duration_fits(1) [OF assms(1)] by blast

lemma frames_survive_durations_witness:
  "from_duration (to_duration 1234567891 44100) 44100 = 1234567891"
  by (rule frames_survive_durations [THEN conjunct1]) (simp_all add: rate_ok_iff u64_max_def)

subsection \<open>Civil dates\<close>

text \<open>
  The calendar is the Gregorian one: the date of every day is a date of the calendar, the
  date of the next day is the next date, and the day of the date of a day is that day, over all
  days whose distance from the epoch the shift of the computation can hold.
\<close>

theorem days_have_their_dates:
  assumes "day_in_range n" and "day_in_range (n + 1)"
  shows "date_ok (of_day n) \<and> of_day (n + 1) = next_date (of_day n) \<and> day_since_the_epoch (of_day n) = n"
  using of_day_ok of_day_next [OF assms] day_of_of_day [OF assms(1)] by blast

lemma days_have_their_dates_witness: "of_day (19782 + 1) = next_date (of_day 19782)"
  by (rule days_have_their_dates [THEN conjunct2, THEN conjunct1])
    (simp_all add: day_in_range_def i64_min_def i64_max_def)

text \<open>
  The date of the day a calendar date falls on is that date.
\<close>

theorem dates_have_their_days:
  assumes "date_ok c" and "day_in_range (day_since_the_epoch c)"
  shows "of_day (day_since_the_epoch c) = c"
  by (rule of_day_of_date [OF assms])

lemma dates_have_their_days_witness:
  "of_day (day_since_the_epoch \<lparr>year = 2024, month = 2, day = 29\<rparr>) = \<lparr>year = 2024, month = 2, day = 29\<rparr>"
  by (rule dates_have_their_days)
    (simp_all add: date_ok_def days_in_month_def leap_def day_in_range_def day_since_the_epoch_def i64_min_def i64_max_def)

end
