(* ===== verification/Wire.thy ===== *)
theory Wire
  imports Prelude FrameTime
begin

text \<open>
  The byte format the sync server and the peers speak (\<open>Writer\<close> and \<open>Reader\<close> in
  \<open>crates/resonate-sync/src/wire.rs\<close>): numbers as little-endian groups of seven bits, signed
  numbers zigzagged, counted byte strings, UTF-8 texts clipped to \<open>longest_text\<close>, and the
  errors of \<open>Malformed\<close>.

  A writer appends, so writing a value is the bytes it appends. A reader is a cursor over what
  is left: it gives the value and the bytes left after it, or the error, after which the code
  drops the reader. A \<open>String\<close> is the bytes of its UTF-8 encoding. A \<open>usize\<close> has 64 bits, as on
  every platform the program is built for; lengths of lists are natural numbers.

  Every kind of value that is written is a \<open>codec\<close>: what a reader makes of the bytes a value is
  written as, whatever follows them, is the value as it is sent (\<open>sent\<close>: with texts clipped and
  durations cut to whole milliseconds), and reading never depends on what follows the bytes read.
\<close>

subsection \<open>Errors and readers\<close>

datatype malformed =
  Ended
| Trailing nat
| Overlong nat
| Short nat
| BadTag u8
| BadNumber
| NotText
| NotAnMbid
| NotAPrint

type_synonym i64 = "64 word"

type_synonym bytes = "u8 list"

type_synonym 'a reader = "bytes \<Rightarrow> malformed + 'a \<times> bytes"

definition rd_ok :: "'a \<Rightarrow> 'a reader" where
  "rd_ok x bs = Inr (x, bs)"

definition rd_fail :: "malformed \<Rightarrow> 'a reader" where
  "rd_fail e bs = Inl e"

definition rd_then :: "'a reader \<Rightarrow> ('a \<Rightarrow> 'b reader) \<Rightarrow> 'b reader" where
  "rd_then rd k bs = (case rd bs of Inl e \<Rightarrow> Inl e | Inr p \<Rightarrow> k (fst p) (snd p))"

fun rd_many :: "nat \<Rightarrow> 'a reader \<Rightarrow> 'a list reader" where
  "rd_many 0 rd = rd_ok []"
| "rd_many (Suc n) rd = rd_then rd (\<lambda>x. rd_then (rd_many n rd) (\<lambda>xs. rd_ok (x # xs)))"

text \<open>\<open>Reader::done\<close>, and reading a whole frame: nothing may be left over.\<close>

definition rd_done :: "bytes \<Rightarrow> malformed + unit" where
  "rd_done bs = (if bs = [] then Inr () else Inl (Trailing (length bs)))"

definition rd_whole :: "'a reader \<Rightarrow> bytes \<Rightarrow> malformed + 'a" where
  "rd_whole rd bs = (case rd bs of Inl e \<Rightarrow> Inl e
     | Inr p \<Rightarrow> (case rd_done (snd p) of Inl e \<Rightarrow> Inl e | Inr _ \<Rightarrow> Inr (fst p)))"

lemmas reader_defs = rd_ok_def rd_fail_def rd_then_def

subsection \<open>Bytes, flags and numbers\<close>

definition wr_byte :: "u8 \<Rightarrow> bytes" where
  "wr_byte b = [b]"

definition wr_flag :: "bool \<Rightarrow> bytes" where
  "wr_flag b = wr_byte (if b then 1 else 0)"

lemma shifted_smaller: "drop_bit 7 v \<noteq> 0 \<Longrightarrow> unat (drop_bit 7 v :: u64) < unat v"
proof -
  assume "drop_bit 7 v \<noteq> 0"
  then have "unat v \<noteq> 0" by (auto simp: unat_eq_0)
  then show ?thesis by (simp add: unat_drop_bit_eq drop_bit_nat_def)
qed

function wr_number :: "u64 \<Rightarrow> bytes" where
  "wr_number v =
     (let low = ucast (Bit_Operations.and v 0x7f) :: u8; rest = drop_bit 7 v
      in if rest = 0 then [low] else Bit_Operations.or low 0x80 # wr_number rest)"
  by pat_completeness auto
termination
  by (relation "measure unat") (auto intro: shifted_smaller)

declare wr_number.simps [simp del]

definition rd_byte :: "u8 reader" where
  "rd_byte bs = (case bs of [] \<Rightarrow> Inl Ended | b # rest \<Rightarrow> Inr (b, rest))"

definition rd_flag :: "bool reader" where
  "rd_flag = rd_then rd_byte (\<lambda>b. if b = 0 then rd_ok False else if b = 1 then rd_ok True else rd_fail (BadTag b))"

fun rd_number_from :: "nat \<Rightarrow> u64 \<Rightarrow> u64 reader" where
  "rd_number_from shift v [] = (if shift \<ge> 64 then Inl BadNumber else Inl Ended)"
| "rd_number_from shift v (b # bs) =
     (if shift \<ge> 64 then Inl BadNumber
      else
        let low = ucast (Bit_Operations.and b 0x7f) :: u64
        in if shift = 63 \<and> low > 1 then Inl BadNumber
           else
             let v = Bit_Operations.or v (push_bit shift low)
             in if Bit_Operations.and b 0x80 = 0 then Inr (v, bs) else rd_number_from (shift + 7) v bs)"

definition rd_number :: "u64 reader" where
  "rd_number = rd_number_from 0 0"

definition wr_signed :: "i64 \<Rightarrow> bytes" where
  "wr_signed v = wr_number (Bit_Operations.xor (push_bit 1 v) (signed_drop_bit 63 v))"

definition rd_signed :: "i64 reader" where
  "rd_signed = rd_then rd_number (\<lambda>z.
     rd_ok (Bit_Operations.xor (drop_bit 1 z) (- (Bit_Operations.and z 1))))"

text \<open>\<open>small\<close> reads a number of 32 bits; versions and ports are read as numbers of 16.\<close>

definition rd_small :: "u32 reader" where
  "rd_small = rd_then rd_number (\<lambda>v. if v \<le> 0xffffffff then rd_ok (ucast v) else rd_fail BadNumber)"

definition rd_half :: "u16 reader" where
  "rd_half = rd_then rd_number (\<lambda>v. if v \<le> 0xffff then rd_ok (ucast v) else rd_fail BadNumber)"

text \<open>The seven low bits and the bit above them.\<close>

lemma low_bits: "Bit_Operations.and v 0x7f = take_bit 7 (v :: u64)" "Bit_Operations.and b 0x7f = take_bit 7 (b :: u8)"
  by (simp_all add: take_bit_eq_mask mask_eq_exp_minus_1)

lemma high_bit: "bit (0x80 :: u8) n \<longleftrightarrow> n = 7" "bit (0x80 :: int) n \<longleftrightarrow> n = 7"
proof -
  have "bit (0x80 :: u8) n \<longleftrightarrow> bit (push_bit 7 (1 :: u8)) n" "bit (0x80 :: int) n \<longleftrightarrow> bit (push_bit 7 (1 :: int)) n"
    by simp_all
  then show "bit (0x80 :: u8) n \<longleftrightarrow> n = 7" "bit (0x80 :: int) n \<longleftrightarrow> n = 7"
    unfolding bit_push_bit_iff bit_1_iff by auto
qed

lemma low_byte:
  fixes v :: u64
  defines "low \<equiv> ucast (Bit_Operations.and v 0x7f) :: u8"
  shows "ucast (Bit_Operations.and low 0x7f) = Bit_Operations.and v 0x7f"
    and "Bit_Operations.and low 0x80 = 0"
    and "ucast (Bit_Operations.and (Bit_Operations.or low 0x80) 0x7f) = Bit_Operations.and v 0x7f"
    and "Bit_Operations.and (Bit_Operations.or low 0x80) 0x80 \<noteq> 0"
proof -
  show "ucast (Bit_Operations.and low 0x7f) = Bit_Operations.and v 0x7f"
    unfolding low_def low_bits by (rule bit_word_eqI) (auto simp: bit_simps)
  show "Bit_Operations.and low 0x80 = 0"
    unfolding low_def low_bits by (rule bit_word_eqI) (auto simp: bit_simps high_bit)
  show "ucast (Bit_Operations.and (Bit_Operations.or low 0x80) 0x7f) = Bit_Operations.and v 0x7f"
    unfolding low_def low_bits by (rule bit_word_eqI) (auto simp: bit_simps high_bit)
  have "bit (Bit_Operations.and (Bit_Operations.or low 0x80) 0x80) 7"
    unfolding low_def low_bits by (simp add: bit_simps high_bit)
  then show "Bit_Operations.and (Bit_Operations.or low 0x80) 0x80 \<noteq> 0"
    by (metis bit_0_eq bot_fun_def bot_bool_def)
qed

lemma number_parts:
  fixes v :: u64
  shows "Bit_Operations.or (push_bit k (Bit_Operations.and v 0x7f)) (push_bit (k + 7) (drop_bit 7 v)) = push_bit k v"
proof -
  have "bit (Bit_Operations.or (push_bit k (take_bit 7 v)) (push_bit (k + 7) (drop_bit 7 v))) n = bit (push_bit k v) n"
    if "n < 64" for n
  proof (cases "n < k + 7")
    case True
    then show ?thesis using that by (auto simp: bit_simps)
  next
    case False
    then have "7 + (n - (k + 7)) = n - k" "\<not> n - k < 7" by arith+
    then show ?thesis using that False by (auto simp: bit_simps)
  qed
  then show ?thesis unfolding low_bits by (intro bit_word_eqI) simp
qed

lemma small_low:
  fixes v :: u64
  assumes "unat v < 2"
  shows "Bit_Operations.and v 0x7f \<le> 1" and "drop_bit 7 v = 0"
proof -
  have "unat v \<le> 1" using assms by simp
  then show "Bit_Operations.and v 0x7f \<le> 1"
    by (metis and.commute less_eq_nat.simps(1) order.trans unat_1 word_and_le1 word_le_nat_alt)
  have "unat (drop_bit 7 v) = 0" using assms by (simp add: unat_drop_bit_eq drop_bit_nat_def)
  then show "drop_bit 7 v = 0" by (simp add: unat_eq_0)
qed

lemma rd_number_from_written:
  "unat v < 2 ^ (64 - shift) \<Longrightarrow> shift \<le> 63 \<Longrightarrow> 7 dvd shift \<Longrightarrow>
    rd_number_from shift acc (wr_number v @ rest) = Inr (Bit_Operations.or acc (push_bit shift v), rest)"
proof (induction v arbitrary: shift acc rule: wr_number.induct)
  case (1 v)
  define low where "low = (ucast (Bit_Operations.and v 0x7f) :: u8)"
  note bits = low_byte [of v, folded low_def]
  have top: "\<not> (shift = 63 \<and> Bit_Operations.and v 0x7f > 1)"
    using 1(2) small_low(1) [of v] by auto
  show ?case
  proof (cases "drop_bit 7 v = 0")
    case True
    have "push_bit shift v = push_bit shift (Bit_Operations.and v 0x7f)"
      using number_parts [of shift v] True by simp
    then show ?thesis
      using 1(3) True top bits(1,2) by (subst wr_number.simps) (simp add: Let_def low_def [symmetric])
  next
    case False
    have "shift \<noteq> 63" using False 1(2) small_low(2) [of v] by auto
    then have shift: "shift + 7 \<le> 63" using 1(3,4) by presburger
    have "unat (drop_bit 7 v) < 2 ^ (64 - (shift + 7))"
    proof -
      have "unat (drop_bit 7 v) = unat v div 2 ^ 7" by (simp add: unat_drop_bit_eq drop_bit_nat_def)
      moreover have "(2::nat) ^ (64 - shift) = 2 ^ (64 - (shift + 7)) * 2 ^ 7"
      proof -
        have "64 - shift = 64 - (shift + 7) + 7" using shift by simp
        then show ?thesis by (metis power_add)
      qed
      ultimately show ?thesis using 1(2) by (simp add: less_mult_imp_div_less)
    qed
    from 1(1) [OF refl refl False this shift, of "Bit_Operations.or acc (push_bit shift (Bit_Operations.and v 0x7f))"]
    have "rd_number_from (shift + 7) (Bit_Operations.or acc (push_bit shift (Bit_Operations.and v 0x7f)))
        (wr_number (drop_bit 7 v) @ rest) = Inr (Bit_Operations.or acc (push_bit shift v), rest)"
      using 1(4) number_parts [of shift v] by (simp add: or.assoc)
    then show ?thesis
      using 1(3) False top bits(3,4) by (subst wr_number.simps) (simp add: Let_def low_def [symmetric])
  qed
qed

subsection \<open>Codecs\<close>

text \<open>
  \<open>grows\<close>: a reader that succeeds does so whatever follows, leaving it unread; so a reader never
  succeeds on a strict prefix of what it reads to the end.
\<close>

definition grows :: "'a reader \<Rightarrow> bool" where
  "grows rd \<longleftrightarrow> (\<forall>bs x rest beyond. rd bs = Inr (x, rest) \<longrightarrow> rd (bs @ beyond) = Inr (x, rest @ beyond))"

named_theorems growing \<open>readers that succeed whatever follows\<close>

named_theorems reads \<open>what is read of the bytes a value is written as\<close>

lemma growsI:
  "(\<And>bs x rest beyond. rd bs = Inr (x, rest) \<Longrightarrow> rd (bs @ beyond) = Inr (x, rest @ beyond)) \<Longrightarrow> grows rd"
  by (simp add: grows_def)

lemma growsD: "grows rd \<Longrightarrow> rd bs = Inr (x, rest) \<Longrightarrow> rd (bs @ beyond) = Inr (x, rest @ beyond)"
  by (simp add: grows_def)

lemma grows_ok [growing]: "grows (rd_ok x)"
  by (simp add: grows_def rd_ok_def)

lemma grows_fail [growing]: "grows (rd_fail e)"
  by (simp add: grows_def rd_fail_def)

lemma grows_then [growing]:
  assumes "grows rd" and "\<And>x. grows (k x)"
  shows "grows (rd_then rd k)"
proof (rule growsI)
  fix bs x rest beyond
  assume "rd_then rd k bs = Inr (x, rest)"
  then obtain y mid where "rd bs = Inr (y, mid)" "k y mid = Inr (x, rest)"
    by (auto simp: rd_then_def split: sum.splits)
  then show "rd_then rd k (bs @ beyond) = Inr (x, rest @ beyond)"
    using growsD [OF assms(1)] growsD [OF assms(2)] by (simp add: rd_then_def)
qed

lemma grows_if [growing]: "grows a \<Longrightarrow> grows b \<Longrightarrow> grows (if c then a else b)"
  by simp

lemma grows_option [growing]: "(\<And>x. grows (f x)) \<Longrightarrow> grows a \<Longrightarrow> grows (case v of None \<Rightarrow> a | Some x \<Rightarrow> f x)"
  by (cases v) simp_all

lemma grows_byte [growing]: "grows rd_byte"
  by (rule growsI) (auto simp: rd_byte_def split: list.splits)

lemma grows_many [growing]: "grows rd \<Longrightarrow> grows (rd_many n rd)"
  by (induction n) (auto intro!: growing)

lemma rd_then_apply [simp]:
  "rd_then rd k bs = (case rd bs of Inl e \<Rightarrow> Inl e | Inr p \<Rightarrow> k (fst p) (snd p))"
  by (simp add: rd_then_def)

lemma rd_ok_apply [simp]: "rd_ok x bs = Inr (x, bs)"
  by (simp add: rd_ok_def)

lemma rd_fail_apply [simp]: "rd_fail e bs = Inl e"
  by (simp add: rd_fail_def)

locale codec =
  fixes ok :: "'a \<Rightarrow> bool" and wr :: "'a \<Rightarrow> bytes" and rd :: "'a reader" and sent :: "'a \<Rightarrow> 'a"
  assumes read_back: "ok x \<Longrightarrow> rd (wr x @ rest) = Inr (sent x, rest)"
    and growing: "grows rd"
begin

lemma read_whole: "ok x \<Longrightarrow> rd_whole rd (wr x) = Inr (sent x)"
  using read_back [of x "[]"] by (simp add: rd_whole_def rd_done_def)

lemma trailing: "ok x \<Longrightarrow> beyond \<noteq> [] \<Longrightarrow> rd_whole rd (wr x @ beyond) = Inl (Trailing (length beyond))"
  using read_back [of x beyond] by (simp add: rd_whole_def rd_done_def)

lemma cut_short:
  assumes "ok x" and "wr x = start @ beyond" and "beyond \<noteq> []"
  shows "\<exists>e. rd_whole rd start = Inl e"
proof (cases "rd start")
  case (Inr p)
  obtain y left where p: "p = (y, left)" by fastforce
  have "rd (wr x) = Inr (y, left @ beyond)" using growsD [OF growing] Inr assms(2) p by simp
  then have "left @ beyond = []" using read_back [OF assms(1), of "[]"] by simp
  then show ?thesis using assms(3) by simp
qed (simp add: rd_whole_def)

lemma many: "list_all ok xs \<Longrightarrow> rd_many (length xs) rd (concat (map wr xs) @ rest) = Inr (map sent xs, rest)"
  by (induction xs) (simp_all add: read_back)

end

subsection \<open>Numbers\<close>

lemma grows_number_from: "rd_number_from shift v bs = Inr (x, rest) \<Longrightarrow> rd_number_from shift v (bs @ beyond) = Inr (x, rest @ beyond)"
  by (induction shift v bs rule: rd_number_from.induct) (auto simp: Let_def split: if_splits)

lemma rd_number_written [reads]: "rd_number (wr_number v @ rest) = Inr (v, rest)"
  using rd_number_from_written [of v 0 0 rest] unsigned_less [where 'b = 64 and 'a = nat, of v] by (simp add: rd_number_def)

interpretation number: codec "\<lambda>_. True" wr_number rd_number "\<lambda>v. v"
  by unfold_locales (simp_all add: reads, simp add: rd_number_def growsI grows_number_from)

lemmas grows_number [growing] = number.growing

lemma rd_flag_written [reads]: "rd_flag (wr_flag b @ rest) = Inr (b, rest)"
  by (simp add: rd_flag_def wr_flag_def wr_byte_def rd_byte_def)

lemma rd_byte_written [reads]: "rd_byte (wr_byte b @ rest) = Inr (b, rest)"
  by (simp add: wr_byte_def rd_byte_def)

lemma grows_flag [growing]: "grows rd_flag"
  unfolding rd_flag_def by (intro growing)

lemma grows_small [growing]: "grows rd_small" and grows_half [growing]: "grows rd_half"
  unfolding rd_small_def rd_half_def by (intro growing)+

lemma sign_spread: "signed_drop_bit 63 v = (if bit v 63 then -1 else 0)" for v :: i64
  by (rule bit_word_eqI) (auto simp: bit_simps Suc_le_eq)

lemma zigzag: "Bit_Operations.xor (drop_bit 1 z) (- (Bit_Operations.and z 1)) = v"
  if "z = Bit_Operations.xor (push_bit 1 v) (signed_drop_bit 63 v)" for v z :: i64
proof (cases "bit v 63")
  case True
  then have z: "z = Bit_Operations.xor (push_bit 1 v) (-1)" using that by (simp add: sign_spread)
  have b: "bit z n \<longleftrightarrow> n < 64 \<and> (n = 0 \<or> \<not> bit v (n - 1))" for n
    unfolding z bit_xor_iff bit_push_bit_iff by (auto simp: bit_simps)
  have "Bit_Operations.and z 1 = 1" by (rule bit_word_eqI) (auto simp: bit_and_iff bit_1_iff b)
  then have "Bit_Operations.xor (drop_bit 1 z) (- (Bit_Operations.and z 1)) = Bit_Operations.xor (drop_bit 1 z) (-1)" by simp
  also have "\<dots> = v"
  proof (rule bit_word_eqI)
    fix n :: nat
    assume "n < LENGTH(64)"
    then consider "n = 63" | "n < 63" by fastforce
    then show "bit (Bit_Operations.xor (drop_bit 1 z) (-1)) n = bit v n"
      using True by cases (auto simp: bit_not_iff bit_drop_bit_eq b)
  qed
  finally show ?thesis .
next
  case False
  then have z: "z = push_bit 1 v" using that by (simp add: sign_spread)
  have b: "bit z n \<longleftrightarrow> n < 64 \<and> n \<noteq> 0 \<and> bit v (n - 1)" for n
    unfolding z bit_push_bit_iff by (auto simp: Suc_le_eq)
  have "Bit_Operations.and z 1 = 0" by (rule bit_word_eqI) (auto simp: bit_and_iff bit_1_iff b)
  then have "Bit_Operations.xor (drop_bit 1 z) (- (Bit_Operations.and z 1)) = drop_bit 1 z" by simp
  also have "\<dots> = v"
  proof (rule bit_word_eqI)
    fix n :: nat
    assume "n < LENGTH(64)"
    then consider "n = 63" | "n < 63" by fastforce
    then show "bit (drop_bit 1 z) n = bit v n"
      using False by cases (auto simp: bit_drop_bit_eq b)
  qed
  finally show ?thesis .
qed

lemma rd_signed_written [reads]: "rd_signed (wr_signed v @ rest) = Inr (v, rest)"
  unfolding rd_signed_def wr_signed_def
  by (simp only: rd_then_apply reads sum.case fst_conv snd_conv zigzag [OF refl] rd_ok_apply)

lemma grows_signed [growing]: "grows rd_signed"
  unfolding rd_signed_def by (intro growing)

lemma unat_small: "unat (ucast v :: u64) = unat v" for v :: u32
  by (simp add: unsigned_ucast_eq take_bit_nat_eq_self unsigned_less [THEN less_trans])

lemma unat_half: "unat (ucast v :: u64) = unat v" for v :: u16
  by (simp add: unsigned_ucast_eq take_bit_nat_eq_self unsigned_less [THEN less_trans])

lemma widened: "ucast (ucast v :: u64) = v" for v :: u32
  by (rule bit_word_eqI) (simp add: bit_simps)

lemma widened_half: "ucast (ucast v :: u64) = v" for v :: u16
  by (rule bit_word_eqI) (simp add: bit_simps)

lemma rd_small_written [reads]: "rd_small (wr_number (ucast (v :: u32)) @ rest) = Inr (v, rest)"
  using unsigned_less [where 'b = 32 and 'a = nat, of v]
  by (simp add: rd_small_def reads word_le_nat_alt unat_small widened)

lemma rd_half_written [reads]: "rd_half (wr_number (ucast (v :: u16)) @ rest) = Inr (v, rest)"
  using unsigned_less [where 'b = 16 and 'a = nat, of v]
  by (simp add: rd_half_def reads word_le_nat_alt unat_half widened_half)

subsection \<open>Counts and byte strings\<close>

definition wr_length :: "nat \<Rightarrow> bytes" where
  "wr_length n = wr_number (if n \<le> u64_max then of_nat n else - 1)"

definition rd_length :: "nat \<Rightarrow> nat reader" where
  "rd_length most = rd_then rd_number (\<lambda>v bs.
     let n = unat v in if n > most \<or> n > length bs then Inl (Overlong n) else Inr (n, bs))"

definition rd_count :: "nat reader" where
  "rd_count bs = rd_length (length bs) bs"

definition rd_count_of :: "nat \<Rightarrow> nat reader" where
  "rd_count_of each_at_least bs = rd_length (length bs div max each_at_least 1) bs"

definition rd_at_most :: "nat \<Rightarrow> nat \<Rightarrow> nat reader" where
  "rd_at_most each_at_least most =
     rd_then (rd_count_of each_at_least) (\<lambda>n. if n > most then rd_fail (Overlong n) else rd_ok n)"

definition rd_fixed :: "nat \<Rightarrow> bytes reader" where
  "rd_fixed n bs = (if n \<le> length bs then Inr (take n bs, drop n bs) else Inl Ended)"

definition wr_bytes :: "bytes \<Rightarrow> bytes" where
  "wr_bytes bs = wr_length (length bs) @ bs"

definition rd_bytes :: "nat \<Rightarrow> bytes reader" where
  "rd_bytes most = rd_then (rd_length most) (\<lambda>n bs. Inr (take n bs, drop n bs))"

definition wr_list :: "('a \<Rightarrow> bytes) \<Rightarrow> 'a list \<Rightarrow> bytes" where
  "wr_list wr xs = wr_length (length xs) @ concat (map wr xs)"

lemma number_nonempty: "1 \<le> length (wr_number v)"
  by (subst wr_number.simps) (simp add: Let_def)

lemma length_nonempty: "1 \<le> length (wr_length n)"
  using number_nonempty by (simp add: wr_length_def)

lemma rd_length_written:
  assumes "n \<le> most" and "n \<le> length rest" and "n \<le> u64_max"
  shows "rd_length most (wr_length n @ rest) = Inr (n, rest)"
proof -
  have "unat (of_nat n :: u64) = n" using assms(3) by (simp add: unsigned_of_nat take_bit_nat_eq_self u64_max_def)
  then show ?thesis using assms by (simp add: rd_length_def wr_length_def reads)
qed

lemma rd_fixed_written [reads]: "length bs = n \<Longrightarrow> rd_fixed n (bs @ rest) = Inr (bs, rest)"
  by (simp add: rd_fixed_def)

lemma rd_bytes_written [reads]:
  "length bs \<le> most \<Longrightarrow> length bs \<le> u64_max \<Longrightarrow> rd_bytes most (wr_bytes bs @ rest) = Inr (bs, rest)"
  by (simp add: rd_bytes_def wr_bytes_def rd_length_written)

lemma rd_length_Inr: "rd_length most bs = Inr (n, rest) \<Longrightarrow>
    rd_number bs = Inr (of_nat n, rest) \<and> unat (of_nat n :: u64) = n \<and> n \<le> most \<and> n \<le> length rest"
  by (auto simp: rd_length_def Let_def split: sum.splits if_splits)

lemma rd_length_grows:
  assumes "rd_length most bs = Inr (n, rest)" and "most \<le> most'"
  shows "rd_length most' (bs @ beyond) = Inr (n, rest @ beyond)"
proof -
  have n: "rd_number bs = Inr (of_nat n, rest)" "unat (of_nat n :: u64) = n" "n \<le> most" "n \<le> length rest"
    using rd_length_Inr [OF assms(1)] by blast+
  show ?thesis using growsD [OF grows_number n(1)] n assms(2) by (simp add: rd_length_def)
qed

lemma grows_length [growing]: "grows (rd_length most)"
  by (rule growsI) (rule rd_length_grows [OF _ order.refl])

lemma grows_count [growing]: "grows rd_count"
  by (rule growsI) (simp add: rd_count_def rd_length_grows)

lemma grows_count_of [growing]: "grows (rd_count_of each)"
  by (rule growsI) (simp add: rd_count_of_def rd_length_grows div_le_mono)

lemma grows_at_most [growing]: "grows (rd_at_most each most)"
  unfolding rd_at_most_def by (intro growing)

lemma grows_fixed [growing]: "grows (rd_fixed n)"
  by (rule growsI) (auto simp: rd_fixed_def split: if_splits)

lemma grows_bytes [growing]: "grows (rd_bytes most)"
proof (rule growsI)
  fix bs x rest beyond
  assume "rd_bytes most bs = Inr (x, rest)"
  then obtain n mid where n: "rd_length most bs = Inr (n, mid)" "x = take n mid" "rest = drop n mid"
    by (auto simp: rd_bytes_def split: sum.splits)
  have "rd_length most (bs @ beyond) = Inr (n, mid @ beyond)" "n \<le> length mid"
    using growsD [OF grows_length n(1)] rd_length_Inr [OF n(1)] by simp_all
  then show "rd_bytes most (bs @ beyond) = Inr (x, rest @ beyond)" using n by (simp add: rd_bytes_def)
qed

text \<open>
  A count is refused where the bytes left could not hold so many entries, so whatever a frame
  claims, no list is made longer than the frame itself.
\<close>

lemma count_bounded: "rd_count_of each bs = Inr (n, rest) \<Longrightarrow> n * max each 1 \<le> length bs \<and> n \<le> length rest"
proof -
  assume "rd_count_of each bs = Inr (n, rest)"
  then have n: "n \<le> length bs div max each 1" "n \<le> length rest"
    unfolding rd_count_of_def using rd_length_Inr by blast+
  then have "n * max each 1 \<le> length bs div max each 1 * max each 1" by (intro mult_le_mono1)
  also have "\<dots> \<le> length bs" by simp
  finally show ?thesis using n by simp
qed

locale sized_codec = codec +
  fixes least :: nat
  assumes long_enough: "ok x \<Longrightarrow> least \<le> length (wr x)"
begin

lemma all_long_enough: "list_all ok xs \<Longrightarrow> least * length xs \<le> length (concat (map wr xs))"
  by (induction xs) (auto dest!: long_enough)

lemma count_written:
  assumes "list_all ok xs" and "length xs \<le> u64_max" and "each \<le> least" and "0 < least"
  shows "rd_count_of each (wr_length (length xs) @ concat (map wr xs) @ rest) =
    Inr (length xs, concat (map wr xs) @ rest)"
proof -
  let ?body = "concat (map wr xs) @ rest"
  have "max each 1 \<le> least" using assms(3,4) by simp
  then have "max each 1 * length xs \<le> length (concat (map wr xs))"
    using all_long_enough [OF assms(1)] by (meson mult_le_mono1 order.trans)
  then have each: "max each 1 * length xs \<le> length ?body" by simp
  have "1 * length xs \<le> max each 1 * length xs" by (rule mult_le_mono1) simp
  then have body: "length xs * max each 1 \<le> length ?body" "length xs \<le> length ?body"
    using each by (simp_all only: mult.commute mult_1 mult_1_right order.trans)
  then have "length xs \<le> length (wr_length (length xs) @ ?body) div max each 1"
    by (simp add: less_eq_div_iff_mult_less_eq)
  then show ?thesis using body(2) assms(2) by (simp add: rd_count_of_def rd_length_written)
qed

lemma list_read_back:
  assumes "list_all ok xs" and "length xs \<le> u64_max" and "each \<le> least" and "0 < least"
  shows "rd_then (rd_count_of each) (\<lambda>n. rd_many n rd) (wr_list wr xs @ rest) = Inr (map sent xs, rest)"
  using count_written [OF assms] many [OF assms(1)] by (simp add: wr_list_def)

lemma counted_read_back:
  assumes "list_all ok xs" and "length xs \<le> u64_max" and "0 < least"
  shows "rd_then rd_count (\<lambda>n. rd_many n rd) (wr_list wr xs @ rest) = Inr (map sent xs, rest)"
  using list_read_back [OF assms(1,2) _ assms(3), of 0 rest] by (simp add: rd_count_def rd_count_of_def)

lemma at_most_read_back:
  assumes "list_all ok xs" and "length xs \<le> u64_max" and "each \<le> least" and "0 < least" and "length xs \<le> most"
  shows "rd_then (rd_at_most each most) (\<lambda>n. rd_many n rd) (wr_list wr xs @ rest) = Inr (map sent xs, rest)"
  using count_written [OF assms(1-4)] many [OF assms(1)] assms(5) by (simp add: rd_at_most_def wr_list_def)

end

subsection \<open>Texts\<close>

text \<open>
  The well-formed UTF-8 byte strings, by the first byte of each character: how many bytes follow
  it, and between what the first of them lies (\<open>str::from_utf8\<close> of the standard library).
\<close>

definition lead :: "u8 \<Rightarrow> (nat \<times> u8 \<times> u8) option" where
  "lead b =
     (if b < 0x80 then Some (0, 0x80, 0xBF)
      else if 0xC2 \<le> b \<and> b \<le> 0xDF then Some (1, 0x80, 0xBF)
      else if b = 0xE0 then Some (2, 0xA0, 0xBF)
      else if b = 0xED then Some (2, 0x80, 0x9F)
      else if 0xE1 \<le> b \<and> b \<le> 0xEF then Some (2, 0x80, 0xBF)
      else if b = 0xF0 then Some (3, 0x90, 0xBF)
      else if 0xF1 \<le> b \<and> b \<le> 0xF3 then Some (3, 0x80, 0xBF)
      else if b = 0xF4 then Some (3, 0x80, 0x8F)
      else None)"

definition continues :: "u8 \<Rightarrow> bool" where
  "continues b \<longleftrightarrow> 0x80 \<le> b \<and> b \<le> 0xBF"

definition follows_lead :: "nat \<times> u8 \<times> u8 \<Rightarrow> bytes \<Rightarrow> bool" where
  "follows_lead l bs = (case l of (n, lo, hi) \<Rightarrow>
     n \<le> length bs \<and> list_all continues (take n bs) \<and>
     (case bs of c # _ \<Rightarrow> n = 0 \<or> lo \<le> c \<and> c \<le> hi | [] \<Rightarrow> True))"

function utf8 :: "bytes \<Rightarrow> bool" where
  "utf8 [] = True"
| "utf8 (b # bs) = (case lead b of None \<Rightarrow> False
     | Some l \<Rightarrow> follows_lead l bs \<and> utf8 (drop (fst l) bs))"
  by pat_completeness auto
termination
  by (relation "measure length") auto

definition char_boundary :: "bytes \<Rightarrow> nat \<Rightarrow> bool" where
  "char_boundary t i \<longleftrightarrow> i = 0 \<or> i = length t \<or> (i < length t \<and> \<not> continues (t ! i))"

fun floor_boundary :: "bytes \<Rightarrow> nat \<Rightarrow> nat" where
  "floor_boundary t 0 = 0"
| "floor_boundary t (Suc i) = (if char_boundary t (Suc i) then Suc i else floor_boundary t i)"

definition floor_char_boundary :: "bytes \<Rightarrow> nat \<Rightarrow> nat" where
  "floor_char_boundary t i = (if length t \<le> i then length t else floor_boundary t i)"

definition clipped :: "nat \<Rightarrow> bytes \<Rightarrow> bytes" where
  "clipped most t = take (floor_char_boundary t most) t"

definition longest_text :: nat where
  "longest_text = 4096"

definition within_the_longest_text :: "bytes \<Rightarrow> bytes" where
  "within_the_longest_text t = clipped longest_text t"

definition wr_text :: "bytes \<Rightarrow> bytes" where
  "wr_text t = wr_bytes (within_the_longest_text t)"

definition from_utf8 :: "bytes \<Rightarrow> bytes reader" where
  "from_utf8 bs = (if utf8 bs then rd_ok bs else rd_fail NotText)"

definition rd_string :: "nat \<Rightarrow> bytes reader" where
  "rd_string most = rd_then (rd_bytes most) from_utf8"

definition rd_text :: "bytes reader" where
  "rd_text = rd_string longest_text"

lemma floor_boundary_ok: "char_boundary t (floor_boundary t i)" and floor_boundary_le: "floor_boundary t i \<le> i"
  by (induction i) (auto simp: char_boundary_def)

lemma floor_char_boundary_ok: "char_boundary t (floor_char_boundary t i)"
  using floor_boundary_ok by (simp add: floor_char_boundary_def char_boundary_def)

lemma clipped_length: "length (clipped most t) \<le> most"
  using floor_boundary_le [of t most] by (auto simp: clipped_def floor_char_boundary_def)

lemma clipped_short: "length t \<le> most \<Longrightarrow> clipped most t = t"
  by (simp add: clipped_def floor_char_boundary_def)

lemma clipped_idem [simp]: "clipped most (clipped most t) = clipped most t"
  by (rule clipped_short) (rule clipped_length)

lemma clipped_prefix: "\<exists>cut. t = clipped most t @ cut"
  unfolding clipped_def by (rule exI [of _ "drop (floor_char_boundary t most) t"]) simp

text \<open>A text cut at a character boundary is a text.\<close>

lemma utf8_take: "utf8 t \<Longrightarrow> char_boundary t i \<Longrightarrow> utf8 (take i t)"
proof (induction t arbitrary: i rule: utf8.induct)
  case (2 b bs)
  then obtain n lo hi where l: "lead b = Some (n, lo, hi)" "follows_lead (n, lo, hi) bs" "utf8 (drop n bs)"
    by (auto split: option.splits)
  have n: "n \<le> length bs" "list_all continues (take n bs)" using l(2) by (auto simp: follows_lead_def)
  show ?case
  proof (cases i)
    case (Suc k)
    have "\<not> k < n"
    proof
      assume k: "k < n"
      then have "continues (bs ! k)" using n by (auto simp: list_all_length)
      then show False using "2.prems"(2) Suc k n(1) by (simp add: char_boundary_def)
    qed
    then have nk: "n \<le> k" by simp
    have "char_boundary (drop n bs) (k - n)"
      using "2.prems"(2) Suc nk n(1) by (auto simp: char_boundary_def)
    then have rest: "utf8 (take (k - n) (drop n bs))" using "2.IH" [OF l(1)] l(3) by simp
    have "follows_lead (n, lo, hi) (take k bs)"
    proof -
      have "take n (take k bs) = take n bs" "n \<le> length (take k bs)" using nk n(1) by simp_all
      moreover have "(case take k bs of c # _ \<Rightarrow> n = 0 \<or> lo \<le> c \<and> c \<le> hi | [] \<Rightarrow> True)"
        using l(2) nk by (cases bs; cases k) (auto simp: follows_lead_def)
      ultimately show ?thesis using n(2) by (simp add: follows_lead_def)
    qed
    then show ?thesis using l(1) rest Suc nk by (simp add: drop_take)
  qed simp
qed simp

lemma utf8_clipped [simp]: "utf8 t \<Longrightarrow> utf8 (clipped most t)"
  unfolding clipped_def by (rule utf8_take [OF _ floor_char_boundary_ok])

lemma ascii_utf8: "list_all (\<lambda>b. b < 0x80) t \<Longrightarrow> utf8 t"
  by (induction t) (auto simp: lead_def follows_lead_def split: list.split)

lemma rd_string_written [reads]:
  assumes "utf8 t" and "most \<le> u64_max"
  shows "rd_string most (wr_bytes (clipped most t) @ rest) = Inr (clipped most t, rest)"
proof -
  have "length (clipped most t) \<le> u64_max" using clipped_length assms(2) order.trans by blast
  then show ?thesis using assms clipped_length [of most t] by (simp add: rd_string_def reads from_utf8_def)
qed

lemma rd_string_ascii:
  assumes "list_all (\<lambda>b. b < 0x80) bs" and "length bs \<le> most" and "most \<le> u64_max"
  shows "rd_string most (wr_bytes bs @ rest) = Inr (bs, rest)"
  using rd_string_written [OF ascii_utf8 [OF assms(1)] assms(3), of rest] clipped_short [OF assms(2)] by simp

lemma grows_utf8 [growing]: "grows (from_utf8 bs)"
  unfolding from_utf8_def by (intro growing)

lemma grows_string [growing]: "grows (rd_string most)"
  unfolding rd_string_def by (intro growing)

interpretation texts: sized_codec utf8 wr_text rd_text within_the_longest_text 1
proof
  show "rd_text (wr_text t @ rest) = Inr (within_the_longest_text t, rest)" if "utf8 t" for t rest
    using rd_string_written [OF that, of longest_text rest]
    by (simp add: rd_text_def wr_text_def within_the_longest_text_def longest_text_def u64_max_def)
  show "grows rd_text" unfolding rd_text_def by (intro growing)
  show "1 \<le> length (wr_text t)" for t
    using length_nonempty by (simp add: wr_text_def wr_bytes_def trans_le_add1)
qed

lemmas rd_text_written [reads] = texts.read_back

lemmas grows_text [growing] = texts.growing

subsection \<open>What may be absent\<close>

definition wr_option :: "('a \<Rightarrow> bytes) \<Rightarrow> 'a option \<Rightarrow> bytes" where
  "wr_option wr v = (case v of Some x \<Rightarrow> wr_flag True @ wr x | None \<Rightarrow> wr_flag False)"

definition rd_option :: "'a reader \<Rightarrow> 'a option reader" where
  "rd_option rd = rd_then rd_flag (\<lambda>there. if there then rd_then rd (\<lambda>x. rd_ok (Some x)) else rd_ok None)"

lemma grows_optional [growing]: "grows rd \<Longrightarrow> grows (rd_option rd)"
  unfolding rd_option_def by (intro growing)

lemma option_nonempty: "1 \<le> length (wr_option wr v)"
  by (simp add: wr_option_def wr_flag_def wr_byte_def split: option.split)

context codec
begin

lemma option_read_back: "pred_option ok v \<Longrightarrow> rd_option rd (wr_option wr v @ rest) = Inr (map_option sent v, rest)"
  by (cases v) (simp_all add: rd_option_def wr_option_def reads read_back)

end

definition wr_optional_text :: "bytes option \<Rightarrow> bytes" where
  "wr_optional_text = wr_option wr_text"

definition rd_optional_text :: "bytes option reader" where
  "rd_optional_text = rd_option rd_text"

definition wr_optional_number :: "u32 option \<Rightarrow> bytes" where
  "wr_optional_number = wr_option (\<lambda>v. wr_number (ucast v))"

definition rd_optional_number :: "u32 option reader" where
  "rd_optional_number = rd_option rd_small"

definition wr_optional_byte :: "u8 option \<Rightarrow> bytes" where
  "wr_optional_byte v = wr_optional_number (map_option ucast v)"

definition rd_optional_byte :: "u8 option reader" where
  "rd_optional_byte = rd_then rd_optional_number (\<lambda>v. case v of None \<Rightarrow> rd_ok None
     | Some n \<Rightarrow> if n \<le> 0xff then rd_ok (Some (ucast n)) else rd_fail BadNumber)"

interpretation smalls: sized_codec "\<lambda>_. True" "\<lambda>v. wr_number (ucast (v :: u32))" rd_small "\<lambda>v. v" 1
  using number_nonempty by unfold_locales (simp_all add: reads growing)

lemma rd_optional_text_written [reads]:
  "pred_option utf8 v \<Longrightarrow> rd_optional_text (wr_optional_text v @ rest) = Inr (map_option within_the_longest_text v, rest)"
  by (simp add: rd_optional_text_def wr_optional_text_def texts.option_read_back)

lemma rd_optional_number_written [reads]: "rd_optional_number (wr_optional_number v @ rest) = Inr (v, rest)"
  using smalls.option_read_back [of v rest]
  by (simp add: rd_optional_number_def wr_optional_number_def pred_option_def option.map_ident)

lemma widened_byte: "ucast (ucast v :: u32) = v" "unat (ucast v :: u32) = unat v" for v :: u8
proof -
  show "ucast (ucast v :: u32) = v" by (rule bit_word_eqI) (simp add: bit_simps)
  show "unat (ucast v :: u32) = unat v"
    by (simp add: unsigned_ucast_eq take_bit_nat_eq_self unsigned_less [THEN less_trans])
qed

lemma rd_optional_byte_written [reads]: "rd_optional_byte (wr_optional_byte v @ rest) = Inr (v, rest)"
  using unsigned_less [where 'b = 8 and 'a = nat, of "the v"]
  by (cases v) (simp_all add: rd_optional_byte_def wr_optional_byte_def reads word_le_nat_alt widened_byte less_Suc_eq_le)

lemma grows_optionals [growing]: "grows rd_optional_text" "grows rd_optional_number" "grows rd_optional_byte"
  unfolding rd_optional_text_def rd_optional_number_def rd_optional_byte_def by (intro growing)+

subsection \<open>Durations, addresses, devices and stamps\<close>

definition as_millis :: "duration \<Rightarrow> nat" where
  "as_millis d = dur_secs d * 1000 + dur_nanos d div 1000000"

definition from_millis :: "u64 \<Rightarrow> duration" where
  "from_millis ms = \<lparr>dur_secs = unat ms div 1000, dur_nanos = unat ms mod 1000 * 1000000\<rparr>"

definition wr_duration :: "duration \<Rightarrow> bytes" where
  "wr_duration d = wr_number (if as_millis d \<le> u64_max then of_nat (as_millis d) else - 1)"

definition rd_duration :: "duration reader" where
  "rd_duration = rd_then rd_number (\<lambda>ms. rd_ok (from_millis ms))"

definition in_millis :: "duration \<Rightarrow> duration" where
  "in_millis d = from_millis (if as_millis d \<le> u64_max then of_nat (as_millis d) else - 1)"

lemma in_millis_eq:
  assumes "as_millis d \<le> u64_max" and "dur_nanos d < nanos_per_second"
  shows "dur_secs (in_millis d) = dur_secs d \<and> dur_nanos (in_millis d) = dur_nanos d div 1000000 * 1000000"
proof -
  have "dur_nanos d div 1000000 < 1000" using assms(2) by (simp add: nanos_per_second_def less_mult_imp_div_less)
  moreover have "unat (of_nat (as_millis d) :: u64) = as_millis d"
    using assms(1) by (simp add: unsigned_of_nat take_bit_nat_eq_self u64_max_def)
  ultimately show ?thesis using assms(1) by (simp add: in_millis_def from_millis_def as_millis_def)
qed

datatype ip_addr = V4 bytes | V6 bytes

record socket_addr =
  sa_ip :: ip_addr
  sa_port :: u16

fun ip_ok :: "ip_addr \<Rightarrow> bool" where
  "ip_ok (V4 octets) \<longleftrightarrow> length octets = 4"
| "ip_ok (V6 octets) \<longleftrightarrow> length octets = 16"

fun wr_ip :: "ip_addr \<Rightarrow> bytes" where
  "wr_ip (V4 octets) = wr_byte 4 @ octets"
| "wr_ip (V6 octets) = wr_byte 6 @ octets"

definition rd_ip :: "ip_addr reader" where
  "rd_ip = rd_then rd_byte (\<lambda>tag.
     if tag = 4 then rd_then (rd_fixed 4) (\<lambda>octets. rd_ok (V4 octets))
     else if tag = 6 then rd_then (rd_fixed 16) (\<lambda>octets. rd_ok (V6 octets))
     else rd_fail (BadTag tag))"

definition wr_address :: "socket_addr \<Rightarrow> bytes" where
  "wr_address a = wr_ip (sa_ip a) @ wr_number (ucast (sa_port a))"

definition rd_address :: "socket_addr reader" where
  "rd_address = rd_then rd_ip (\<lambda>ip. rd_then rd_half (\<lambda>port. rd_ok \<lparr>sa_ip = ip, sa_port = port\<rparr>))"

definition device_bytes :: nat where
  "device_bytes = 16"

type_synonym device_id = bytes

definition rd_device :: "device_id reader" where
  "rd_device = rd_fixed device_bytes"

record stamp_time =
  ts_nanos :: i64
  ts_device :: device_id

definition wr_stamp :: "stamp_time \<Rightarrow> bytes" where
  "wr_stamp s = wr_signed (ts_nanos s) @ ts_device s"

definition rd_stamp :: "stamp_time reader" where
  "rd_stamp = rd_then rd_signed (\<lambda>nanos. rd_then rd_device (\<lambda>device.
     rd_ok \<lparr>ts_nanos = nanos, ts_device = device\<rparr>))"

definition device_ok :: "device_id \<Rightarrow> bool" where
  "device_ok d \<longleftrightarrow> length d = device_bytes"

definition stamp_ok :: "stamp_time \<Rightarrow> bool" where
  "stamp_ok s \<longleftrightarrow> device_ok (ts_device s)"

interpretation durations: sized_codec "\<lambda>_. True" wr_duration rd_duration in_millis 1
  using number_nonempty
  by unfold_locales (simp_all add: rd_duration_def wr_duration_def in_millis_def reads growing)

interpretation ips: sized_codec ip_ok wr_ip rd_ip "\<lambda>ip. ip" 5
proof
  show "rd_ip (wr_ip ip @ rest) = Inr (ip, rest)" if "ip_ok ip" for ip rest
    using that by (cases ip) (simp_all add: rd_ip_def reads)
  show "grows rd_ip" unfolding rd_ip_def by (intro growing)
  show "5 \<le> length (wr_ip ip)" if "ip_ok ip" for ip
    using that by (cases ip) (simp_all add: wr_byte_def)
qed

lemmas plain_reads [reads] = durations.read_back [OF TrueI] ips.read_back

lemmas plain_growing [growing] = durations.growing ips.growing

interpretation addresses: sized_codec "\<lambda>a. ip_ok (sa_ip a)" wr_address rd_address "\<lambda>a. a" 6
proof
  show "rd_address (wr_address a @ rest) = Inr (a, rest)" if "ip_ok (sa_ip a)" for a rest
    using that by (simp add: rd_address_def wr_address_def reads)
  show "grows rd_address" unfolding rd_address_def by (intro growing)
  show "6 \<le> length (wr_address a)" if "ip_ok (sa_ip a)" for a
    using add_mono [OF ips.long_enough [OF that] number_nonempty [of "ucast (sa_port a)"]] by (simp add: wr_address_def)
qed

interpretation devices: sized_codec device_ok "\<lambda>d. d" rd_device "\<lambda>d. d" device_bytes
  by unfold_locales (auto simp: rd_device_def device_ok_def reads growing)

lemmas device_reads [reads] = devices.read_back

lemmas device_growing [growing] = devices.growing

interpretation stamps: codec stamp_ok wr_stamp rd_stamp "\<lambda>s. s"
proof
  show "rd_stamp (wr_stamp s @ rest) = Inr (s, rest)" if "stamp_ok s" for s rest
    using that by (simp add: rd_stamp_def wr_stamp_def stamp_ok_def reads)
  show "grows rd_stamp" unfolding rd_stamp_def by (intro growing)
qed

lemmas address_reads [reads] = addresses.read_back stamps.read_back

lemmas address_growing [growing] = addresses.growing stamps.growing

end
