(* ===== verification/Links.thy ===== *)
theory Links
  imports Wire
begin

text \<open>
  Links out of a release or a track (\<open>crates/resonate-core/src/link.rs\<close>), MusicBrainz ids
  (\<open>identity.rs\<close>) and fingerprints (\<open>print.rs\<close>). Everything these functions look for is ASCII,
  so they are modelled on the bytes of the texts: a byte below 0x80 in a UTF-8 text is always a
  character of its own.
\<close>

definition ascii :: "string \<Rightarrow> bytes" where
  "ascii cs = map of_char cs"

definition is_upper :: "u8 \<Rightarrow> bool" where
  "is_upper b \<longleftrightarrow> 0x41 \<le> b \<and> b \<le> 0x5A"

definition to_lower :: "u8 \<Rightarrow> u8" where
  "to_lower b = (if is_upper b then b + 0x20 else b)"

definition lowered :: "bytes \<Rightarrow> bytes" where
  "lowered bs = map to_lower bs"

definition is_digit :: "u8 \<Rightarrow> bool" where
  "is_digit b \<longleftrightarrow> 0x30 \<le> b \<and> b \<le> 0x39"

definition is_hexdigit :: "u8 \<Rightarrow> bool" where
  "is_hexdigit b \<longleftrightarrow> is_digit b \<or> (0x41 \<le> b \<and> b \<le> 0x46) \<or> (0x61 \<le> b \<and> b \<le> 0x66)"

definition is_alphanumeric :: "u8 \<Rightarrow> bool" where
  "is_alphanumeric b \<longleftrightarrow> is_digit b \<or> is_upper b \<or> (0x61 \<le> b \<and> b \<le> 0x7A)"

text \<open>\<open>split\<close>, \<open>split_once\<close>, \<open>rsplit_once\<close>, \<open>strip_prefix\<close> and \<open>strip_suffix\<close> of the standard library.\<close>

fun split_where :: "(u8 \<Rightarrow> bool) \<Rightarrow> bytes \<Rightarrow> bytes list" where
  "split_where P [] = [[]]"
| "split_where P (b # bs) =
     (if P b then [] # split_where P bs
      else case split_where P bs of [] \<Rightarrow> [[b]] | part # parts \<Rightarrow> (b # part) # parts)"

fun strip_prefix :: "bytes \<Rightarrow> bytes \<Rightarrow> bytes option" where
  "strip_prefix [] bs = Some bs"
| "strip_prefix (p # ps) [] = None"
| "strip_prefix (p # ps) (b # bs) = (if p = b then strip_prefix ps bs else None)"

definition strip_suffix :: "bytes \<Rightarrow> bytes \<Rightarrow> bytes option" where
  "strip_suffix suffix bs = map_option rev (strip_prefix (rev suffix) (rev bs))"

fun split_once :: "bytes \<Rightarrow> bytes \<Rightarrow> (bytes \<times> bytes) option" where
  "split_once sep [] = (case strip_prefix sep [] of Some rest \<Rightarrow> Some ([], rest) | None \<Rightarrow> None)"
| "split_once sep (b # bs) = (case strip_prefix sep (b # bs) of
     Some rest \<Rightarrow> Some ([], rest)
   | None \<Rightarrow> map_option (\<lambda>(before, rest). (b # before, rest)) (split_once sep bs))"

definition rsplit_once :: "u8 \<Rightarrow> bytes \<Rightarrow> (bytes \<times> bytes) option" where
  "rsplit_once sep bs = map_option (\<lambda>(before, rest). (rev rest, rev before)) (split_once [sep] (rev bs))"

subsection \<open>MusicBrainz ids\<close>

definition mbid_groups :: "nat list" where
  "mbid_groups = [8, 4, 4, 4, 12]"

fun mbid_read :: "nat list \<Rightarrow> bytes list \<Rightarrow> bytes \<Rightarrow> bytes option" where
  "mbid_read [] groups low = (if groups = [] then Some low else None)"
| "mbid_read (n # ns) [] low = None"
| "mbid_read (n # ns) (g # gs) low =
     (if length g \<noteq> n \<or> \<not> list_all is_hexdigit g then None
      else mbid_read ns gs ((if low = [] then low else low @ [0x2D]) @ lowered g))"

definition mbid_new :: "bytes \<Rightarrow> bytes option" where
  "mbid_new t = (if length t \<noteq> 36 then None
     else mbid_read mbid_groups (split_where (\<lambda>b. b = 0x2D) t) [])"

definition mbid_ok :: "bytes \<Rightarrow> bool" where
  "mbid_ok m \<longleftrightarrow> mbid_new m = Some m"

subsection \<open>Fingerprints\<close>

definition url_safe :: "u8 \<Rightarrow> bool" where
  "url_safe b \<longleftrightarrow> is_alphanumeric b \<or> b = 0x2D \<or> b = 0x5F"

record chromaprint =
  cp_encoded :: bytes
  cp_length :: duration

definition chromaprint_new :: "bytes \<Rightarrow> duration \<Rightarrow> chromaprint option" where
  "chromaprint_new encoded d =
     (if encoded = [] \<or> \<not> list_all url_safe encoded then None
      else Some \<lparr>cp_encoded = encoded, cp_length = d\<rparr>)"

subsection \<open>Relations and services\<close>

datatype relation =
  Streaming | FreeStreaming | PurchaseForDownload | PurchaseForMailOrder | Homepage
| RelWikipedia | RelWikidata | RelDiscogs | RelAllMusic | Image | SocialNetwork | RelLyrics
| RelYoutube | RelYoutubeMusic | RelSoundcloud | RelBandcamp | RelLastFm | RelOther

definition relation_types :: "(bytes \<times> relation) list" where
  "relation_types =
     [(ascii ''streaming'', Streaming),
      (ascii ''free streaming'', FreeStreaming),
      (ascii ''purchase for download'', PurchaseForDownload),
      (ascii ''purchase for mail-order'', PurchaseForMailOrder),
      (ascii ''official homepage'', Homepage),
      (ascii ''wikipedia'', RelWikipedia),
      (ascii ''wikidata'', RelWikidata),
      (ascii ''discogs'', RelDiscogs),
      (ascii ''allmusic'', RelAllMusic),
      (ascii ''image'', Image),
      (ascii ''social network'', SocialNetwork),
      (ascii ''lyrics'', RelLyrics),
      (ascii ''youtube'', RelYoutube),
      (ascii ''youtube music'', RelYoutubeMusic),
      (ascii ''soundcloud'', RelSoundcloud),
      (ascii ''bandcamp'', RelBandcamp),
      (ascii ''last.fm'', RelLastFm)]"

definition of_type :: "bytes \<Rightarrow> relation" where
  "of_type kind = (case find (\<lambda>(named, _). named = kind) relation_types of
     Some (_, r) \<Rightarrow> r | None \<Rightarrow> RelOther)"

definition spelled :: "relation \<Rightarrow> bytes" where
  "spelled r = (case find (\<lambda>(_, r'). r' = r) relation_types of Some (named, _) \<Rightarrow> named | None \<Rightarrow> [])"

datatype service =
  Spotify | Tidal | AppleMusic | Deezer | Qobuz | AmazonMusic | Youtube | YoutubeMusic | Bandcamp
| Soundcloud | Beatport | SevenDigital | Discogs | Wikipedia | Wikidata | AllMusic | LastFm
| WikimediaCommons | Facebook | Instagram | Twitter | OtherService

definition hosts :: "(bytes \<times> service) list" where
  "hosts =
     [(ascii ''spotify.com'', Spotify), (ascii ''tidal.com'', Tidal),
      (ascii ''music.apple.com'', AppleMusic), (ascii ''itunes.apple.com'', AppleMusic),
      (ascii ''deezer.com'', Deezer), (ascii ''qobuz.com'', Qobuz),
      (ascii ''music.youtube.com'', YoutubeMusic), (ascii ''youtube.com'', Youtube),
      (ascii ''youtu.be'', Youtube), (ascii ''bandcamp.com'', Bandcamp),
      (ascii ''soundcloud.com'', Soundcloud), (ascii ''beatport.com'', Beatport),
      (ascii ''7digital.com'', SevenDigital), (ascii ''discogs.com'', Discogs),
      (ascii ''wikipedia.org'', Wikipedia), (ascii ''wikidata.org'', Wikidata),
      (ascii ''allmusic.com'', AllMusic), (ascii ''last.fm'', LastFm),
      (ascii ''commons.wikimedia.org'', WikimediaCommons), (ascii ''facebook.com'', Facebook),
      (ascii ''instagram.com'', Instagram)]"

definition twitter_hosts :: "bytes list" where
  "twitter_hosts = [ascii ''twitter.com'', ascii ''x.com'']"

definition schemes :: "bytes list" where
  "schemes = [ascii ''https'', ascii ''http'']"

definition first_part :: "(u8 \<Rightarrow> bool) \<Rightarrow> bytes \<Rightarrow> bytes" where
  "first_part P bs = (case split_where P bs of [] \<Rightarrow> [] | part # _ \<Rightarrow> part)"

definition host_of :: "bytes \<Rightarrow> bytes option" where
  "host_of url = (case split_once (ascii ''://'') url of
     None \<Rightarrow> None
   | Some (scheme, after_scheme) \<Rightarrow>
       if \<not> list_ex (\<lambda>known. lowered scheme = known) schemes then None
       else
         let authority = first_part (\<lambda>b. b \<in> set (ascii ''/?#'')) after_scheme
         in if 0x5C \<in> set authority then None
            else
              let host = (case rsplit_once 0x40 authority of None \<Rightarrow> authority | Some (_, host) \<Rightarrow> host);
                  host = first_part (\<lambda>b. b = 0x3A) host
              in if host = [] then None
                 else Some (case strip_prefix (ascii ''www.'') (lowered host) of
                     None \<Rightarrow> lowered host | Some bare \<Rightarrow> bare))"

definition under :: "bytes \<Rightarrow> bytes \<Rightarrow> bool" where
  "under host named = (case strip_suffix named host of
     None \<Rightarrow> False | Some before \<Rightarrow> before = [] \<or> last before = 0x2E)"

definition of_url :: "bytes \<Rightarrow> service" where
  "of_url url = (case host_of url of
     None \<Rightarrow> OtherService
   | Some host \<Rightarrow>
       (case find (\<lambda>(named, _). under host named) hosts of
          Some (_, s) \<Rightarrow> s
        | None \<Rightarrow>
            if list_ex (under host) twitter_hosts then Twitter
            else if list_ex (\<lambda>label. label = ascii ''amazon'') (split_where (\<lambda>b. b = 0x2E) host)
                 then AmazonMusic
            else OtherService))"

record link =
  lk_relation :: relation
  lk_service :: service
  lk_url :: bytes

definition link_new :: "bytes \<Rightarrow> bytes \<Rightarrow> link" where
  "link_new kind url = \<lparr>lk_relation = of_type kind, lk_service = of_url url, lk_url = url\<rparr>"

subsection \<open>Reading an id back\<close>

lemma unat_to_lower: "unat (to_lower b) = (if 65 \<le> unat b \<and> unat b \<le> 90 then unat b + 32 else unat b)"
proof -
  have "unat (b + 0x20) = unat b + 32" if "unat b \<le> 90"
    using that by (simp add: unat_word_ariths)
  then show ?thesis by (simp add: to_lower_def is_upper_def word_le_nat_alt)
qed

lemmas byte_ranges =
  is_upper_def is_digit_def is_hexdigit_def is_alphanumeric_def url_safe_def word_le_nat_alt word_less_nat_alt unat_to_lower
  word_unat_eq_iff

lemma lowered_idem [simp]: "lowered (lowered bs) = lowered bs"
proof -
  have "to_lower (to_lower b) = to_lower b" for b
    by (simp add: word_unat_eq_iff unat_to_lower)
  then show ?thesis by (simp add: lowered_def)
qed

lemma hexdigit_lower: "is_hexdigit b \<Longrightarrow> is_hexdigit (to_lower b) \<and> to_lower b \<noteq> 0x2D \<and> to_lower b < 0x80"
  by (simp add: byte_ranges) arith

lemma url_safe_ascii: "url_safe b \<Longrightarrow> b < 0x80"
  by (simp add: byte_ranges) arith

lemma length_lowered [simp]: "length (lowered bs) = length bs"
  by (simp add: lowered_def)

lemma mbid_read_onto:
  "low \<noteq> [] \<Longrightarrow> mbid_read ns gs low = Some m \<longleftrightarrow>
     map length gs = ns \<and> list_all (list_all is_hexdigit) gs \<and> m = low @ concat (map (\<lambda>g. 0x2D # lowered g) gs)"
  by (induction ns gs low rule: mbid_read.induct) auto

lemma split_plain: "\<forall>b\<in>set g. \<not> P b \<Longrightarrow> split_where P g = [g]"
  by (induction g) auto

lemma split_join:
  "\<forall>b\<in>set g. \<not> P b \<Longrightarrow> P d \<Longrightarrow> split_where P (g @ d # rest) = g # split_where P rest"
  by (induction g) auto

lemma split_dashed:
  "\<forall>g\<in>set (g # gs). \<forall>b\<in>set g. b \<noteq> d \<Longrightarrow>
    split_where (\<lambda>b. b = d) (g @ concat (map (\<lambda>g. d # g) gs)) = g # gs"
proof (induction gs arbitrary: g)
  case Nil
  then show ?case by (simp add: split_plain)
next
  case (Cons h gs)
  then show ?case by (simp add: split_join)
qed

lemma split_nonempty: "split_where P bs \<noteq> []"
  by (induction bs) (auto split: list.split)

text \<open>An id, however it was written, is read as the id it is; and reads back as itself.\<close>

lemma mbid_new_parts:
  assumes "mbid_new t = Some m"
  obtains g gs where "map length (g # gs) = mbid_groups" "list_all (list_all is_hexdigit) (g # gs)"
    "m = lowered g @ concat (map (\<lambda>g. 0x2D # lowered g) gs)"
proof -
  obtain g gs where split: "split_where (\<lambda>b. b = 0x2D) t = g # gs"
    using split_nonempty by (meson neq_Nil_conv)
  have r: "mbid_read mbid_groups (g # gs) [] = Some m" using assms split by (auto simp: mbid_new_def split: if_splits)
  then have g: "length g = 8" "list_all is_hexdigit g" "mbid_read [4, 4, 4, 12] gs (lowered g) = Some m"
    by (auto simp: mbid_groups_def split: if_splits)
  then have "lowered g \<noteq> []" by (metis length_lowered list.size(3) zero_neq_numeral)
  then show thesis using g mbid_read_onto [of "lowered g"] by (intro that [of g gs]) (auto simp: mbid_groups_def)
qed

lemma mbid_new_facts:
  assumes "mbid_new t = Some m"
  shows "mbid_ok m" and "length m = 36" and "list_all (\<lambda>b. b < 0x80) m"
proof -
  obtain g gs where p: "map length (g # gs) = mbid_groups" "list_all (list_all is_hexdigit) (g # gs)"
    "m = lowered g @ concat (map (\<lambda>g. 0x2D # lowered g) gs)" using assms by (rule mbid_new_parts)
  have hex: "list_all is_hexdigit (lowered h) \<and> (\<forall>b\<in>set (lowered h). b \<noteq> 0x2D \<and> b < 0x80)" if "list_all is_hexdigit h" for h
    using that hexdigit_lower by (auto simp: list_all_iff lowered_def)
  have m: "m = lowered g @ concat (map (\<lambda>g. 0x2D # g) (map lowered gs))" using p(3) by (simp add: comp_def)
  have "\<forall>h\<in>set (lowered g # map lowered gs). \<forall>b\<in>set h. b \<noteq> 0x2D"
    using p(2) hex by (auto simp: list_all_iff)
  then have split: "split_where (\<lambda>b. b = 0x2D) m = lowered g # map lowered gs"
    unfolding m by (rule split_dashed)
  have len: "length g = 8" "map length gs = [4, 4, 4, 12]" using p(1) by (simp_all add: mbid_groups_def)
  have "length m = 8 + sum_list (map (\<lambda>g. Suc (length g)) gs)" using m len(1) by (simp add: length_concat comp_def)
  also have "sum_list (map (\<lambda>g. Suc (length g)) gs) = sum_list (map Suc (map length gs))" by (simp add: comp_def)
  finally show l: "length m = 36" by (simp add: len(2))
  have "lowered g \<noteq> []" using len(1) by (metis length_lowered list.size(3) zero_neq_numeral)
  then have "mbid_read [4, 4, 4, 12] (map lowered gs) (lowered g) = Some m"
  proof -
    have "list_all (list_all is_hexdigit) (map lowered gs)"
      using p(2) hexdigit_lower by (auto simp: list_all_iff lowered_def)
    then show ?thesis using \<open>lowered g \<noteq> []\<close> len(2) by (simp add: mbid_read_onto m comp_def)
  qed
  then show "mbid_ok m"
    using l split len(1) p(2) hex by (simp add: mbid_ok_def mbid_new_def mbid_groups_def)
  show "list_all (\<lambda>b. b < 0x80) m" using p(2) hex by (auto simp: m list_all_iff)
qed

lemma mbid_ok_facts: "mbid_ok m \<Longrightarrow> length m = 36 \<and> utf8 m"
  using mbid_new_facts [of m m] ascii_utf8 by (simp add: mbid_ok_def)

subsection \<open>Links\<close>

lemma relation_names: "distinct (map fst relation_types)" "distinct (map snd relation_types)"
    "list_all (\<lambda>e. fst e \<noteq> [] \<and> length (fst e) \<le> 25 \<and> list_all (\<lambda>b. b < 0x80) (fst e)) relation_types"
  by code_simp+

lemma relation_typed: "r = RelOther \<or> r \<in> snd ` set relation_types"
  by (cases r) (simp_all add: relation_types_def)

lemma find_unique:
  "distinct (map f xs) \<Longrightarrow> x \<in> set xs \<Longrightarrow> find (\<lambda>y. f y = f x) xs = Some x"
  by (induction xs) auto

lemma spelled_types: "r \<noteq> RelOther \<Longrightarrow> (spelled r, r) \<in> set relation_types"
proof -
  assume "r \<noteq> RelOther"
  then obtain named where n: "(named, r) \<in> set relation_types" using relation_typed by fastforce
  from find_unique [OF relation_names(2) n] show ?thesis
    using n by (simp add: spelled_def case_prod_beta')
qed

lemma spelled_other: "spelled RelOther = []"
  by code_simp

lemma of_type_spelled [simp]: "of_type (spelled r) = r"
proof (cases "r = RelOther")
  case True
  have "find (\<lambda>(named, _). named = []) relation_types = None"
    using relation_names(3) by (auto simp: find_None_iff list_all_iff)
  then show ?thesis using True by (simp add: of_type_def spelled_other)
next
  case False
  from find_unique [OF relation_names(1) spelled_types [OF False]] show ?thesis
    by (simp add: of_type_def case_prod_beta')
qed

lemma spelled_short: "length (spelled r) \<le> 25" "utf8 (spelled r)"
  using relation_names(3) spelled_types [of r] ascii_utf8
  by (cases "r = RelOther"; force simp: spelled_other list_all_iff)+

lemma strip_prefix_Some: "strip_prefix p bs = Some rest \<longleftrightarrow> bs = p @ rest"
  by (induction p bs rule: strip_prefix.induct) auto

lemma strip_suffix_Some: "strip_suffix suffix bs = Some before \<longleftrightarrow> bs = before @ suffix"
proof -
  have "strip_prefix (rev suffix) (rev bs) = Some b \<longleftrightarrow> bs = rev b @ suffix" for b
    unfolding strip_prefix_Some by (metis rev_append rev_rev_ident)
  then show ?thesis by (auto simp: strip_suffix_def) (metis rev_rev_ident)+
qed

lemma under_iff: "under host named \<longleftrightarrow> host = named \<or> (\<exists>label. host = label @ 0x2E # named)"
proof (cases "strip_suffix named host")
  case None
  have "host \<noteq> before @ named" for before using None strip_suffix_Some [of named host before] by simp
  from this [of "[]"] this [of "label @ [0x2E]" for label] show ?thesis using None by (simp add: under_def)
next
  case (Some before)
  then have "host = before @ named" by (simp add: strip_suffix_Some)
  then show ?thesis using Some
    by (auto simp: under_def) (metis append_butlast_last_id append.assoc append_Cons append_Nil)
qed

text \<open>A service is only ever named for a web address on one of its hosts, or below one.\<close>

lemma of_url_named:
  assumes "of_url url = s" and "s \<noteq> OtherService" and "s \<noteq> AmazonMusic"
  shows "\<exists>host named. host_of url = Some host \<and> (host = named \<or> (\<exists>label. host = label @ 0x2E # named)) \<and>
    ((named, s) \<in> set hosts \<or> s = Twitter \<and> named \<in> set twitter_hosts)"
proof -
  obtain host where host: "host_of url = Some host" using assms by (auto simp: of_url_def split: option.splits)
  show ?thesis
  proof (cases "find (\<lambda>(named, _). under host named) hosts")
    case None
    then have "s = Twitter" "list_ex (under host) twitter_hosts"
      using assms host by (auto simp: of_url_def split: if_splits)
    then show ?thesis using host under_iff by (auto simp: list_ex_iff)
  next
    case (Some e)
    obtain named s' where e: "e = (named, s')" by fastforce
    then have "s' = s" "under host named" "(named, s') \<in> set hosts"
      using assms host Some by (auto simp: of_url_def find_Some_iff) (metis nth_mem)
    then show ?thesis using host under_iff by blast
  qed
qed

end
