(* ===== verification/WireData.thy ===== *)
theory WireData
  imports Links
begin

text \<open>
  What travels between devices inside the messages: recordings, whole files, fingerprints with
  what was recognised, lyrics files, song tags, and the answers looked up online
  (\<open>crates/resonate-core/src/recorded.rs\<close>, \<open>answer.rs\<close>; \<open>SongTags\<close> and \<open>Held\<close> of
  \<open>crates/resonate-sync/src/catalog.rs\<close>), each with its writer and reader of \<open>wire.rs\<close> and the
  codec they make. \<open>sent\<close> functions say what of a value arrives: texts are clipped, durations cut
  to whole milliseconds (whole seconds for a fingerprint), and lists cut where the writer cuts them.
  A \<open>Figure\<close> is the bits of a 32-bit float, which nothing here computes with.
\<close>

subsection \<open>Recordings\<close>

record recording =
  rc_mbid :: "bytes option"
  rc_title :: bytes
  rc_artist :: bytes
  rc_album :: bytes
  rc_length :: "duration option"

definition wr_recording :: "recording \<Rightarrow> bytes" where
  "wr_recording r =
     wr_option wr_text (rc_mbid r) @ wr_text (rc_title r) @ wr_text (rc_artist r) @ wr_text (rc_album r)
     @ wr_option wr_duration (rc_length r)"

definition rd_mbid :: "bytes reader" where
  "rd_mbid = rd_then rd_text (\<lambda>t. case mbid_new t of None \<Rightarrow> rd_fail NotAnMbid | Some m \<Rightarrow> rd_ok m)"

definition rd_recording :: "recording reader" where
  "rd_recording =
     rd_then (rd_option rd_mbid) (\<lambda>mbid.
     rd_then rd_text (\<lambda>title.
     rd_then rd_text (\<lambda>artist.
     rd_then rd_text (\<lambda>album.
     rd_then (rd_option rd_duration) (\<lambda>len.
     rd_ok \<lparr>rc_mbid = mbid, rc_title = title, rc_artist = artist, rc_album = album, rc_length = len\<rparr>)))))"

definition recording_ok :: "recording \<Rightarrow> bool" where
  "recording_ok r \<longleftrightarrow> pred_option mbid_ok (rc_mbid r) \<and> utf8 (rc_title r) \<and> utf8 (rc_artist r) \<and> utf8 (rc_album r)"

definition sent_recording :: "recording \<Rightarrow> recording" where
  "sent_recording r = r\<lparr>rc_title := within_the_longest_text (rc_title r),
     rc_artist := within_the_longest_text (rc_artist r), rc_album := within_the_longest_text (rc_album r),
     rc_length := map_option in_millis (rc_length r)\<rparr>"

lemma text_length: "1 \<le> length (wr_text t)"
  using length_nonempty by (simp add: wr_text_def wr_bytes_def trans_le_add1)

lemma mbid_text: "mbid_ok m \<Longrightarrow> utf8 m \<and> within_the_longest_text m = m \<and> length (wr_text m) = 37"
proof -
  assume "mbid_ok m"
  then have m: "length m = 36" "utf8 m" using mbid_ok_facts by simp_all
  then have "within_the_longest_text m = m"
    by (simp add: within_the_longest_text_def clipped_short longest_text_def)
  moreover have "length (wr_length 36) = 1"
    by (simp add: wr_length_def u64_max_def wr_number.simps Let_def)
  ultimately show ?thesis using m by (simp add: wr_text_def wr_bytes_def)
qed

interpretation mbids: sized_codec mbid_ok wr_text rd_mbid "\<lambda>m. m" 37
proof
  show "rd_mbid (wr_text m @ rest) = Inr (m, rest)" if "mbid_ok m" for m rest
    using that mbid_text [OF that] by (simp add: rd_mbid_def reads mbid_ok_def)
  show "grows rd_mbid" unfolding rd_mbid_def by (intro growing)
  show "37 \<le> length (wr_text m)" if "mbid_ok m" for m using mbid_text [OF that] by simp
qed

lemma map_option_id [simp]: "map_option (\<lambda>x. x) v = v"
  by (cases v) simp_all

lemmas mbid_reads [reads] = mbids.read_back mbids.option_read_back [simplified]

lemmas mbid_growing [growing] = mbids.growing

lemmas duration_option_reads [reads] = durations.option_read_back

interpretation recordings: sized_codec recording_ok wr_recording rd_recording sent_recording 5
proof
  show "rd_recording (wr_recording r @ rest) = Inr (sent_recording r, rest)" if "recording_ok r" for r rest
    using that by (simp add: rd_recording_def wr_recording_def recording_ok_def sent_recording_def reads
        pred_option_def)
  show "grows rd_recording" unfolding rd_recording_def by (intro growing)
  show "5 \<le> length (wr_recording r)" for r
    using option_nonempty [of wr_text "rc_mbid r"] option_nonempty [of wr_duration "rc_length r"]
      text_length [of "rc_title r"] text_length [of "rc_artist r"] text_length [of "rc_album r"]
    by (simp add: wr_recording_def)
qed

lemmas recording_reads [reads] = recordings.read_back

lemmas recording_growing [growing] = recordings.growing

subsection \<open>Whole files and fingerprints\<close>

record whole_file =
  wf_packets :: u64
  wf_frames :: u64
  wf_rate :: u32

definition wr_whole_file :: "whole_file \<Rightarrow> bytes" where
  "wr_whole_file f = wr_number (wf_packets f) @ wr_number (wf_frames f) @ wr_number (ucast (wf_rate f))"

definition rd_whole_file :: "whole_file reader" where
  "rd_whole_file =
     rd_then rd_number (\<lambda>packets.
     rd_then rd_number (\<lambda>frames.
     rd_then rd_small (\<lambda>rate.
     rd_ok \<lparr>wf_packets = packets, wf_frames = frames, wf_rate = rate\<rparr>)))"

interpretation whole_files: sized_codec "\<lambda>_. True" wr_whole_file rd_whole_file "\<lambda>f. f" 3
proof
  show "rd_whole_file (wr_whole_file f @ rest) = Inr (f, rest)" for f rest
    by (simp add: rd_whole_file_def wr_whole_file_def reads)
  show "grows rd_whole_file" unfolding rd_whole_file_def by (intro growing)
  show "3 \<le> length (wr_whole_file f)" for f
    using number_nonempty [of "wf_packets f"] number_nonempty [of "wf_frames f"]
      number_nonempty [of "ucast (wf_rate f)"] by (simp add: wr_whole_file_def)
qed

lemmas whole_file_reads [reads] = whole_files.read_back [OF TrueI]

lemmas whole_file_growing [growing] = whole_files.growing

record shared_heard =
  sh_recording :: bytes
  sh_score :: u8
  sh_title :: bytes
  sh_artist :: "bytes option"

datatype shared_recognition = Unheard | Heard shared_heard

record shared_print =
  sp_print :: chromaprint
  sp_recognition :: "shared_recognition option"

definition longest_shared_print :: nat where
  "longest_shared_print = 65536"

fun wr_recognition :: "shared_recognition \<Rightarrow> bytes" where
  "wr_recognition Unheard = wr_byte 0"
| "wr_recognition (Heard h) =
     wr_byte 1 @ wr_text (sh_recording h) @ wr_byte (sh_score h) @ wr_text (sh_title h)
     @ wr_optional_text (sh_artist h)"

definition rd_recognition :: "shared_recognition reader" where
  "rd_recognition = rd_then rd_byte (\<lambda>tag.
     if tag = 0 then rd_ok Unheard
     else if tag = 1 then
       rd_then rd_mbid (\<lambda>recording.
       rd_then rd_byte (\<lambda>score.
       rd_then rd_text (\<lambda>title.
       rd_then rd_optional_text (\<lambda>artist.
       rd_ok (Heard \<lparr>sh_recording = recording, sh_score = score, sh_title = title, sh_artist = artist\<rparr>)))))
     else rd_fail (BadTag tag))"

definition from_secs :: "u64 \<Rightarrow> duration" where
  "from_secs s = \<lparr>dur_secs = unat s, dur_nanos = 0\<rparr>"

definition wr_print :: "shared_print \<Rightarrow> bytes" where
  "wr_print p =
     wr_bytes (take longest_shared_print (cp_encoded (sp_print p)))
     @ wr_number (of_nat (dur_secs (cp_length (sp_print p))))
     @ wr_option wr_recognition (sp_recognition p)"

definition rd_print :: "shared_print reader" where
  "rd_print =
     rd_then (rd_string longest_shared_print) (\<lambda>encoded.
     rd_then rd_number (\<lambda>secs.
     case chromaprint_new encoded (from_secs secs) of
       None \<Rightarrow> rd_fail NotAPrint
     | Some print \<Rightarrow>
         rd_then (rd_option rd_recognition) (\<lambda>recognition.
         rd_ok \<lparr>sp_print = print, sp_recognition = recognition\<rparr>)))"

fun recognition_ok :: "shared_recognition \<Rightarrow> bool" where
  "recognition_ok Unheard \<longleftrightarrow> True"
| "recognition_ok (Heard h) \<longleftrightarrow> mbid_ok (sh_recording h) \<and> utf8 (sh_title h) \<and> pred_option utf8 (sh_artist h)"

fun sent_recognition :: "shared_recognition \<Rightarrow> shared_recognition" where
  "sent_recognition Unheard = Unheard"
| "sent_recognition (Heard h) = Heard (h\<lparr>sh_title := within_the_longest_text (sh_title h),
     sh_artist := map_option within_the_longest_text (sh_artist h)\<rparr>)"

definition print_ok :: "shared_print \<Rightarrow> bool" where
  "print_ok p \<longleftrightarrow> chromaprint_new (cp_encoded (sp_print p)) (cp_length (sp_print p)) = Some (sp_print p)
     \<and> dur_secs (cp_length (sp_print p)) \<le> u64_max \<and> pred_option recognition_ok (sp_recognition p)"

definition sent_print :: "shared_print \<Rightarrow> shared_print" where
  "sent_print p =
     \<lparr>sp_print = \<lparr>cp_encoded = take longest_shared_print (cp_encoded (sp_print p)),
                  cp_length = \<lparr>dur_secs = dur_secs (cp_length (sp_print p)), dur_nanos = 0\<rparr>\<rparr>,
      sp_recognition = map_option sent_recognition (sp_recognition p)\<rparr>"

interpretation recognitions: sized_codec recognition_ok wr_recognition rd_recognition sent_recognition 1
proof
  show "rd_recognition (wr_recognition r @ rest) = Inr (sent_recognition r, rest)" if "recognition_ok r" for r rest
    using that by (cases r) (simp_all add: rd_recognition_def reads)
  show "grows rd_recognition" unfolding rd_recognition_def by (intro growing)
  show "1 \<le> length (wr_recognition r)" for r by (cases r) (simp_all add: wr_byte_def)
qed

lemmas recognition_reads [reads] = recognitions.option_read_back

lemmas recognition_growing [growing] = recognitions.growing

interpretation prints: codec print_ok wr_print rd_print sent_print
proof
  show "rd_print (wr_print p @ rest) = Inr (sent_print p, rest)" if ok: "print_ok p" for p rest
  proof -
    let ?e = "cp_encoded (sp_print p)"
    have e: "?e \<noteq> []" "list_all url_safe ?e" using ok by (auto simp: print_ok_def chromaprint_new_def split: if_splits)
    define cut where "cut = take longest_shared_print ?e"
    have cut: "cut \<noteq> []" "list_all url_safe cut" "length cut \<le> longest_shared_print"
      using e by (auto simp: cut_def longest_shared_print_def list_all_iff dest: in_set_takeD)
    then have "list_all (\<lambda>b. b < 0x80) cut" using url_safe_ascii by (auto simp: list_all_iff)
    note written = rd_string_ascii [OF this cut(3)]
    have "from_secs (of_nat (dur_secs (cp_length (sp_print p)))) = \<lparr>dur_secs = dur_secs (cp_length (sp_print p)), dur_nanos = 0\<rparr>"
      using ok by (simp add: from_secs_def print_ok_def unsigned_of_nat take_bit_nat_eq_self u64_max_def)
    moreover have "longest_shared_print \<le> u64_max" by (simp add: longest_shared_print_def u64_max_def)
    ultimately show ?thesis
      using ok cut(1,2) written
      by (simp add: rd_print_def wr_print_def cut_def [symmetric] reads chromaprint_new_def sent_print_def print_ok_def)
  qed
  show "grows rd_print" unfolding rd_print_def by (intro growing)
qed

lemmas print_reads [reads] = prints.read_back

lemmas print_growing [growing] = prints.growing

subsection \<open>Lyrics, lyrics files and song tags\<close>

definition longest_shared_lyrics :: nat where
  "longest_shared_lyrics = 32768"

definition largest_shared_lyricsfile :: nat where
  "largest_shared_lyricsfile = 1048576"

record shared_lyrics =
  sl_text :: bytes
  sl_synced :: bool

record shared_lyricsfile =
  lf_text :: bytes
  lf_synced :: bool
  lf_document :: bytes

definition wr_lyricsfile :: "shared_lyricsfile \<Rightarrow> bytes" where
  "wr_lyricsfile l =
     wr_bytes (clipped longest_shared_lyrics (lf_text l)) @ wr_flag (lf_synced l)
     @ wr_bytes (clipped largest_shared_lyricsfile (lf_document l))"

definition rd_lyricsfile :: "shared_lyricsfile reader" where
  "rd_lyricsfile =
     rd_then (rd_string longest_shared_lyrics) (\<lambda>t.
     rd_then rd_flag (\<lambda>synced.
     rd_then (rd_string largest_shared_lyricsfile) (\<lambda>document.
     rd_ok \<lparr>lf_text = t, lf_synced = synced, lf_document = document\<rparr>)))"

definition lyricsfile_ok :: "shared_lyricsfile \<Rightarrow> bool" where
  "lyricsfile_ok l \<longleftrightarrow> utf8 (lf_text l) \<and> utf8 (lf_document l)"

definition sent_lyricsfile :: "shared_lyricsfile \<Rightarrow> shared_lyricsfile" where
  "sent_lyricsfile l = l\<lparr>lf_text := clipped longest_shared_lyrics (lf_text l),
     lf_document := clipped largest_shared_lyricsfile (lf_document l)\<rparr>"

lemma shared_lengths [simp]:
  "longest_shared_lyrics \<le> u64_max" "largest_shared_lyricsfile \<le> u64_max"
  by (simp_all add: longest_shared_lyrics_def largest_shared_lyricsfile_def u64_max_def)

interpretation lyricsfiles: codec lyricsfile_ok wr_lyricsfile rd_lyricsfile sent_lyricsfile
proof
  show "rd_lyricsfile (wr_lyricsfile l @ rest) = Inr (sent_lyricsfile l, rest)" if "lyricsfile_ok l" for l rest
    using that by (simp add: rd_lyricsfile_def wr_lyricsfile_def lyricsfile_ok_def sent_lyricsfile_def reads)
  show "grows rd_lyricsfile" unfolding rd_lyricsfile_def by (intro growing)
qed

lemmas lyricsfile_reads [reads] = lyricsfiles.read_back

lemmas lyricsfile_growing [growing] = lyricsfiles.growing

record song_tags =
  tg_album_artist :: "bytes option"
  tg_date :: "bytes option"
  tg_track_number :: "u32 option"
  tg_track_total :: "u32 option"
  tg_disc_number :: "u32 option"
  tg_disc_total :: "u32 option"
  tg_compilation :: bool

definition wr_tags :: "song_tags \<Rightarrow> bytes" where
  "wr_tags t =
     wr_optional_text (tg_album_artist t) @ wr_optional_text (tg_date t)
     @ wr_optional_number (tg_track_number t) @ wr_optional_number (tg_track_total t)
     @ wr_optional_number (tg_disc_number t) @ wr_optional_number (tg_disc_total t)
     @ wr_flag (tg_compilation t)"

definition rd_tags :: "song_tags reader" where
  "rd_tags =
     rd_then rd_optional_text (\<lambda>album_artist.
     rd_then rd_optional_text (\<lambda>date.
     rd_then rd_optional_number (\<lambda>track_number.
     rd_then rd_optional_number (\<lambda>track_total.
     rd_then rd_optional_number (\<lambda>disc_number.
     rd_then rd_optional_number (\<lambda>disc_total.
     rd_then rd_flag (\<lambda>compilation.
     rd_ok \<lparr>tg_album_artist = album_artist, tg_date = date, tg_track_number = track_number,
       tg_track_total = track_total, tg_disc_number = disc_number, tg_disc_total = disc_total,
       tg_compilation = compilation\<rparr>)))))))"

definition tags_ok :: "song_tags \<Rightarrow> bool" where
  "tags_ok t \<longleftrightarrow> pred_option utf8 (tg_album_artist t) \<and> pred_option utf8 (tg_date t)"

definition sent_tags :: "song_tags \<Rightarrow> song_tags" where
  "sent_tags t = t\<lparr>tg_album_artist := map_option within_the_longest_text (tg_album_artist t),
     tg_date := map_option within_the_longest_text (tg_date t)\<rparr>"

interpretation tags: codec tags_ok wr_tags rd_tags sent_tags
proof
  show "rd_tags (wr_tags t @ rest) = Inr (sent_tags t, rest)" if "tags_ok t" for t rest
    using that by (simp add: rd_tags_def wr_tags_def tags_ok_def sent_tags_def reads)
  show "grows rd_tags" unfolding rd_tags_def by (intro growing)
qed

lemmas tags_reads [reads] = tags.read_back

lemmas tags_growing [growing] = tags.growing

record held_song =
  hs_recording :: recording
  hs_size :: u64
  hs_extension :: bytes

definition wr_held_song :: "held_song \<Rightarrow> bytes" where
  "wr_held_song h = wr_recording (hs_recording h) @ wr_number (hs_size h) @ wr_text (hs_extension h)"

definition rd_held_song :: "held_song reader" where
  "rd_held_song =
     rd_then rd_recording (\<lambda>recording.
     rd_then rd_number (\<lambda>size.
     rd_then rd_text (\<lambda>extension.
     rd_ok \<lparr>hs_recording = recording, hs_size = size, hs_extension = extension\<rparr>)))"

definition held_song_ok :: "held_song \<Rightarrow> bool" where
  "held_song_ok h \<longleftrightarrow> recording_ok (hs_recording h) \<and> utf8 (hs_extension h)"

definition sent_held_song :: "held_song \<Rightarrow> held_song" where
  "sent_held_song h = h\<lparr>hs_recording := sent_recording (hs_recording h),
     hs_extension := within_the_longest_text (hs_extension h)\<rparr>"

interpretation held_songs: sized_codec held_song_ok wr_held_song rd_held_song sent_held_song 7
proof
  show "rd_held_song (wr_held_song h @ rest) = Inr (sent_held_song h, rest)" if "held_song_ok h" for h rest
    using that by (simp add: rd_held_song_def wr_held_song_def held_song_ok_def sent_held_song_def reads)
  show "grows rd_held_song" unfolding rd_held_song_def by (intro growing)
  show "7 \<le> length (wr_held_song h)" if "held_song_ok h" for h
    using that recordings.long_enough [of "hs_recording h"] number_nonempty [of "hs_size h"] text_length [of "hs_extension h"]
    by (simp add: wr_held_song_def held_song_ok_def)
qed

lemmas held_song_growing [growing] = held_songs.growing

subsection \<open>Links, tracks, media and releases\<close>

definition links_shared_at_most :: nat where
  "links_shared_at_most = 32"

definition codes_shared_at_most :: nat where
  "codes_shared_at_most = 8"

definition wr_link :: "link \<Rightarrow> bytes" where
  "wr_link l = wr_text (spelled (lk_relation l)) @ wr_text (lk_url l)"

definition rd_link :: "link reader" where
  "rd_link = rd_then rd_text (\<lambda>relation. rd_then rd_text (\<lambda>url. rd_ok (link_new relation url)))"

definition wr_links :: "link list \<Rightarrow> bytes" where
  "wr_links ls = wr_list wr_link (take links_shared_at_most ls)"

definition rd_links :: "link list reader" where
  "rd_links = rd_then (rd_at_most 2 links_shared_at_most) (\<lambda>n. rd_many n rd_link)"

definition link_ok :: "link \<Rightarrow> bool" where
  "link_ok l \<longleftrightarrow> utf8 (lk_url l)"

text \<open>The service is not sent: it is read off the address as it arrives.\<close>

definition sent_link :: "link \<Rightarrow> link" where
  "sent_link l = link_new (spelled (lk_relation l)) (within_the_longest_text (lk_url l))"

definition sent_links :: "link list \<Rightarrow> link list" where
  "sent_links ls = map sent_link (take links_shared_at_most ls)"

interpretation one_link: sized_codec link_ok wr_link rd_link sent_link 2
proof
  show "rd_link (wr_link l @ rest) = Inr (sent_link l, rest)" if "link_ok l" for l rest
  proof -
    have "within_the_longest_text (spelled (lk_relation l)) = spelled (lk_relation l)"
      using spelled_short(1) [of "lk_relation l"]
      by (simp add: within_the_longest_text_def clipped_short longest_text_def)
    then show ?thesis using that spelled_short(2) by (simp add: rd_link_def wr_link_def link_ok_def sent_link_def reads)
  qed
  show "grows rd_link" unfolding rd_link_def by (intro growing)
  show "2 \<le> length (wr_link l)" for l
    using text_length [of "spelled (lk_relation l)"] text_length [of "lk_url l"] by (simp add: wr_link_def)
qed

lemma list_all_take: "list_all P xs \<Longrightarrow> list_all P (take n xs)"
  by (auto simp: list_all_iff dest: in_set_takeD)

interpretation all_links: codec "list_all link_ok" wr_links rd_links sent_links
proof
  show "rd_links (wr_links ls @ rest) = Inr (sent_links ls, rest)" if "list_all link_ok ls" for ls rest
    using one_link.at_most_read_back [OF list_all_take [OF that], of links_shared_at_most 2 links_shared_at_most rest]
    by (simp add: rd_links_def wr_links_def sent_links_def links_shared_at_most_def u64_max_def)
  show "grows rd_links" unfolding rd_links_def by (intro growing one_link.growing)
qed

lemmas links_reads [reads] = all_links.read_back

lemmas links_growing [growing] = one_link.growing all_links.growing

record shared_track =
  tr_position :: u32
  tr_number :: bytes
  tr_title :: bytes
  tr_artist :: "bytes option"
  tr_recording :: "bytes option"
  tr_track :: "bytes option"
  tr_length_ms :: "u32 option"
  tr_isrcs :: "bytes list"
  tr_links :: "link list"

definition wr_track :: "shared_track \<Rightarrow> bytes" where
  "wr_track t =
     wr_number (ucast (tr_position t)) @ wr_text (tr_number t) @ wr_text (tr_title t)
     @ wr_optional_text (tr_artist t) @ wr_option wr_text (tr_recording t) @ wr_option wr_text (tr_track t)
     @ wr_optional_number (tr_length_ms t) @ wr_list wr_text (take codes_shared_at_most (tr_isrcs t))
     @ wr_links (tr_links t)"

definition rd_codes :: "bytes list reader" where
  "rd_codes = rd_then (rd_at_most 1 codes_shared_at_most) (\<lambda>n. rd_many n rd_text)"

definition rd_track :: "shared_track reader" where
  "rd_track =
     rd_then rd_small (\<lambda>position.
     rd_then rd_text (\<lambda>number.
     rd_then rd_text (\<lambda>title.
     rd_then rd_optional_text (\<lambda>artist.
     rd_then (rd_option rd_mbid) (\<lambda>recording.
     rd_then (rd_option rd_mbid) (\<lambda>track.
     rd_then rd_optional_number (\<lambda>length_ms.
     rd_then rd_codes (\<lambda>isrcs.
     rd_then rd_links (\<lambda>links.
     rd_ok \<lparr>tr_position = position, tr_number = number, tr_title = title, tr_artist = artist,
       tr_recording = recording, tr_track = track, tr_length_ms = length_ms, tr_isrcs = isrcs,
       tr_links = links\<rparr>)))))))))"

definition track_ok :: "shared_track \<Rightarrow> bool" where
  "track_ok t \<longleftrightarrow> utf8 (tr_number t) \<and> utf8 (tr_title t) \<and> pred_option utf8 (tr_artist t) \<and>
     pred_option mbid_ok (tr_recording t) \<and> pred_option mbid_ok (tr_track t) \<and>
     list_all utf8 (tr_isrcs t) \<and> list_all link_ok (tr_links t)"

definition sent_track :: "shared_track \<Rightarrow> shared_track" where
  "sent_track t = t\<lparr>tr_number := within_the_longest_text (tr_number t),
     tr_title := within_the_longest_text (tr_title t),
     tr_artist := map_option within_the_longest_text (tr_artist t),
     tr_isrcs := map within_the_longest_text (take codes_shared_at_most (tr_isrcs t)),
     tr_links := sent_links (tr_links t)\<rparr>"

lemma codes_written [reads]:
  assumes "list_all utf8 codes"
  shows "rd_codes (wr_list wr_text (take codes_shared_at_most codes) @ rest) =
    Inr (map within_the_longest_text (take codes_shared_at_most codes), rest)"
  using texts.at_most_read_back [OF list_all_take [OF assms], of codes_shared_at_most 1 codes_shared_at_most rest]
  by (simp add: rd_codes_def codes_shared_at_most_def u64_max_def)

lemma grows_codes [growing]: "grows rd_codes"
  unfolding rd_codes_def by (intro growing)

lemma list_length: "1 \<le> length (wr_list wr xs)"
  using length_nonempty by (simp add: wr_list_def trans_le_add1)

lemma optional_lengths: "1 \<le> length (wr_optional_text v)" "1 \<le> length (wr_optional_number n)" "1 \<le> length (wr_links ls)"
  unfolding wr_optional_text_def wr_optional_number_def wr_links_def
  by (rule option_nonempty list_length)+

interpretation tracks: sized_codec track_ok wr_track rd_track sent_track 9
proof
  show "rd_track (wr_track t @ rest) = Inr (sent_track t, rest)" if "track_ok t" for t rest
    using that by (simp add: rd_track_def wr_track_def track_ok_def sent_track_def reads)
  show "grows rd_track" unfolding rd_track_def by (intro growing)
  show "9 \<le> length (wr_track t)" for t
    using number_nonempty [of "ucast (tr_position t)"] text_length [of "tr_number t"] text_length [of "tr_title t"]
      optional_lengths(1) [of "tr_artist t"] option_nonempty [of wr_text "tr_recording t"]
      option_nonempty [of wr_text "tr_track t"] optional_lengths(2) [of "tr_length_ms t"]
      list_length [of wr_text "take codes_shared_at_most (tr_isrcs t)"] optional_lengths(3) [of "tr_links t"]
    by (simp add: wr_track_def)
qed

record shared_credit =
  cr_name :: bytes
  cr_joined_by :: bytes
  cr_mbid :: "bytes option"

definition wr_credit :: "shared_credit \<Rightarrow> bytes" where
  "wr_credit c = wr_text (cr_name c) @ wr_text (cr_joined_by c) @ wr_option wr_text (cr_mbid c)"

definition rd_credit :: "shared_credit reader" where
  "rd_credit =
     rd_then rd_text (\<lambda>name.
     rd_then rd_text (\<lambda>joined_by.
     rd_then (rd_option rd_mbid) (\<lambda>mbid.
     rd_ok \<lparr>cr_name = name, cr_joined_by = joined_by, cr_mbid = mbid\<rparr>)))"

definition credit_ok :: "shared_credit \<Rightarrow> bool" where
  "credit_ok c \<longleftrightarrow> utf8 (cr_name c) \<and> utf8 (cr_joined_by c) \<and> pred_option mbid_ok (cr_mbid c)"

definition sent_credit :: "shared_credit \<Rightarrow> shared_credit" where
  "sent_credit c = c\<lparr>cr_name := within_the_longest_text (cr_name c),
     cr_joined_by := within_the_longest_text (cr_joined_by c)\<rparr>"

interpretation credits: sized_codec credit_ok wr_credit rd_credit sent_credit 3
proof
  show "rd_credit (wr_credit c @ rest) = Inr (sent_credit c, rest)" if "credit_ok c" for c rest
    using that by (simp add: rd_credit_def wr_credit_def credit_ok_def sent_credit_def reads)
  show "grows rd_credit" unfolding rd_credit_def by (intro growing)
  show "3 \<le> length (wr_credit c)" for c
    using text_length [of "cr_name c"] text_length [of "cr_joined_by c"] option_nonempty [of wr_text "cr_mbid c"]
    by (simp add: wr_credit_def)
qed

record shared_medium =
  md_position :: u32
  md_format :: "bytes option"
  md_title :: "bytes option"
  md_tracks :: "shared_track list"

definition wr_medium :: "shared_medium \<Rightarrow> bytes" where
  "wr_medium m =
     wr_number (ucast (md_position m)) @ wr_optional_text (md_format m) @ wr_optional_text (md_title m)
     @ wr_list wr_track (md_tracks m)"

definition rd_medium :: "shared_medium reader" where
  "rd_medium =
     rd_then rd_small (\<lambda>position.
     rd_then rd_optional_text (\<lambda>format.
     rd_then rd_optional_text (\<lambda>title.
     rd_then (rd_then (rd_count_of 9) (\<lambda>n. rd_many n rd_track)) (\<lambda>tracks.
     rd_ok \<lparr>md_position = position, md_format = format, md_title = title, md_tracks = tracks\<rparr>))))"

definition medium_ok :: "shared_medium \<Rightarrow> bool" where
  "medium_ok m \<longleftrightarrow> pred_option utf8 (md_format m) \<and> pred_option utf8 (md_title m) \<and>
     list_all track_ok (md_tracks m) \<and> length (md_tracks m) \<le> u64_max"

definition sent_medium :: "shared_medium \<Rightarrow> shared_medium" where
  "sent_medium m = m\<lparr>md_format := map_option within_the_longest_text (md_format m),
     md_title := map_option within_the_longest_text (md_title m),
     md_tracks := map sent_track (md_tracks m)\<rparr>"

interpretation media: sized_codec medium_ok wr_medium rd_medium sent_medium 4
proof
  show "rd_medium (wr_medium m @ rest) = Inr (sent_medium m, rest)" if "medium_ok m" for m rest
    using that tracks.list_read_back [of "md_tracks m" 9 rest]
    by (simp add: rd_medium_def wr_medium_def medium_ok_def sent_medium_def reads)
  show "grows rd_medium" unfolding rd_medium_def by (intro growing tracks.growing)
  show "4 \<le> length (wr_medium m)" for m
    using number_nonempty [of "ucast (md_position m)"] optional_lengths(1) [of "md_format m"]
      optional_lengths(1) [of "md_title m"] list_length [of wr_track "md_tracks m"]
    by (simp add: wr_medium_def)
qed

record shared_release =
  rl_id :: bytes
  rl_group :: "bytes option"
  rl_title :: bytes
  rl_credit :: "shared_credit list"
  rl_date :: "bytes option"
  rl_country :: "bytes option"
  rl_label :: "bytes option"
  rl_catalog_number :: "bytes option"
  rl_barcode :: "bytes option"
  rl_kind :: "bytes option"
  rl_disambiguation :: "bytes option"
  rl_has_front_cover :: bool
  rl_links :: "link list"
  rl_media :: "shared_medium list"

definition wr_release :: "shared_release \<Rightarrow> bytes" where
  "wr_release r =
     wr_text (rl_id r) @ wr_option wr_text (rl_group r) @ wr_text (rl_title r)
     @ wr_list wr_credit (rl_credit r)
     @ concat (map wr_optional_text
         [rl_date r, rl_country r, rl_label r, rl_catalog_number r, rl_barcode r, rl_kind r, rl_disambiguation r])
     @ wr_flag (rl_has_front_cover r) @ wr_links (rl_links r) @ wr_list wr_medium (rl_media r)"

definition rd_release :: "shared_release reader" where
  "rd_release =
     rd_then rd_mbid (\<lambda>id.
     rd_then (rd_option rd_mbid) (\<lambda>group.
     rd_then rd_text (\<lambda>title.
     rd_then (rd_then (rd_count_of 3) (\<lambda>n. rd_many n rd_credit)) (\<lambda>credit.
     rd_then rd_optional_text (\<lambda>date.
     rd_then rd_optional_text (\<lambda>country.
     rd_then rd_optional_text (\<lambda>label.
     rd_then rd_optional_text (\<lambda>catalog_number.
     rd_then rd_optional_text (\<lambda>barcode.
     rd_then rd_optional_text (\<lambda>kind.
     rd_then rd_optional_text (\<lambda>disambiguation.
     rd_then rd_flag (\<lambda>has_front_cover.
     rd_then rd_links (\<lambda>links.
     rd_then (rd_then (rd_count_of 4) (\<lambda>n. rd_many n rd_medium)) (\<lambda>media.
     rd_ok \<lparr>rl_id = id, rl_group = group, rl_title = title, rl_credit = credit, rl_date = date,
       rl_country = country, rl_label = label, rl_catalog_number = catalog_number, rl_barcode = barcode,
       rl_kind = kind, rl_disambiguation = disambiguation, rl_has_front_cover = has_front_cover,
       rl_links = links, rl_media = media\<rparr>))))))))))))))"

definition release_ok :: "shared_release \<Rightarrow> bool" where
  "release_ok r \<longleftrightarrow> mbid_ok (rl_id r) \<and> pred_option mbid_ok (rl_group r) \<and> utf8 (rl_title r) \<and>
     list_all credit_ok (rl_credit r) \<and> length (rl_credit r) \<le> u64_max \<and>
     list_all (pred_option utf8)
       [rl_date r, rl_country r, rl_label r, rl_catalog_number r, rl_barcode r, rl_kind r, rl_disambiguation r] \<and>
     list_all link_ok (rl_links r) \<and> list_all medium_ok (rl_media r) \<and> length (rl_media r) \<le> u64_max"

definition sent_release :: "shared_release \<Rightarrow> shared_release" where
  "sent_release r = r\<lparr>rl_title := within_the_longest_text (rl_title r),
     rl_credit := map sent_credit (rl_credit r),
     rl_date := map_option within_the_longest_text (rl_date r),
     rl_country := map_option within_the_longest_text (rl_country r),
     rl_label := map_option within_the_longest_text (rl_label r),
     rl_catalog_number := map_option within_the_longest_text (rl_catalog_number r),
     rl_barcode := map_option within_the_longest_text (rl_barcode r),
     rl_kind := map_option within_the_longest_text (rl_kind r),
     rl_disambiguation := map_option within_the_longest_text (rl_disambiguation r),
     rl_links := sent_links (rl_links r), rl_media := map sent_medium (rl_media r)\<rparr>"

interpretation releases: codec release_ok wr_release rd_release sent_release
proof
  show "rd_release (wr_release r @ rest) = Inr (sent_release r, rest)" if "release_ok r" for r rest
    using that credits.list_read_back [of "rl_credit r" 3] media.list_read_back [of "rl_media r" 4]
    by (simp add: rd_release_def wr_release_def release_ok_def sent_release_def reads mbid_text)
  show "grows rd_release" unfolding rd_release_def by (intro growing credits.growing media.growing)
qed

lemmas release_reads [reads] = releases.read_back

lemmas release_growing [growing] = releases.growing

subsection \<open>Answers\<close>

type_synonym figure = u32

definition wr_figure :: "figure \<Rightarrow> bytes" where
  "wr_figure f = [ucast f, ucast (drop_bit 8 f), ucast (drop_bit 16 f), ucast (drop_bit 24 f)]"

fun from_le_bytes :: "bytes \<Rightarrow> u32" where
  "from_le_bytes [] = 0"
| "from_le_bytes (b # bs) = Bit_Operations.or (ucast b) (push_bit 8 (from_le_bytes bs))"

definition rd_figure :: "figure reader" where
  "rd_figure = rd_then (rd_fixed 4) (\<lambda>bs. rd_ok (from_le_bytes bs))"

lemma figure_back: "from_le_bytes (wr_figure f) = f"
proof (rule bit_word_eqI)
  fix n :: nat
  assume n: "n < LENGTH(32)"
  consider "n < 8" | "8 \<le> n" "n < 16" | "16 \<le> n" "n < 24" | "24 \<le> n" by linarith
  then show "bit (from_le_bytes (wr_figure f)) n = bit f n"
    using n by cases (auto simp: wr_figure_def bit_simps)
qed

interpretation figures: codec "\<lambda>_. True" wr_figure rd_figure "\<lambda>f. f"
proof
  show "rd_figure (wr_figure f @ rest) = Inr (f, rest)" for f rest
  proof -
    have "length (wr_figure f) = 4" by (simp add: wr_figure_def)
    then show ?thesis by (simp add: rd_figure_def reads figure_back)
  qed
  show "grows rd_figure" unfolding rd_figure_def by (intro growing)
qed

lemmas figure_reads [reads] = figures.read_back [OF TrueI]

lemma figure_option_read [reads]: "rd_option rd_figure (wr_option wr_figure v @ rest) = Inr (v, rest)"
  using figures.option_read_back [of v rest] by (simp add: pred_option_def)

lemmas figure_growing [growing] = figures.growing

definition band_levels_at_most :: nat where
  "band_levels_at_most = 256"

definition band_peaks_at_most :: nat where
  "band_peaks_at_most = 1024"

record shared_study =
  sy_file :: whole_file
  sy_judged_under :: u32
  sy_verdict :: bytes
  sy_cutoff_hz :: "u32 option"
  sy_cutoff_drop :: "figure option"
  sy_lossy_guess :: "bytes option"
  sy_upsampled_from :: "u32 option"
  sy_bits_in_use :: "u8 option"
  sy_declared_bits :: "u8 option"
  sy_peak :: figure
  sy_rms :: figure
  sy_true_peak :: figure
  sy_loudness :: "figure option"
  sy_loudness_range :: "figure option"
  sy_dynamic_range :: "u8 option"
  sy_clipped :: u64
  sy_mono_as_stereo :: bool
  sy_band_levels :: bytes

record shared_band_peaks =
  bp_file :: whole_file
  bp_judged_under :: u32
  bp_peaks :: bytes

datatype answer =
  Lyrics shared_lyrics
| Study shared_study
| Release shared_release
| BandPeaks shared_band_peaks

definition wr_study :: "shared_study \<Rightarrow> bytes" where
  "wr_study s =
     wr_whole_file (sy_file s) @ wr_number (ucast (sy_judged_under s)) @ wr_text (sy_verdict s)
     @ wr_optional_number (sy_cutoff_hz s) @ wr_option wr_figure (sy_cutoff_drop s)
     @ wr_optional_text (sy_lossy_guess s) @ wr_optional_number (sy_upsampled_from s)
     @ wr_optional_byte (sy_bits_in_use s) @ wr_optional_byte (sy_declared_bits s)
     @ wr_figure (sy_peak s) @ wr_figure (sy_rms s) @ wr_figure (sy_true_peak s)
     @ wr_option wr_figure (sy_loudness s) @ wr_option wr_figure (sy_loudness_range s)
     @ wr_optional_byte (sy_dynamic_range s) @ wr_number (sy_clipped s) @ wr_flag (sy_mono_as_stereo s)
     @ wr_bytes (take band_levels_at_most (sy_band_levels s))"

definition rd_study :: "shared_study reader" where
  "rd_study =
     rd_then rd_whole_file (\<lambda>file.
     rd_then rd_small (\<lambda>judged_under.
     rd_then rd_text (\<lambda>verdict.
     rd_then rd_optional_number (\<lambda>cutoff_hz.
     rd_then (rd_option rd_figure) (\<lambda>cutoff_drop.
     rd_then rd_optional_text (\<lambda>lossy_guess.
     rd_then rd_optional_number (\<lambda>upsampled_from.
     rd_then rd_optional_byte (\<lambda>bits_in_use.
     rd_then rd_optional_byte (\<lambda>declared_bits.
     rd_then rd_figure (\<lambda>peak.
     rd_then rd_figure (\<lambda>rms.
     rd_then rd_figure (\<lambda>true_peak.
     rd_then (rd_option rd_figure) (\<lambda>loudness.
     rd_then (rd_option rd_figure) (\<lambda>loudness_range.
     rd_then rd_optional_byte (\<lambda>dynamic_range.
     rd_then rd_number (\<lambda>clipped_frames.
     rd_then rd_flag (\<lambda>mono_as_stereo.
     rd_then (rd_bytes band_levels_at_most) (\<lambda>band_levels.
     rd_ok \<lparr>sy_file = file, sy_judged_under = judged_under, sy_verdict = verdict, sy_cutoff_hz = cutoff_hz,
       sy_cutoff_drop = cutoff_drop, sy_lossy_guess = lossy_guess, sy_upsampled_from = upsampled_from,
       sy_bits_in_use = bits_in_use, sy_declared_bits = declared_bits, sy_peak = peak, sy_rms = rms,
       sy_true_peak = true_peak, sy_loudness = loudness, sy_loudness_range = loudness_range,
       sy_dynamic_range = dynamic_range, sy_clipped = clipped_frames, sy_mono_as_stereo = mono_as_stereo,
       sy_band_levels = band_levels\<rparr>))))))))))))))))))"

fun wr_answer :: "answer \<Rightarrow> bytes" where
  "wr_answer (Lyrics l) =
     wr_byte 0 @ wr_bytes (clipped longest_shared_lyrics (sl_text l)) @ wr_flag (sl_synced l)"
| "wr_answer (Study s) = wr_byte 1 @ wr_study s"
| "wr_answer (Release r) = wr_byte 2 @ wr_release r"
| "wr_answer (BandPeaks p) =
     wr_byte 3 @ wr_whole_file (bp_file p) @ wr_number (ucast (bp_judged_under p))
     @ wr_bytes (take band_peaks_at_most (bp_peaks p))"

definition answer_kinds :: "u8 list" where
  "answer_kinds = [0, 1, 2, 3]"

text \<open>An answer of a kind that is not known is not read; nothing of it past the kind is taken.\<close>

definition rd_answer_among :: "u8 list \<Rightarrow> answer option reader" where
  "rd_answer_among known = rd_then rd_byte (\<lambda>kind.
     if kind \<notin> set known then rd_ok None
     else if kind = 0 then
       rd_then (rd_string longest_shared_lyrics) (\<lambda>t. rd_then rd_flag (\<lambda>synced.
       rd_ok (Some (Lyrics \<lparr>sl_text = t, sl_synced = synced\<rparr>))))
     else if kind = 1 then rd_then rd_study (\<lambda>s. rd_ok (Some (Study s)))
     else if kind = 2 then rd_then rd_release (\<lambda>r. rd_ok (Some (Release r)))
     else if kind = 3 then
       rd_then rd_whole_file (\<lambda>file. rd_then rd_small (\<lambda>judged_under.
       rd_then (rd_bytes band_peaks_at_most) (\<lambda>peaks.
       rd_ok (Some (BandPeaks \<lparr>bp_file = file, bp_judged_under = judged_under, bp_peaks = peaks\<rparr>)))))
     else rd_ok None)"

definition rd_answer :: "answer option reader" where
  "rd_answer = rd_answer_among answer_kinds"

definition study_ok :: "shared_study \<Rightarrow> bool" where
  "study_ok s \<longleftrightarrow> utf8 (sy_verdict s) \<and> pred_option utf8 (sy_lossy_guess s)"

definition sent_study :: "shared_study \<Rightarrow> shared_study" where
  "sent_study s = s\<lparr>sy_verdict := within_the_longest_text (sy_verdict s),
     sy_lossy_guess := map_option within_the_longest_text (sy_lossy_guess s),
     sy_band_levels := take band_levels_at_most (sy_band_levels s)\<rparr>"

fun answer_ok :: "answer \<Rightarrow> bool" where
  "answer_ok (Lyrics l) \<longleftrightarrow> utf8 (sl_text l)"
| "answer_ok (Study s) \<longleftrightarrow> study_ok s"
| "answer_ok (Release r) \<longleftrightarrow> release_ok r"
| "answer_ok (BandPeaks p) \<longleftrightarrow> True"

fun sent_answer :: "answer \<Rightarrow> answer" where
  "sent_answer (Lyrics l) = Lyrics (l\<lparr>sl_text := clipped longest_shared_lyrics (sl_text l)\<rparr>)"
| "sent_answer (Study s) = Study (sent_study s)"
| "sent_answer (Release r) = Release (sent_release r)"
| "sent_answer (BandPeaks p) = BandPeaks (p\<lparr>bp_peaks := take band_peaks_at_most (bp_peaks p)\<rparr>)"

lemma cut_bytes [reads]:
  "rd_bytes band_levels_at_most (wr_bytes (take band_levels_at_most bs) @ rest) = Inr (take band_levels_at_most bs, rest)"
  "rd_bytes band_peaks_at_most (wr_bytes (take band_peaks_at_most bs) @ rest) = Inr (take band_peaks_at_most bs, rest)"
  by (simp_all add: reads band_levels_at_most_def band_peaks_at_most_def u64_max_def)

interpretation studies: codec study_ok wr_study rd_study sent_study
proof
  show "rd_study (wr_study s @ rest) = Inr (sent_study s, rest)" if "study_ok s" for s rest
    using that by (simp add: rd_study_def wr_study_def study_ok_def sent_study_def reads)
  show "grows rd_study" unfolding rd_study_def by (intro growing)
qed

lemmas study_reads [reads] = studies.read_back

lemmas study_growing [growing] = studies.growing

lemma grows_answer [growing]: "grows (rd_answer_among known)"
  unfolding rd_answer_among_def by (intro growing)

lemma rd_answer_written [reads]:
  "answer_ok a \<Longrightarrow> set answer_kinds \<subseteq> set known \<Longrightarrow>
     rd_answer_among known (wr_answer a @ rest) = Inr (Some (sent_answer a), rest)"
  by (cases a) (auto simp: rd_answer_among_def answer_kinds_def reads)

lemma rd_answer_unknown: "kind \<notin> set known \<Longrightarrow> rd_answer_among known (kind # rest) = Inr (None, rest)"
  by (simp add: rd_answer_among_def rd_byte_def)

definition decoded_answer :: "bytes \<Rightarrow> malformed + answer option" where
  "decoded_answer bs = (case rd_answer bs of
     Inl e \<Rightarrow> Inl e
   | Inr (None, _) \<Rightarrow> Inr None
   | Inr (Some a, rest) \<Rightarrow> (case rd_done rest of Inl e \<Rightarrow> Inl e | Inr _ \<Rightarrow> Inr (Some a)))"

definition encoded_recordings :: "recording list \<Rightarrow> bytes" where
  "encoded_recordings rs = wr_list wr_recording rs"

definition decoded_recordings :: "bytes \<Rightarrow> malformed + recording list" where
  "decoded_recordings = rd_whole (rd_then rd_count (\<lambda>n. rd_many n rd_recording))"

definition decoded_recording :: "bytes \<Rightarrow> malformed + recording" where
  "decoded_recording = rd_whole rd_recording"

end
