(* ===== verification/WireRemote.thy ===== *)
theory WireRemote
  imports WireData
begin

text \<open>
  Driving a player from another device (\<open>crates/resonate-sync/src/remote.rs\<close>, and
  \<open>RemoteTrust\<close> and \<open>ZoneId\<close> of \<open>crates/resonate-core/src/zone.rs\<close>): what a device may ask, what it is
  trusted with, and the mirror of its zones it is shown, each as it is written and read. Rows
  are \<open>usize\<close>, 64 bits wide, so every number read is a row. An \<open>Instant\<close> is the duration since
  some fixed moment; what turns a volume into thousandths is arithmetic on floats and left out.
\<close>

subsection \<open>Trust and commands\<close>

datatype remote_trust = TrustEverything | TrustTransport | TrustNothing

definition trust_shows :: "remote_trust \<Rightarrow> bool" where
  "trust_shows t \<longleftrightarrow> t \<noteq> TrustNothing"

definition trust_edits_the_queue :: "remote_trust \<Rightarrow> bool" where
  "trust_edits_the_queue t \<longleftrightarrow> t = TrustEverything"

type_synonym permille = u16

definition permille_new :: "u16 \<Rightarrow> permille" where
  "permille_new n = (if n > 1000 then 1000 else n)"

datatype remote_command =
  RemotePlay | RemotePause | RemoteToggle | RemoteNext | RemotePrevious
| RemoteSeek duration
| RemoteVolume permille
| RemoteMove u64 u64
| RemoteRemove u64
| RemoteJump u64

fun command_edits_the_queue :: "remote_command \<Rightarrow> bool" where
  "command_edits_the_queue (RemoteMove _ _) = True"
| "command_edits_the_queue (RemoteRemove _) = True"
| "command_edits_the_queue _ = False"

definition trusted_by :: "remote_trust \<Rightarrow> remote_command \<Rightarrow> bool" where
  "trusted_by t c \<longleftrightarrow> trust_shows t \<and> (trust_edits_the_queue t \<or> \<not> command_edits_the_queue c)"

fun wr_command :: "remote_command \<Rightarrow> bytes" where
  "wr_command RemotePlay = wr_byte 0"
| "wr_command RemotePause = wr_byte 1"
| "wr_command RemoteToggle = wr_byte 2"
| "wr_command RemoteNext = wr_byte 3"
| "wr_command RemotePrevious = wr_byte 4"
| "wr_command (RemoteSeek d) = wr_byte 5 @ wr_duration d"
| "wr_command (RemoteVolume v) = wr_byte 6 @ wr_number (ucast v)"
| "wr_command (RemoteMove a b) = wr_byte 7 @ wr_number a @ wr_number b"
| "wr_command (RemoteRemove r) = wr_byte 8 @ wr_number r"
| "wr_command (RemoteJump r) = wr_byte 9 @ wr_number r"

definition rd_command :: "remote_command reader" where
  "rd_command = rd_then rd_byte (\<lambda>tag.
     if tag = 0 then rd_ok RemotePlay
     else if tag = 1 then rd_ok RemotePause
     else if tag = 2 then rd_ok RemoteToggle
     else if tag = 3 then rd_ok RemoteNext
     else if tag = 4 then rd_ok RemotePrevious
     else if tag = 5 then rd_then rd_duration (\<lambda>d. rd_ok (RemoteSeek d))
     else if tag = 6 then rd_then rd_half (\<lambda>v. rd_ok (RemoteVolume (permille_new v)))
     else if tag = 7 then rd_then rd_number (\<lambda>a. rd_then rd_number (\<lambda>b. rd_ok (RemoteMove a b)))
     else if tag = 8 then rd_then rd_number (\<lambda>r. rd_ok (RemoteRemove r))
     else if tag = 9 then rd_then rd_number (\<lambda>r. rd_ok (RemoteJump r))
     else rd_fail (BadTag tag))"

fun command_ok :: "remote_command \<Rightarrow> bool" where
  "command_ok (RemoteVolume v) \<longleftrightarrow> v \<le> 1000"
| "command_ok _ \<longleftrightarrow> True"

fun sent_command :: "remote_command \<Rightarrow> remote_command" where
  "sent_command (RemoteSeek d) = RemoteSeek (in_millis d)"
| "sent_command c = c"

lemma permille_new_kept: "v \<le> 1000 \<Longrightarrow> permille_new v = v"
  by (auto simp: permille_new_def)

interpretation commands: codec command_ok wr_command rd_command sent_command
proof
  show "rd_command (wr_command c @ rest) = Inr (sent_command c, rest)" if "command_ok c" for c rest
    using that by (cases c) (simp_all add: rd_command_def reads permille_new_kept)
  show "grows rd_command" unfolding rd_command_def by (intro growing)
qed

lemmas command_reads [reads] = commands.read_back

lemmas command_growing [growing] = commands.growing

subsection \<open>What came of a command\<close>

datatype controlling =
  Done | Untrusted | Uncontrollable | NoSuchZone | NoSuchRow | Failed | Unanswered

fun controlling_tag :: "controlling \<Rightarrow> u8" where
  "controlling_tag Done = 0"
| "controlling_tag Untrusted = 1"
| "controlling_tag Uncontrollable = 2"
| "controlling_tag NoSuchZone = 3"
| "controlling_tag NoSuchRow = 4"
| "controlling_tag Failed = 5"
| "controlling_tag Unanswered = 255"

definition controlling_tagged :: "u8 \<Rightarrow> controlling" where
  "controlling_tagged tag =
     (if tag = 0 then Done else if tag = 1 then Untrusted else if tag = 2 then Uncontrollable
      else if tag = 3 then NoSuchZone else if tag = 4 then NoSuchRow else if tag = 5 then Failed
      else Unanswered)"

datatype uncontrolled = GoneZone | GoneRow | WentWrong

fun from_uncontrolled :: "uncontrolled \<Rightarrow> controlling" where
  "from_uncontrolled GoneZone = NoSuchZone"
| "from_uncontrolled GoneRow = NoSuchRow"
| "from_uncontrolled WentWrong = Failed"

lemma controlling_back [simp]: "controlling_tagged (controlling_tag c) = c"
  by (cases c) (simp_all add: controlling_tagged_def)

subsection \<open>Zones\<close>

datatype remote_playback = RemoteIdle | RemotePlaying | RemotePaused | RemoteStopped

fun playback_tag :: "remote_playback \<Rightarrow> u8" where
  "playback_tag RemoteIdle = 0"
| "playback_tag RemotePlaying = 1"
| "playback_tag RemotePaused = 2"
| "playback_tag RemoteStopped = 3"

definition playback_tagged :: "u8 \<Rightarrow> remote_playback" where
  "playback_tagged tag =
     (if tag = 1 then RemotePlaying else if tag = 2 then RemotePaused
      else if tag = 3 then RemoteStopped else RemoteIdle)"

lemma playback_back [simp]: "playback_tagged (playback_tag p) = p"
  by (cases p) (simp_all add: playback_tagged_def)

record remote_row =
  rr_title :: bytes
  rr_artist :: bytes
  rr_length :: "duration option"

record remote_zone =
  rz_zone :: u32
  rz_name :: bytes
  rz_playback :: remote_playback
  rz_playing :: "u64 option"
  rz_position :: duration
  rz_length :: "duration option"
  rz_volume :: permille
  rz_queue_length :: u64
  rz_first_row :: u64
  rz_rows :: "remote_row list"

definition zones_mirrored_at_most :: nat where
  "zones_mirrored_at_most = 16"

definition rows_mirrored_at_most :: nat where
  "rows_mirrored_at_most = 500"

definition zone_new :: "u32 \<Rightarrow> u32 option" where
  "zone_new raw = (if raw = 0 then None else Some raw)"

definition playing_row :: "remote_zone \<Rightarrow> remote_row option" where
  "playing_row z = (case rz_playing z of None \<Rightarrow> None
     | Some r \<Rightarrow> if rz_first_row z \<le> r then get (rz_rows z) (unat (r - rz_first_row z)) else None)"

definition row_shown :: "u64 \<Rightarrow> remote_zone \<Rightarrow> remote_row option" where
  "row_shown r z = (if rz_first_row z \<le> r then get (rz_rows z) (unat (r - rz_first_row z)) else None)"

definition wr_row :: "remote_row \<Rightarrow> bytes" where
  "wr_row r = wr_text (rr_title r) @ wr_text (rr_artist r) @ wr_option wr_duration (rr_length r)"

definition rd_row :: "remote_row reader" where
  "rd_row =
     rd_then rd_text (\<lambda>title.
     rd_then rd_text (\<lambda>artist.
     rd_then (rd_option rd_duration) (\<lambda>len.
     rd_ok \<lparr>rr_title = title, rr_artist = artist, rr_length = len\<rparr>)))"

definition saturating_suc :: "u64 \<Rightarrow> u64" where
  "saturating_suc v = (if v = - 1 then - 1 else v + 1)"

definition playing_number :: "u64 option \<Rightarrow> u64" where
  "playing_number p = (case p of None \<Rightarrow> 0 | Some r \<Rightarrow> saturating_suc r)"

definition playing_numbered :: "u64 \<Rightarrow> u64 option" where
  "playing_numbered n = (if n = 0 then None else Some (n - 1))"

definition rd_rows :: "remote_row list reader" where
  "rd_rows = rd_then (rd_at_most 3 rows_mirrored_at_most) (\<lambda>n. rd_many n rd_row)"

definition wr_zone :: "remote_zone \<Rightarrow> bytes" where
  "wr_zone z =
     wr_number (ucast (rz_zone z)) @ wr_text (rz_name z) @ wr_byte (playback_tag (rz_playback z))
     @ wr_number (playing_number (rz_playing z))
     @ wr_duration (rz_position z) @ wr_option wr_duration (rz_length z) @ wr_number (ucast (rz_volume z))
     @ wr_number (rz_queue_length z) @ wr_number (rz_first_row z)
     @ wr_list wr_row (take rows_mirrored_at_most (rz_rows z))"

definition rd_zone :: "remote_zone reader" where
  "rd_zone =
     rd_then rd_small (\<lambda>raw.
     case zone_new raw of None \<Rightarrow> rd_fail BadNumber
     | Some zone \<Rightarrow>
     rd_then rd_text (\<lambda>name.
     rd_then rd_byte (\<lambda>tag.
     rd_then rd_number (\<lambda>playing.
     rd_then rd_duration (\<lambda>position.
     rd_then (rd_option rd_duration) (\<lambda>len.
     rd_then rd_half (\<lambda>volume.
     rd_then rd_number (\<lambda>queue_length.
     rd_then rd_number (\<lambda>first_row.
     rd_then rd_rows (\<lambda>rows.
     rd_ok \<lparr>rz_zone = zone, rz_name = name, rz_playback = playback_tagged tag,
       rz_playing = playing_numbered playing, rz_position = position,
       rz_length = len, rz_volume = permille_new volume, rz_queue_length = queue_length,
       rz_first_row = first_row, rz_rows = rows\<rparr>))))))))))"

definition wr_zones :: "remote_zone list \<Rightarrow> bytes" where
  "wr_zones zs = wr_list wr_zone (take zones_mirrored_at_most zs)"

definition rd_zones :: "remote_zone list reader" where
  "rd_zones = rd_then (rd_at_most 8 zones_mirrored_at_most) (\<lambda>n. rd_many n rd_zone)"

definition row_ok :: "remote_row \<Rightarrow> bool" where
  "row_ok r \<longleftrightarrow> utf8 (rr_title r) \<and> utf8 (rr_artist r)"

definition sent_row :: "remote_row \<Rightarrow> remote_row" where
  "sent_row r = r\<lparr>rr_title := within_the_longest_text (rr_title r),
     rr_artist := within_the_longest_text (rr_artist r), rr_length := map_option in_millis (rr_length r)\<rparr>"

definition zone_ok :: "remote_zone \<Rightarrow> bool" where
  "zone_ok z \<longleftrightarrow> rz_zone z \<noteq> 0 \<and> utf8 (rz_name z) \<and> rz_playing z \<noteq> Some (- 1) \<and> rz_volume z \<le> 1000 \<and>
     list_all row_ok (rz_rows z)"

definition sent_zone :: "remote_zone \<Rightarrow> remote_zone" where
  "sent_zone z = z\<lparr>rz_name := within_the_longest_text (rz_name z), rz_position := in_millis (rz_position z),
     rz_length := map_option in_millis (rz_length z),
     rz_rows := map sent_row (take rows_mirrored_at_most (rz_rows z))\<rparr>"

interpretation rows: sized_codec row_ok wr_row rd_row sent_row 3
proof
  show "rd_row (wr_row r @ rest) = Inr (sent_row r, rest)" if "row_ok r" for r rest
    using that by (simp add: rd_row_def wr_row_def row_ok_def sent_row_def reads pred_option_def)
  show "grows rd_row" unfolding rd_row_def by (intro growing)
  show "3 \<le> length (wr_row r)" for r
    using text_length [of "rr_title r"] text_length [of "rr_artist r"] option_nonempty [of wr_duration "rr_length r"]
    by (simp add: wr_row_def)
qed

lemma playing_back: "p \<noteq> Some (- 1) \<Longrightarrow> playing_numbered (playing_number p) = p"
  by (cases p) (auto simp: playing_numbered_def playing_number_def saturating_suc_def eq_neg_iff_add_eq_0)

lemma rows_written [reads]:
  assumes "list_all row_ok rs"
  shows "rd_rows (wr_list wr_row (take rows_mirrored_at_most rs) @ rest) = Inr (map sent_row (take rows_mirrored_at_most rs), rest)"
  using rows.at_most_read_back [OF list_all_take [OF assms], of rows_mirrored_at_most 3 rows_mirrored_at_most rest]
  by (simp add: rd_rows_def rows_mirrored_at_most_def u64_max_def)

lemma grows_rows [growing]: "grows rd_rows"
  unfolding rd_rows_def by (intro growing rows.growing)

interpretation zones: sized_codec zone_ok wr_zone rd_zone sent_zone 10
proof
  show "rd_zone (wr_zone z @ rest) = Inr (sent_zone z, rest)" if "zone_ok z" for z rest
    using that by (simp add: rd_zone_def wr_zone_def zone_ok_def sent_zone_def reads zone_new_def
        permille_new_kept playing_back pred_option_def)
  show "grows rd_zone" unfolding rd_zone_def by (intro growing)
  show "10 \<le> length (wr_zone z)" for z
    using number_nonempty [of "ucast (rz_zone z)"] text_length [of "rz_name z"]
      number_nonempty [of "playing_number (rz_playing z)"]
      durations.long_enough [OF TrueI, of "rz_position z"] option_nonempty [of wr_duration "rz_length z"]
      number_nonempty [of "ucast (rz_volume z)"] number_nonempty [of "rz_queue_length z"]
      number_nonempty [of "rz_first_row z"] list_length [of wr_row "take rows_mirrored_at_most (rz_rows z)"]
    by (simp add: wr_zone_def wr_byte_def)
qed

lemma zones_written [reads]:
  assumes "list_all zone_ok zs"
  shows "rd_zones (wr_zones zs @ rest) = Inr (map sent_zone (take zones_mirrored_at_most zs), rest)"
  using zones.at_most_read_back [OF list_all_take [OF assms], of zones_mirrored_at_most 8 zones_mirrored_at_most rest]
  by (simp add: rd_zones_def wr_zones_def zones_mirrored_at_most_def u64_max_def)

lemma grows_zones [growing]: "grows rd_zones"
  unfolding rd_zones_def by (intro growing zones.growing)

end
