(* ===== verification/WireServer.thy ===== *)
theory WireServer
  imports Wire
begin

text \<open>
  The messages between a device and the sync server (\<open>ToServer\<close>, \<open>FromServer\<close> and \<open>Refusal\<close> of
  \<open>crates/resonate-sync/src/wire.rs\<close>), with the sizes of \<open>key.rs\<close>. A sealed blob is at least
  \<open>SEALED_AT_LEAST\<close> bytes long, the nonce and the tag of the cipher, whose lengths are constants
  of the \<open>ring\<close> crate: that least length is the parameter \<open>sealed_least\<close>.
\<close>

subsection \<open>Sizes, and sealed blobs\<close>

definition space_bytes :: nat where
  "space_bytes = 16"

definition token_bytes :: nat where
  "token_bytes = 32"

definition largest_frame :: nat where
  "largest_frame = 33554432"

definition largest_blob :: nat where
  "largest_blob = largest_frame"

definition largest_datagram :: nat where
  "largest_datagram = 2048"

definition largest_room_frame :: nat where
  "largest_room_frame = 262144"

definition heads_asked_at_most :: nat where
  "heads_asked_at_most = 256"

lemmas wire_sizes =
  space_bytes_def token_bytes_def largest_frame_def largest_blob_def largest_datagram_def
  largest_room_frame_def heads_asked_at_most_def longest_text_def device_bytes_def u64_max_def

definition rd_sealed :: "nat \<Rightarrow> bytes reader" where
  "rd_sealed sealed_least = rd_then (rd_bytes largest_blob) (\<lambda>blob.
     if length blob < sealed_least then rd_fail (Short (length blob)) else rd_ok blob)"

definition wr_blobs :: "bytes list \<Rightarrow> bytes" where
  "wr_blobs blobs = wr_list wr_bytes blobs"

definition rd_blobs :: "nat \<Rightarrow> bytes list reader" where
  "rd_blobs sealed_least =
     rd_then (rd_count_of (sealed_least + 1)) (\<lambda>n. rd_many n (rd_sealed sealed_least))"

definition blob_ok :: "nat \<Rightarrow> bytes \<Rightarrow> bool" where
  "blob_ok sealed_least blob \<longleftrightarrow> sealed_least \<le> length blob \<and> length blob \<le> largest_blob"

definition blobs_ok :: "nat \<Rightarrow> bytes list \<Rightarrow> bool" where
  "blobs_ok sealed_least blobs \<longleftrightarrow> list_all (blob_ok sealed_least) blobs \<and> length blobs \<le> u64_max"

interpretation blobs: sized_codec "blob_ok least" wr_bytes "rd_sealed least" "\<lambda>b. b" "least + 1" for least
proof
  show "rd_sealed least (wr_bytes b @ rest) = Inr (b, rest)" if "blob_ok least b" for b rest
    using that by (simp add: rd_sealed_def blob_ok_def reads largest_blob_def largest_frame_def u64_max_def)
  show "grows (rd_sealed least)" unfolding rd_sealed_def by (intro growing)
  show "least + 1 \<le> length (wr_bytes b)" if "blob_ok least b" for b
    using that length_nonempty [of "length b"] by (simp add: wr_bytes_def blob_ok_def)
qed

lemmas sealed_reads [reads] = blobs.read_back

lemma blobs_written [reads]:
  "blobs_ok least bs \<Longrightarrow> rd_blobs least (wr_blobs bs @ rest) = Inr (bs, rest)"
  using blobs.list_read_back [of least bs "least + 1" rest] by (simp add: rd_blobs_def wr_blobs_def blobs_ok_def)

lemma grows_blobs [growing]: "grows (rd_sealed least)" "grows (rd_blobs least)"
  unfolding rd_blobs_def by (intro growing blobs.growing)+

lemma fixed_ok [reads]: "length bs = n \<Longrightarrow> rd_fixed n (bs @ rest) = Inr (bs, rest)"
  by (rule rd_fixed_written)

definition rd_version :: "u16 reader" where
  "rd_version = rd_half"

lemma rd_version_written [reads]: "rd_version (wr_number (ucast v) @ rest) = Inr (v, rest)"
  by (simp add: rd_version_def reads)

lemma grows_version [growing]: "grows rd_version"
  unfolding rd_version_def by (intro growing)

subsection \<open>To the server\<close>

record space_asked =
  ask_space :: bytes
  ask_token :: bytes

datatype to_server =
  Hello u16 bytes bytes device_id u64
| Append "bytes list"
| Compact u64 "bytes list"
| Punch device_id bytes
| Bye
| Relaying
| Relay device_id bytes
| Share u16 bytes bytes bytes device_id u64
| View u16 bytes bytes device_id u64
| AskHeads u16 "space_asked list"
| Close bytes
| Room u16 bytes bytes "bytes option" device_id
| RoomSay "device_id option" bytes
| RoomPing u64
| RoomKick device_id

definition wr_asked :: "space_asked \<Rightarrow> bytes" where
  "wr_asked a = ask_space a @ ask_token a"

definition rd_asked :: "space_asked reader" where
  "rd_asked = rd_then (rd_fixed space_bytes) (\<lambda>space. rd_then (rd_fixed token_bytes) (\<lambda>token.
     rd_ok \<lparr>ask_space = space, ask_token = token\<rparr>))"

fun to_server_encoded :: "to_server \<Rightarrow> bytes" where
  "to_server_encoded (Hello version space token device after) =
     wr_byte 0 @ wr_number (ucast version) @ space @ token @ device @ wr_number after"
| "to_server_encoded (Append blobs) = wr_byte 1 @ wr_blobs blobs"
| "to_server_encoded (Compact through parts) = wr_byte 2 @ wr_number through @ wr_blobs parts"
| "to_server_encoded (Punch to sealed) = wr_byte 3 @ to @ wr_bytes sealed"
| "to_server_encoded Bye = wr_byte 4"
| "to_server_encoded Relaying = wr_byte 5"
| "to_server_encoded (Relay to datagram) = wr_byte 6 @ to @ wr_bytes datagram"
| "to_server_encoded (Share version space token viewer device after) =
     wr_byte 7 @ wr_number (ucast version) @ space @ token @ viewer @ device @ wr_number after"
| "to_server_encoded (View version space token device after) =
     wr_byte 8 @ wr_number (ucast version) @ space @ token @ device @ wr_number after"
| "to_server_encoded (AskHeads version asked) = wr_byte 9 @ wr_number (ucast version) @ wr_list wr_asked asked"
| "to_server_encoded (Close sealed) = wr_byte 10 @ wr_bytes sealed"
| "to_server_encoded (Room version room token host member) =
     wr_byte 11 @ wr_number (ucast version) @ room @ token @ wr_option (\<lambda>h. h) host @ member"
| "to_server_encoded (RoomSay to sealed) = wr_byte 12 @ wr_option (\<lambda>d. d) to @ wr_bytes sealed"
| "to_server_encoded (RoomPing nonce) = wr_byte 13 @ wr_number nonce"
| "to_server_encoded (RoomKick member) = wr_byte 14 @ member"

definition rd_asked_list :: "space_asked list reader" where
  "rd_asked_list = rd_then (rd_count_of (space_bytes + token_bytes)) (\<lambda>n.
     if n > heads_asked_at_most then rd_fail BadNumber else rd_many n rd_asked)"

definition rd_to_server :: "nat \<Rightarrow> to_server reader" where
  "rd_to_server sealed_least = rd_then rd_byte (\<lambda>tag.
     if tag = 0 then
       rd_then rd_version (\<lambda>version. rd_then (rd_fixed space_bytes) (\<lambda>space.
       rd_then (rd_fixed token_bytes) (\<lambda>token. rd_then rd_device (\<lambda>device.
       rd_then rd_number (\<lambda>after. rd_ok (Hello version space token device after))))))
     else if tag = 1 then rd_then (rd_blobs sealed_least) (\<lambda>blobs. rd_ok (Append blobs))
     else if tag = 2 then
       rd_then rd_number (\<lambda>through. rd_then (rd_blobs sealed_least) (\<lambda>parts. rd_ok (Compact through parts)))
     else if tag = 3 then
       rd_then rd_device (\<lambda>to. rd_then (rd_bytes longest_text) (\<lambda>sealed. rd_ok (Punch to sealed)))
     else if tag = 4 then rd_ok Bye
     else if tag = 5 then rd_ok Relaying
     else if tag = 6 then
       rd_then rd_device (\<lambda>to. rd_then (rd_bytes largest_datagram) (\<lambda>datagram. rd_ok (Relay to datagram)))
     else if tag = 7 then
       rd_then rd_version (\<lambda>version. rd_then (rd_fixed space_bytes) (\<lambda>space.
       rd_then (rd_fixed token_bytes) (\<lambda>token. rd_then (rd_fixed token_bytes) (\<lambda>viewer.
       rd_then rd_device (\<lambda>device. rd_then rd_number (\<lambda>after.
       rd_ok (Share version space token viewer device after)))))))
     else if tag = 8 then
       rd_then rd_version (\<lambda>version. rd_then (rd_fixed space_bytes) (\<lambda>space.
       rd_then (rd_fixed token_bytes) (\<lambda>token. rd_then rd_device (\<lambda>device.
       rd_then rd_number (\<lambda>after. rd_ok (View version space token device after))))))
     else if tag = 9 then
       rd_then rd_version (\<lambda>version. rd_then rd_asked_list (\<lambda>asked. rd_ok (AskHeads version asked)))
     else if tag = 10 then rd_then (rd_sealed sealed_least) (\<lambda>sealed. rd_ok (Close sealed))
     else if tag = 11 then
       rd_then rd_version (\<lambda>version. rd_then (rd_fixed space_bytes) (\<lambda>room.
       rd_then (rd_fixed token_bytes) (\<lambda>token. rd_then (rd_option (rd_fixed token_bytes)) (\<lambda>host.
       rd_then rd_device (\<lambda>member. rd_ok (Room version room token host member))))))
     else if tag = 12 then
       rd_then (rd_option rd_device) (\<lambda>to. rd_then (rd_bytes largest_room_frame) (\<lambda>sealed.
       rd_ok (RoomSay to sealed)))
     else if tag = 13 then rd_then rd_number (\<lambda>nonce. rd_ok (RoomPing nonce))
     else if tag = 14 then rd_then rd_device (\<lambda>member. rd_ok (RoomKick member))
     else rd_fail (BadTag tag))"

definition to_server_decoded :: "nat \<Rightarrow> bytes \<Rightarrow> malformed + to_server" where
  "to_server_decoded sealed_least = rd_whole (rd_to_server sealed_least)"

definition space_ok :: "bytes \<Rightarrow> bool" where
  "space_ok s \<longleftrightarrow> length s = space_bytes"

definition token_ok :: "bytes \<Rightarrow> bool" where
  "token_ok t \<longleftrightarrow> length t = token_bytes"

definition asked_ok :: "space_asked \<Rightarrow> bool" where
  "asked_ok a \<longleftrightarrow> space_ok (ask_space a) \<and> token_ok (ask_token a)"

fun to_server_ok :: "nat \<Rightarrow> to_server \<Rightarrow> bool" where
  "to_server_ok least (Hello _ space token device _) \<longleftrightarrow> space_ok space \<and> token_ok token \<and> device_ok device"
| "to_server_ok least (Append blobs) \<longleftrightarrow> blobs_ok least blobs"
| "to_server_ok least (Compact _ parts) \<longleftrightarrow> blobs_ok least parts"
| "to_server_ok least (Punch to sealed) \<longleftrightarrow> device_ok to \<and> length sealed \<le> longest_text"
| "to_server_ok least (Relay to datagram) \<longleftrightarrow> device_ok to \<and> length datagram \<le> largest_datagram"
| "to_server_ok least (Share _ space token viewer device _) \<longleftrightarrow>
     space_ok space \<and> token_ok token \<and> token_ok viewer \<and> device_ok device"
| "to_server_ok least (View _ space token device _) \<longleftrightarrow> space_ok space \<and> token_ok token \<and> device_ok device"
| "to_server_ok least (AskHeads _ asked) \<longleftrightarrow> list_all asked_ok asked \<and> length asked \<le> heads_asked_at_most"
| "to_server_ok least (Close sealed) \<longleftrightarrow> blob_ok least sealed"
| "to_server_ok least (Room _ room token host member) \<longleftrightarrow>
     space_ok room \<and> token_ok token \<and> pred_option token_ok host \<and> device_ok member"
| "to_server_ok least (RoomSay to sealed) \<longleftrightarrow> pred_option device_ok to \<and> length sealed \<le> largest_room_frame"
| "to_server_ok least (RoomKick member) \<longleftrightarrow> device_ok member"
| "to_server_ok least _ \<longleftrightarrow> True"

interpretation spaces: sized_codec space_ok "\<lambda>s. s" "rd_fixed space_bytes" "\<lambda>s. s" space_bytes
  by unfold_locales (auto simp: space_ok_def reads growing)

interpretation tokens: sized_codec token_ok "\<lambda>t. t" "rd_fixed token_bytes" "\<lambda>t. t" token_bytes
  by unfold_locales (auto simp: token_ok_def reads growing)

lemma option_same [simp]: "map_option (\<lambda>x. x) v = v"
  by (cases v) simp_all

lemmas plain_option_reads [reads] =
  tokens.read_back spaces.read_back tokens.option_read_back [simplified] devices.option_read_back [simplified]

interpretation asked: sized_codec asked_ok wr_asked rd_asked "\<lambda>a. a" "space_bytes + token_bytes"
proof
  show "rd_asked (wr_asked a @ rest) = Inr (a, rest)" if "asked_ok a" for a rest
    using that by (simp add: rd_asked_def wr_asked_def asked_ok_def reads)
  show "grows rd_asked" unfolding rd_asked_def by (intro growing)
  show "space_bytes + token_bytes \<le> length (wr_asked a)" if "asked_ok a" for a
    using that by (simp add: wr_asked_def asked_ok_def space_ok_def token_ok_def)
qed

lemma asked_list_written [reads]:
  assumes "list_all asked_ok asked" and "length asked \<le> heads_asked_at_most"
  shows "rd_asked_list (wr_list wr_asked asked @ rest) = Inr (asked, rest)"
proof -
  have "length asked \<le> u64_max" using assms(2) by (simp add: wire_sizes)
  from asked.count_written [OF assms(1) this order.refl] asked.many [OF assms(1)] show ?thesis
    using assms(2) by (simp add: rd_asked_list_def wr_list_def wire_sizes)
qed

lemma grows_asked [growing]: "grows rd_asked_list"
  unfolding rd_asked_list_def by (intro growing asked.growing)

lemma frame_read [reads]:
  "length bs \<le> longest_text \<Longrightarrow> rd_bytes longest_text (wr_bytes bs @ rest) = Inr (bs, rest)"
  "length bs \<le> largest_datagram \<Longrightarrow> rd_bytes largest_datagram (wr_bytes bs @ rest) = Inr (bs, rest)"
  "length bs \<le> largest_room_frame \<Longrightarrow> rd_bytes largest_room_frame (wr_bytes bs @ rest) = Inr (bs, rest)"
  by (simp_all add: reads wire_sizes)

interpretation to_server: codec "to_server_ok least" to_server_encoded "rd_to_server least" "\<lambda>m. m" for least
proof
  show "rd_to_server least (to_server_encoded m @ rest) = Inr (m, rest)" if "to_server_ok least m" for m rest
    using that by (cases m) (simp_all add: rd_to_server_def reads)
  show "grows (rd_to_server least)" unfolding rd_to_server_def by (intro growing)
qed

subsection \<open>From the server\<close>

datatype refusal =
  RefusedVersion | RefusedToken | TooLarge | SpaceFull | TooFast | Busy | Stale | NoSuchRoom | UnknownRefusal

fun refusal_tag :: "refusal \<Rightarrow> u8" where
  "refusal_tag RefusedVersion = 0"
| "refusal_tag RefusedToken = 1"
| "refusal_tag TooLarge = 2"
| "refusal_tag SpaceFull = 3"
| "refusal_tag TooFast = 4"
| "refusal_tag Busy = 5"
| "refusal_tag Stale = 6"
| "refusal_tag NoSuchRoom = 7"
| "refusal_tag UnknownRefusal = 255"

definition refusal_from_tag :: "u8 \<Rightarrow> refusal" where
  "refusal_from_tag tag =
     (if tag = 0 then RefusedVersion else if tag = 1 then RefusedToken else if tag = 2 then TooLarge
      else if tag = 3 then SpaceFull else if tag = 4 then TooFast else if tag = 5 then Busy
      else if tag = 6 then Stale else if tag = 7 then NoSuchRoom else UnknownRefusal)"

lemma refusal_back [simp]: "refusal_from_tag (refusal_tag r) = r"
  by (cases r) (simp_all add: refusal_from_tag_def)

record space_head =
  head_space :: bytes
  head_at :: u64
  head_closed :: bool

record ledger_record =
  rec_seq :: u64
  rec_blob :: "bytes option"

datatype from_server =
  Welcome "device_id list" socket_addr u64
| Snapshot u64 "bytes list"
| Records "ledger_record list"
| Appended u32
| Arrived device_id
| Left device_id
| Punched device_id socket_addr bytes
| Compacted u64
| RefusedWith refusal
| Relayed device_id bytes
| Closed bytes
| HeadsAre "space_head list"
| RoomWelcome "device_id list" device_id
| RoomHeard device_id bytes
| RoomArrived device_id
| RoomLeft device_id
| RoomPong u64 u64
| RoomEnded

definition wr_record :: "ledger_record \<Rightarrow> bytes" where
  "wr_record r = wr_number (rec_seq r) @ wr_option wr_bytes (rec_blob r)"

definition rd_record :: "nat \<Rightarrow> ledger_record reader" where
  "rd_record sealed_least = rd_then rd_number (\<lambda>seq. rd_then (rd_option (rd_sealed sealed_least)) (\<lambda>blob.
     rd_ok \<lparr>rec_seq = seq, rec_blob = blob\<rparr>))"

definition wr_head :: "space_head \<Rightarrow> bytes" where
  "wr_head h = head_space h @ wr_number (head_at h) @ wr_flag (head_closed h)"

definition rd_head :: "space_head reader" where
  "rd_head = rd_then (rd_fixed space_bytes) (\<lambda>space. rd_then rd_number (\<lambda>at. rd_then rd_flag (\<lambda>closed.
     rd_ok \<lparr>head_space = space, head_at = at, head_closed = closed\<rparr>)))"

fun from_server_encoded :: "from_server \<Rightarrow> bytes" where
  "from_server_encoded (Welcome online seen_at h) =
     wr_byte 0 @ wr_list (\<lambda>d. d) online @ wr_address seen_at @ wr_number h"
| "from_server_encoded (Snapshot through parts) = wr_byte 1 @ wr_number through @ wr_blobs parts"
| "from_server_encoded (Records entries) = wr_byte 2 @ wr_list wr_record entries"
| "from_server_encoded (Appended n) = wr_byte 3 @ wr_number (ucast n)"
| "from_server_encoded (Arrived device) = wr_byte 4 @ device"
| "from_server_encoded (Left device) = wr_byte 5 @ device"
| "from_server_encoded (Punched device address sealed) =
     wr_byte 6 @ device @ wr_address address @ wr_bytes sealed"
| "from_server_encoded (Compacted through) = wr_byte 7 @ wr_number through"
| "from_server_encoded (RefusedWith refusal) = wr_byte 8 @ wr_byte (refusal_tag refusal)"
| "from_server_encoded (Relayed device datagram) = wr_byte 9 @ device @ wr_bytes datagram"
| "from_server_encoded (Closed sealed) = wr_byte 10 @ wr_bytes sealed"
| "from_server_encoded (HeadsAre heads) = wr_byte 11 @ wr_list wr_head heads"
| "from_server_encoded (RoomWelcome members host) = wr_byte 12 @ wr_list (\<lambda>d. d) members @ host"
| "from_server_encoded (RoomHeard device sealed) = wr_byte 13 @ device @ wr_bytes sealed"
| "from_server_encoded (RoomArrived member) = wr_byte 14 @ member"
| "from_server_encoded (RoomLeft member) = wr_byte 15 @ member"
| "from_server_encoded (RoomPong nonce at_nanos) = wr_byte 16 @ wr_number nonce @ wr_number at_nanos"
| "from_server_encoded RoomEnded = wr_byte 17"

definition rd_records :: "nat \<Rightarrow> ledger_record list reader" where
  "rd_records sealed_least = rd_then (rd_count_of 2) (\<lambda>n. rd_many n (rd_record sealed_least))"

definition rd_heads :: "space_head list reader" where
  "rd_heads = rd_then (rd_count_of (space_bytes + 2)) (\<lambda>n. rd_many n rd_head)"

definition rd_online :: "device_id list reader" where
  "rd_online = rd_then rd_count (\<lambda>n. rd_many n rd_device)"

definition rd_members :: "device_id list reader" where
  "rd_members = rd_then (rd_count_of device_bytes) (\<lambda>n. rd_many n rd_device)"

definition rd_from_server :: "nat \<Rightarrow> from_server reader" where
  "rd_from_server sealed_least = rd_then rd_byte (\<lambda>tag.
     if tag = 0 then
       rd_then rd_online (\<lambda>online. rd_then rd_address (\<lambda>seen_at. rd_then rd_number (\<lambda>h.
       rd_ok (Welcome online seen_at h))))
     else if tag = 1 then
       rd_then rd_number (\<lambda>through. rd_then (rd_blobs sealed_least) (\<lambda>parts. rd_ok (Snapshot through parts)))
     else if tag = 2 then rd_then (rd_records sealed_least) (\<lambda>entries. rd_ok (Records entries))
     else if tag = 3 then rd_then rd_small (\<lambda>n. rd_ok (Appended n))
     else if tag = 4 then rd_then rd_device (\<lambda>device. rd_ok (Arrived device))
     else if tag = 5 then rd_then rd_device (\<lambda>device. rd_ok (Left device))
     else if tag = 6 then
       rd_then rd_device (\<lambda>device. rd_then rd_address (\<lambda>address. rd_then (rd_bytes longest_text) (\<lambda>sealed.
       rd_ok (Punched device address sealed))))
     else if tag = 7 then rd_then rd_number (\<lambda>through. rd_ok (Compacted through))
     else if tag = 8 then rd_then rd_byte (\<lambda>t. rd_ok (RefusedWith (refusal_from_tag t)))
     else if tag = 9 then
       rd_then rd_device (\<lambda>device. rd_then (rd_bytes largest_datagram) (\<lambda>datagram. rd_ok (Relayed device datagram)))
     else if tag = 10 then rd_then (rd_sealed sealed_least) (\<lambda>sealed. rd_ok (Closed sealed))
     else if tag = 11 then rd_then rd_heads (\<lambda>heads. rd_ok (HeadsAre heads))
     else if tag = 12 then
       rd_then rd_members (\<lambda>members. rd_then rd_device (\<lambda>host. rd_ok (RoomWelcome members host)))
     else if tag = 13 then
       rd_then rd_device (\<lambda>device. rd_then (rd_bytes largest_room_frame) (\<lambda>sealed. rd_ok (RoomHeard device sealed)))
     else if tag = 14 then rd_then rd_device (\<lambda>member. rd_ok (RoomArrived member))
     else if tag = 15 then rd_then rd_device (\<lambda>member. rd_ok (RoomLeft member))
     else if tag = 16 then
       rd_then rd_number (\<lambda>nonce. rd_then rd_number (\<lambda>at_nanos. rd_ok (RoomPong nonce at_nanos)))
     else if tag = 17 then rd_ok RoomEnded
     else rd_fail (BadTag tag))"

definition from_server_decoded :: "nat \<Rightarrow> bytes \<Rightarrow> malformed + from_server" where
  "from_server_decoded sealed_least = rd_whole (rd_from_server sealed_least)"

definition devices_ok :: "device_id list \<Rightarrow> bool" where
  "devices_ok ds \<longleftrightarrow> list_all device_ok ds \<and> length ds \<le> u64_max"

definition record_ok :: "nat \<Rightarrow> ledger_record \<Rightarrow> bool" where
  "record_ok least r \<longleftrightarrow> pred_option (blob_ok least) (rec_blob r)"

definition head_ok :: "space_head \<Rightarrow> bool" where
  "head_ok h \<longleftrightarrow> space_ok (head_space h)"

fun from_server_ok :: "nat \<Rightarrow> from_server \<Rightarrow> bool" where
  "from_server_ok least (Welcome online seen_at _) \<longleftrightarrow> devices_ok online \<and> ip_ok (sa_ip seen_at)"
| "from_server_ok least (Snapshot _ parts) \<longleftrightarrow> blobs_ok least parts"
| "from_server_ok least (Records entries) \<longleftrightarrow> list_all (record_ok least) entries \<and> length entries \<le> u64_max"
| "from_server_ok least (Arrived device) \<longleftrightarrow> device_ok device"
| "from_server_ok least (Left device) \<longleftrightarrow> device_ok device"
| "from_server_ok least (Punched device address sealed) \<longleftrightarrow>
     device_ok device \<and> ip_ok (sa_ip address) \<and> length sealed \<le> longest_text"
| "from_server_ok least (Relayed device datagram) \<longleftrightarrow> device_ok device \<and> length datagram \<le> largest_datagram"
| "from_server_ok least (Closed sealed) \<longleftrightarrow> blob_ok least sealed"
| "from_server_ok least (HeadsAre heads) \<longleftrightarrow> list_all head_ok heads \<and> length heads \<le> u64_max"
| "from_server_ok least (RoomWelcome members host) \<longleftrightarrow> devices_ok members \<and> device_ok host"
| "from_server_ok least (RoomHeard device sealed) \<longleftrightarrow> device_ok device \<and> length sealed \<le> largest_room_frame"
| "from_server_ok least (RoomArrived member) \<longleftrightarrow> device_ok member"
| "from_server_ok least (RoomLeft member) \<longleftrightarrow> device_ok member"
| "from_server_ok least _ \<longleftrightarrow> True"

interpretation ledger_records: sized_codec "record_ok least" wr_record "rd_record least" "\<lambda>r. r" 2 for least
proof
  show "rd_record least (wr_record r @ rest) = Inr (r, rest)" if "record_ok least r" for r rest
    using that blobs.option_read_back [of least "rec_blob r" rest]
    by (simp add: rd_record_def wr_record_def record_ok_def reads)
  show "grows (rd_record least)" unfolding rd_record_def by (intro growing)
  show "2 \<le> length (wr_record r)" for r
    using add_mono [OF number_nonempty [of "rec_seq r"] option_nonempty [of wr_bytes "rec_blob r"]]
    by (simp add: wr_record_def)
qed

interpretation heads: sized_codec head_ok wr_head rd_head "\<lambda>h. h" "space_bytes + 2"
proof
  show "rd_head (wr_head h @ rest) = Inr (h, rest)" if "head_ok h" for h rest
    using that by (simp add: rd_head_def wr_head_def head_ok_def reads)
  show "grows rd_head" unfolding rd_head_def by (intro growing)
  show "space_bytes + 2 \<le> length (wr_head h)" if "head_ok h" for h
    using that number_nonempty [of "head_at h"]
    by (simp add: wr_head_def head_ok_def space_ok_def wr_flag_def wr_byte_def)
qed

lemma server_lists [reads]:
  "list_all (record_ok least) rs \<Longrightarrow> length rs \<le> u64_max \<Longrightarrow> rd_records least (wr_list wr_record rs @ rest) = Inr (rs, rest)"
  "list_all head_ok hs \<Longrightarrow> length hs \<le> u64_max \<Longrightarrow> rd_heads (wr_list wr_head hs @ rest) = Inr (hs, rest)"
  "devices_ok ds \<Longrightarrow> rd_online (wr_list (\<lambda>d. d) ds @ rest) = Inr (ds, rest)"
  "devices_ok ds \<Longrightarrow> rd_members (wr_list (\<lambda>d. d) ds @ rest) = Inr (ds, rest)"
  using ledger_records.list_read_back [of least rs 2 rest] heads.list_read_back [of hs "space_bytes + 2" rest]
    devices.counted_read_back [of ds rest] devices.list_read_back [of ds device_bytes rest]
  by (simp_all add: rd_records_def rd_heads_def rd_online_def rd_members_def devices_ok_def device_bytes_def)

lemma grows_lists [growing]:
  "grows (rd_records least)" "grows rd_heads" "grows rd_online" "grows rd_members"
  unfolding rd_records_def rd_heads_def rd_online_def rd_members_def
  by (intro growing ledger_records.growing heads.growing)+

interpretation from_server: codec "from_server_ok least" from_server_encoded "rd_from_server least" "\<lambda>m. m" for least
proof
  show "rd_from_server least (from_server_encoded m @ rest) = Inr (m, rest)" if "from_server_ok least m" for m rest
    using that by (cases m) (simp_all add: rd_from_server_def reads)
  show "grows (rd_from_server least)" unfolding rd_from_server_def by (intro growing)
qed

end
