(* ===== verification/WireChanges.thy ===== *)
theory WireChanges
  imports WireData WireServer
begin

text \<open>
  The changes devices tell one another (\<open>crates/resonate-sync/src/change.rs\<close>), as they are
  written and read one by one and in bundles (\<open>encoded_change\<close>, \<open>decoded_change\<close>,
  \<open>encoded_bundle\<close>, \<open>decoded_bundle\<close> of \<open>wire.rs\<close>). A change of a kind that is not known, and an
  answer of a kind that is not known, is skipped: an older device reads what a newer one writes.
\<close>

subsection \<open>The changes\<close>

datatype platform = Linux | Android | Ios | Windows | OtherPlatform

record device_note =
  dn_device :: device_id
  dn_name :: bytes
  dn_platform :: platform
  dn_stamp :: stamp_time

record playlist_body =
  pb_name :: bytes
  pb_entries :: "recording list"

record playlist_note =
  pn_key :: bytes
  pn_stamp :: stamp_time
  pn_body :: "playlist_body option"

record favourite_note =
  fn_recording :: recording
  fn_favoured :: bool
  fn_stamp :: stamp_time

record listen =
  ls_device :: device_id
  ls_id :: u64
  ls_recording :: recording
  ls_at :: i64
  ls_heard :: duration

record handoff =
  ho_device :: device_id
  ho_stamp :: stamp_time
  ho_rows :: "recording list"
  ho_at :: u32
  ho_position :: duration
  ho_playing :: bool

record device_forgotten =
  df_device :: device_id
  df_stamp :: stamp_time

record query_body =
  qb_name :: bytes
  qb_text :: "bytes option"
  qb_sort :: u8
  qb_reading :: u8
  qb_rows :: "u32 option"

record query_note =
  qn_key :: bytes
  qn_stamp :: stamp_time
  qn_body :: "query_body option"

record answer_note =
  an_recording :: recording
  an_stamp :: stamp_time
  an_answer :: answer

record playlist_folded =
  pf_folded :: bytes
  pf_into :: bytes
  pf_entries :: "recording list"

record query_folded =
  qf_folded :: bytes
  qf_into :: bytes

record share_note =
  sn_code :: bytes
  sn_server :: "bytes option"
  sn_member :: bytes
  sn_personal :: bytes
  sn_released :: "bytes option"
  sn_gone :: bool
  sn_stamp :: stamp_time

datatype change =
  ChangedDevice device_note
| ChangedPlaylist playlist_note
| ChangedFavourite favourite_note
| Listened listen
| HandedOff handoff
| Forgotten device_forgotten
| ChangedQuery query_note
| Answered answer_note
| FoldedPlaylist playlist_folded
| FoldedQuery query_folded
| ChangedShare share_note

fun change_stamp :: "change \<Rightarrow> stamp_time option" where
  "change_stamp (ChangedDevice n) = Some (dn_stamp n)"
| "change_stamp (Forgotten f) = Some (df_stamp f)"
| "change_stamp (ChangedPlaylist n) = Some (pn_stamp n)"
| "change_stamp (ChangedQuery n) = Some (qn_stamp n)"
| "change_stamp (ChangedFavourite n) = Some (fn_stamp n)"
| "change_stamp (HandedOff h) = Some (ho_stamp h)"
| "change_stamp (Answered n) = Some (an_stamp n)"
| "change_stamp (ChangedShare n) = Some (sn_stamp n)"
| "change_stamp (Listened _) = None"
| "change_stamp (FoldedPlaylist _) = None"
| "change_stamp (FoldedQuery _) = None"

definition playlist_key_bytes :: nat where
  "playlist_key_bytes = 16"

fun platform_tag :: "platform \<Rightarrow> u8" where
  "platform_tag Linux = 0"
| "platform_tag Android = 1"
| "platform_tag Ios = 2"
| "platform_tag Windows = 3"
| "platform_tag OtherPlatform = 255"

definition platform_tagged :: "u8 \<Rightarrow> platform" where
  "platform_tagged tag =
     (if tag = 0 then Linux else if tag = 1 then Android else if tag = 2 then Ios
      else if tag = 3 then Windows else OtherPlatform)"

lemma platform_back [simp]: "platform_tagged (platform_tag p) = p"
  by (cases p) (simp_all add: platform_tagged_def)

subsection \<open>Writing a change\<close>

definition wr_playlist_body :: "playlist_body \<Rightarrow> bytes" where
  "wr_playlist_body b = wr_text (pb_name b) @ wr_list wr_recording (pb_entries b)"

definition wr_query_body :: "query_body \<Rightarrow> bytes" where
  "wr_query_body b =
     wr_text (qb_name b) @ wr_option wr_text (qb_text b) @ wr_byte (qb_sort b) @ wr_byte (qb_reading b)
     @ wr_option (\<lambda>n. wr_number (ucast n)) (qb_rows b)"

fun encoded_change :: "change \<Rightarrow> bytes" where
  "encoded_change (ChangedDevice n) =
     wr_byte 0 @ dn_device n @ wr_text (dn_name n) @ wr_byte (platform_tag (dn_platform n)) @ wr_stamp (dn_stamp n)"
| "encoded_change (ChangedPlaylist n) =
     wr_byte 1 @ pn_key n @ wr_stamp (pn_stamp n) @ wr_option wr_playlist_body (pn_body n)"
| "encoded_change (ChangedFavourite n) =
     wr_byte 2 @ wr_recording (fn_recording n) @ wr_flag (fn_favoured n) @ wr_stamp (fn_stamp n)"
| "encoded_change (Listened l) =
     wr_byte 3 @ ls_device l @ wr_number (ls_id l) @ wr_recording (ls_recording l) @ wr_signed (ls_at l)
     @ wr_duration (ls_heard l)"
| "encoded_change (HandedOff h) =
     wr_byte 4 @ ho_device h @ wr_stamp (ho_stamp h) @ wr_list wr_recording (ho_rows h)
     @ wr_number (ucast (ho_at h)) @ wr_duration (ho_position h) @ wr_flag (ho_playing h)"
| "encoded_change (Forgotten f) = wr_byte 5 @ df_device f @ wr_stamp (df_stamp f)"
| "encoded_change (ChangedQuery n) =
     wr_byte 6 @ qn_key n @ wr_stamp (qn_stamp n) @ wr_option wr_query_body (qn_body n)"
| "encoded_change (Answered n) =
     wr_byte 7 @ wr_recording (an_recording n) @ wr_stamp (an_stamp n) @ wr_answer (an_answer n)"
| "encoded_change (FoldedPlaylist f) =
     wr_byte 8 @ pf_folded f @ pf_into f @ wr_list wr_recording (pf_entries f)"
| "encoded_change (FoldedQuery f) = wr_byte 9 @ qf_folded f @ qf_into f"
| "encoded_change (ChangedShare n) =
     wr_byte 10 @ wr_text (sn_code n) @ wr_option wr_text (sn_server n) @ sn_member n @ sn_personal n
     @ wr_option (\<lambda>k. k) (sn_released n) @ wr_flag (sn_gone n) @ wr_stamp (sn_stamp n)"

definition encoded_bundle :: "change list \<Rightarrow> bytes" where
  "encoded_bundle changes = wr_list (\<lambda>c. wr_bytes (encoded_change c)) changes"

subsection \<open>Reading a change\<close>

definition rd_recordings :: "recording list reader" where
  "rd_recordings = rd_then rd_count (\<lambda>n. rd_many n rd_recording)"

definition rd_key :: "bytes reader" where
  "rd_key = rd_fixed playlist_key_bytes"

definition rd_device_note :: "change reader" where
  "rd_device_note =
     rd_then rd_device (\<lambda>device. rd_then rd_text (\<lambda>name. rd_then rd_byte (\<lambda>tag. rd_then rd_stamp (\<lambda>stamp.
     rd_ok (ChangedDevice \<lparr>dn_device = device, dn_name = name, dn_platform = platform_tagged tag, dn_stamp = stamp\<rparr>)))))"

definition rd_playlist_body :: "playlist_body reader" where
  "rd_playlist_body = rd_then rd_text (\<lambda>name. rd_then rd_recordings (\<lambda>entries.
     rd_ok \<lparr>pb_name = name, pb_entries = entries\<rparr>))"

definition rd_playlist_note :: "change reader" where
  "rd_playlist_note =
     rd_then rd_key (\<lambda>key. rd_then rd_stamp (\<lambda>stamp. rd_then (rd_option rd_playlist_body) (\<lambda>body.
     rd_ok (ChangedPlaylist \<lparr>pn_key = key, pn_stamp = stamp, pn_body = body\<rparr>))))"

definition rd_favourite_note :: "change reader" where
  "rd_favourite_note =
     rd_then rd_recording (\<lambda>recording. rd_then rd_flag (\<lambda>favoured. rd_then rd_stamp (\<lambda>stamp.
     rd_ok (ChangedFavourite \<lparr>fn_recording = recording, fn_favoured = favoured, fn_stamp = stamp\<rparr>))))"

definition rd_listen :: "change reader" where
  "rd_listen =
     rd_then rd_device (\<lambda>device. rd_then rd_number (\<lambda>id. rd_then rd_recording (\<lambda>recording.
     rd_then rd_signed (\<lambda>at. rd_then rd_duration (\<lambda>heard.
     rd_ok (Listened \<lparr>ls_device = device, ls_id = id, ls_recording = recording, ls_at = at, ls_heard = heard\<rparr>))))))"

definition rd_handoff :: "change reader" where
  "rd_handoff =
     rd_then rd_device (\<lambda>device. rd_then rd_stamp (\<lambda>stamp. rd_then rd_recordings (\<lambda>rows.
     rd_then rd_small (\<lambda>at. rd_then rd_duration (\<lambda>position. rd_then rd_flag (\<lambda>playing.
     rd_ok (HandedOff \<lparr>ho_device = device, ho_stamp = stamp, ho_rows = rows, ho_at = at,
       ho_position = position, ho_playing = playing\<rparr>)))))))"

definition rd_forgotten :: "change reader" where
  "rd_forgotten = rd_then rd_device (\<lambda>device. rd_then rd_stamp (\<lambda>stamp.
     rd_ok (Forgotten \<lparr>df_device = device, df_stamp = stamp\<rparr>)))"

definition rd_query_body :: "query_body reader" where
  "rd_query_body =
     rd_then rd_text (\<lambda>name. rd_then (rd_option rd_text) (\<lambda>query. rd_then rd_byte (\<lambda>sort.
     rd_then rd_byte (\<lambda>reading. rd_then (rd_option rd_small) (\<lambda>rows.
     rd_ok \<lparr>qb_name = name, qb_text = query, qb_sort = sort, qb_reading = reading, qb_rows = rows\<rparr>)))))"

definition rd_query_note :: "change reader" where
  "rd_query_note =
     rd_then rd_key (\<lambda>key. rd_then rd_stamp (\<lambda>stamp. rd_then (rd_option rd_query_body) (\<lambda>body.
     rd_ok (ChangedQuery \<lparr>qn_key = key, qn_stamp = stamp, qn_body = body\<rparr>))))"

definition rd_playlist_folded :: "change reader" where
  "rd_playlist_folded =
     rd_then rd_key (\<lambda>folded. rd_then rd_key (\<lambda>into. rd_then rd_recordings (\<lambda>entries.
     rd_ok (FoldedPlaylist \<lparr>pf_folded = folded, pf_into = into, pf_entries = entries\<rparr>))))"

definition rd_query_folded :: "change reader" where
  "rd_query_folded = rd_then rd_key (\<lambda>folded. rd_then rd_key (\<lambda>into.
     rd_ok (FoldedQuery \<lparr>qf_folded = folded, qf_into = into\<rparr>)))"

definition rd_share_note :: "change reader" where
  "rd_share_note =
     rd_then rd_text (\<lambda>code. rd_then (rd_option rd_text) (\<lambda>server. rd_then (rd_fixed 16) (\<lambda>member.
     rd_then (rd_fixed 32) (\<lambda>personal. rd_then (rd_option rd_key) (\<lambda>released. rd_then rd_flag (\<lambda>gone.
     rd_then rd_stamp (\<lambda>stamp.
     rd_ok (ChangedShare \<lparr>sn_code = code, sn_server = server, sn_member = member, sn_personal = personal,
       sn_released = released, sn_gone = gone, sn_stamp = stamp\<rparr>))))))))"

text \<open>\<open>Inr None\<close> is a change that is skipped; where it is, what is left of it is not looked at.\<close>

definition finished :: "malformed + change \<times> bytes \<Rightarrow> malformed + change option" where
  "finished r = (case r of Inl e \<Rightarrow> Inl e
     | Inr p \<Rightarrow> (case rd_done (snd p) of Inl e \<Rightarrow> Inl e | Inr _ \<Rightarrow> Inr (Some (fst p))))"

definition decoded_answer_note :: "u8 list \<Rightarrow> bytes \<Rightarrow> malformed + change option" where
  "decoded_answer_note answers bs = (case rd_recording bs of Inl e \<Rightarrow> Inl e | Inr r \<Rightarrow>
     (case rd_stamp (snd r) of Inl e \<Rightarrow> Inl e | Inr s \<Rightarrow>
       (case rd_answer_among answers (snd s) of Inl e \<Rightarrow> Inl e
        | Inr (None, _) \<Rightarrow> Inr None
        | Inr (Some a, rest) \<Rightarrow>
            finished (Inr (Answered \<lparr>an_recording = fst r, an_stamp = fst s, an_answer = a\<rparr>, rest)))))"

definition decoded_change :: "u8 list \<Rightarrow> bytes \<Rightarrow> malformed + change option" where
  "decoded_change answers bs = (case rd_byte bs of Inl e \<Rightarrow> Inl e | Inr (tag, rest) \<Rightarrow>
     if tag = 0 then finished (rd_device_note rest)
     else if tag = 1 then finished (rd_playlist_note rest)
     else if tag = 2 then finished (rd_favourite_note rest)
     else if tag = 3 then finished (rd_listen rest)
     else if tag = 4 then finished (rd_handoff rest)
     else if tag = 5 then finished (rd_forgotten rest)
     else if tag = 6 then finished (rd_query_note rest)
     else if tag = 7 then decoded_answer_note answers rest
     else if tag = 8 then finished (rd_playlist_folded rest)
     else if tag = 9 then finished (rd_query_folded rest)
     else if tag = 10 then finished (rd_share_note rest)
     else Inr None)"

fun rd_changes :: "u8 list \<Rightarrow> nat \<Rightarrow> change list reader" where
  "rd_changes answers 0 bs = Inr ([], bs)"
| "rd_changes answers (Suc n) bs = (case rd_bytes largest_blob bs of Inl e \<Rightarrow> Inl e
     | Inr (encoded, rest) \<Rightarrow>
         (case decoded_change answers encoded of Inl e \<Rightarrow> Inl e
          | Inr c \<Rightarrow>
              (case rd_changes answers n rest of Inl e \<Rightarrow> Inl e
               | Inr (cs, rest) \<Rightarrow> Inr (case c of None \<Rightarrow> cs | Some c \<Rightarrow> c # cs, rest))))"

definition decoded_bundle_knowing :: "u8 list \<Rightarrow> bytes \<Rightarrow> malformed + change list" where
  "decoded_bundle_knowing answers = rd_whole (rd_then rd_count (rd_changes answers))"

definition decoded_bundle :: "bytes \<Rightarrow> malformed + change list" where
  "decoded_bundle = decoded_bundle_knowing answer_kinds"

subsection \<open>A change reads back\<close>

definition key_ok :: "bytes \<Rightarrow> bool" where
  "key_ok k \<longleftrightarrow> length k = playlist_key_bytes"

definition recordings_ok :: "recording list \<Rightarrow> bool" where
  "recordings_ok rs \<longleftrightarrow> list_all recording_ok rs \<and> length rs \<le> u64_max"

definition playlist_body_ok :: "playlist_body \<Rightarrow> bool" where
  "playlist_body_ok b \<longleftrightarrow> utf8 (pb_name b) \<and> recordings_ok (pb_entries b)"

definition query_body_ok :: "query_body \<Rightarrow> bool" where
  "query_body_ok b \<longleftrightarrow> utf8 (qb_name b) \<and> pred_option utf8 (qb_text b)"

fun change_ok :: "change \<Rightarrow> bool" where
  "change_ok (ChangedDevice n) \<longleftrightarrow> device_ok (dn_device n) \<and> utf8 (dn_name n) \<and> stamp_ok (dn_stamp n)"
| "change_ok (ChangedPlaylist n) \<longleftrightarrow> key_ok (pn_key n) \<and> stamp_ok (pn_stamp n) \<and> pred_option playlist_body_ok (pn_body n)"
| "change_ok (ChangedFavourite n) \<longleftrightarrow> recording_ok (fn_recording n) \<and> stamp_ok (fn_stamp n)"
| "change_ok (Listened l) \<longleftrightarrow> device_ok (ls_device l) \<and> recording_ok (ls_recording l)"
| "change_ok (HandedOff h) \<longleftrightarrow> device_ok (ho_device h) \<and> stamp_ok (ho_stamp h) \<and> recordings_ok (ho_rows h)"
| "change_ok (Forgotten f) \<longleftrightarrow> device_ok (df_device f) \<and> stamp_ok (df_stamp f)"
| "change_ok (ChangedQuery n) \<longleftrightarrow> key_ok (qn_key n) \<and> stamp_ok (qn_stamp n) \<and> pred_option query_body_ok (qn_body n)"
| "change_ok (Answered n) \<longleftrightarrow> recording_ok (an_recording n) \<and> stamp_ok (an_stamp n) \<and> answer_ok (an_answer n)"
| "change_ok (FoldedPlaylist f) \<longleftrightarrow> key_ok (pf_folded f) \<and> key_ok (pf_into f) \<and> recordings_ok (pf_entries f)"
| "change_ok (FoldedQuery f) \<longleftrightarrow> key_ok (qf_folded f) \<and> key_ok (qf_into f)"
| "change_ok (ChangedShare n) \<longleftrightarrow> utf8 (sn_code n) \<and> pred_option utf8 (sn_server n) \<and> length (sn_member n) = 16 \<and>
     length (sn_personal n) = 32 \<and> pred_option key_ok (sn_released n) \<and> stamp_ok (sn_stamp n)"

definition sent_playlist_body :: "playlist_body \<Rightarrow> playlist_body" where
  "sent_playlist_body b = b\<lparr>pb_name := within_the_longest_text (pb_name b),
     pb_entries := map sent_recording (pb_entries b)\<rparr>"

definition sent_query_body :: "query_body \<Rightarrow> query_body" where
  "sent_query_body b = b\<lparr>qb_name := within_the_longest_text (qb_name b),
     qb_text := map_option within_the_longest_text (qb_text b)\<rparr>"

fun sent_change :: "change \<Rightarrow> change" where
  "sent_change (ChangedDevice n) = ChangedDevice (n\<lparr>dn_name := within_the_longest_text (dn_name n)\<rparr>)"
| "sent_change (ChangedPlaylist n) = ChangedPlaylist (n\<lparr>pn_body := map_option sent_playlist_body (pn_body n)\<rparr>)"
| "sent_change (ChangedFavourite n) = ChangedFavourite (n\<lparr>fn_recording := sent_recording (fn_recording n)\<rparr>)"
| "sent_change (Listened l) = Listened (l\<lparr>ls_recording := sent_recording (ls_recording l), ls_heard := in_millis (ls_heard l)\<rparr>)"
| "sent_change (HandedOff h) = HandedOff (h\<lparr>ho_rows := map sent_recording (ho_rows h), ho_position := in_millis (ho_position h)\<rparr>)"
| "sent_change (Forgotten f) = Forgotten f"
| "sent_change (ChangedQuery n) = ChangedQuery (n\<lparr>qn_body := map_option sent_query_body (qn_body n)\<rparr>)"
| "sent_change (Answered n) = Answered (n\<lparr>an_recording := sent_recording (an_recording n), an_answer := sent_answer (an_answer n)\<rparr>)"
| "sent_change (FoldedPlaylist f) = FoldedPlaylist (f\<lparr>pf_entries := map sent_recording (pf_entries f)\<rparr>)"
| "sent_change (FoldedQuery f) = FoldedQuery f"
| "sent_change (ChangedShare n) = ChangedShare (n\<lparr>sn_code := within_the_longest_text (sn_code n),
     sn_server := map_option within_the_longest_text (sn_server n)\<rparr>)"

lemma recordings_written [reads]:
  "recordings_ok rs \<Longrightarrow> rd_recordings (wr_list wr_recording rs @ rest) = Inr (map sent_recording rs, rest)"
  using recordings.counted_read_back [of rs rest] by (simp add: rd_recordings_def recordings_ok_def)

interpretation keys: codec key_ok "\<lambda>k. k" rd_key "\<lambda>k. k"
  by unfold_locales (auto simp: rd_key_def key_ok_def reads growing)

lemma grows_recordings [growing]: "grows rd_recordings"
  unfolding rd_recordings_def by (intro growing)

interpretation playlist_bodies: codec playlist_body_ok wr_playlist_body rd_playlist_body sent_playlist_body
proof
  show "rd_playlist_body (wr_playlist_body b @ rest) = Inr (sent_playlist_body b, rest)" if "playlist_body_ok b" for b rest
    using that by (simp add: rd_playlist_body_def wr_playlist_body_def playlist_body_ok_def sent_playlist_body_def reads)
  show "grows rd_playlist_body" unfolding rd_playlist_body_def by (intro growing)
qed

interpretation query_bodies: codec query_body_ok wr_query_body rd_query_body sent_query_body
proof
  show "rd_query_body (wr_query_body b @ rest) = Inr (sent_query_body b, rest)" if "query_body_ok b" for b rest
    using that texts.option_read_back smalls.option_read_back [of "qb_rows b" rest]
    by (simp add: rd_query_body_def wr_query_body_def query_body_ok_def sent_query_body_def reads pred_option_def)
  show "grows rd_query_body" unfolding rd_query_body_def by (intro growing)
qed

lemmas body_reads [reads] =
  keys.read_back keys.option_read_back [simplified] playlist_bodies.option_read_back query_bodies.option_read_back
  texts.option_read_back

lemmas change_readers =
  rd_device_note_def rd_playlist_note_def rd_favourite_note_def rd_listen_def rd_handoff_def rd_forgotten_def
  rd_query_note_def rd_playlist_folded_def rd_query_folded_def rd_share_note_def

lemma flat_option: "wr_option (\<lambda>k. k) v = (case v of Some k \<Rightarrow> wr_flag True @ k | None \<Rightarrow> wr_flag False)"
  by (simp add: wr_option_def)

lemma change_read_back:
  assumes "change_ok c" and "set answer_kinds \<subseteq> set answers"
  shows "decoded_change answers (encoded_change c @ []) = Inr (Some (sent_change c))"
  using assms
  by (cases c)
    (simp_all add: decoded_change_def decoded_answer_note_def change_readers finished_def rd_done_def reads
      platform_back del: append_Nil2)

lemmas change_read = change_read_back [unfolded append_Nil2]

lemma change_unknown: "10 < tag \<Longrightarrow> decoded_change answers (tag # rest) = Inr None"
  by (auto simp: decoded_change_def rd_byte_def)

lemma answer_unknown:
  assumes "recording_ok r" and "stamp_ok s" and "kind \<notin> set answers"
  shows "decoded_change answers (7 # wr_recording r @ wr_stamp s @ kind # rest) = Inr None"
  using assms by (simp add: decoded_change_def decoded_answer_note_def rd_byte_def [of "7 # _"] reads rd_answer_unknown)

subsection \<open>A bundle reads back\<close>

interpretation frames: sized_codec "\<lambda>f. length f \<le> largest_blob" wr_bytes "rd_bytes largest_blob" "\<lambda>f. f" 1
proof
  show "rd_bytes largest_blob (wr_bytes f @ rest) = Inr (f, rest)" if "length f \<le> largest_blob" for f rest
    using that by (simp add: reads wire_sizes)
  show "grows (rd_bytes largest_blob)" by (intro growing)
  show "1 \<le> length (wr_bytes f)" for f
    using length_nonempty by (simp add: wr_bytes_def trans_le_add1)
qed

definition known_changes :: "u8 list \<Rightarrow> bytes list \<Rightarrow> change list" where
  "known_changes answers fs =
     List.map_filter (\<lambda>f. case decoded_change answers f of Inl _ \<Rightarrow> None | Inr c \<Rightarrow> c) fs"

lemma changes_written:
  assumes "\<forall>f \<in> set fs. length f \<le> largest_blob \<and> (\<exists>c. decoded_change answers f = Inr c)"
  shows "rd_changes answers (length fs) (concat (map wr_bytes fs) @ rest) = Inr (known_changes answers fs, rest)"
  using assms
  by (induction fs) (auto simp: known_changes_def map_filter_simps frames.read_back split: option.split)

text \<open>
  A bundle of frames is read as the changes that are known among them, in their order.
\<close>

lemma bundle_read:
  assumes "\<forall>f \<in> set fs. length f \<le> largest_blob \<and> (\<exists>c. decoded_change answers f = Inr c)"
    and "length fs \<le> u64_max"
  shows "decoded_bundle_knowing answers (wr_list wr_bytes fs) = Inr (known_changes answers fs)"
proof -
  have "list_all (\<lambda>f. length f \<le> largest_blob) fs" using assms(1) by (simp add: list_all_iff)
  from frames.count_written [OF this assms(2), of 1 "[]"] changes_written [OF assms(1), of "[]"]
  show ?thesis
    by (simp add: decoded_bundle_knowing_def rd_whole_def rd_done_def wr_list_def rd_count_def rd_count_of_def)
qed

definition changes_ok :: "change list \<Rightarrow> bool" where
  "changes_ok cs \<longleftrightarrow> list_all (\<lambda>c. change_ok c \<and> length (encoded_change c) \<le> largest_blob) cs \<and> length cs \<le> u64_max"

lemma known_all:
  assumes "list_all change_ok cs" and "set answer_kinds \<subseteq> set answers"
  shows "known_changes answers (map encoded_change cs) = map sent_change cs"
  using assms by (induction cs) (simp_all add: known_changes_def map_filter_simps change_read)

lemma bundle_read_back:
  assumes "changes_ok cs" and "set answer_kinds \<subseteq> set answers"
  shows "decoded_bundle_knowing answers (encoded_bundle cs) = Inr (map sent_change cs)"
proof -
  have "\<forall>f \<in> set (map encoded_change cs). length f \<le> largest_blob \<and> (\<exists>c. decoded_change answers f = Inr c)"
    using assms change_read by (auto simp: changes_ok_def list_all_iff)
  from bundle_read [OF this] known_all [of cs answers] assms show ?thesis
    by (simp add: changes_ok_def encoded_bundle_def wr_list_def comp_def list_all_iff)
qed

end
