(* ===== verification/WirePeers.thy ===== *)
theory WirePeers
  imports WireRemote WireChanges
begin

text \<open>
  The messages between two devices that reach each other (\<open>ToPeer\<close>, \<open>FromPeer\<close>, \<open>Beacon\<close> and the
  candidate addresses of \<open>crates/resonate-sync/src/wire.rs\<close>): what a device holds, the files,
  covers, lyrics and prints it is asked for, the changes it takes, and the zones it may be driven
  through.
\<close>

subsection \<open>To a peer\<close>

definition covers_asked_at_most :: nat where
  "covers_asked_at_most = 512"

definition lyricsfiles_asked_at_most :: nat where
  "lyricsfiles_asked_at_most = 512"

definition prints_asked_at_most :: nat where
  "prints_asked_at_most = 512"

definition largest_shared_cover :: nat where
  "largest_shared_cover = 16777216"

datatype to_peer =
  Holdings
| Fetch recording u64
| Meet device_id bool
| Changes bool "change list"
| AskTags recording
| AskCovers "bytes list"
| AskLyricsfiles "recording list"
| AskPrints "whole_file list"
| Control u32 remote_command
| Watch

fun to_peer_encoded :: "to_peer \<Rightarrow> bytes" where
  "to_peer_encoded Holdings = wr_byte 0"
| "to_peer_encoded (Fetch recording offset) = wr_byte 1 @ wr_recording recording @ wr_number offset"
| "to_peer_encoded (Meet device records) = wr_byte 2 @ device @ wr_flag records"
| "to_peer_encoded (Changes all_of_them changes) =
     wr_byte 3 @ wr_flag all_of_them @ wr_bytes (encoded_bundle changes)"
| "to_peer_encoded (AskTags recording) = wr_byte 4 @ wr_recording recording"
| "to_peer_encoded (AskCovers releases) = wr_byte 5 @ wr_list wr_text releases"
| "to_peer_encoded (AskLyricsfiles recordings) = wr_byte 6 @ wr_list wr_recording recordings"
| "to_peer_encoded (AskPrints files) = wr_byte 7 @ wr_list wr_whole_file files"
| "to_peer_encoded (Control zone command) = wr_byte 8 @ wr_number (ucast zone) @ wr_command command"
| "to_peer_encoded Watch = wr_byte 9"

definition rd_covers_asked :: "bytes list reader" where
  "rd_covers_asked = rd_then (rd_at_most 37 covers_asked_at_most) (\<lambda>n. rd_many n rd_mbid)"

definition rd_lyricsfiles_asked :: "recording list reader" where
  "rd_lyricsfiles_asked = rd_then (rd_at_most 5 lyricsfiles_asked_at_most) (\<lambda>n. rd_many n rd_recording)"

definition rd_prints_asked :: "whole_file list reader" where
  "rd_prints_asked = rd_then (rd_at_most 3 prints_asked_at_most) (\<lambda>n. rd_many n rd_whole_file)"

definition rd_bundle :: "change list reader" where
  "rd_bundle = rd_then (rd_bytes largest_frame) (\<lambda>bundle bs.
     case decoded_bundle bundle of Inl e \<Rightarrow> Inl e | Inr changes \<Rightarrow> Inr (changes, bs))"

definition rd_zone_id :: "u32 reader" where
  "rd_zone_id = rd_then rd_small (\<lambda>raw. case zone_new raw of None \<Rightarrow> rd_fail BadNumber | Some zone \<Rightarrow> rd_ok zone)"

definition rd_to_peer :: "to_peer reader" where
  "rd_to_peer = rd_then rd_byte (\<lambda>tag.
     if tag = 0 then rd_ok Holdings
     else if tag = 1 then
       rd_then rd_recording (\<lambda>recording. rd_then rd_number (\<lambda>offset. rd_ok (Fetch recording offset)))
     else if tag = 2 then
       rd_then rd_device (\<lambda>device. rd_then rd_flag (\<lambda>records. rd_ok (Meet device records)))
     else if tag = 3 then
       rd_then rd_flag (\<lambda>all_of_them. rd_then rd_bundle (\<lambda>changes. rd_ok (Changes all_of_them changes)))
     else if tag = 4 then rd_then rd_recording (\<lambda>recording. rd_ok (AskTags recording))
     else if tag = 5 then rd_then rd_covers_asked (\<lambda>releases. rd_ok (AskCovers releases))
     else if tag = 6 then rd_then rd_lyricsfiles_asked (\<lambda>recordings. rd_ok (AskLyricsfiles recordings))
     else if tag = 7 then rd_then rd_prints_asked (\<lambda>files. rd_ok (AskPrints files))
     else if tag = 8 then
       rd_then rd_zone_id (\<lambda>zone. rd_then rd_command (\<lambda>command. rd_ok (Control zone command)))
     else if tag = 9 then rd_ok Watch
     else rd_fail (BadTag tag))"

definition to_peer_decoded :: "bytes \<Rightarrow> malformed + to_peer" where
  "to_peer_decoded = rd_whole rd_to_peer"

fun to_peer_ok :: "to_peer \<Rightarrow> bool" where
  "to_peer_ok (Fetch recording _) \<longleftrightarrow> recording_ok recording"
| "to_peer_ok (Meet device _) \<longleftrightarrow> device_ok device"
| "to_peer_ok (Changes _ changes) \<longleftrightarrow> changes_ok changes \<and> length (encoded_bundle changes) \<le> largest_frame"
| "to_peer_ok (AskTags recording) \<longleftrightarrow> recording_ok recording"
| "to_peer_ok (AskCovers releases) \<longleftrightarrow> list_all mbid_ok releases \<and> length releases \<le> covers_asked_at_most"
| "to_peer_ok (AskLyricsfiles recordings) \<longleftrightarrow>
     list_all recording_ok recordings \<and> length recordings \<le> lyricsfiles_asked_at_most"
| "to_peer_ok (AskPrints files) \<longleftrightarrow> length files \<le> prints_asked_at_most"
| "to_peer_ok (Control zone command) \<longleftrightarrow> zone \<noteq> 0 \<and> command_ok command"
| "to_peer_ok _ \<longleftrightarrow> True"

fun sent_to_peer :: "to_peer \<Rightarrow> to_peer" where
  "sent_to_peer (Fetch recording offset) = Fetch (sent_recording recording) offset"
| "sent_to_peer (Changes all_of_them changes) = Changes all_of_them (map sent_change changes)"
| "sent_to_peer (AskTags recording) = AskTags (sent_recording recording)"
| "sent_to_peer (AskLyricsfiles recordings) = AskLyricsfiles (map sent_recording recordings)"
| "sent_to_peer (Control zone command) = Control zone (sent_command command)"
| "sent_to_peer message = message"

lemma grows_bundle [growing]: "grows rd_bundle"
  unfolding rd_bundle_def
  by (intro growing growsI) (auto split: sum.splits)

lemma grows_zone_id [growing]: "grows rd_zone_id"
  unfolding rd_zone_id_def by (intro growing)

lemma grows_asks [growing]: "grows rd_covers_asked" "grows rd_lyricsfiles_asked" "grows rd_prints_asked"
  unfolding rd_covers_asked_def rd_lyricsfiles_asked_def rd_prints_asked_def
  by (intro growing)+

lemma asked_written [reads]:
  "list_all mbid_ok ms \<Longrightarrow> length ms \<le> covers_asked_at_most \<Longrightarrow>
     rd_covers_asked (wr_list wr_text ms @ rest) = Inr (ms, rest)"
  "list_all recording_ok rs \<Longrightarrow> length rs \<le> lyricsfiles_asked_at_most \<Longrightarrow>
     rd_lyricsfiles_asked (wr_list wr_recording rs @ rest) = Inr (map sent_recording rs, rest)"
  "length fs \<le> prints_asked_at_most \<Longrightarrow> rd_prints_asked (wr_list wr_whole_file fs @ rest) = Inr (fs, rest)"
  using mbids.at_most_read_back [of ms 37 covers_asked_at_most rest]
    recordings.at_most_read_back [of rs 5 lyricsfiles_asked_at_most rest]
    whole_files.at_most_read_back [of fs 3 prints_asked_at_most rest]
  by (simp_all add: rd_covers_asked_def rd_lyricsfiles_asked_def rd_prints_asked_def covers_asked_at_most_def
      lyricsfiles_asked_at_most_def prints_asked_at_most_def u64_max_def list_all_iff)

lemma bundle_written [reads]:
  "changes_ok cs \<Longrightarrow> length (encoded_bundle cs) \<le> largest_frame \<Longrightarrow>
     rd_bundle (wr_bytes (encoded_bundle cs) @ rest) = Inr (map sent_change cs, rest)"
  by (simp add: rd_bundle_def reads wire_sizes decoded_bundle_def bundle_read_back)

lemma zone_id_written [reads]: "z \<noteq> 0 \<Longrightarrow> rd_zone_id (wr_number (ucast z) @ rest) = Inr (z, rest)"
  by (simp add: rd_zone_id_def reads zone_new_def)

interpretation to_peer: codec to_peer_ok to_peer_encoded rd_to_peer sent_to_peer
proof
  show "rd_to_peer (to_peer_encoded m @ rest) = Inr (sent_to_peer m, rest)" if "to_peer_ok m" for m rest
    using that by (cases m) (simp_all add: rd_to_peer_def reads)
  show "grows rd_to_peer" unfolding rd_to_peer_def by (intro growing)
qed

subsection \<open>From a peer\<close>

datatype from_peer =
  HeldSongs "held_song list"
| HeldEnd
| Sending u64 bytes
| Missing
| Met device_id
| Taken
| Tagged song_tags
| Covered bytes bytes
| CoversEnd
| Documented recording shared_lyricsfile
| LyricsfilesEnd
| Printed whole_file shared_print
| PrintsEnd
| Controlled controlling
| ZonesShown "remote_zone list"

fun from_peer_encoded :: "from_peer \<Rightarrow> bytes" where
  "from_peer_encoded (HeldSongs items) = wr_byte 0 @ wr_list wr_held_song items"
| "from_peer_encoded HeldEnd = wr_byte 1"
| "from_peer_encoded (Sending len extension) = wr_byte 2 @ wr_number len @ wr_text extension"
| "from_peer_encoded Missing = wr_byte 3"
| "from_peer_encoded (Met device) = wr_byte 4 @ device"
| "from_peer_encoded Taken = wr_byte 5"
| "from_peer_encoded (Tagged tags) = wr_byte 6 @ wr_tags tags"
| "from_peer_encoded (Covered release picture) = wr_byte 7 @ wr_text release @ wr_bytes picture"
| "from_peer_encoded CoversEnd = wr_byte 8"
| "from_peer_encoded (Documented recording lyricsfile) =
     wr_byte 9 @ wr_recording recording @ wr_lyricsfile lyricsfile"
| "from_peer_encoded LyricsfilesEnd = wr_byte 10"
| "from_peer_encoded (Printed file p) = wr_byte 11 @ wr_whole_file file @ wr_print p"
| "from_peer_encoded PrintsEnd = wr_byte 12"
| "from_peer_encoded (Controlled controlling) = wr_byte 13 @ wr_byte (controlling_tag controlling)"
| "from_peer_encoded (ZonesShown zones) = wr_byte 14 @ wr_zones zones"

definition rd_held_songs :: "held_song list reader" where
  "rd_held_songs = rd_then rd_count (\<lambda>n. rd_many n rd_held_song)"

definition rd_from_peer :: "from_peer reader" where
  "rd_from_peer = rd_then rd_byte (\<lambda>tag.
     if tag = 0 then rd_then rd_held_songs (\<lambda>items. rd_ok (HeldSongs items))
     else if tag = 1 then rd_ok HeldEnd
     else if tag = 2 then
       rd_then rd_number (\<lambda>len. rd_then rd_text (\<lambda>extension. rd_ok (Sending len extension)))
     else if tag = 3 then rd_ok Missing
     else if tag = 4 then rd_then rd_device (\<lambda>device. rd_ok (Met device))
     else if tag = 5 then rd_ok Taken
     else if tag = 6 then rd_then rd_tags (\<lambda>tags. rd_ok (Tagged tags))
     else if tag = 7 then
       rd_then rd_mbid (\<lambda>release. rd_then (rd_bytes largest_shared_cover) (\<lambda>picture.
       rd_ok (Covered release picture)))
     else if tag = 8 then rd_ok CoversEnd
     else if tag = 9 then
       rd_then rd_recording (\<lambda>recording. rd_then rd_lyricsfile (\<lambda>lyricsfile.
       rd_ok (Documented recording lyricsfile)))
     else if tag = 10 then rd_ok LyricsfilesEnd
     else if tag = 11 then rd_then rd_whole_file (\<lambda>file. rd_then rd_print (\<lambda>p. rd_ok (Printed file p)))
     else if tag = 12 then rd_ok PrintsEnd
     else if tag = 13 then rd_then rd_byte (\<lambda>t. rd_ok (Controlled (controlling_tagged t)))
     else if tag = 14 then rd_then rd_zones (\<lambda>zones. rd_ok (ZonesShown zones))
     else rd_fail (BadTag tag))"

definition from_peer_decoded :: "bytes \<Rightarrow> malformed + from_peer" where
  "from_peer_decoded = rd_whole rd_from_peer"

fun from_peer_ok :: "from_peer \<Rightarrow> bool" where
  "from_peer_ok (HeldSongs items) \<longleftrightarrow> list_all held_song_ok items \<and> length items \<le> u64_max"
| "from_peer_ok (Sending _ extension) \<longleftrightarrow> utf8 extension"
| "from_peer_ok (Met device) \<longleftrightarrow> device_ok device"
| "from_peer_ok (Tagged tags) \<longleftrightarrow> tags_ok tags"
| "from_peer_ok (Covered release picture) \<longleftrightarrow> mbid_ok release \<and> length picture \<le> largest_shared_cover"
| "from_peer_ok (Documented recording lyricsfile) \<longleftrightarrow> recording_ok recording \<and> lyricsfile_ok lyricsfile"
| "from_peer_ok (Printed _ p) \<longleftrightarrow> print_ok p"
| "from_peer_ok (ZonesShown zones) \<longleftrightarrow> list_all zone_ok zones"
| "from_peer_ok _ \<longleftrightarrow> True"

fun sent_from_peer :: "from_peer \<Rightarrow> from_peer" where
  "sent_from_peer (HeldSongs items) = HeldSongs (map sent_held_song items)"
| "sent_from_peer (Sending len extension) = Sending len (within_the_longest_text extension)"
| "sent_from_peer (Tagged tags) = Tagged (sent_tags tags)"
| "sent_from_peer (Documented recording lyricsfile) =
     Documented (sent_recording recording) (sent_lyricsfile lyricsfile)"
| "sent_from_peer (Printed file p) = Printed file (sent_print p)"
| "sent_from_peer (ZonesShown zones) = ZonesShown (map sent_zone (take zones_mirrored_at_most zones))"
| "sent_from_peer message = message"

lemma held_songs_written [reads]:
  "list_all held_song_ok hs \<Longrightarrow> length hs \<le> u64_max \<Longrightarrow>
     rd_held_songs (wr_list wr_held_song hs @ rest) = Inr (map sent_held_song hs, rest)"
  using held_songs.counted_read_back [of hs rest] by (simp add: rd_held_songs_def)

lemma grows_held_songs [growing]: "grows rd_held_songs"
  unfolding rd_held_songs_def by (intro growing)

lemma cover_written [reads]:
  "length p \<le> largest_shared_cover \<Longrightarrow> rd_bytes largest_shared_cover (wr_bytes p @ rest) = Inr (p, rest)"
  by (simp add: reads largest_shared_cover_def u64_max_def)

interpretation from_peer: codec from_peer_ok from_peer_encoded rd_from_peer sent_from_peer
proof
  show "rd_from_peer (from_peer_encoded m @ rest) = Inr (sent_from_peer m, rest)" if "from_peer_ok m" for m rest
    using that by (cases m) (simp_all add: rd_from_peer_def reads)
  show "grows rd_from_peer" unfolding rd_from_peer_def by (intro growing)
qed

subsection \<open>Beacons and candidate addresses\<close>

record beacon =
  bc_device :: device_id
  bc_port :: u16
  bc_answering :: bool
  bc_addresses :: "ip_addr list"

definition wr_beacon :: "beacon \<Rightarrow> bytes" where
  "wr_beacon b =
     bc_device b @ wr_number (ucast (bc_port b)) @ wr_flag (bc_answering b) @ wr_list wr_ip (bc_addresses b)"

definition rd_beacon :: "beacon reader" where
  "rd_beacon =
     rd_then rd_device (\<lambda>device. rd_then rd_half (\<lambda>port. rd_then rd_flag (\<lambda>answering.
     rd_then (rd_then rd_count (\<lambda>n. rd_many n rd_ip)) (\<lambda>addresses.
     rd_ok \<lparr>bc_device = device, bc_port = port, bc_answering = answering, bc_addresses = addresses\<rparr>))))"

definition beacon_decoded :: "bytes \<Rightarrow> malformed + beacon" where
  "beacon_decoded = rd_whole rd_beacon"

definition beacon_ok :: "beacon \<Rightarrow> bool" where
  "beacon_ok b \<longleftrightarrow> device_ok (bc_device b) \<and> list_all ip_ok (bc_addresses b) \<and> length (bc_addresses b) \<le> u64_max"

definition encoded_candidates :: "socket_addr list \<Rightarrow> bytes" where
  "encoded_candidates candidates = wr_list wr_address candidates"

definition rd_candidates :: "socket_addr list reader" where
  "rd_candidates = rd_then rd_count (\<lambda>n. rd_many n rd_address)"

definition decoded_candidates :: "bytes \<Rightarrow> malformed + socket_addr list" where
  "decoded_candidates = rd_whole rd_candidates"

definition candidates_ok :: "socket_addr list \<Rightarrow> bool" where
  "candidates_ok cs \<longleftrightarrow> list_all (\<lambda>a. ip_ok (sa_ip a)) cs \<and> length cs \<le> u64_max"

interpretation beacons: codec beacon_ok wr_beacon rd_beacon "\<lambda>b. b"
proof
  show "rd_beacon (wr_beacon b @ rest) = Inr (b, rest)" if "beacon_ok b" for b rest
    using that ips.counted_read_back [of "bc_addresses b" rest]
    by (simp add: rd_beacon_def wr_beacon_def beacon_ok_def reads)
  show "grows rd_beacon" unfolding rd_beacon_def by (intro growing)
qed

interpretation candidates: codec candidates_ok encoded_candidates rd_candidates "\<lambda>cs. cs"
proof
  show "rd_candidates (encoded_candidates cs @ rest) = Inr (cs, rest)" if "candidates_ok cs" for cs rest
    using that addresses.counted_read_back [of cs rest]
    by (simp add: rd_candidates_def encoded_candidates_def candidates_ok_def)
  show "grows rd_candidates" unfolding rd_candidates_def by (intro growing)
qed

end
