(* ===== verification/WireValid.thy ===== *)
theory WireValid
  imports WirePeers
begin

text \<open>
  What arrives is well formed. Whatever bytes another device or a server sends, what the readers
  of \<open>crates/resonate-sync/src/wire.rs\<close> make of them is a value the writers may be given: texts are
  UTF-8 and short enough, ids and keys have their lengths, lists and blobs keep their bounds.
  Such a value is already as it is sent, so passing it on changes nothing in it.
\<close>

subsection \<open>What a reader gives\<close>

definition gives :: "('a \<Rightarrow> bool) \<Rightarrow> 'a reader \<Rightarrow> bool" where
  "gives P rd \<longleftrightarrow> (\<forall>bs x rest. rd bs = Inr (x, rest) \<longrightarrow> P x)"

named_theorems giving \<open>what readers give\<close>

lemma givesI: "(\<And>bs x rest. rd bs = Inr (x, rest) \<Longrightarrow> P x) \<Longrightarrow> gives P rd"
  by (simp add: gives_def)

lemma givesD: "gives P rd \<Longrightarrow> rd bs = Inr (x, rest) \<Longrightarrow> P x"
  unfolding gives_def by blast

lemma gives_ok [giving]: "P x \<Longrightarrow> gives P (rd_ok x)"
  by (simp add: gives_def)

lemma gives_fail [giving]: "gives P (rd_fail e)"
  by (simp add: gives_def)

lemma gives_then:
  assumes "gives P rd" and "\<And>x. P x \<Longrightarrow> gives Q (k x)"
  shows "gives Q (rd_then rd k)"
proof (rule givesI)
  fix bs x rest
  assume "rd_then rd k bs = Inr (x, rest)"
  then obtain y mid where "rd bs = Inr (y, mid)" "k y mid = Inr (x, rest)" by (auto split: sum.splits)
  then show "Q x" using givesD [OF assms(1)] givesD [OF assms(2)] by blast
qed

lemma gives_if [giving]: "(c \<Longrightarrow> gives P a) \<Longrightarrow> (\<not> c \<Longrightarrow> gives P b) \<Longrightarrow> gives P (if c then a else b)"
  by simp

lemma gives_case [giving]:
  "(v = None \<Longrightarrow> gives P a) \<Longrightarrow> (\<And>x. v = Some x \<Longrightarrow> gives P (f x)) \<Longrightarrow> gives P (case v of None \<Rightarrow> a | Some x \<Rightarrow> f x)"
  by (cases v) simp_all

lemma gives_many: "gives P rd \<Longrightarrow> gives (\<lambda>xs. list_all P xs \<and> length xs = n) (rd_many n rd)"
proof (induction n)
  case (Suc n)
  show ?case
    unfolding rd_many.simps
    by (intro gives_then [OF Suc.prems] gives_then [OF Suc.IH [OF Suc.prems]] gives_ok) simp
qed (simp add: gives_ok)

lemma gives_weaken: "gives P rd \<Longrightarrow> (\<And>x. P x \<Longrightarrow> Q x) \<Longrightarrow> gives Q rd"
  by (auto simp: gives_def)

lemma gives_listed:
  assumes "gives P rd" and "gives B c"
  shows "gives (\<lambda>xs. list_all P xs \<and> B (length xs)) (rd_then c (\<lambda>n. rd_many n rd))"
  by (rule gives_then [OF assms(2)], rule gives_weaken [OF gives_many [OF assms(1)]]) simp

lemma gives_optional: "gives P rd \<Longrightarrow> gives (pred_option P) (rd_option rd)"
  unfolding rd_option_def
  by (rule gives_then [of "\<lambda>_. True"]) (auto intro!: gives_ok gives_then [of P] simp: gives_def [of "\<lambda>_. True"])

lemma gives_whole: "gives P rd \<Longrightarrow> rd_whole rd bs = Inr x \<Longrightarrow> P x"
  by (auto simp: rd_whole_def dest: givesD split: sum.splits)

subsection \<open>Numbers, counts and bytes\<close>

lemma gives_plain:
  "gives (\<lambda>_. True) rd_byte" "gives (\<lambda>_. True) rd_flag" "gives (\<lambda>_. True) rd_number" "gives (\<lambda>_. True) rd_signed"
  "gives (\<lambda>_. True) rd_small" "gives (\<lambda>_. True) rd_half" "gives (\<lambda>_. True) rd_version" "gives (\<lambda>_. True) rd_figure"
  "gives (\<lambda>_. True) rd_optional_number" "gives (\<lambda>_. True) rd_optional_byte" "gives (\<lambda>_. True) rd_whole_file"
  by (simp_all add: gives_def)

lemmas then_plain [giving] = gives_plain [THEN gives_then]

lemma gives_length: "gives (\<lambda>n. n \<le> most \<and> n \<le> u64_max) (rd_length most)"
proof (rule givesI)
  fix bs n rest
  assume "rd_length most bs = Inr (n, rest)"
  then have "unat (of_nat n :: u64) = n" "n \<le> most" using rd_length_Inr by blast+
  then show "n \<le> most \<and> n \<le> u64_max"
    using unsigned_less [where 'b = 64 and 'a = nat, of "of_nat n"] by (simp add: u64_max_def)
qed

lemma gives_count: "gives (\<lambda>n. n \<le> u64_max) rd_count" "gives (\<lambda>n. n \<le> u64_max) (rd_count_of each)"
  using givesD [OF gives_length] unfolding gives_def rd_count_def rd_count_of_def by blast+

lemmas then_count [giving] = gives_count [THEN gives_then]

lemma gives_at_most: "gives (\<lambda>n. n \<le> most) (rd_at_most each most)"
  unfolding rd_at_most_def by (intro giving) simp

lemmas then_at_most [giving] = gives_at_most [THEN gives_then]

lemma gives_fixed: "gives (\<lambda>bs. length bs = n) (rd_fixed n)"
  by (auto simp: gives_def rd_fixed_def split: if_splits)

lemmas then_fixed [giving] = gives_fixed [THEN gives_then]

lemma gives_bytes: "gives (\<lambda>bs. length bs \<le> most) (rd_bytes most)"
proof (rule givesI)
  fix bs x rest
  assume "rd_bytes most bs = Inr (x, rest)"
  then obtain n mid where n: "rd_length most bs = Inr (n, mid)" "x = take n mid"
    by (auto simp: rd_bytes_def split: sum.splits)
  then show "length x \<le> most" using rd_length_Inr [OF n(1)] by simp
qed

lemmas then_bytes [giving] = gives_bytes [THEN gives_then]

lemma gives_string: "gives (\<lambda>t. utf8 t \<and> length t \<le> most) (rd_string most)"
  unfolding rd_string_def from_utf8_def by (intro giving) simp

lemmas then_string [giving] = gives_string [THEN gives_then]

lemma gives_text: "gives (\<lambda>t. utf8 t \<and> within_the_longest_text t = t) rd_text"
  unfolding rd_text_def
  by (rule gives_weaken [OF gives_string]) (simp add: within_the_longest_text_def clipped_short)

lemmas then_text [giving] = gives_text [THEN gives_then]

lemma option_all: "pred_option (\<lambda>x. P x \<and> f x = x) v \<longleftrightarrow> pred_option P v \<and> map_option f v = v"
  by (cases v) simp_all

lemma list_all_sent: "list_all (\<lambda>x. P x \<and> f x = x) xs \<longleftrightarrow> list_all P xs \<and> map f xs = xs"
  by (induction xs) auto

lemma option_fixed: "pred_option (\<lambda>x. f x = x) v \<Longrightarrow> map_option f v = v"
  by (cases v) simp_all

lemmas arrived = option_all list_all_sent

lemma gives_optional_text:
  "gives (\<lambda>v. pred_option utf8 v \<and> map_option within_the_longest_text v = v) rd_optional_text"
  unfolding rd_optional_text_def by (rule gives_weaken [OF gives_optional [OF gives_text]]) (simp add: arrived)

lemmas then_optional_text [giving] = gives_optional_text [THEN gives_then]

lemma in_millis_again: "in_millis (from_millis ms) = from_millis ms"
proof -
  have "unat ms mod 1000 * 1000000 div 1000000 = unat ms mod 1000" by simp
  then have "as_millis (from_millis ms) = unat ms"
    by (simp add: as_millis_def from_millis_def)
  moreover have "unat ms \<le> u64_max" using unsigned_less [where 'b = 64 and 'a = nat, of ms] by (simp add: u64_max_def)
  ultimately show ?thesis by (simp add: in_millis_def)
qed

lemma gives_duration: "gives (\<lambda>d. in_millis d = d) rd_duration"
  unfolding rd_duration_def by (intro giving) (rule in_millis_again)

lemmas then_duration [giving] = gives_duration [THEN gives_then]

lemma gives_durations: "gives (\<lambda>v. map_option in_millis v = v) (rd_option rd_duration)"
  by (rule gives_weaken [OF gives_optional [OF gives_duration]]) (rule option_fixed)

lemmas then_durations [giving] = gives_durations [THEN gives_then]

lemma gives_ip: "gives ip_ok rd_ip"
  unfolding rd_ip_def by (intro giving) simp_all

lemmas then_ip [giving] = gives_ip [THEN gives_then]

lemma gives_address: "gives (\<lambda>a. ip_ok (sa_ip a)) rd_address"
  unfolding rd_address_def by (intro giving) simp

lemmas then_address [giving] = gives_address [THEN gives_then]

lemma gives_device: "gives device_ok rd_device"
  unfolding rd_device_def device_ok_def by (rule gives_fixed)

lemmas then_device [giving] = gives_device [THEN gives_then]

lemma gives_stamp: "gives stamp_ok rd_stamp"
  unfolding rd_stamp_def stamp_ok_def by (intro giving) simp

lemmas then_stamp [giving] = gives_stamp [THEN gives_then]

lemma gives_mbid: "gives mbid_ok rd_mbid"
  unfolding rd_mbid_def by (intro giving) (auto dest: mbid_new_facts)

lemmas then_mbid [giving] = gives_mbid [THEN gives_then]

text \<open>
  A codec whose reader only gives what its writer may be given, as it is sent: what is read and
  written again is read the same.
\<close>

locale faithful_codec = codec +
  assumes arrives: "gives (\<lambda>x. ok x \<and> sent x = x) rd"
begin

lemma passed_on: "rd_whole rd bs = Inr x \<Longrightarrow> ok x \<and> rd_whole rd (wr x) = Inr x"
  using gives_whole [OF arrives] read_whole by metis

end

subsection \<open>Recordings, prints, tags, releases and answers\<close>

lemma gives_recording: "gives (\<lambda>r. recording_ok r \<and> sent_recording r = r) rd_recording"
  unfolding rd_recording_def recording_ok_def sent_recording_def
  by (intro giving then_mbid gives_optional [OF gives_mbid, THEN gives_then]) simp

lemmas then_recording [giving] = gives_recording [THEN gives_then]

lemma gives_recognition: "gives (\<lambda>r. recognition_ok r \<and> sent_recognition r = r) rd_recognition"
  unfolding rd_recognition_def by (intro giving) simp_all

lemmas then_recognition [giving] = gives_optional [OF gives_recognition, THEN gives_then]

lemma gives_print: "gives (\<lambda>p. print_ok p \<and> sent_print p = p) rd_print"
  unfolding rd_print_def
proof (intro giving)
  fix encoded secs print recognition
  assume e: "utf8 encoded \<and> length encoded \<le> longest_shared_print"
    and p: "chromaprint_new encoded (from_secs secs) = Some print"
    and r: "pred_option (\<lambda>r. recognition_ok r \<and> sent_recognition r = r) recognition"
  have parts: "print = \<lparr>cp_encoded = encoded, cp_length = \<lparr>dur_secs = unat secs, dur_nanos = 0\<rparr>\<rparr>"
    "encoded \<noteq> []" "list_all url_safe encoded"
    using p by (auto simp: chromaprint_new_def from_secs_def split: if_splits)
  have "unat secs \<le> u64_max" using unsigned_less [where 'b = 64 and 'a = nat, of secs] by (simp add: u64_max_def)
  then show "print_ok \<lparr>sp_print = print, sp_recognition = recognition\<rparr> \<and>
      sent_print \<lparr>sp_print = print, sp_recognition = recognition\<rparr> = \<lparr>sp_print = print, sp_recognition = recognition\<rparr>"
    using e r parts by (simp add: print_ok_def sent_print_def chromaprint_new_def arrived)
qed

lemmas then_print [giving] = gives_print [THEN gives_then]

lemma gives_lyricsfile: "gives (\<lambda>l. lyricsfile_ok l \<and> sent_lyricsfile l = l) rd_lyricsfile"
  unfolding rd_lyricsfile_def by (intro giving) (simp add: lyricsfile_ok_def sent_lyricsfile_def clipped_short)

lemmas then_lyricsfile [giving] = gives_lyricsfile [THEN gives_then]

lemma gives_tags: "gives (\<lambda>t. tags_ok t \<and> sent_tags t = t) rd_tags"
  unfolding rd_tags_def by (intro giving) (simp add: tags_ok_def sent_tags_def)

lemmas then_tags [giving] = gives_tags [THEN gives_then]

lemma gives_held_song: "gives (\<lambda>h. held_song_ok h \<and> sent_held_song h = h) rd_held_song"
  unfolding rd_held_song_def by (intro giving) (simp add: held_song_ok_def sent_held_song_def)

lemma gives_link: "gives (\<lambda>l. link_ok l \<and> sent_link l = l) rd_link"
  unfolding rd_link_def by (intro giving) (simp add: link_ok_def sent_link_def link_new_def)

lemma gives_links: "gives (\<lambda>ls. list_all link_ok ls \<and> sent_links ls = ls) rd_links"
  unfolding rd_links_def
  by (rule gives_weaken [OF gives_listed [OF gives_link gives_at_most]]) (auto simp: sent_links_def arrived)

lemmas then_links [giving] = gives_links [THEN gives_then]

lemma gives_codes:
  "gives (\<lambda>cs. list_all utf8 cs \<and> map within_the_longest_text (take codes_shared_at_most cs) = cs) rd_codes"
  unfolding rd_codes_def
  by (rule gives_weaken [OF gives_listed [OF gives_text gives_at_most]]) (auto simp: arrived)

lemmas then_codes [giving] = gives_codes [THEN gives_then]

lemmas then_mbids [giving] = gives_optional [OF gives_mbid, THEN gives_then]

lemma gives_track: "gives (\<lambda>t. track_ok t \<and> sent_track t = t) rd_track"
  unfolding rd_track_def by (intro giving) (simp add: track_ok_def sent_track_def)

lemma gives_credit: "gives (\<lambda>c. credit_ok c \<and> sent_credit c = c) rd_credit"
  unfolding rd_credit_def by (intro giving) (simp add: credit_ok_def sent_credit_def)

lemmas then_tracks [giving] = gives_listed [OF gives_track gives_count(2), THEN gives_then]
  gives_listed [OF gives_credit gives_count(2), THEN gives_then]

lemma gives_medium: "gives (\<lambda>m. medium_ok m \<and> sent_medium m = m) rd_medium"
  unfolding rd_medium_def by (intro giving) (simp add: medium_ok_def sent_medium_def arrived)

lemmas then_media [giving] = gives_listed [OF gives_medium gives_count(2), THEN gives_then]

lemma gives_release: "gives (\<lambda>r. release_ok r \<and> sent_release r = r) rd_release"
  unfolding rd_release_def by (intro giving) (simp add: release_ok_def sent_release_def arrived)

lemmas then_release [giving] = gives_release [THEN gives_then]

lemmas then_figures [giving] = gives_optional [OF gives_plain(8), THEN gives_then]

lemma gives_study: "gives (\<lambda>s. study_ok s \<and> sent_study s = s) rd_study"
  unfolding rd_study_def by (intro giving) (simp add: study_ok_def sent_study_def)

lemmas then_study [giving] = gives_study [THEN gives_then]

lemma gives_answer: "gives (pred_option (\<lambda>a. answer_ok a \<and> sent_answer a = a)) (rd_answer_among known)"
  unfolding rd_answer_among_def by (intro giving) (simp_all add: clipped_short)

subsection \<open>Messages of the server\<close>

lemma gives_space: "gives space_ok (rd_fixed space_bytes)" and gives_token: "gives token_ok (rd_fixed token_bytes)"
  unfolding space_ok_def [abs_def] token_ok_def [abs_def] by (rule gives_fixed)+

lemma gives_sealed: "gives (blob_ok least) (rd_sealed least)"
  unfolding rd_sealed_def by (intro giving) (simp add: blob_ok_def)

lemma gives_blobs: "gives (blobs_ok least) (rd_blobs least)"
  unfolding rd_blobs_def blobs_ok_def [abs_def] by (rule gives_listed [OF gives_sealed gives_count(2)])

lemmas then_blobs [giving] = gives_sealed [THEN gives_then] gives_blobs [THEN gives_then]

lemma gives_asked: "gives asked_ok rd_asked"
  unfolding rd_asked_def asked_ok_def
  by (intro giving gives_then [OF gives_space] gives_then [OF gives_token]) simp

lemma gives_asked_list: "gives (\<lambda>as. list_all asked_ok as \<and> length as \<le> heads_asked_at_most) rd_asked_list"
  unfolding rd_asked_list_def
  by (intro giving) (rule gives_weaken [OF gives_many [OF gives_asked]], simp)

lemmas then_asked [giving] = gives_asked_list [THEN gives_then] gives_optional [OF gives_device, THEN gives_then]

lemma gives_to_server: "gives (to_server_ok least) (rd_to_server least)"
  unfolding rd_to_server_def
  by (intro giving gives_then [OF gives_space] gives_then [OF gives_token]
      gives_then [OF gives_optional [OF gives_token]]) simp_all

lemma gives_record: "gives (record_ok least) (rd_record least)"
  unfolding rd_record_def
  by (intro giving gives_then [OF gives_optional [OF gives_sealed]]) (simp add: record_ok_def)

lemma gives_head: "gives head_ok rd_head"
  unfolding rd_head_def head_ok_def by (intro giving gives_then [OF gives_space]) simp

lemma gives_server_lists:
  "gives (\<lambda>rs. list_all (record_ok least) rs \<and> length rs \<le> u64_max) (rd_records least)"
  "gives (\<lambda>hs. list_all head_ok hs \<and> length hs \<le> u64_max) rd_heads"
  "gives devices_ok rd_online" "gives devices_ok rd_members"
  unfolding rd_records_def rd_heads_def rd_online_def rd_members_def devices_ok_def [abs_def]
  by (rule gives_listed [OF gives_record gives_count(2)] gives_listed [OF gives_head gives_count(2)]
      gives_listed [OF gives_device gives_count(1)] gives_listed [OF gives_device gives_count(2)])+

lemmas then_server_lists [giving] = gives_server_lists [THEN gives_then]

lemma gives_from_server: "gives (from_server_ok least) (rd_from_server least)"
  unfolding rd_from_server_def by (intro giving) simp_all

interpretation to_server_arriving:
  faithful_codec "to_server_ok least" to_server_encoded "rd_to_server least" "\<lambda>m. m" for least
  by unfold_locales (use gives_to_server in simp)

interpretation from_server_arriving:
  faithful_codec "from_server_ok least" from_server_encoded "rd_from_server least" "\<lambda>m. m" for least
  by unfold_locales (use gives_from_server in simp)

subsection \<open>Changes\<close>

lemma gives_recordings: "gives (\<lambda>rs. recordings_ok rs \<and> map sent_recording rs = rs) rd_recordings"
  unfolding rd_recordings_def recordings_ok_def
  by (rule gives_weaken [OF gives_listed [OF gives_recording gives_count(1)]]) (simp add: arrived)

lemmas then_recordings [giving] = gives_recordings [THEN gives_then]

lemma gives_key: "gives key_ok rd_key"
  unfolding rd_key_def key_ok_def [abs_def] by (rule gives_fixed)

lemmas then_keys [giving] = gives_key [THEN gives_then] gives_optional [OF gives_key, THEN gives_then]
  gives_optional [OF gives_text, THEN gives_then] gives_optional [OF gives_plain(5), THEN gives_then]

lemma gives_bodies:
  "gives (\<lambda>b. playlist_body_ok b \<and> sent_playlist_body b = b) rd_playlist_body"
  "gives (\<lambda>b. query_body_ok b \<and> sent_query_body b = b) rd_query_body"
  unfolding rd_playlist_body_def rd_query_body_def
  by (intro giving; simp add: playlist_body_ok_def sent_playlist_body_def query_body_ok_def sent_query_body_def arrived)+

lemmas then_bodies [giving] = gives_bodies [THEN gives_optional, THEN gives_then]

lemma gives_changes:
  defines "good \<equiv> \<lambda>c. change_ok c \<and> sent_change c = c"
  shows "gives good rd_device_note" "gives good rd_playlist_note" "gives good rd_favourite_note" "gives good rd_listen"
    "gives good rd_handoff" "gives good rd_forgotten" "gives good rd_query_note" "gives good rd_playlist_folded"
    "gives good rd_query_folded" "gives good rd_share_note"
  unfolding change_readers good_def
  by (intro giving; simp add: arrived)+

lemma finished_gives: "gives P rd \<Longrightarrow> finished (rd bs) = Inr (Some c) \<Longrightarrow> P c"
  by (auto simp: finished_def dest: givesD split: sum.splits)

lemma answer_note_arrives:
  assumes "decoded_answer_note answers bs = Inr (Some c)"
  shows "change_ok c \<and> sent_change c = c"
proof -
  obtain r bs1 s bs2 a bs3 where r: "rd_recording bs = Inr (r, bs1)" and s: "rd_stamp bs1 = Inr (s, bs2)"
    and a: "rd_answer_among answers bs2 = Inr (Some a, bs3)"
    and c: "c = Answered \<lparr>an_recording = r, an_stamp = s, an_answer = a\<rparr>"
    using assms by (auto simp: decoded_answer_note_def finished_def split: sum.splits option.splits)
  from givesD [OF gives_recording r] givesD [OF gives_stamp s] givesD [OF gives_answer a] show ?thesis
    by (simp add: c)
qed

lemma change_arrives: "decoded_change answers bs = Inr (Some c) \<Longrightarrow> change_ok c \<and> sent_change c = c"
  by (auto simp: decoded_change_def dest: finished_gives [OF gives_changes(1)] finished_gives [OF gives_changes(2)]
      finished_gives [OF gives_changes(3)] finished_gives [OF gives_changes(4)] finished_gives [OF gives_changes(5)]
      finished_gives [OF gives_changes(6)] finished_gives [OF gives_changes(7)] finished_gives [OF gives_changes(8)]
      finished_gives [OF gives_changes(9)] finished_gives [OF gives_changes(10)] answer_note_arrives
      split: sum.splits if_splits)

lemma changes_arrive:
  "rd_changes answers n bs = Inr (cs, rest) \<Longrightarrow>
     list_all (\<lambda>c. change_ok c \<and> sent_change c = c) cs \<and> length cs \<le> n"
proof (induction n arbitrary: bs cs rest)
  case (Suc n)
  obtain encoded mid c cs' where c: "decoded_change answers encoded = Inr c"
    and more: "rd_changes answers n mid = Inr (cs', rest)"
    and cs: "cs = (case c of None \<Rightarrow> cs' | Some c \<Rightarrow> c # cs')"
    using Suc.prems by (auto split: sum.splits)
  show ?case
    using Suc.IH [OF more] c change_arrives [of answers encoded] by (cases c) (auto simp: cs)
qed simp

lemma bundle_arrives:
  assumes "decoded_bundle_knowing answers bs = Inr cs"
  shows "list_all change_ok cs \<and> map sent_change cs = cs \<and> length cs \<le> u64_max"
proof -
  have "gives (\<lambda>cs. list_all (\<lambda>c. change_ok c \<and> sent_change c = c) cs \<and> length cs \<le> u64_max)
      (rd_then rd_count (rd_changes answers))"
    by (intro giving givesI) (auto dest: changes_arrive)
  from gives_whole [OF this] assms show ?thesis by (simp add: decoded_bundle_knowing_def arrived)
qed

subsection \<open>Messages of peers\<close>

lemma gives_bundle: "gives (\<lambda>cs. list_all change_ok cs \<and> map sent_change cs = cs) rd_bundle"
  unfolding rd_bundle_def
  by (intro giving givesI) (auto simp: decoded_bundle_def dest: bundle_arrives split: sum.splits)

lemma gives_zone_id: "gives (\<lambda>z. z \<noteq> 0) rd_zone_id"
  unfolding rd_zone_id_def zone_new_def by (intro giving) (auto split: if_splits)

lemma permille_at_most: "permille_new v \<le> 1000"
  unfolding permille_new_def using not_le_imp_less by auto

lemma gives_command: "gives (\<lambda>c. command_ok c \<and> sent_command c = c) rd_command"
  unfolding rd_command_def by (intro giving) (simp_all add: permille_at_most)

lemma gives_asks:
  "gives (\<lambda>ms. list_all mbid_ok ms \<and> length ms \<le> covers_asked_at_most) rd_covers_asked"
  "gives (\<lambda>rs. list_all (\<lambda>r. recording_ok r \<and> sent_recording r = r) rs \<and> length rs \<le> lyricsfiles_asked_at_most) rd_lyricsfiles_asked"
  "gives (\<lambda>fs. list_all (\<lambda>_. True) fs \<and> length fs \<le> prints_asked_at_most) rd_prints_asked"
  unfolding rd_covers_asked_def rd_lyricsfiles_asked_def rd_prints_asked_def
  by (rule gives_listed [OF gives_mbid gives_at_most] gives_listed [OF gives_recording gives_at_most]
      gives_listed [OF gives_plain(11) gives_at_most])+

lemmas then_to_peer [giving] = gives_bundle [THEN gives_then] gives_zone_id [THEN gives_then]
  gives_command [THEN gives_then] gives_asks [THEN gives_then]

definition to_peer_arrived :: "to_peer \<Rightarrow> bool" where
  "to_peer_arrived m \<longleftrightarrow> sent_to_peer m = m \<and>
     (case m of Changes _ changes \<Rightarrow> list_all change_ok changes | _ \<Rightarrow> to_peer_ok m)"

lemma gives_to_peer: "gives to_peer_arrived rd_to_peer"
  unfolding rd_to_peer_def to_peer_arrived_def by (intro giving; simp add: arrived)

lemma gives_row: "gives (\<lambda>r. row_ok r \<and> sent_row r = r) rd_row"
  unfolding rd_row_def by (intro giving) (simp add: row_ok_def sent_row_def)

lemma gives_rows: "gives (\<lambda>rs. list_all row_ok rs \<and> map sent_row (take rows_mirrored_at_most rs) = rs) rd_rows"
  unfolding rd_rows_def
  by (rule gives_weaken [OF gives_listed [OF gives_row gives_at_most]]) (auto simp: arrived)

lemmas then_rows [giving] = gives_rows [THEN gives_then]

lemma gives_zone: "gives (\<lambda>z. zone_ok z \<and> sent_zone z = z) rd_zone"
  unfolding rd_zone_def
  by (intro giving) (auto simp: zone_ok_def sent_zone_def zone_new_def playing_numbered_def permille_at_most split: if_splits)

lemma gives_zones: "gives (\<lambda>zs. list_all zone_ok zs \<and> map sent_zone (take zones_mirrored_at_most zs) = zs) rd_zones"
  unfolding rd_zones_def
  by (rule gives_weaken [OF gives_listed [OF gives_zone gives_at_most]]) (auto simp: arrived)

lemma gives_held_songs:
  "gives (\<lambda>hs. list_all (\<lambda>h. held_song_ok h \<and> sent_held_song h = h) hs \<and> length hs \<le> u64_max) rd_held_songs"
  unfolding rd_held_songs_def by (rule gives_listed [OF gives_held_song gives_count(1)])

lemmas then_from_peer [giving] = gives_zones [THEN gives_then] gives_held_songs [THEN gives_then]

lemma gives_from_peer: "gives (\<lambda>m. from_peer_ok m \<and> sent_from_peer m = m) rd_from_peer"
  unfolding rd_from_peer_def by (intro giving; simp add: arrived)

interpretation from_peer_arriving: faithful_codec from_peer_ok from_peer_encoded rd_from_peer sent_from_peer
  by unfold_locales (rule gives_from_peer)

lemma gives_beacon: "gives beacon_ok rd_beacon"
  unfolding rd_beacon_def
  by (intro giving gives_then [OF gives_listed [OF gives_ip gives_count(1)]]) (simp add: beacon_ok_def)

lemma gives_candidates: "gives candidates_ok rd_candidates"
  unfolding rd_candidates_def candidates_ok_def [abs_def] by (rule gives_listed [OF gives_address gives_count(1)])

interpretation beacon_arriving: faithful_codec beacon_ok wr_beacon rd_beacon "\<lambda>b. b"
  by unfold_locales (use gives_beacon in simp)

interpretation candidates_arriving: faithful_codec candidates_ok encoded_candidates rd_candidates "\<lambda>cs. cs"
  by unfold_locales (use gives_candidates in simp)

end
