(* ===== verification/WireContracts.thy ===== *)
theory WireContracts
  imports WireValid
begin

text \<open>
  What the messages of \<open>crates/resonate-sync\<close> promise: what is written is read back, nothing but a
  whole message is read as one, what arrives is well formed, and what a newer device writes does
  not keep an older one from reading the rest.
\<close>

subsection \<open>Numbers and texts\<close>

lemma number_length: "unat v < 2 ^ (7 * k) \<Longrightarrow> length (wr_number v) \<le> max 1 k"
proof (induction k arbitrary: v)
  case 0
  then have "drop_bit 7 v = 0" by (simp add: unat_eq_0)
  then show ?case by (subst wr_number.simps) (simp add: Let_def)
next
  case (Suc k)
  show ?case
  proof (cases "drop_bit 7 v = 0")
    case True
    then show ?thesis by (subst wr_number.simps) (simp add: Let_def)
  next
    case False
    have "unat (drop_bit 7 v) = unat v div 2 ^ 7" by (simp add: unat_drop_bit_eq drop_bit_nat_def)
    moreover have "unat v < 2 ^ (7 * k) * 2 ^ 7" using Suc.prems by (simp add: power_add mult.commute)
    ultimately have small: "unat (drop_bit 7 v) < 2 ^ (7 * k)" by (simp add: less_mult_imp_div_less)
    have "k \<noteq> 0"
    proof
      assume "k = 0"
      then have "drop_bit 7 v = 0" using small by (simp add: unat_eq_0)
      then show False using False by simp
    qed
    then have "length (wr_number (drop_bit 7 v)) \<le> k" using Suc.IH [OF small] by simp
    then show ?thesis using False by (subst wr_number.simps) (simp add: Let_def)
  qed
qed

lemma number_at_most_ten: "length (wr_number v) \<le> 10"
  using number_length [of v 10] unsigned_less [where 'b = 64 and 'a = nat, of v] by simp

text \<open>
  Every number comes back, whatever follows it, and takes at most ten bytes: \<open>number\<close> and
  \<open>signed\<close> of the reader undo those of the writer over the whole of 64 bits.
\<close>

theorem numbers_come_back:
  "rd_number (wr_number v @ rest) = Inr (v, rest) \<and> rd_signed (wr_signed i @ rest) = Inr (i, rest) \<and>
   length (wr_number v) \<le> 10 \<and> length (wr_signed i) \<le> 10"
proof -
  have "length (wr_signed i) \<le> 10" unfolding wr_signed_def by (rule number_at_most_ten)
  then show ?thesis by (simp add: reads number_at_most_ten)
qed

lemma nine_more:
  assumes "\<forall>i<9. Bit_Operations.and (bs ! i) 0x80 \<noteq> (0 :: u8)" and "10 \<le> length bs"
  obtains v where "rd_number bs = rd_number_from 63 v (drop 9 bs)"
proof -
  have parts: "bs ! i # drop (Suc i) bs = drop i bs" if "i < 9" for i
    using assms(2) that by (simp add: Cons_nth_drop_Suc)
  have step: "\<exists>v. rd_number bs = rd_number_from (7 * i) v (drop i bs)" if "i \<le> 9" for i
    using that
  proof (induction i)
    case (Suc i)
    then obtain v where v: "rd_number bs = rd_number_from (7 * i) v (drop i bs)" by auto
    have "7 * i < 63" "i < 9" using Suc.prems by simp_all
    then have "rd_number_from (7 * i) v (bs ! i # drop (Suc i) bs) =
        rd_number_from (7 * i + 7) (Bit_Operations.or v (push_bit (7 * i) (ucast (Bit_Operations.and (bs ! i) 0x7f)))) (drop (Suc i) bs)"
      using assms(1) by (simp add: Let_def)
    then show ?case using v parts [OF \<open>i < 9\<close>] by (auto simp: add.commute)
  qed (auto simp: rd_number_def)
  show thesis using step [of 9] that by auto
qed

lemma high_or_small: "Bit_Operations.and b 0x80 = 0 \<Longrightarrow> 1 < b \<Longrightarrow> 1 < (ucast (Bit_Operations.and b 0x7f) :: u64)" for b :: u8
proof -
  assume b: "Bit_Operations.and b 0x80 = 0" "1 < b"
  have "Bit_Operations.and b 0x7f = b"
    unfolding low_bits
  proof (rule bit_word_eqI)
    fix n :: nat
    assume "n < LENGTH(8)"
    moreover have "\<not> bit b 7"
    proof
      assume "bit b 7"
      then have "bit (Bit_Operations.and b 0x80) 7" by (simp add: bit_and_iff high_bit)
      then show False using b(1) by simp
    qed
    ultimately show "bit (take_bit 7 b) n = bit b n" by (cases "n = 7") (auto simp: bit_simps)
  qed
  then show ?thesis using b(2) by (simp add: word_less_nat_alt unsigned_ucast_eq take_bit_nat_eq_self unsigned_less [THEN less_trans])
qed

text \<open>
  A number longer than 64 bits is refused: after nine bytes that say more follows, a tenth
  that holds more than the one bit left, or says more follows, is \<open>BadNumber\<close>.
\<close>

theorem long_numbers_are_refused:
  assumes "10 \<le> length bs" and "\<forall>i<9. Bit_Operations.and (bs ! i) 0x80 \<noteq> 0" and "1 < bs ! 9"
  shows "rd_number bs = Inl BadNumber"
proof -
  obtain v where "rd_number bs = rd_number_from 63 v (drop 9 bs)" using assms(2,1) by (rule nine_more)
  moreover have "drop 9 bs = bs ! 9 # drop 10 bs"
    using assms(1) Cons_nth_drop_Suc [of 9 bs] by simp
  moreover have "rd_number_from 70 w more = Inl BadNumber" for w more by (cases more) simp_all
  ultimately show ?thesis using high_or_small [of "bs ! 9"] assms(3) by (auto simp: Let_def)
qed

theorem long_numbers_are_refused_witness: "rd_number (replicate 9 0xFF @ [2, 7]) = Inl BadNumber"
  by (rule long_numbers_are_refused) (simp_all add: nth_append)

text \<open>
  A count is taken on only where the bytes left could hold so many: whatever a frame claims,
  the entries it is read into are at most as many as it has room for, and no more than are let.
\<close>

theorem claimed_counts_are_bounded:
  assumes "rd_at_most each most bs = Inr (n, rest)"
  shows "n \<le> most \<and> n * max each 1 \<le> length bs \<and> n \<le> length rest"
proof -
  have "rd_count_of each bs = Inr (n, rest)" "n \<le> most"
    using assms by (auto simp: rd_at_most_def split: sum.splits if_splits)
  then show ?thesis using count_bounded by blast
qed

theorem claimed_counts_are_bounded_witness: "3 * max 2 1 \<le> length [3, 0, 0, 0, 0, 0 :: u8, 0]"
proof -
  have "rd_at_most 2 5 [3, 0, 0, 0, 0, 0, 0] = Inr (3, [0, 0, 0, 0, 0, 0])"
    by code_simp
  from claimed_counts_are_bounded [OF this] show ?thesis by simp
qed

lemma lead_facts: "lead b = Some (n, lo, hi) \<Longrightarrow> n \<le> 3 \<and> \<not> continues b"
  by (auto simp: lead_def continues_def word_le_nat_alt word_less_nat_alt split: if_splits)

lemma first_not_continuing: "utf8 (b # bs) \<Longrightarrow> \<not> continues b"
  using lead_facts by (fastforce split: option.splits)

lemma boundary_near: "utf8 t \<Longrightarrow> i < length t \<Longrightarrow> \<exists>j\<le>3. j \<le> i \<and> char_boundary t (i - j)"
proof (induction t arbitrary: i rule: utf8.induct)
  case (2 b bs)
  then obtain n lo hi where l: "lead b = Some (n, lo, hi)" "follows_lead (n, lo, hi) bs" "utf8 (drop n bs)"
    by (auto split: option.splits)
  have n: "n \<le> 3" "n \<le> length bs" using lead_facts [OF l(1)] l(2) by (auto simp: follows_lead_def)
  show ?case
  proof (cases "i \<le> n")
    case True
    then show ?thesis using n(1) by (intro exI [of _ i]) (simp add: char_boundary_def)
  next
    case False
    define k where "k = i - 1 - n"
    have k: "k < length (drop n bs)" using False "2.prems"(2) by (simp add: k_def)
    have "\<exists>j\<le>3. j \<le> k \<and> char_boundary (drop n bs) (k - j)" using "2.IH" [OF l(1), of k] l(3) k by simp
    then obtain j where j: "j \<le> 3" "j \<le> k" "char_boundary (drop n bs) (k - j)" by blast
    have at: "i - j = Suc (n + (k - j))" using False j(2) by (simp add: k_def)
    have "char_boundary (b # bs) (i - j)"
    proof (cases "k - j")
      case 0
      have "drop n bs = bs ! n # drop (Suc n) bs" using k by (simp add: Cons_nth_drop_Suc)
      then have "\<not> continues (bs ! n)" using l(3) first_not_continuing by simp
      then show ?thesis using at 0 k n(2) by (auto simp: char_boundary_def)
    next
      case (Suc m)
      then show ?thesis using at j(3) n(2) by (auto simp: char_boundary_def)
    qed
    then show ?thesis using j(1,2) False by (intro exI [of _ j]) (simp add: k_def)
  qed
qed simp

lemma floor_boundary_greatest: "char_boundary t m \<Longrightarrow> m \<le> i \<Longrightarrow> m \<le> floor_boundary t i"
  by (induction i) (auto simp: le_Suc_eq)

lemma clipped_most: "utf8 t \<Longrightarrow> most < length t \<Longrightarrow> most \<le> length (clipped most t) + 3"
proof -
  assume "utf8 t" and len: "most < length t"
  then obtain j where j: "j \<le> 3" "j \<le> most" "char_boundary t (most - j)" using boundary_near by blast
  have "most - j \<le> floor_boundary t most" by (rule floor_boundary_greatest [OF j(3)]) simp
  moreover have "floor_boundary t most \<le> most" by (rule floor_boundary_le)
  ultimately show ?thesis using j(1) len by (simp add: clipped_def floor_char_boundary_def)
qed

text \<open>
  A text is sent as the longest of its beginnings that is at most 4096 bytes and ends between
  two characters: it is UTF-8 again, loses at most three bytes of the 4096, and is whole where it
  fits.
\<close>

theorem texts_are_cut_between_characters:
  assumes "utf8 t"
  shows "(\<exists>cut. t = within_the_longest_text t @ cut) \<and> utf8 (within_the_longest_text t) \<and>
    length (within_the_longest_text t) \<le> 4096 \<and> (length t \<le> 4096 \<longrightarrow> within_the_longest_text t = t) \<and>
    (4096 < length t \<longrightarrow> 4093 \<le> length (within_the_longest_text t))"
proof -
  have "4096 < length t \<longrightarrow> 4096 \<le> length (clipped 4096 t) + 3" using clipped_most [OF assms, of 4096] by blast
  then show ?thesis
    using assms clipped_prefix [of t 4096] clipped_length [of 4096 t] clipped_short [of t 4096]
    by (auto simp: within_the_longest_text_def longest_text_def)
qed

theorem texts_are_cut_between_characters_witness:
  "4093 \<le> length (within_the_longest_text (replicate 5000 0x61))"
proof -
  have "utf8 (replicate 5000 0x61)" by (rule ascii_utf8) (simp add: list_all_iff)
  from texts_are_cut_between_characters [OF this] show ?thesis by simp
qed

subsection \<open>Messages are read back, and only whole ones\<close>

context codec
begin

lemma exactly:
  assumes "ok x"
  shows "rd_whole rd (wr x) = Inr (sent x) \<and>
    (\<forall>start beyond. wr x = start @ beyond \<and> beyond \<noteq> [] \<longrightarrow> (\<exists>e. rd_whole rd start = Inl e)) \<and>
    (\<forall>beyond. beyond \<noteq> [] \<longrightarrow> rd_whole rd (wr x @ beyond) = Inl (Trailing (length beyond)))"
  using read_whole [OF assms] cut_short [OF assms] trailing [OF assms] by blast

end

text \<open>
  C36. A message to the server is read back as it was written; a part of it is refused, and so
  is anything left over after it.
\<close>

theorem messages_to_the_server_come_back:
  assumes "to_server_ok least m"
  shows "to_server_decoded least (to_server_encoded m) = Inr m \<and>
    (\<forall>start beyond. to_server_encoded m = start @ beyond \<and> beyond \<noteq> [] \<longrightarrow> (\<exists>e. to_server_decoded least start = Inl e)) \<and>
    (\<forall>beyond. beyond \<noteq> [] \<longrightarrow> to_server_decoded least (to_server_encoded m @ beyond) = Inl (Trailing (length beyond)))"
  unfolding to_server_decoded_def using to_server.exactly [OF assms] .

definition sample_hello :: to_server where
  "sample_hello = Hello 1 (replicate 16 7) (replicate 32 9) (replicate 16 3) 300"

theorem messages_to_the_server_come_back_witness:
  "to_server_decoded 28 (to_server_encoded sample_hello) = Inr sample_hello \<and>
   to_server_decoded 28 (to_server_encoded sample_hello @ [0]) = Inl (Trailing 1)"
proof -
  have "to_server_ok 28 sample_hello"
    by (simp add: sample_hello_def space_ok_def token_ok_def device_ok_def wire_sizes)
  from messages_to_the_server_come_back [OF this] show ?thesis by simp
qed

text \<open>
  C37. A message of the server is read back as it was written; a part of it is refused, and so is
  anything left over after it.
\<close>

theorem messages_of_the_server_come_back:
  assumes "from_server_ok least m"
  shows "from_server_decoded least (from_server_encoded m) = Inr m \<and>
    (\<forall>start beyond. from_server_encoded m = start @ beyond \<and> beyond \<noteq> [] \<longrightarrow> (\<exists>e. from_server_decoded least start = Inl e)) \<and>
    (\<forall>beyond. beyond \<noteq> [] \<longrightarrow> from_server_decoded least (from_server_encoded m @ beyond) = Inl (Trailing (length beyond)))"
  unfolding from_server_decoded_def using from_server.exactly [OF assms] .

definition sample_welcome :: from_server where
  "sample_welcome =
     Welcome [replicate 16 3, replicate 16 4] \<lparr>sa_ip = V4 [127, 0, 0, 1], sa_port = 4040\<rparr> 70000"

theorem messages_of_the_server_come_back_witness:
  "from_server_decoded 28 (from_server_encoded sample_welcome) = Inr sample_welcome"
proof -
  have "from_server_ok 28 sample_welcome"
    by (simp add: sample_welcome_def devices_ok_def device_ok_def wire_sizes)
  from messages_of_the_server_come_back [OF this] show ?thesis by simp
qed

text \<open>
  A message to a peer is read back as it is sent, with texts clipped and durations in whole
  milliseconds; a part of it is refused, and so is anything left over after it.
\<close>

theorem messages_to_a_peer_come_back:
  assumes "to_peer_ok m"
  shows "to_peer_decoded (to_peer_encoded m) = Inr (sent_to_peer m) \<and>
    (\<forall>start beyond. to_peer_encoded m = start @ beyond \<and> beyond \<noteq> [] \<longrightarrow> (\<exists>e. to_peer_decoded start = Inl e)) \<and>
    (\<forall>beyond. beyond \<noteq> [] \<longrightarrow> to_peer_decoded (to_peer_encoded m @ beyond) = Inl (Trailing (length beyond)))"
  unfolding to_peer_decoded_def using to_peer.exactly [OF assms] .

theorem messages_to_a_peer_come_back_witness:
  "to_peer_decoded (to_peer_encoded (Control 3 (RemoteSeek \<lparr>dur_secs = 61, dur_nanos = 500999999\<rparr>))) =
   Inr (Control 3 (RemoteSeek \<lparr>dur_secs = 61, dur_nanos = 500000000\<rparr>))"
proof -
  have "to_peer_ok (Control 3 (RemoteSeek \<lparr>dur_secs = 61, dur_nanos = 500999999\<rparr>))" by simp
  from messages_to_a_peer_come_back [OF this] show ?thesis
    by (simp add: in_millis_def as_millis_def from_millis_def u64_max_def)
qed

definition sample_recording :: recording where
  "sample_recording = \<lparr>rc_mbid = None, rc_title = ascii ''Echoes'', rc_artist = ascii ''Pink Floyd'',
     rc_album = ascii ''Meddle'', rc_length = Some \<lparr>dur_secs = 1411, dur_nanos = 0\<rparr>\<rparr>"

lemma short_ascii:
  "list_all (\<lambda>b. b < 0x80) t \<and> length t \<le> 25 \<Longrightarrow>
     utf8 t \<and> within_the_longest_text t = t \<and> clipped longest_shared_lyrics t = t"
  by (simp add: ascii_utf8 within_the_longest_text_def longest_text_def longest_shared_lyrics_def clipped_short)

lemmas sample_texts =
  short_ascii [of "ascii ''Echoes''"] short_ascii [of "ascii ''Pink Floyd''"] short_ascii [of "ascii ''Meddle''"]
  short_ascii [of "ascii ''flac''"] short_ascii [of "ascii ''Overhead the albatross''"]

lemma sample_ascii [simp]:
  "list_all (\<lambda>b. b < 0x80) (ascii ''Echoes'') \<and> length (ascii ''Echoes'') \<le> 25"
  "list_all (\<lambda>b. b < 0x80) (ascii ''Pink Floyd'') \<and> length (ascii ''Pink Floyd'') \<le> 25"
  "list_all (\<lambda>b. b < 0x80) (ascii ''Meddle'') \<and> length (ascii ''Meddle'') \<le> 25"
  "list_all (\<lambda>b. b < 0x80) (ascii ''flac'') \<and> length (ascii ''flac'') \<le> 25"
  "list_all (\<lambda>b. b < 0x80) (ascii ''Overhead the albatross'') \<and> length (ascii ''Overhead the albatross'') \<le> 25"
  by code_simp+

lemma sample_recording_ok: "recording_ok sample_recording"
  by (simp add: recording_ok_def sample_recording_def sample_texts)

lemma sample_recording_sent: "sent_recording sample_recording = sample_recording"
  by (simp add: sent_recording_def sample_recording_def sample_texts in_millis_def as_millis_def from_millis_def u64_max_def)

text \<open>
  C38. A message of a peer is read back as it is sent, with its lists cut to what a message
  carries; a part of it is refused, and so is anything left over after it.
\<close>

theorem messages_of_a_peer_come_back:
  assumes "from_peer_ok m"
  shows "from_peer_decoded (from_peer_encoded m) = Inr (sent_from_peer m) \<and>
    (\<forall>start beyond. from_peer_encoded m = start @ beyond \<and> beyond \<noteq> [] \<longrightarrow> (\<exists>e. from_peer_decoded start = Inl e)) \<and>
    (\<forall>beyond. beyond \<noteq> [] \<longrightarrow> from_peer_decoded (from_peer_encoded m @ beyond) = Inl (Trailing (length beyond)))"
  unfolding from_peer_decoded_def using from_peer.exactly [OF assms] .

definition sample_held :: from_peer where
  "sample_held = HeldSongs [\<lparr>hs_recording = sample_recording, hs_size = 4096, hs_extension = ascii ''flac''\<rparr>]"

theorem messages_of_a_peer_come_back_witness:
  "from_peer_decoded (from_peer_encoded sample_held) = Inr sample_held"
proof -
  have "from_peer_ok sample_held" "sent_from_peer sample_held = sample_held"
    by (simp_all add: sample_held_def held_song_ok_def sent_held_song_def sample_recording_ok sample_recording_sent sample_texts u64_max_def)
  with messages_of_a_peer_come_back [OF this(1)] show ?thesis by simp
qed

text \<open>
  An answer looked up by one device is read back by another as it is sent.
\<close>

theorem answers_come_back:
  assumes "answer_ok a"
  shows "decoded_answer (wr_answer a) = Inr (Some (sent_answer a))"
  using rd_answer_written [OF assms order.refl, of "[]"] by (simp add: decoded_answer_def rd_answer_def rd_done_def)

theorem answers_come_back_witness:
  "decoded_answer (wr_answer (Lyrics \<lparr>sl_text = ascii ''Overhead the albatross'', sl_synced = False\<rparr>)) =
   Inr (Some (Lyrics \<lparr>sl_text = ascii ''Overhead the albatross'', sl_synced = False\<rparr>))"
proof -
  have "answer_ok (Lyrics \<lparr>sl_text = ascii ''Overhead the albatross'', sl_synced = False\<rparr>)"
    and same: "sent_answer (Lyrics \<lparr>sl_text = ascii ''Overhead the albatross'', sl_synced = False\<rparr>) =
      Lyrics \<lparr>sl_text = ascii ''Overhead the albatross'', sl_synced = False\<rparr>" by (simp_all add: sample_texts)
  from answers_come_back [OF this(1)] same show ?thesis by simp
qed

subsection \<open>What arrives is well formed\<close>

text \<open>
  C39. Whatever bytes a client sends, a message the server makes of them is well formed: ids and
  tokens have their lengths, blobs are sealed and within their bounds, lists within theirs; and
  written again it is read as the same message.
\<close>

theorem what_reaches_the_server_is_well_formed:
  assumes "to_server_decoded least bs = Inr m"
  shows "to_server_ok least m \<and> to_server_decoded least (to_server_encoded m) = Inr m"
  using to_server_arriving.passed_on assms by (simp add: to_server_decoded_def)

theorem what_reaches_the_server_is_well_formed_witness: "to_server_ok 2 (Append [[7, 8]])"
proof -
  have "to_server_ok 2 (Append [[7, 8]])" by (simp add: blobs_ok_def blob_ok_def wire_sizes)
  then have "to_server_decoded 2 (to_server_encoded (Append [[7, 8]])) = Inr (Append [[7, 8]])"
    unfolding to_server_decoded_def by (rule to_server.read_whole)
  from what_reaches_the_server_is_well_formed [OF this] show ?thesis by blast
qed

text \<open>
  Whatever bytes a peer sends, a message a device makes of them is well formed: texts are
  UTF-8, ids are MBIDs, mirrored zones and rows are at most so many and volumes at most whole;
  and written again it is read as the same message.
\<close>

theorem what_a_peer_sends_is_well_formed:
  assumes "from_peer_decoded bs = Inr m"
  shows "from_peer_ok m \<and> sent_from_peer m = m \<and> from_peer_decoded (from_peer_encoded m) = Inr m"
  using from_peer_arriving.passed_on [of bs m] gives_whole [OF gives_from_peer, of bs m] assms
  by (simp add: from_peer_decoded_def)

theorem what_a_peer_sends_is_well_formed_witness: "from_peer_ok (sent_from_peer sample_held)"
proof -
  have "from_peer_decoded (from_peer_encoded sample_held) = Inr (sent_from_peer sample_held)"
    unfolding from_peer_decoded_def using from_peer.read_whole [of sample_held]
    by (simp add: sample_held_def held_song_ok_def sample_recording_ok sample_texts u64_max_def)
  from what_a_peer_sends_is_well_formed [OF this] show ?thesis by blast
qed

text \<open>
  Whatever bytes a bundle is read from, the changes it gives are well formed, and as they
  would be sent on: merging and relaying them never meets a text, key or id of another shape.
\<close>

theorem changes_that_arrive_are_well_formed:
  assumes "decoded_bundle bs = Inr changes"
  shows "list_all change_ok changes \<and> map sent_change changes = changes"
  using bundle_arrives assms by (simp add: decoded_bundle_def)

theorem changes_that_arrive_are_well_formed_witness:
  "change_ok (FoldedQuery \<lparr>qf_folded = replicate 16 1, qf_into = replicate 16 2\<rparr>)"
proof -
  have "changes_ok [FoldedQuery \<lparr>qf_folded = replicate 16 1, qf_into = replicate 16 2\<rparr>]"
    by (simp add: changes_ok_def key_ok_def playlist_key_bytes_def wr_byte_def wire_sizes)
  then have "decoded_bundle (encoded_bundle [FoldedQuery \<lparr>qf_folded = replicate 16 1, qf_into = replicate 16 2\<rparr>]) =
      Inr [FoldedQuery \<lparr>qf_folded = replicate 16 1, qf_into = replicate 16 2\<rparr>]"
    unfolding decoded_bundle_def using bundle_read_back by fastforce
  from changes_that_arrive_are_well_formed [OF this] show ?thesis by simp
qed

subsection \<open>What a newer device writes\<close>

text \<open>A frame of a bundle: a change that is known, or one of a kind or an answer that is not.\<close>

datatype framed = Known change | OfAKind u8 bytes | AnsweredInAKind recording stamp_time u8 bytes

fun frame_of :: "framed \<Rightarrow> bytes" where
  "frame_of (Known c) = encoded_change c"
| "frame_of (OfAKind tag rest) = tag # rest"
| "frame_of (AnsweredInAKind r s kind rest) = 7 # wr_recording r @ wr_stamp s @ kind # rest"

fun frame_ok :: "u8 list \<Rightarrow> framed \<Rightarrow> bool" where
  "frame_ok answers (Known c) \<longleftrightarrow> change_ok c \<and> set answer_kinds \<subseteq> set answers"
| "frame_ok answers (OfAKind tag rest) \<longleftrightarrow> 10 < tag"
| "frame_ok answers (AnsweredInAKind r s kind rest) \<longleftrightarrow> recording_ok r \<and> stamp_ok s \<and> kind \<notin> set answers"

fun known_of :: "framed \<Rightarrow> change option" where
  "known_of (Known c) = Some (sent_change c)"
| "known_of _ = None"

lemma framed_read: "frame_ok answers f \<Longrightarrow> decoded_change answers (frame_of f) = Inr (known_of f)"
  by (cases f) (simp_all add: change_read change_unknown answer_unknown)

lemma known_frames:
  "list_all (frame_ok answers) fs \<Longrightarrow>
     known_changes answers (map frame_of fs) = List.map_filter known_of fs"
  by (induction fs) (simp_all add: known_changes_def map_filter_simps framed_read split: option.split)

text \<open>
  C40. A bundle in which a newer device wrote changes, or answers, of kinds this one does not know
  is read as the changes it does know, in their order; nothing of the others is lost on the way
  but themselves.
\<close>

theorem unknown_changes_are_skipped:
  assumes "list_all (frame_ok answers) fs" and "list_all (\<lambda>f. length (frame_of f) \<le> largest_blob) fs"
    and "length fs \<le> u64_max"
  shows "decoded_bundle_knowing answers (wr_list wr_bytes (map frame_of fs)) = Inr (List.map_filter known_of fs)"
proof -
  have "\<forall>f\<in>set (map frame_of fs). length f \<le> largest_blob \<and> (\<exists>c. decoded_change answers f = Inr c)"
    using assms(1,2) framed_read by (auto simp: list_all_iff)
  from bundle_read [OF this] known_frames [OF assms(1)] assms(3) show ?thesis by simp
qed

theorem unknown_changes_are_skipped_witness:
  "decoded_bundle_knowing [0, 1, 2, 3] (wr_list wr_bytes
     [[42, 1, 2], encoded_change (FoldedQuery \<lparr>qf_folded = replicate 16 1, qf_into = replicate 16 2\<rparr>)]) =
   Inr [FoldedQuery \<lparr>qf_folded = replicate 16 1, qf_into = replicate 16 2\<rparr>]"
  using unknown_changes_are_skipped
    [of "[0, 1, 2, 3]" "[OfAKind 42 [1, 2], Known (FoldedQuery \<lparr>qf_folded = replicate 16 1, qf_into = replicate 16 2\<rparr>)]"]
  by (simp add: map_filter_simps key_ok_def playlist_key_bytes_def answer_kinds_def wr_byte_def wire_sizes)

subsection \<open>Ids and services\<close>

lemma split_rejoined: "split_where (\<lambda>b. b = d) t = g # gs \<Longrightarrow> t = g @ concat (map (\<lambda>g. d # g) gs)"
proof (induction t arbitrary: g gs)
  case (Cons b t)
  obtain h hs where split: "split_where (\<lambda>b. b = d) t = h # hs" using split_nonempty by (meson neq_Nil_conv)
  then have "g # gs = (if b = d then [] # h # hs else (b # h) # hs)" using Cons.prems by (cases "b = d") simp_all
  then show ?case using Cons.IH [OF split] by (auto split: if_splits)
qed simp

lemma lowered_dashes: "lowered (concat (map (\<lambda>g. 0x2D # g) gs)) = concat (map (\<lambda>g. 0x2D # lowered g) gs)"
  by (induction gs) (simp_all add: lowered_def to_lower_def is_upper_def)

lemma mbid_lowered: "mbid_new t = Some m \<Longrightarrow> m = lowered t"
proof -
  assume m: "mbid_new t = Some m"
  obtain g gs where split: "split_where (\<lambda>b. b = 0x2D) t = g # gs"
    using split_nonempty by (meson neq_Nil_conv)
  have t: "t = g @ concat (map (\<lambda>g. 0x2D # g) gs)" by (rule split_rejoined [OF split])
  have r: "mbid_read mbid_groups (g # gs) [] = Some m" using m split by (auto simp: mbid_new_def split: if_splits)
  then have g: "length g = 8" "mbid_read [4, 4, 4, 12] gs (lowered g) = Some m"
    by (auto simp: mbid_groups_def split: if_splits)
  then have "lowered g \<noteq> []" by (metis length_lowered list.size(3) zero_neq_numeral)
  then have "m = lowered g @ concat (map (\<lambda>g. 0x2D # lowered g) gs)" using g(2) by (simp add: mbid_read_onto)
  then show "m = lowered t" using lowered_dashes [of gs] t by (simp add: lowered_def)
qed

text \<open>
  An MBID is the text it was read from in lower case, 36 bytes of ASCII, and reads back as
  itself: two spellings of one id are one id.
\<close>

theorem ids_are_canonical:
  assumes "mbid_new t = Some m"
  shows "m = lowered t \<and> length m = 36 \<and> list_all (\<lambda>b. b < 0x80) m \<and> mbid_new m = Some m"
  using mbid_lowered [OF assms] mbid_new_facts [OF assms] by (simp add: mbid_ok_def)

theorem ids_are_canonical_witness:
  "mbid_new (ascii ''83d91898-7763-47d7-b03b-b92132375c47'') = Some (ascii ''83d91898-7763-47d7-b03b-b92132375c47'')"
proof -
  have "mbid_new (ascii ''83D91898-7763-47d7-B03B-b92132375c47'') = Some (ascii ''83d91898-7763-47d7-b03b-b92132375c47'')"
    by code_simp
  from ids_are_canonical [OF this] show ?thesis by blast
qed

text \<open>
  A link is only said to lead to a service where its host is one of the service's, or below
  one: what comes before the host, or a host that merely ends in the same letters, does not count.
\<close>

theorem services_are_named_by_their_hosts:
  assumes "of_url url = s" and "s \<noteq> OtherService" and "s \<noteq> AmazonMusic"
  shows "\<exists>host named. host_of url = Some host \<and> (host = named \<or> (\<exists>label. host = label @ 0x2E # named)) \<and>
    ((named, s) \<in> set hosts \<or> s = Twitter \<and> named \<in> set twitter_hosts)"
  using of_url_named [OF assms] .

theorem services_are_named_by_their_hosts_witness:
  "\<exists>host named. host_of (ascii ''https://www.open.spotify.com/track/1'') = Some host \<and>
     (host = named \<or> (\<exists>label. host = label @ 0x2E # named)) \<and>
     ((named, Spotify) \<in> set hosts \<or> Spotify = Twitter \<and> named \<in> set twitter_hosts)"
proof -
  have "of_url (ascii ''https://www.open.spotify.com/track/1'') = Spotify" by code_simp
  from services_are_named_by_their_hosts [OF this] show ?thesis by simp
qed

end
