(* ===== verification/Places.thy ===== *)
theory Places
  imports Wire "HOL-Library.List_Lexorder"
begin

text \<open>
  Places in a shared list (\<open>crates/resonate-sync/src/shared/place.rs\<close>): a place is a byte string,
  places are ordered as byte strings are, and between two of them there is always another, so a
  song is put between two others without touching either. The loop of \<open>Place::between\<close> counts on
  for ever where it finds no byte to stop at; it is a partial function here, and what it takes for
  it to stop is proved, not assumed.
\<close>

type_synonym place = bytes

definition width :: nat where
  "width = 4"

definition step_at :: nat where
  "step_at = 2"

definition first_place :: place where
  "first_place = [0x80, 0, 0, 1]"

definition byte_at :: "bytes \<Rightarrow> nat \<Rightarrow> nat" where
  "byte_at bs i = (case get bs i of None \<Rightarrow> 0 | Some b \<Rightarrow> unat b)"

definition upper_at :: "bytes option \<Rightarrow> nat \<Rightarrow> nat" where
  "upper_at high i = (case high of Some h \<Rightarrow> byte_at h i | None \<Rightarrow> 256)"

partial_function (option) between_from :: "bytes \<Rightarrow> bytes option \<Rightarrow> nat \<Rightarrow> bytes \<Rightarrow> place option" where
  "between_from low high i acc =
     (let from = byte_at low i; to = upper_at high i
      in if to > from + 1 then Some (acc @ [of_nat (min ((from + to) div 2) 255)])
         else between_from low (if to = from + 1 then None else high) (Suc i) (acc @ [of_nat from]))"

declare between_from.simps [code]

definition place_between :: "place option \<Rightarrow> place option \<Rightarrow> place option" where
  "place_between low high = between_from (case low of None \<Rightarrow> [] | Some l \<Rightarrow> l) high 0 []"

text \<open>\<open>resize\<close> to at least \<open>width\<close> bytes, then \<open>truncate\<close> to it.\<close>

definition fitted :: "bytes \<Rightarrow> bytes" where
  "fitted bs = take width (bs @ replicate (width - length bs) 0)"

fun stepped_up :: "nat list \<Rightarrow> bytes \<Rightarrow> bytes option" where
  "stepped_up [] bs = None"
| "stepped_up (i # is) bs =
     (let b = bs ! i + 1; bs = bs[i := b]
      in if b \<noteq> 0 then Some bs else stepped_up is bs)"

fun stepped_down :: "nat list \<Rightarrow> bytes \<Rightarrow> bytes option" where
  "stepped_down [] bs = None"
| "stepped_down (i # is) bs =
     (let borrowed = (bs ! i = 0); bs = bs[i := bs ! i - 1]
      in if \<not> borrowed then Some bs else stepped_down is bs)"

definition steps :: "nat list" where
  "steps = rev [0..<Suc step_at]"

definition marked :: "bytes \<Rightarrow> bytes" where
  "marked bs = bs[length bs - 1 := 1]"

definition place_after :: "place \<Rightarrow> place option" where
  "place_after low = (case stepped_up steps (fitted low) of
     None \<Rightarrow> place_between (Some low) None
   | Some bs \<Rightarrow>
       let p = marked bs in if p > low then Some p else place_between (Some low) None)"

definition place_before :: "place \<Rightarrow> place option" where
  "place_before high = (case stepped_down steps (fitted high) of
     None \<Rightarrow> place_between None (Some high)
   | Some bs \<Rightarrow>
       let p = marked bs
       in if p < high \<and> list_ex (\<lambda>b. b \<noteq> 0) p then Some p else place_between None (Some high))"

text \<open>What every place the code makes satisfies: it does not end in a zero byte.\<close>

definition place_ok :: "place \<Rightarrow> bool" where
  "place_ok p \<longleftrightarrow> p \<noteq> [] \<and> last p \<noteq> 0"

subsection \<open>Where the search stops\<close>

lemma byte_at_simps [simp]:
  "byte_at [] i = 0" "byte_at (b # bs) 0 = unat b" "byte_at (b # bs) (Suc i) = byte_at bs i"
  by (simp_all add: byte_at_def get_def)

lemma byte_at_small: "byte_at bs i < 256"
  using unsigned_less [where 'b = 8 and 'a = nat] by (auto simp: byte_at_def split: option.split)

lemma unat_of_byte: "n < 256 \<Longrightarrow> unat (of_nat n :: u8) = n"
  by (simp add: unsigned_of_nat take_bit_nat_eq_self)

lemma byte_at_word: "of_nat (byte_at (b # bs) 0) = b"
  by simp

lemma drop_byte: "i < length bs \<Longrightarrow> drop i bs = of_nat (byte_at bs i) # drop (Suc i) bs"
  by (simp add: byte_at_def Cons_nth_drop_Suc)

lemma byte_at_beyond: "length bs \<le> i \<Longrightarrow> byte_at bs i = 0"
  by (simp add: byte_at_def)

text \<open>A byte string that goes on as another does, or above it.\<close>

lemma below_same: "drop (Suc i) low < p \<Longrightarrow> drop i low < of_nat (byte_at low i) # p"
  by (cases "i < length low") (simp_all add: drop_byte)

lemma below_higher: "byte_at low i < n \<Longrightarrow> n < 256 \<Longrightarrow> drop i low < of_nat n # p"
  using byte_at_small [of low i]
  by (cases "i < length low") (simp_all add: drop_byte word_less_nat_alt unat_of_byte)

lemma search_above:
  "\<exists>p. between_from low None i acc = Some (acc @ p) \<and> drop i low < p \<and> place_ok p"
proof (induction "length low - i" arbitrary: i acc)
  case 0
  then have low: "byte_at low i = 0" by (simp add: byte_at_beyond)
  have "drop i low < of_nat 128 # []" using below_higher [of low i 128 "[]"] low by simp
  then show ?case
    using low by (subst between_from.simps) (simp add: upper_at_def place_ok_def)
next
  case (Suc n)
  let ?b = "byte_at low i"
  have b: "?b < 256" by (rule byte_at_small)
  have n: "n = length low - Suc i" using Suc.hyps(2) by simp
  show ?case
  proof (cases "?b = 255")
    case True
    obtain p where p: "between_from low None (Suc i) (acc @ [of_nat ?b]) = Some ((acc @ [of_nat ?b]) @ p)"
      "drop (Suc i) low < p" "place_ok p"
      using Suc.hyps(1) [OF n, of "acc @ [of_nat ?b]"] by auto
    from p(1) True have "between_from low None i acc = Some (acc @ of_nat ?b # p)"
      by (subst between_from.simps) (simp add: upper_at_def)
    moreover have "place_ok (of_nat ?b # p)" using p(3) by (simp add: place_ok_def)
    ultimately show ?thesis using below_same [OF p(2)] by blast
  next
    case False
    define c where "c = min ((?b + 256) div 2) 255"
    have c: "?b < c" "c < 256" using b False by (auto simp: c_def)
    have "between_from low None i acc = Some (acc @ [of_nat c])"
      using b False by (subst between_from.simps) (simp add: upper_at_def c_def)
    moreover have "place_ok [of_nat c]" using c unat_of_byte [of c] by (auto simp: place_ok_def)
    ultimately show ?thesis using below_higher [OF c, of "[]"] by blast
  qed
qed

text \<open>Where the bounds first differ, zeros taken for what is past the end of either, the lower is lower.\<close>

definition parts_at :: "bytes \<Rightarrow> bytes \<Rightarrow> nat \<Rightarrow> nat \<Rightarrow> bool" where
  "parts_at low high i k \<longleftrightarrow>
     i \<le> k \<and> byte_at low k < byte_at high k \<and> (\<forall>j. i \<le> j \<and> j < k \<longrightarrow> byte_at low j = byte_at high j)"

lemma search_between:
  assumes "parts_at low high i k"
  shows "\<exists>p. between_from low (Some high) i acc = Some (acc @ p) \<and> drop i low < p \<and> p < drop i high \<and> place_ok p"
  using assms
proof (induction "k - i" arbitrary: i acc)
  case 0
  let ?b = "byte_at low i" and ?t = "byte_at high i"
  have bt: "?b < ?t" "?t < 256" using 0 byte_at_small by (auto simp: parts_at_def)
  then have high: "drop i high = of_nat ?t # drop (Suc i) high"
    by (intro drop_byte) (metis byte_at_beyond gr_implies_not0 not_le)
  show ?case
  proof (cases "?t > ?b + 1")
    case True
    define c where "c = (?b + ?t) div 2"
    have c: "?b < c" "c < 256" "c < ?t" using bt True by (auto simp: c_def)
    have "between_from low (Some high) i acc = Some (acc @ [of_nat c])"
      using True c by (subst between_from.simps) (simp add: upper_at_def c_def)
    moreover have "place_ok [of_nat c]" using c unat_of_byte [of c] by (auto simp: place_ok_def)
    moreover have "[of_nat c] < drop i high"
      unfolding high using c bt by (simp add: word_less_nat_alt unat_of_byte)
    ultimately show ?thesis using below_higher [OF c(1,2), of "[]"] by blast
  next
    case False
    then have t: "?t = ?b + 1" using bt by simp
    obtain p where p: "between_from low None (Suc i) (acc @ [of_nat ?b]) = Some ((acc @ [of_nat ?b]) @ p)"
      "drop (Suc i) low < p" "place_ok p" using search_above by blast
    from p(1) t have "between_from low (Some high) i acc = Some (acc @ of_nat ?b # p)"
      by (subst between_from.simps) (simp add: upper_at_def)
    moreover have "place_ok (of_nat ?b # p)" using p(3) by (simp add: place_ok_def)
    moreover have "of_nat ?b # p < drop i high"
      unfolding high using bt by (simp add: word_less_nat_alt unat_of_byte)
    ultimately show ?thesis using below_same [OF p(2)] by blast
  qed
next
  case (Suc n)
  let ?b = "byte_at low i"
  have k: "i < k" "byte_at low k < byte_at high k" and same: "byte_at high i = ?b"
    using Suc.hyps(2) Suc.prems by (auto simp: parts_at_def)
  then have "i < length high" by (metis byte_at_beyond gr_implies_not0 le_trans less_imp_le not_le)
  then have high: "drop i high = of_nat ?b # drop (Suc i) high" using same by (simp add: drop_byte)
  have "parts_at low high (Suc i) k" using Suc.prems k(1) by (simp add: parts_at_def)
  then obtain p where p: "between_from low (Some high) (Suc i) (acc @ [of_nat ?b]) = Some ((acc @ [of_nat ?b]) @ p)"
    "drop (Suc i) low < p" "p < drop (Suc i) high" "place_ok p"
    using Suc.hyps(1) [of "Suc i"] Suc.hyps(2) by fastforce
  from p(1) same have "between_from low (Some high) i acc = Some (acc @ of_nat ?b # p)"
    by (subst between_from.simps) (simp add: upper_at_def)
  moreover have "place_ok (of_nat ?b # p)" using p(4) by (simp add: place_ok_def)
  moreover have "of_nat ?b # p < drop i high" unfolding high using p(3) by simp
  ultimately show ?case using below_same [OF p(2)] by blast
qed

lemma parts_from_nothing: "place_ok high \<Longrightarrow> \<exists>k. parts_at [] high 0 k"
proof (induction high)
  case (Cons b high)
  show ?case
  proof (cases "b = 0")
    case True
    then have "place_ok high" using Cons.prems by (auto simp: place_ok_def split: if_splits)
    then obtain k where "parts_at [] high 0 k" using Cons.IH by blast
    then have "parts_at [] (b # high) 0 (Suc k)" using True by (auto simp: parts_at_def less_Suc_eq_0_disj)
    then show ?thesis ..
  next
    case False
    then have "parts_at [] (b # high) 0 0" by (simp add: parts_at_def unat_gt_0)
    then show ?thesis ..
  qed
qed (simp add: place_ok_def)

lemma parts_somewhere: "low < high \<Longrightarrow> place_ok high \<Longrightarrow> \<exists>k. parts_at low high 0 k"
proof (induction low arbitrary: high)
  case Nil
  then show ?case by (simp add: parts_from_nothing)
next
  case (Cons a low)
  then obtain b high' where high: "high = b # high'" by (cases high) auto
  show ?case
  proof (cases "a = b")
    case True
    then have less: "low < high'" using Cons.prems high by simp
    then have "place_ok high'" using Cons.prems(2) high by (auto simp: place_ok_def split: if_splits)
    then obtain k where "parts_at low high' 0 k" using Cons.IH less by blast
    then have "parts_at (a # low) high 0 (Suc k)"
      using True high by (auto simp: parts_at_def less_Suc_eq_0_disj)
    then show ?thesis ..
  next
    case False
    then have "parts_at (a # low) high 0 0" using Cons.prems(1) high by (simp add: parts_at_def word_less_nat_alt)
    then show ?thesis ..
  qed
qed

lemma between_lies_between:
  assumes "low < high" and "place_ok high"
  shows "\<exists>p. place_between (Some low) (Some high) = Some p \<and> low < p \<and> p < high \<and> place_ok p"
proof -
  obtain k where "parts_at low high 0 k" using parts_somewhere [OF assms] by blast
  from search_between [OF this, of "[]"] show ?thesis by (simp add: place_between_def)
qed

lemma between_below:
  assumes "place_ok high"
  shows "\<exists>p. place_between None (Some high) = Some p \<and> p < high \<and> place_ok p"
proof -
  obtain k where "parts_at [] high 0 k" using parts_from_nothing [OF assms] by blast
  from search_between [OF this, of "[]"] show ?thesis by (auto simp: place_between_def)
qed

lemma between_above: "\<exists>p. place_between (Some low) None = Some p \<and> low < p \<and> place_ok p"
  using search_above [of low 0 "[]"] by (simp add: place_between_def)

subsection \<open>Places after and before\<close>

lemma length_fitted [simp]: "length (fitted bs) = width"
  by (simp add: fitted_def)

lemma length_stepped: "stepped_up is bs = Some bs' \<Longrightarrow> length bs' = length bs"
    "stepped_down is bs = Some bs' \<Longrightarrow> length bs' = length bs"
  by (induction "is" arbitrary: bs) (auto simp: Let_def split: if_splits)

lemma marked_ok: "bs \<noteq> [] \<Longrightarrow> place_ok (marked bs)"
  by (auto simp: place_ok_def marked_def last_conv_nth)

lemma stepped_ok:
  "stepped_up steps (fitted bs) = Some bs' \<Longrightarrow> place_ok (marked bs')"
  "stepped_down steps (fitted bs) = Some bs' \<Longrightarrow> place_ok (marked bs')"
  by (auto simp: width_def dest!: length_stepped intro!: marked_ok)

lemma after_lies_after: "\<exists>p. place_after low = Some p \<and> low < p \<and> place_ok p"
  using between_above [of low] stepped_ok(1) [of low]
  by (auto simp: place_after_def Let_def split: option.split)

lemma before_lies_before: "place_ok high \<Longrightarrow> \<exists>p. place_before high = Some p \<and> p < high \<and> place_ok p"
  using between_below [of high] stepped_ok(2) [of high]
  by (auto simp: place_before_def Let_def split: option.split)

subsection \<open>Where the search never stops\<close>

lemma search_never_stops:
  assumes "between_from low high i acc = Some p"
  shows "\<forall>h. high = Some h \<longrightarrow> (\<exists>j\<ge>i. byte_at low j \<noteq> byte_at h j)"
proof (rule between_from.raw_induct [OF _ assms, where P = "\<lambda>low high i acc p.
    \<forall>h. high = Some h \<longrightarrow> (\<exists>j\<ge>i. byte_at low j \<noteq> byte_at h j)"], intro allI impI)
  fix rec :: "bytes \<Rightarrow> bytes option \<Rightarrow> nat \<Rightarrow> bytes \<Rightarrow> place option" and low high i acc p h
  assume rec: "\<And>low high i acc p. rec low high i acc = Some p \<Longrightarrow>
      \<forall>h. high = Some h \<longrightarrow> (\<exists>j\<ge>i. byte_at low j \<noteq> byte_at h j)"
    and step: "(let from = byte_at low i; to = upper_at high i
      in if to > from + 1 then Some (acc @ [of_nat (min ((from + to) div 2) 255)])
         else rec low (if to = from + 1 then None else high) (Suc i) (acc @ [of_nat from])) = Some p"
    and h: "high = Some h"
  show "\<exists>j\<ge>i. byte_at low j \<noteq> byte_at h j"
  proof (cases "byte_at low i = byte_at h i")
    case True
    then have "rec low (Some h) (Suc i) (acc @ [of_nat (byte_at low i)]) = Some p"
      using step h by (simp add: upper_at_def Let_def)
    from rec [OF this] show ?thesis using Suc_leD by blast
  qed blast
qed

lemma byte_at_zeros: "list_all (\<lambda>b. b = 0) bs \<Longrightarrow> byte_at bs i = 0"
  by (auto simp: byte_at_def get_def list_all_length split: option.split)

lemma zeros_borrow:
  "list_all (\<lambda>b. b = 0) high \<Longrightarrow> place_before high = place_between None (Some high)"
proof -
  assume "list_all (\<lambda>b. b = 0) high"
  then have "high = replicate (length high) 0" by (simp add: list_all_iff replicate_length_same)
  then have "fitted high = replicate width 0"
    by (metis (no_types) fitted_def length_fitted replicate_add take_replicate length_replicate min_def)
  then show ?thesis by (simp add: place_before_def steps_def step_at_def width_def Let_def numeral_eq_Suc)
qed

text \<open>
  A place no byte of which but zeros tells from another has no place between the two, and the
  search for one does not stop; nor does the search for one before a place of nothing but zeros.
\<close>

lemma between_never:
  assumes "\<forall>j. byte_at low j = byte_at high j"
  shows "place_between (Some low) (Some high) = None"
  using search_never_stops [of low "Some high" 0 "[]"] assms
  by (cases "place_between (Some low) (Some high)") (auto simp: place_between_def)

lemma before_never:
  assumes "list_all (\<lambda>b. b = 0) high"
  shows "place_before high = None"
proof -
  have "place_between None (Some high) = None"
    using search_never_stops [of "[]" "Some high" 0 "[]"] byte_at_zeros [OF assms]
    by (cases "place_between None (Some high)") (auto simp: place_between_def)
  then show ?thesis by (simp add: zeros_borrow [OF assms])
qed

end
