(* ===== verification/SyncClock.thy ===== *)
theory SyncClock
  imports WireChanges "HOL-Library.List_Lexorder"
begin

text \<open>
  The clock devices stamp their changes by (\<open>Clock\<close>, \<open>Stamp\<close> and the minted keys of
  \<open>crates/resonate-sync/src/change.rs\<close>). Stamps are ordered by their signed nanoseconds and then by
  the device. What the wall shows is whatever the system says, so it is an argument; the random
  bytes of a minted key are one too.
\<close>

subsection \<open>The order of stamps\<close>

text \<open>
  \<open>Stamp\<close> derives its order from its fields: the time first, then the device. A record's extension
  is compared last, so that the order is one of the library's linear orders.
\<close>

definition stamp_before :: "'a :: linorder stamp_time_scheme \<Rightarrow> 'a stamp_time_scheme \<Rightarrow> bool" where
  "stamp_before s t \<longleftrightarrow>
     sint (ts_nanos s) < sint (ts_nanos t) \<or>
     sint (ts_nanos s) = sint (ts_nanos t) \<and> (ts_device s < ts_device t \<or>
       ts_device s = ts_device t \<and> stamp_time.more s < stamp_time.more t)"

instantiation stamp_time_ext :: (linorder) linorder
begin

definition less_stamp_time_ext :: "'a stamp_time_scheme \<Rightarrow> 'a stamp_time_scheme \<Rightarrow> bool" where
  "less_stamp_time_ext s t \<longleftrightarrow> stamp_before s t"

definition less_eq_stamp_time_ext :: "'a stamp_time_scheme \<Rightarrow> 'a stamp_time_scheme \<Rightarrow> bool" where
  "less_eq_stamp_time_ext s t \<longleftrightarrow> s < t \<or> s = t"

instance
proof
  have nanos: "sint a = sint b \<longleftrightarrow> a = b" for a b :: i64 by (metis signed_word_eqI)
  fix x y z :: "'a stamp_time_scheme"
  show "(x < y) = (x \<le> y \<and> \<not> y \<le> x)"
    by (auto simp: less_eq_stamp_time_ext_def less_stamp_time_ext_def stamp_before_def)
  show "x \<le> x" by (simp add: less_eq_stamp_time_ext_def)
  show "x \<le> z" if "x \<le> y" "y \<le> z"
    using that by (auto simp: less_eq_stamp_time_ext_def less_stamp_time_ext_def stamp_before_def)
  show "x = y" if "x \<le> y" "y \<le> x"
    using that by (auto simp: less_eq_stamp_time_ext_def less_stamp_time_ext_def stamp_before_def)
  show "x \<le> y \<or> y \<le> x"
    unfolding less_eq_stamp_time_ext_def less_stamp_time_ext_def stamp_before_def
    using linorder_less_linear [of "sint (ts_nanos x)" "sint (ts_nanos y)"]
      linorder_less_linear [of "ts_device x" "ts_device y"]
      linorder_less_linear [of "stamp_time.more x" "stamp_time.more y"]
    by (auto simp: nanos)
qed

end

lemmas stamp_orders = less_eq_stamp_time_ext_def less_stamp_time_ext_def stamp_before_def

lemma later_nanos: "sint (ts_nanos s) < sint (ts_nanos t) \<Longrightarrow> s < (t :: 'a :: linorder stamp_time_scheme)"
  by (simp add: stamp_orders)

lemma earlier_nanos: "s \<le> (t :: 'a :: linorder stamp_time_scheme) \<Longrightarrow> sint (ts_nanos s) \<le> sint (ts_nanos t)"
  by (auto simp: stamp_orders)

subsection \<open>The clock\<close>

type_synonym clock = i64

definition i64_largest :: i64 where
  "i64_largest = 0x7fffffffffffffff"

definition signed_max :: "i64 \<Rightarrow> i64 \<Rightarrow> i64" where
  "signed_max a b = (if sint a \<le> sint b then b else a)"

definition one_later :: "i64 \<Rightarrow> i64" where
  "one_later v = (if v = i64_largest then i64_largest else v + 1)"

definition clock_from_last :: "i64 \<Rightarrow> clock" where
  "clock_from_last v = v"

definition clock_after :: "i64 \<Rightarrow> device_id \<Rightarrow> clock \<Rightarrow> stamp_time \<times> clock" where
  "clock_after nanos device last_seen =
     (let nanos = signed_max nanos (one_later last_seen)
      in (\<lparr>ts_nanos = nanos, ts_device = device\<rparr>, nanos))"

definition clock_now :: "i64 \<Rightarrow> device_id \<Rightarrow> clock \<Rightarrow> stamp_time \<times> clock" where
  "clock_now wall device last_seen =
     (let nanos = signed_max wall (one_later last_seen)
      in (\<lparr>ts_nanos = nanos, ts_device = device\<rparr>, nanos))"

definition clock_saw :: "stamp_time \<Rightarrow> clock \<Rightarrow> clock" where
  "clock_saw s last_seen = signed_max last_seen (ts_nanos s)"

text \<open>What a device does with its clock, one thing after another: the stamps it gives, and the clock.\<close>

datatype ticking = Stamps i64 | StampsAfter i64 | Saw stamp_time

fun ticked :: "device_id \<Rightarrow> ticking \<Rightarrow> clock \<Rightarrow> stamp_time option \<times> clock" where
  "ticked device (Stamps wall) c = (case clock_now wall device c of (s, c) \<Rightarrow> (Some s, c))"
| "ticked device (StampsAfter nanos) c = (case clock_after nanos device c of (s, c) \<Rightarrow> (Some s, c))"
| "ticked device (Saw s) c = (None, clock_saw s c)"

fun ticks :: "device_id \<Rightarrow> ticking list \<Rightarrow> clock \<Rightarrow> stamp_time list \<times> clock" where
  "ticks device [] c = ([], c)"
| "ticks device (t # ts) c = (case ticked device t c of (s, c) \<Rightarrow>
     (case ticks device ts c of (ss, c) \<Rightarrow> (case s of None \<Rightarrow> ss | Some s \<Rightarrow> s # ss, c)))"

lemma largest: "sint i64_largest = 9223372036854775807" "sint (v :: i64) \<le> 9223372036854775807"
  using sint_lt [of v] by (simp_all add: i64_largest_def)

lemma one_later_later: "v \<noteq> i64_largest \<Longrightarrow> sint (one_later v) = sint v + 1"
proof -
  assume v: "v \<noteq> i64_largest"
  then have "sint v \<noteq> 9223372036854775807" using largest(1) signed_word_eqI by metis
  then have "sint v + 1 \<le> 9223372036854775807" "- 9223372036854775808 \<le> sint v"
    using largest(2) [of v] sint_ge [of v] by simp_all
  then have "signed_take_bit 63 (sint v + 1) = sint v + 1" by (intro signed_take_bit_int_eq_self) simp_all
  then show ?thesis using v by (simp add: one_later_def sint_word_ariths)
qed

lemma sint_signed_max: "sint (signed_max a b) = max (sint a) (sint b)"
  by (simp add: signed_max_def)

text \<open>
  Until the clock runs out of nanoseconds, which at \<open>2^63 - 1\<close> it does in the year 2262, every
  stamp it gives is later than every stamp it gave and every stamp it saw.
\<close>

lemma stamp_given_later:
  assumes "last_seen \<noteq> i64_largest"
  shows "sint last_seen < sint (ts_nanos (fst (clock_after n device last_seen)))"
    and "snd (clock_after n device last_seen) = ts_nanos (fst (clock_after n device last_seen))"
    and "clock_now n device last_seen = clock_after n device last_seen"
  using one_later_later [OF assms] by (auto simp: clock_after_def clock_now_def Let_def sint_signed_max)

lemma ticks_append:
  "ticks device (ts @ us) c = (case ticks device ts c of (ss, c) \<Rightarrow>
     (case ticks device us c of (ss', c) \<Rightarrow> (ss @ ss', c)))"
  by (induction ts arbitrary: c) (auto split: prod.splits option.splits)

lemma one_tick:
  assumes "ticked device t c = (s, c')"
  shows "sint c \<le> sint c'" and "t = Saw seen \<Longrightarrow> sint (ts_nanos seen) \<le> sint c'"
    and "s = Some given \<Longrightarrow> c \<noteq> i64_largest \<Longrightarrow> sint c < sint (ts_nanos given)"
    and "s = Some given \<Longrightarrow> ts_nanos given = c' \<and> ts_device given = device"
  using assms one_later_later [of c] largest(2) [of c]
  by (cases t; auto simp: clock_after_def clock_now_def clock_saw_def Let_def sint_signed_max one_later_def)+

lemma ticks_rise:
  "ticks device ts c = (ss, c') \<Longrightarrow> sint c \<le> sint c' \<and> (\<forall>s\<in>set ss. sint (ts_nanos s) \<le> sint c') \<and>
     (\<forall>s. Saw s \<in> set ts \<longrightarrow> sint (ts_nanos s) \<le> sint c')"
proof (induction ts arbitrary: c ss)
  case (Cons t ts)
  obtain s d where t: "ticked device t c = (s, d)" by fastforce
  obtain ss' where ts: "ticks device ts d = (ss', c')" and ss: "ss = (case s of None \<Rightarrow> ss' | Some s \<Rightarrow> s # ss')"
    using Cons.prems t by (auto split: prod.splits)
  from Cons.IH [OF ts] one_tick(1,2,4) [OF t] show ?case
    by (auto simp: ss split: option.splits)
qed auto

lemma ticks_given:
  "ticks device ts c = (ss, c') \<Longrightarrow> \<forall>s\<in>set ss. ts_nanos s \<noteq> i64_largest \<Longrightarrow>
     (\<forall>s\<in>set ss. sint c < sint (ts_nanos s) \<and> ts_device s = device) \<and> sorted_wrt (<) ss"
proof (induction ts arbitrary: c ss)
  case (Cons t ts)
  obtain s d where t: "ticked device t c = (s, d)" by fastforce
  obtain ss' where ts: "ticks device ts d = (ss', c')" and ss: "ss = (case s of None \<Rightarrow> ss' | Some s \<Rightarrow> s # ss')"
    using Cons.prems(1) t by (auto split: prod.splits)
  have later: "\<forall>s\<in>set ss'. sint d < sint (ts_nanos s) \<and> ts_device s = device" "sorted_wrt (<) ss'"
    using Cons.IH [OF ts] Cons.prems(2) by (auto simp: ss split: option.splits)
  have "c \<noteq> i64_largest" if "s = Some g" for g
  proof
    assume "c = i64_largest"
    then have "sint i64_largest \<le> sint d" using one_tick(1) [OF t] by simp
    then have "d = i64_largest" using largest by (metis antisym signed_word_eqI)
    then show False using one_tick(4) [OF t that] Cons.prems(2) that by (simp add: ss)
  qed
  then show ?case
    using later one_tick(1,3,4) [OF t] by (force simp: ss later_nanos split: option.splits)
qed simp

subsection \<open>Minted keys\<close>

definition minted_key_mark :: bytes where
  "minted_key_mark = [0x52, 0x53, 0x4B, 0x31]"

definition minted_nanos_from :: nat where
  "minted_nanos_from = length minted_key_mark"

definition minted_nanos_to :: nat where
  "minted_nanos_to = minted_nanos_from + 8"

definition to_be_bytes :: "u64 \<Rightarrow> bytes" where
  "to_be_bytes v = map (\<lambda>i. ucast (drop_bit (8 * i) v)) [7, 6, 5, 4, 3, 2, 1, 0]"

definition from_be_bytes :: "bytes \<Rightarrow> u64" where
  "from_be_bytes bs = foldl (\<lambda>v b. Bit_Operations.or (push_bit 8 v) (ucast b)) 0 bs"

definition minted_at :: "bytes \<Rightarrow> stamp_time \<Rightarrow> bytes" where
  "minted_at random s = minted_key_mark @ to_be_bytes (ts_nanos s) @ drop minted_nanos_to random"

definition minted_nanos :: "bytes \<Rightarrow> i64 option" where
  "minted_nanos key =
     (if take minted_nanos_from key \<noteq> minted_key_mark then None
      else
        let nanos = from_be_bytes (take 8 (drop minted_nanos_from key))
        in if sint nanos > 0 then Some nanos else None)"

definition minted_after :: "bytes \<Rightarrow> bytes \<Rightarrow> bool" where
  "minted_after mine theirs = (case (minted_nanos mine, minted_nanos theirs) of
     (Some a, Some b) \<Rightarrow> sint a > sint b | _ \<Rightarrow> False)"

lemma be_bytes_back: "from_be_bytes (to_be_bytes v) = v"
proof (rule bit_word_eqI)
  fix n :: nat
  assume n: "n < LENGTH(64)"
  consider "n < 8" | "8 \<le> n" "n < 16" | "16 \<le> n" "n < 24" | "24 \<le> n" "n < 32" | "32 \<le> n" "n < 40"
    | "40 \<le> n" "n < 48" | "48 \<le> n" "n < 56" | "56 \<le> n" by linarith
  then show "bit (from_be_bytes (to_be_bytes v)) n = bit v n"
    using n by cases (auto simp: from_be_bytes_def to_be_bytes_def bit_simps)
qed

lemma minted_back:
  "0 < sint (ts_nanos s) \<Longrightarrow> minted_nanos (minted_at random s) = Some (ts_nanos s)"
  by (simp add: minted_nanos_def minted_at_def minted_nanos_from_def be_bytes_back)
    (simp add: to_be_bytes_def be_bytes_back [unfolded to_be_bytes_def, simplified])

lemma minted_length:
  "length random = playlist_key_bytes \<Longrightarrow> key_ok (minted_at random s)"
  by (simp add: minted_at_def key_ok_def playlist_key_bytes_def minted_nanos_to_def minted_nanos_from_def
      minted_key_mark_def to_be_bytes_def)

end
