(* ===== verification/OrderedMaps.thy ===== *)
theory OrderedMaps
  imports "HOL-Library.List_Lexorder"
begin

text \<open>
  The ordered maps of the program: a \<open>BTreeMap\<close> is an association list in ascending order of its
  keys, which is the order it is walked in.
\<close>

definition om_drop :: "'k \<Rightarrow> ('k \<times> 'v) list \<Rightarrow> ('k \<times> 'v) list" where
  "om_drop k m = filter (\<lambda>e. fst e \<noteq> k) m"

text \<open>\<open>entry(k)\<close> of an ordered map: the value at a key is put in, or changed where it stands.\<close>

fun om_at :: "'k :: linorder \<Rightarrow> ('v option \<Rightarrow> 'v) \<Rightarrow> ('k \<times> 'v) list \<Rightarrow> ('k \<times> 'v) list" where
  "om_at k f [] = [(k, f None)]"
| "om_at k f ((a, v) # m) =
     (if k < a then (k, f None) # (a, v) # m
      else if k = a then (a, f (Some v)) # m
      else (a, v) # om_at k f m)"

definition om_ok :: "('k :: linorder \<times> 'v) list \<Rightarrow> bool" where
  "om_ok m \<longleftrightarrow> sorted_wrt (<) (map fst m)"

lemma om_keys: "fst ` set (om_at k f m) = insert k (fst ` set m)"
  by (induction k f m rule: om_at.induct) auto

lemma om_ok_at [simp]: "om_ok m \<Longrightarrow> om_ok (om_at k f m)"
proof (induction k f m rule: om_at.induct)
  case (2 k f a v m)
  have "a < b" if "b \<in> fst ` set (om_at k f m)" "\<not> k < a" "k \<noteq> a" for b
    using that "2.prems" by (auto simp: om_keys om_ok_def)
  then show ?case using 2 by (auto simp: om_ok_def)
qed (simp add: om_ok_def)

lemma map_of_absent: "\<forall>b\<in>fst ` set m. k < b \<Longrightarrow> map_of m (k :: 'k :: linorder) = None"
  by (force simp: map_of_eq_None_iff)

lemma map_of_om_at [simp]: "om_ok m \<Longrightarrow> map_of (om_at k f m) = (map_of m)(k \<mapsto> f (map_of m k))"
proof (induction k f m rule: om_at.induct)
  case (2 k f a v m)
  have "map_of m k = None" if "k < a"
    using that "2.prems" by (intro map_of_absent) (fastforce simp: om_ok_def)
  then show ?case using 2 by (auto simp: om_ok_def)
qed simp

lemma om_ext:
  assumes "om_ok m" and "om_ok m'" and "map_of m = map_of m'"
  shows "m = m'"
proof -
  have d: "distinct (map fst m)" "distinct (map fst m')"
    using assms(1,2) by (auto simp: om_ok_def strict_sorted_iff)
  then have "set m = set m'" using assms(3) by (metis map_of_inject_set)
  moreover have "sorted (map fst m)" "sorted (map fst m')"
    using assms(1,2) by (auto simp: om_ok_def strict_sorted_iff)
  ultimately show ?thesis using d by (intro map_sorted_distinct_set_unique [of fst]) (auto simp: distinct_map)
qed

text \<open>Putting in entries in ascending order gives the map of those entries.\<close>

lemma om_at_last: "\<forall>b\<in>fst ` set m. b < k \<Longrightarrow> om_at k f m = m @ [(k, f None)]"
  by (induction k f m rule: om_at.induct) (auto simp: not_less_iff_gr_or_eq)

lemma om_keys_drop: "fst ` set (om_drop k m) = fst ` set m - {k}"
  by (force simp: om_drop_def)

lemma om_ok_drop [simp]: "om_ok m \<Longrightarrow> om_ok (om_drop k m)"
  unfolding om_ok_def om_drop_def
  by (induction m) (auto simp: sorted_wrt_append)

lemma map_of_om_drop [simp]: "map_of (om_drop k m) = (map_of m)(k := None)"
  by (induction m) (auto simp: om_drop_def)

lemma om_ok_Nil [simp]: "om_ok []"
  by (simp add: om_ok_def)

lemma om_drop_Nil [simp]: "om_drop k [] = []"
  by (simp add: om_drop_def)

lemma om_distinct: "om_ok m \<Longrightarrow> distinct (map fst m)"
  by (auto simp: om_ok_def strict_sorted_iff)

lemma om_length_at:
  assumes "om_ok m"
  shows "length (om_at k f m) = (if map_of m k = None then Suc (length m) else length m)"
proof -
  have "length xs = card (fst ` set xs)" if "om_ok (xs :: ('a \<times> 'b) list)" for xs
    using distinct_card [OF om_distinct [OF that]] by simp
  then show ?thesis using assms
    by (simp add: om_keys card_insert_if map_of_eq_None_iff)
qed

lemma om_in_set: "om_ok m \<Longrightarrow> (k, v) \<in> set m \<longleftrightarrow> map_of m k = Some v"
  by (simp add: om_distinct)

lemma om_values: "om_ok m \<Longrightarrow> v \<in> snd ` set m \<longleftrightarrow> (\<exists>k. map_of m k = Some v)"
  by (force simp: om_in_set [symmetric])

end
