(* ===== verification/SharedList.thy ===== *)
theory SharedList
  imports Places SyncClock OrderedMaps
begin

text \<open>
  A shared list (\<open>SharedList\<close> in \<open>crates/resonate-sync/src/shared/op.rs\<close>): what every device that
  shares it keeps, and how each operation, whoever wrote it and in whatever order it arrives,
  changes it.
\<close>

subsection \<open>Operations\<close>

definition entry_bytes :: nat where
  "entry_bytes = 16"

definition member_bytes :: nat where
  "member_bytes = 16"

definition public_bytes :: nat where
  "public_bytes = 32"

type_synonym entry_id = bytes

type_synonym member_id = bytes

datatype shared_op =
  Added (op_entry: entry_id) recording place "member_id option" (op_stamp: stamp_time)
| Moved (op_entry: entry_id) place (op_stamp: stamp_time)
| Removed (op_entry: entry_id) (op_stamp: stamp_time)
| Renamed bytes (op_stamp: stamp_time)
| Member (op_member: member_id) bytes bytes (op_stamp: stamp_time)
| MemberLeft (op_member: member_id) (op_stamp: stamp_time)

record shared_row =
  sr_recording :: "recording option"
  sr_by :: "member_id option"
  sr_placed :: "(place \<times> stamp_time) option"
  sr_removed :: "stamp_time option"

record person =
  pe_name :: bytes
  pe_public :: bytes
  pe_stamp :: stamp_time
  pe_left :: "stamp_time option"

record listed =
  li_entry :: entry_id
  li_recording :: recording
  li_place :: place
  li_by :: "member_id option"

record shared_list =
  sl_name :: "(bytes \<times> stamp_time) option"
  sl_rows :: "(entry_id \<times> shared_row) list"
  sl_people :: "(member_id \<times> person) list"

definition empty_list :: shared_list where
  "empty_list = \<lparr>sl_name = None, sl_rows = [], sl_people = []\<rparr>"

definition default_row :: shared_row where
  "default_row = \<lparr>sr_recording = None, sr_by = None, sr_placed = None, sr_removed = None\<rparr>"

definition placed_later :: "place \<Rightarrow> stamp_time \<Rightarrow> shared_row \<Rightarrow> shared_row" where
  "placed_later p s row =
     (if (case sr_placed row of None \<Rightarrow> True | Some (_, held) \<Rightarrow> s > held)
      then row\<lparr>sr_placed := Some (p, s)\<rparr> else row)"

definition or_default :: "shared_row option \<Rightarrow> shared_row" where
  "or_default v = (case v of None \<Rightarrow> default_row | Some row \<Rightarrow> row)"

definition latest :: "stamp_time option \<Rightarrow> stamp_time \<Rightarrow> stamp_time" where
  "latest held s = (case held of None \<Rightarrow> s | Some h \<Rightarrow> max h s)"

definition added_to :: "recording \<Rightarrow> place \<Rightarrow> member_id option \<Rightarrow> stamp_time \<Rightarrow> shared_row \<Rightarrow> shared_row" where
  "added_to recording p by s row =
     (if sr_removed row = None then
        placed_later p s (row\<lparr>
          sr_recording := (case sr_recording row of None \<Rightarrow> Some recording | held \<Rightarrow> held),
          sr_by := (case sr_by row of None \<Rightarrow> by | held \<Rightarrow> held)\<rparr>)
      else row)"

definition moved_to :: "place \<Rightarrow> stamp_time \<Rightarrow> shared_row \<Rightarrow> shared_row" where
  "moved_to p s row = (if sr_removed row = None then placed_later p s row else row)"

definition removed_at :: "stamp_time \<Rightarrow> shared_row \<Rightarrow> shared_row" where
  "removed_at s row = \<lparr>sr_recording = None, sr_by = None, sr_placed = None,
     sr_removed = Some (latest (sr_removed row) s)\<rparr>"

definition renamed_to :: "bytes \<Rightarrow> stamp_time \<Rightarrow> (bytes \<times> stamp_time) option \<Rightarrow> (bytes \<times> stamp_time) option" where
  "renamed_to name s held =
     (if (case held of None \<Rightarrow> True | Some (_, h) \<Rightarrow> s > h) then Some (name, s) else held)"

definition described_as :: "bytes \<Rightarrow> bytes \<Rightarrow> stamp_time \<Rightarrow> person option \<Rightarrow> person" where
  "described_as name public s v =
     (let person = (case v of Some p \<Rightarrow> p
            | None \<Rightarrow> \<lparr>pe_name = name, pe_public = public, pe_stamp = s, pe_left = None\<rparr>)
      in if s \<ge> pe_stamp person
         then person\<lparr>pe_name := name, pe_public := public, pe_stamp := s\<rparr> else person)"

definition i64_smallest :: i64 where
  "i64_smallest = 0x8000000000000000"

definition gone_at :: "stamp_time \<Rightarrow> person option \<Rightarrow> person" where
  "gone_at s v =
     (let person = (case v of Some p \<Rightarrow> p
            | None \<Rightarrow> \<lparr>pe_name = [], pe_public = replicate public_bytes 0,
                pe_stamp = \<lparr>ts_nanos = i64_smallest, ts_device = ts_device s\<rparr>, pe_left = None\<rparr>)
      in person\<lparr>pe_left := Some (latest (pe_left person) s)\<rparr>)"

fun applied :: "shared_op \<Rightarrow> shared_list \<Rightarrow> shared_list" where
  "applied (Added e recording p by s) l =
     l\<lparr>sl_rows := om_at e (\<lambda>v. added_to recording p by s (or_default v)) (sl_rows l)\<rparr>"
| "applied (Moved e p s) l = l\<lparr>sl_rows := om_at e (\<lambda>v. moved_to p s (or_default v)) (sl_rows l)\<rparr>"
| "applied (Removed e s) l = l\<lparr>sl_rows := om_at e (\<lambda>v. removed_at s (or_default v)) (sl_rows l)\<rparr>"
| "applied (Renamed name s) l = l\<lparr>sl_name := renamed_to name s (sl_name l)\<rparr>"
| "applied (Member m name public s) l = l\<lparr>sl_people := om_at m (described_as name public s) (sl_people l)\<rparr>"
| "applied (MemberLeft m s) l = l\<lparr>sl_people := om_at m (gone_at s) (sl_people l)\<rparr>"

definition is_here :: "person \<Rightarrow> bool" where
  "is_here p \<longleftrightarrow> (case pe_left p of None \<Rightarrow> True | Some l \<Rightarrow> l < pe_stamp p)"

definition people_of :: "shared_list \<Rightarrow> (member_id \<times> person) list" where
  "people_of l = filter (\<lambda>(_, p). is_here p) (sl_people l)"

definition listed_row :: "entry_id \<times> shared_row \<Rightarrow> listed option" where
  "listed_row e = (case (sr_recording (snd e), sr_placed (snd e)) of
     (Some recording, Some (p, _)) \<Rightarrow>
       Some \<lparr>li_entry = fst e, li_recording = recording, li_place = p, li_by = sr_by (snd e)\<rparr>
   | _ \<Rightarrow> None)"

text \<open>The rows are sorted by place, and by entry where two share a place: one key of both.\<close>

fun insert_listed :: "listed \<Rightarrow> listed list \<Rightarrow> listed list" where
  "insert_listed x [] = [x]"
| "insert_listed x (y # ys) =
     (if li_place x < li_place y \<or> li_place x = li_place y \<and> li_entry x \<le> li_entry y
      then x # y # ys else y # insert_listed x ys)"

definition rows_listed :: "shared_list \<Rightarrow> listed list" where
  "rows_listed l = foldr insert_listed (List.map_filter listed_row (sl_rows l)) []"

definition person_ops :: "member_id \<times> person \<Rightarrow> shared_op list" where
  "person_ops e = Member (fst e) (pe_name (snd e)) (pe_public (snd e)) (pe_stamp (snd e)) #
     (case pe_left (snd e) of None \<Rightarrow> [] | Some s \<Rightarrow> [MemberLeft (fst e) s])"

definition row_ops :: "entry_id \<times> shared_row \<Rightarrow> shared_op list" where
  "row_ops e = (case sr_removed (snd e) of
     Some s \<Rightarrow> [Removed (fst e) s]
   | None \<Rightarrow> (case (sr_recording (snd e), sr_placed (snd e)) of
         (Some recording, Some (p, s)) \<Rightarrow> [Added (fst e) recording p (sr_by (snd e)) s]
       | (None, Some (p, s)) \<Rightarrow> [Moved (fst e) p s]
       | (_, None) \<Rightarrow> []))"

definition as_ops :: "shared_list \<Rightarrow> shared_op list" where
  "as_ops l =
     (case sl_name l of None \<Rightarrow> [] | Some (name, s) \<Rightarrow> [Renamed name s])
     @ concat (map person_ops (sl_people l)) @ concat (map row_ops (sl_rows l))"

subsection \<open>What every list satisfies\<close>

definition row_whole :: "shared_row \<Rightarrow> bool" where
  "row_whole row \<longleftrightarrow>
     (if sr_removed row = None then sr_placed row \<noteq> None \<and> (sr_recording row = None \<longrightarrow> sr_by row = None)
      else sr_recording row = None \<and> sr_by row = None \<and> sr_placed row = None)"

text \<open>Someone known only to have left is a person with the earliest stamp there is.\<close>

definition person_whole :: "person \<Rightarrow> bool" where
  "person_whole p \<longleftrightarrow> (ts_nanos (pe_stamp p) = i64_smallest \<longrightarrow> \<not> is_here p)"

definition list_whole :: "shared_list \<Rightarrow> bool" where
  "list_whole l \<longleftrightarrow> om_ok (sl_rows l) \<and> om_ok (sl_people l) \<and>
     (\<forall>e row. map_of (sl_rows l) e = Some row \<longrightarrow> row_whole row) \<and>
     (\<forall>m p. map_of (sl_people l) m = Some p \<longrightarrow> person_whole p)"

text \<open>A stamp the clock gave is later than the earliest there is; that one is kept for people never described.\<close>

fun op_real :: "shared_op \<Rightarrow> bool" where
  "op_real (Member _ _ _ s) \<longleftrightarrow> ts_nanos s \<noteq> i64_smallest"
| "op_real _ \<longleftrightarrow> True"

lemma smallest: "sint i64_smallest \<le> sint v" "sint v = sint i64_smallest \<longleftrightarrow> v = i64_smallest"
proof -
  have "sint i64_smallest = - 9223372036854775808" by (simp add: i64_smallest_def)
  then show "sint i64_smallest \<le> sint v" using sint_ge [of v] by simp
  show "sint v = sint i64_smallest \<longleftrightarrow> v = i64_smallest" by (metis signed_word_eqI)
qed

lemma real_later: "ts_nanos s \<noteq> i64_smallest \<Longrightarrow> ts_nanos t = i64_smallest \<Longrightarrow> t < (s :: stamp_time)"
  using smallest [of "ts_nanos s"] by (intro later_nanos) (metis order_le_imp_less_or_eq)

lemma latest_ge: "s \<le> latest held s" "held = Some h \<Longrightarrow> h \<le> latest held s"
  by (auto simp: latest_def split: option.split)

lemma row_whole_ops:
  assumes "\<And>row. v = Some row \<Longrightarrow> row_whole row"
  shows "row_whole (added_to r p by s (or_default v))" "row_whole (moved_to p s (or_default v))"
    "row_whole (removed_at s (or_default v))"
  using assms
  by (cases v; auto simp: row_whole_def added_to_def moved_to_def removed_at_def placed_later_def or_default_def
      default_row_def split: option.splits)+

lemma person_whole_described:
  assumes "\<And>p. v = Some p \<Longrightarrow> person_whole p" and "ts_nanos s \<noteq> i64_smallest"
  shows "person_whole (described_as name public s v)"
  using assms by (cases v) (auto simp: person_whole_def described_as_def Let_def)

lemma person_whole_gone:
  assumes "\<And>p. v = Some p \<Longrightarrow> person_whole p"
  shows "person_whole (gone_at s v)"
proof (cases v)
  case None
  have "\<lparr>ts_nanos = i64_smallest, ts_device = ts_device s\<rparr> \<le> s"
    using smallest [of "ts_nanos s"] by (auto simp: stamp_orders)
  then show ?thesis by (simp add: None person_whole_def gone_at_def is_here_def latest_def Let_def not_less)
next
  case (Some p)
  then show ?thesis
    using assms latest_ge(2) [of "pe_left p" _ s]
    by (force simp: person_whole_def gone_at_def is_here_def Let_def not_less split: option.splits)
qed

lemma applied_whole: "list_whole l \<Longrightarrow> op_real op \<Longrightarrow> list_whole (applied op l)"
  by (cases op) (auto simp: list_whole_def intro!: row_whole_ops person_whole_described person_whole_gone)

lemma empty_whole [simp]: "list_whole empty_list"
  by (simp add: list_whole_def empty_list_def om_ok_def)

lemma all_applied_whole: "list_whole l \<Longrightarrow> list_all op_real ops \<Longrightarrow> list_whole (fold applied ops l)"
  by (induction ops arbitrary: l) (simp_all add: applied_whole)

subsection \<open>A list and its operations\<close>

lemma people_applied:
  assumes "sorted_wrt (<) (map fst qs @ map fst ps)" and "sl_people l = qs"
  shows "fold applied (concat (map person_ops ps)) l = l\<lparr>sl_people := qs @ ps\<rparr>"
  using assms
proof (induction ps arbitrary: qs l)
  case (Cons e ps)
  obtain m p where e: "e = (m, p)" by fastforce
  have below: "\<forall>b\<in>fst ` set qs. b < m" using Cons.prems(1) by (auto simp: e sorted_wrt_append)
  have "fold applied (person_ops e) l = l\<lparr>sl_people := qs @ [e]\<rparr>"
  proof (cases "pe_left p")
    case None
    then show ?thesis using Cons.prems(2) below
      by (simp add: e person_ops_def om_at_last described_as_def Let_def)
  next
    case (Some s)
    have "om_at m (gone_at s) (qs @ [(m, q)]) = qs @ [(m, gone_at s (Some q))]" for q
      using below by (induction qs) (auto simp: less_le_not_le)
    then show ?thesis using Some Cons.prems(2) below
      by (simp add: e person_ops_def om_at_last described_as_def gone_at_def latest_def Let_def)
  qed
  moreover have "fold applied (concat (map person_ops ps)) (l\<lparr>sl_people := qs @ [e]\<rparr>) = l\<lparr>sl_people := (qs @ [e]) @ ps\<rparr>"
    using Cons.IH [of "qs @ [e]" "l\<lparr>sl_people := qs @ [e]\<rparr>"] Cons.prems(1) by simp
  ultimately show ?case by simp
qed simp

lemma row_again:
  assumes "row_whole row" and "\<forall>b\<in>fst ` set (sl_rows l). b < e"
  shows "fold applied (row_ops (e, row)) l = l\<lparr>sl_rows := sl_rows l @ [(e, row)]\<rparr>"
  using assms
  by (auto simp: row_ops_def row_whole_def om_at_last or_default_def default_row_def added_to_def moved_to_def
      removed_at_def placed_later_def latest_def split: option.splits if_splits)

lemma rows_applied:
  assumes "sorted_wrt (<) (map fst qs @ map fst rs)" and "sl_rows l = qs" and "\<forall>row\<in>snd ` set rs. row_whole row"
  shows "fold applied (concat (map row_ops rs)) l = l\<lparr>sl_rows := qs @ rs\<rparr>"
  using assms
proof (induction rs arbitrary: qs l)
  case (Cons e rs)
  have below: "\<forall>b\<in>fst ` set (sl_rows l). b < fst e" using Cons.prems(1,2) by (auto simp: sorted_wrt_append)
  have "fold applied (row_ops e) l = l\<lparr>sl_rows := qs @ [e]\<rparr>"
    using row_again [OF _ below, of "snd e"] Cons.prems(2,3) by simp
  then show ?case using Cons.IH [of "qs @ [e]" "l\<lparr>sl_rows := qs @ [e]\<rparr>"] Cons.prems by simp
qed simp

text \<open>The operations a list is written as make that list again.\<close>

lemma as_ops_again:
  assumes "list_whole l"
  shows "fold applied (as_ops l) empty_list = l"
proof -
  have ok: "sorted_wrt (<) (map fst (sl_rows l))" "sorted_wrt (<) (map fst (sl_people l))"
    using assms by (simp_all add: list_whole_def om_ok_def)
  have "distinct (map fst (sl_rows l))" using ok(1) by (simp add: strict_sorted_iff)
  then have rows: "\<forall>row\<in>snd ` set (sl_rows l). row_whole row" using assms by (auto simp: list_whole_def)
  let ?n = "empty_list\<lparr>sl_name := sl_name l\<rparr>"
  have "fold applied (case sl_name l of None \<Rightarrow> [] | Some (name, s) \<Rightarrow> [Renamed name s]) empty_list = ?n"
    by (auto simp: empty_list_def renamed_to_def split: option.split)
  moreover have "fold applied (concat (map person_ops (sl_people l))) ?n = ?n\<lparr>sl_people := sl_people l\<rparr>"
    using people_applied [of "[]" "sl_people l" ?n] ok(2) by (simp add: empty_list_def)
  moreover have "fold applied (concat (map row_ops (sl_rows l))) (?n\<lparr>sl_people := sl_people l\<rparr>) =
      ?n\<lparr>sl_people := sl_people l, sl_rows := sl_rows l\<rparr>"
    using rows_applied [of "[]" "sl_rows l"] ok(1) rows by (simp add: empty_list_def)
  ultimately show ?thesis by (simp add: as_ops_def empty_list_def)
qed

end
