(* ===== verification/SharedMerge.thy ===== *)
theory SharedMerge
  imports SharedList
begin

text \<open>
  However the operations on a shared list cross, every device ends on the same list. What a list
  shows is a name, a row for each entry and a description of each person, and every operation is
  an update of each of them on its own; operations that agree with one another commute, and doing
  one twice is doing it once. So what a list shows depends on the set of the operations that have
  arrived, and on nothing else.
\<close>

subsection \<open>What a list shows\<close>

type_synonym described = "(bytes \<times> bytes \<times> stamp_time) option \<times> stamp_time option"

record list_view =
  vw_name :: "(bytes \<times> stamp_time) option"
  vw_rows :: "entry_id \<Rightarrow> shared_row option"
  vw_people :: "member_id \<Rightarrow> described"

fun seen_person :: "person option \<Rightarrow> described" where
  "seen_person None = (None, None)"
| "seen_person (Some p) =
     (if ts_nanos (pe_stamp p) = i64_smallest then None else Some (pe_name p, pe_public p, pe_stamp p), pe_left p)"

definition view_of :: "shared_list \<Rightarrow> list_view" where
  "view_of l = \<lparr>vw_name = sl_name l, vw_rows = map_of (sl_rows l),
     vw_people = (\<lambda>m. seen_person (map_of (sl_people l) m))\<rparr>"

fun name_step :: "shared_op \<Rightarrow> (bytes \<times> stamp_time) option \<Rightarrow> (bytes \<times> stamp_time) option" where
  "name_step (Renamed name s) v = renamed_to name s v"
| "name_step _ v = v"

fun row_step :: "shared_op \<Rightarrow> entry_id \<Rightarrow> shared_row option \<Rightarrow> shared_row option" where
  "row_step (Added e r p by s) e' v = (if e' = e then Some (added_to r p by s (or_default v)) else v)"
| "row_step (Moved e p s) e' v = (if e' = e then Some (moved_to p s (or_default v)) else v)"
| "row_step (Removed e s) e' v = (if e' = e then Some (removed_at s (or_default v)) else v)"
| "row_step _ e' v = v"

definition described_later :: "bytes \<Rightarrow> bytes \<Rightarrow> stamp_time \<Rightarrow> (bytes \<times> bytes \<times> stamp_time) option \<Rightarrow>
    (bytes \<times> bytes \<times> stamp_time) option" where
  "described_later name public s d =
     (case d of None \<Rightarrow> Some (name, public, s) | Some (_, _, held) \<Rightarrow> if s \<ge> held then Some (name, public, s) else d)"

fun person_step :: "shared_op \<Rightarrow> member_id \<Rightarrow> described \<Rightarrow> described" where
  "person_step (Member m name public s) m' d = (if m' = m then (described_later name public s (fst d), snd d) else d)"
| "person_step (MemberLeft m s) m' d = (if m' = m then (fst d, Some (latest (snd d) s)) else d)"
| "person_step _ m' d = d"

definition view_step :: "shared_op \<Rightarrow> list_view \<Rightarrow> list_view" where
  "view_step op v = \<lparr>vw_name = name_step op (vw_name v), vw_rows = (\<lambda>e. row_step op e (vw_rows v e)),
     vw_people = (\<lambda>m. person_step op m (vw_people v m))\<rparr>"

lemma seen_described:
  "ts_nanos s \<noteq> i64_smallest \<Longrightarrow>
     seen_person (Some (described_as name public s v)) =
       (described_later name public s (fst (seen_person v)), snd (seen_person v))"
  using real_later [of s]
  by (cases v) (auto simp: described_as_def described_later_def Let_def dest: less_imp_le)

lemma seen_gone: "seen_person (Some (gone_at s v)) = (fst (seen_person v), Some (latest (snd (seen_person v)) s))"
  by (cases v) (auto simp: gone_at_def Let_def latest_def)

text \<open>The list refines its view: an operation on the list is the step of the view.\<close>

lemma applied_refines:
  assumes "list_whole l" and "op_real op"
  shows "view_of (applied op l) = view_step op (view_of l)"
  using assms
  by (cases op) (auto simp: view_of_def view_step_def list_whole_def fun_eq_iff seen_described seen_gone simp del: seen_person.simps)

lemma all_applied_refine:
  "list_whole l \<Longrightarrow> list_all op_real ops \<Longrightarrow> view_of (fold applied ops l) = fold view_step ops (view_of l)"
  by (induction ops arbitrary: l) (simp_all add: applied_refines applied_whole)

subsection \<open>Operations that agree\<close>

text \<open>
  Two operations agree where one stamp stands for one thing: an entry is the song it was added as,
  by whom it was, and what carries the same stamp says the same.
\<close>

fun placing_of :: "shared_op \<Rightarrow> (entry_id \<times> place \<times> stamp_time) option" where
  "placing_of (Added e _ p _ s) = Some (e, p, s)"
| "placing_of (Moved e p s) = Some (e, p, s)"
| "placing_of _ = None"

definition ops_agree :: "shared_op \<Rightarrow> shared_op \<Rightarrow> bool" where
  "ops_agree a b \<longleftrightarrow>
     (case (placing_of a, placing_of b) of
        (Some (e, p, s), Some (e', p', s')) \<Rightarrow> e = e' \<and> s = s' \<longrightarrow> p = p' | _ \<Rightarrow> True) \<and>
     (case (a, b) of
        (Added e r _ by _, Added e' r' _ by' _) \<Rightarrow> e = e' \<longrightarrow> r = r' \<and> (by = None \<or> by' = None \<or> by = by')
      | (Renamed n s, Renamed n' s') \<Rightarrow> s = s' \<longrightarrow> n = n'
      | (Member m n k s, Member m' n' k' s') \<Rightarrow> m = m' \<and> s = s' \<longrightarrow> n = n' \<and> k = k'
      | _ \<Rightarrow> True)"

lemma placed_commute:
  "(s = s' \<longrightarrow> p = p') \<Longrightarrow> placed_later p s (placed_later p' s' row) = placed_later p' s' (placed_later p s row)"
  by (auto simp: placed_later_def split: option.splits)

lemma placed_keeps [simp]:
  "sr_removed (placed_later p s row) = sr_removed row" "sr_recording (placed_later p s row) = sr_recording row"
  "sr_by (placed_later p s row) = sr_by row"
  "placed_later p s (row\<lparr>sr_recording := r, sr_by := b\<rparr>) = (placed_later p s row)\<lparr>sr_recording := r, sr_by := b\<rparr>"
  by (auto simp: placed_later_def split: option.splits)

lemma or_default_Some [simp]: "or_default (Some row) = row"
  by (simp add: or_default_def)

lemma latest_commute: "latest (Some (latest v s)) t = latest (Some (latest v t)) s"
  by (auto simp: latest_def max_def split: option.split)

lemma name_commute: "ops_agree a b \<Longrightarrow> name_step a (name_step b v) = name_step b (name_step a v)"
  by (cases a; cases b) (auto simp: ops_agree_def renamed_to_def split: option.splits if_splits)

lemma row_commute_Added:
  assumes "ops_agree (Added e r p by s) b"
  shows "row_step (Added e r p by s) k (row_step b k v) = row_step b k (row_step (Added e r p by s) k v)"
  using assms placed_commute
  by (cases b) (auto simp: ops_agree_def added_to_def moved_to_def removed_at_def split: option.splits)

lemma agree_sym: "ops_agree a b \<longleftrightarrow> ops_agree b a"
  by (cases a; cases b) (auto simp: ops_agree_def)

lemma row_commute:
  assumes "ops_agree a b"
  shows "row_step a k (row_step b k v) = row_step b k (row_step a k v)"
proof -
  have removing: "row_step (Removed e s) k (row_step (Removed e' s') k v) = row_step (Removed e' s') k (row_step (Removed e s) k v)"
    for e s e' s' by (auto simp: removed_at_def latest_commute)
  have moving: "row_step (Moved e p s) k (row_step (Removed e' s') k v) = row_step (Removed e' s') k (row_step (Moved e p s) k v)"
    for e p s e' s' by (auto simp: moved_to_def removed_at_def)
  have moved: "row_step (Moved e p s) k (row_step (Moved e' p' s') k v) = row_step (Moved e' p' s') k (row_step (Moved e p s) k v)"
    if "ops_agree (Moved e p s) (Moved e' p' s')" for e p s e' p' s'
    using that placed_commute by (auto simp: ops_agree_def moved_to_def)
  have added: "row_step a k (row_step b k v) = row_step b k (row_step a k v)" if "a = Added e r p w s" for e r p w s
    using row_commute_Added assms that by blast
  have added': "row_step a k (row_step b k v) = row_step b k (row_step a k v)" if "b = Added e r p w s" for e r p w s
    using row_commute_Added assms that agree_sym by metis
  show ?thesis
  proof (cases a)
    case (Moved e p s)
    then show ?thesis using added' moved moving assms by (cases b) auto
  next
    case (Removed e s)
    show ?thesis
    proof (cases b)
      case (Moved e' p' s')
      then show ?thesis using moving [of e' p' s' e s] \<open>a = Removed e s\<close> by simp
    qed (use added' removing Removed in \<open>auto\<close>)
  qed (use added in auto)
qed

lemma person_commute: "ops_agree a b \<Longrightarrow> person_step a m (person_step b m d) = person_step b m (person_step a m d)"
  by (cases a; cases b)
    (auto simp: ops_agree_def described_later_def latest_commute split: option.splits if_splits)

lemma name_twice: "name_step a (name_step a v) = name_step a v"
  by (cases a) (auto simp: renamed_to_def split: option.splits)

lemma row_twice: "row_step a k (row_step a k v) = row_step a k v"
  by (cases a) (auto simp: added_to_def moved_to_def removed_at_def latest_def placed_later_def max_def
      split: option.splits if_splits)

lemma person_twice: "person_step a m (person_step a m d) = person_step a m d"
  by (cases a) (auto simp: described_later_def latest_def max_def split: option.splits)

definition all_agree :: "shared_op set \<Rightarrow> bool" where
  "all_agree ops \<longleftrightarrow> (\<forall>a\<in>ops. \<forall>b\<in>ops. ops_agree a b)"

lemma steps_commute:
  assumes "all_agree S"
  shows "comp_fun_idem_on S view_step"
proof
  show "view_step b \<circ> view_step a = view_step a \<circ> view_step b" if "a \<in> S" "b \<in> S" for a b
    using that assms name_commute [of a b] row_commute [of a b] person_commute [of a b]
    by (auto simp: all_agree_def view_step_def fun_eq_iff)
  show "view_step a \<circ> view_step a = view_step a" if "a \<in> S" for a
    by (auto simp: view_step_def fun_eq_iff name_twice row_twice person_twice)
qed

lemma views_converge:
  assumes "all_agree (set ops)" and "set ops = set ops'"
  shows "fold view_step ops v = fold view_step ops' v"
  using comp_fun_idem_on.fold_set_fold [OF steps_commute [OF assms(1)], of ops v]
    comp_fun_idem_on.fold_set_fold [OF steps_commute [OF assms(1)], of ops' v] assms(2) by simp

subsection \<open>Every device ends on the same list\<close>

lemma map_of_filter:
  "distinct (map fst m) \<Longrightarrow>
     map_of (filter (\<lambda>(_, v). P v) m) k = (case map_of m k of None \<Rightarrow> None | Some v \<Rightarrow> if P v then Some v else None)"
  by (induction m) (auto split: option.split simp: map_of_eq_None_iff dest: map_of_SomeD intro: rev_image_eqI)

lemma seen_here:
  assumes "person_whole p" and "is_here p" and "seen_person v = seen_person (Some p)" and "\<And>q. v = Some q \<Longrightarrow> person_whole q"
  shows "v = Some p"
proof -
  have real: "ts_nanos (pe_stamp p) \<noteq> i64_smallest" using assms(1,2) by (auto simp: person_whole_def)
  then obtain q where "v = Some q" using assms(3) by (cases v) auto
  then show ?thesis using assms(3) real by (auto split: if_splits)
qed

lemma people_seen:
  assumes "list_whole l" and "list_whole l'" and "view_of l = view_of l'"
  shows "people_of l = people_of l'"
proof -
  have d: "distinct (map fst (sl_people k))" if "list_whole k" for k
    using that by (auto simp: list_whole_def om_ok_def strict_sorted_iff)
  have ok: "om_ok (people_of k)" if "list_whole k" for k
    using that by (auto simp: list_whole_def om_ok_def people_of_def sorted_wrt_map intro: sorted_wrt_filter)
  have "map_of (people_of l) m = map_of (people_of l') m" for m
  proof -
    let ?p = "map_of (sl_people l) m" and ?q = "map_of (sl_people l') m"
    have seen: "seen_person ?p = seen_person ?q" using assms(3) by (auto simp: view_of_def fun_eq_iff)
    have whole: "person_whole p" if "?p = Some p \<or> ?q = Some p" for p using that assms(1,2) by (auto simp: list_whole_def)
    have pq: "?q = Some p" if "?p = Some p" "is_here p" for p
      using seen_here [of p ?q] seen whole that by simp
    have qp: "?p = Some q" if "?q = Some q" "is_here q" for q
      using seen_here [of q ?p] seen whole that by simp
    have "map_of (people_of k) m = Some p \<longleftrightarrow> map_of (sl_people k) m = Some p \<and> is_here p" if "list_whole k" for k p
      unfolding people_of_def map_of_filter [OF d [OF that]]
      by (cases "map_of (sl_people k) m") (auto simp del: map_of_eq_Some_iff)
    then have "map_of (people_of l) m = Some p \<longleftrightarrow> map_of (people_of l') m = Some p" for p
      using assms(1,2) pq qp by blast
    then show ?thesis by (metis not_None_eq)
  qed
  then show ?thesis using om_ext [OF ok [OF assms(1)] ok [OF assms(2)]] by auto
qed

lemma lists_converge:
  assumes "list_whole l" and "all_agree (set ops)" and "set ops = set ops'" and "list_all op_real ops"
  shows "sl_name (fold applied ops l) = sl_name (fold applied ops' l) \<and>
    sl_rows (fold applied ops l) = sl_rows (fold applied ops' l) \<and>
    people_of (fold applied ops l) = people_of (fold applied ops' l)"
proof -
  let ?l = "fold applied ops l" and ?l' = "fold applied ops' l"
  have real: "list_all op_real ops'" using assms(3,4) by (simp add: list_all_iff)
  have whole: "list_whole ?l" "list_whole ?l'" using all_applied_whole assms(1,4) real by blast+
  have view: "view_of ?l = view_of ?l'"
    using all_applied_refine [OF assms(1,4)] all_applied_refine [OF assms(1) real] views_converge [OF assms(2,3)] by simp
  then have "sl_rows ?l = sl_rows ?l'"
    using whole by (intro om_ext) (auto simp: list_whole_def view_of_def)
  then show ?thesis using view people_seen [OF whole view] by (simp add: view_of_def)
qed

text \<open>
  Someone who left before anyone described them is kept with a stamp of the device that said so
  first, so that much of a list, which it never shows, may differ between devices.
\<close>

lemma hidden_stamps_differ:
  fixes a b :: device_id
  assumes "a \<noteq> b"
  shows "fold applied [MemberLeft m \<lparr>ts_nanos = 1, ts_device = a\<rparr>, MemberLeft m \<lparr>ts_nanos = 1, ts_device = b\<rparr>] empty_list \<noteq>
    fold applied [MemberLeft m \<lparr>ts_nanos = 1, ts_device = b\<rparr>, MemberLeft m \<lparr>ts_nanos = 1, ts_device = a\<rparr>] empty_list"
  using assms by (simp add: empty_list_def gone_at_def Let_def)

subsection \<open>A song removed stays removed\<close>

lemma removed_kept:
  assumes "\<exists>row. vw_rows v e = Some row \<and> sr_removed row \<noteq> None \<and> sr_recording row = None"
  shows "\<exists>row. vw_rows (fold view_step ops v) e = Some row \<and> sr_removed row \<noteq> None \<and> sr_recording row = None"
  using assms
proof (induction ops arbitrary: v)
  case (Cons op ops)
  have "\<exists>row. vw_rows (view_step op v) e = Some row \<and> sr_removed row \<noteq> None \<and> sr_recording row = None"
    using Cons.prems by (cases op) (auto simp: view_step_def added_to_def moved_to_def removed_at_def)
  then show ?case using Cons.IH by simp
qed simp

lemma removed_once:
  assumes "Removed e s \<in> set ops"
  shows "\<exists>row. vw_rows (fold view_step ops v) e = Some row \<and> sr_removed row \<noteq> None \<and> sr_recording row = None"
proof -
  obtain before after where ops: "ops = before @ Removed e s # after" using assms by (meson split_list)
  have "\<exists>row. vw_rows (view_step (Removed e s) u) e = Some row \<and> sr_removed row \<noteq> None \<and> sr_recording row = None" for u
    by (simp add: view_step_def removed_at_def)
  then show ?thesis using removed_kept unfolding ops by simp
qed

lemma set_insert_listed [simp]: "set (insert_listed x ys) = insert x (set ys)"
  by (induction ys) auto

lemma set_rows_listed: "set (rows_listed l) = set (List.map_filter listed_row (sl_rows l))"
proof -
  have "set (foldr insert_listed xs []) = set xs" for xs by (induction xs) auto
  then show ?thesis by (simp add: rows_listed_def)
qed

lemma listed_iff:
  assumes "om_ok (sl_rows l)"
  shows "x \<in> set (rows_listed l) \<longleftrightarrow> (\<exists>row. map_of (sl_rows l) (li_entry x) = Some row \<and> listed_row (li_entry x, row) = Some x)"
proof -
  have d: "distinct (map fst (sl_rows l))" using assms by (simp add: om_ok_def strict_sorted_iff)
  have e: "listed_row r = Some x \<Longrightarrow> li_entry x = fst r" for r by (auto simp: listed_row_def split: option.splits)
  have "x \<in> set (List.map_filter listed_row (sl_rows l)) \<longleftrightarrow> (\<exists>r\<in>set (sl_rows l). listed_row r = Some x)"
    by (force simp: map_filter_def)
  then show ?thesis
    using d e by (auto simp: set_rows_listed)
qed

text \<open>The rows a list shows are in the order of their places, each entry once.\<close>

definition listed_before :: "listed \<Rightarrow> listed \<Rightarrow> bool" where
  "listed_before x y \<longleftrightarrow> li_place x < li_place y \<or> li_place x = li_place y \<and> li_entry x \<le> li_entry y"

lemma insert_listed_sorted: "sorted_wrt listed_before ys \<Longrightarrow> sorted_wrt listed_before (insert_listed x ys)"
  by (induction ys) (auto simp: listed_before_def)

lemma rows_sorted: "sorted_wrt listed_before (rows_listed l)"
proof -
  have "sorted_wrt listed_before (foldr insert_listed xs [])" for xs
    by (induction xs) (simp_all add: insert_listed_sorted)
  then show ?thesis by (simp add: rows_listed_def)
qed

lemma insert_listed_entries: "mset (map li_entry (insert_listed x ys)) = add_mset (li_entry x) (mset (map li_entry ys))"
  by (induction ys) auto

lemma rows_once:
  assumes "om_ok (sl_rows l)"
  shows "distinct (map li_entry (rows_listed l))"
proof -
  have "mset (map li_entry (foldr insert_listed xs [])) = mset (map li_entry xs)" for xs
    by (induction xs) (simp_all add: insert_listed_entries del: mset_map)
  then have entries: "mset (map li_entry (rows_listed l)) = mset (map li_entry (List.map_filter listed_row (sl_rows l)))"
    by (simp add: rows_listed_def)
  have "distinct (map li_entry (List.map_filter listed_row rs))" if "distinct (map fst rs)" for rs
    using that
  proof (induction rs)
    case (Cons r rs)
    have "li_entry x \<in> fst ` set rs" if "x \<in> set (List.map_filter listed_row rs)" for x
      using that by (force simp: map_filter_def listed_row_def split: option.splits)
    moreover have "li_entry x = fst r" if "listed_row r = Some x" for x
      using that by (auto simp: listed_row_def split: option.splits)
    ultimately show ?case using Cons.IH Cons.prems
      by (cases "listed_row r") (auto simp: map_filter_simps)
  qed (simp add: map_filter_simps)
  then show ?thesis using assms distinct_mset_eq [OF entries] by (simp add: om_ok_def strict_sorted_iff)
qed

end
