(* ===== verification/SharedWire.thy ===== *)
theory SharedWire
  imports SharedList WireValid
begin

text \<open>
  The operations on a shared list as they are written and read (\<open>encoded_ops\<close>, \<open>decoded_ops\<close> of
  \<open>crates/resonate-sync/src/shared/op.rs\<close>), over the byte format of \<open>Wire\<close>. An operation of a kind
  that is not known is passed over.
\<close>

subsection \<open>Writing and reading an operation\<close>

definition largest_op :: nat where
  "largest_op = 262144"

definition longest_place :: nat where
  "longest_place = 4096"

fun encoded_op :: "shared_op \<Rightarrow> bytes" where
  "encoded_op (Added e recording p w s) =
     wr_byte 0 @ e @ wr_recording recording @ wr_bytes p @ wr_option (\<lambda>m. m) w @ wr_stamp s"
| "encoded_op (Moved e p s) = wr_byte 1 @ e @ wr_bytes p @ wr_stamp s"
| "encoded_op (Removed e s) = wr_byte 2 @ e @ wr_stamp s"
| "encoded_op (Renamed name s) = wr_byte 3 @ wr_text name @ wr_stamp s"
| "encoded_op (Member m name public s) = wr_byte 4 @ m @ wr_text name @ public @ wr_stamp s"
| "encoded_op (MemberLeft m s) = wr_byte 5 @ m @ wr_stamp s"

definition encoded_ops :: "shared_op list \<Rightarrow> bytes" where
  "encoded_ops ops = wr_list (\<lambda>op. wr_bytes (encoded_op op)) ops"

definition placed_bytes :: "bytes \<Rightarrow> place reader" where
  "placed_bytes bs = (if bs = [] then rd_fail (Short 0) else rd_ok bs)"

definition rd_place :: "place reader" where
  "rd_place = rd_then (rd_bytes longest_place) placed_bytes"

definition rd_entry :: "entry_id reader" where
  "rd_entry = rd_fixed entry_bytes"

definition rd_member :: "member_id reader" where
  "rd_member = rd_fixed member_bytes"

text \<open>\<open>None\<close> is an operation of a kind that is not known, of which nothing more is read.\<close>

definition rd_op :: "shared_op option reader" where
  "rd_op = rd_then rd_byte (\<lambda>tag.
     if tag = 0 then
       rd_then rd_entry (\<lambda>e. rd_then rd_recording (\<lambda>recording. rd_then rd_place (\<lambda>p.
       rd_then (rd_option rd_member) (\<lambda>w. rd_then rd_stamp (\<lambda>s. rd_ok (Some (Added e recording p w s)))))))
     else if tag = 1 then
       rd_then rd_entry (\<lambda>e. rd_then rd_place (\<lambda>p. rd_then rd_stamp (\<lambda>s. rd_ok (Some (Moved e p s)))))
     else if tag = 2 then rd_then rd_entry (\<lambda>e. rd_then rd_stamp (\<lambda>s. rd_ok (Some (Removed e s))))
     else if tag = 3 then rd_then rd_text (\<lambda>name. rd_then rd_stamp (\<lambda>s. rd_ok (Some (Renamed name s))))
     else if tag = 4 then
       rd_then rd_member (\<lambda>m. rd_then rd_text (\<lambda>name. rd_then (rd_fixed public_bytes) (\<lambda>public.
       rd_then rd_stamp (\<lambda>s. rd_ok (Some (Member m name public s))))))
     else if tag = 5 then rd_then rd_member (\<lambda>m. rd_then rd_stamp (\<lambda>s. rd_ok (Some (MemberLeft m s))))
     else rd_ok None)"

definition decoded_op :: "bytes \<Rightarrow> malformed + shared_op option" where
  "decoded_op bs = (case rd_op bs of
     Inl e \<Rightarrow> Inl e
   | Inr (None, _) \<Rightarrow> Inr None
   | Inr (Some op, rest) \<Rightarrow> (case rd_done rest of Inl e \<Rightarrow> Inl e | Inr _ \<Rightarrow> Inr (Some op)))"

fun rd_ops :: "nat \<Rightarrow> shared_op list reader" where
  "rd_ops 0 bs = Inr ([], bs)"
| "rd_ops (Suc n) bs = (case rd_bytes largest_op bs of Inl e \<Rightarrow> Inl e
     | Inr (encoded, rest) \<Rightarrow>
         (case decoded_op encoded of Inl e \<Rightarrow> Inl e
          | Inr op \<Rightarrow>
              (case rd_ops n rest of Inl e \<Rightarrow> Inl e
               | Inr (ops, rest) \<Rightarrow> Inr (case op of None \<Rightarrow> ops | Some op \<Rightarrow> op # ops, rest))))"

definition decoded_ops :: "bytes \<Rightarrow> malformed + shared_op list" where
  "decoded_ops = rd_whole (rd_then (rd_count_of 1) rd_ops)"

subsection \<open>Operations read back\<close>

definition entry_ok :: "entry_id \<Rightarrow> bool" where
  "entry_ok e \<longleftrightarrow> length e = entry_bytes"

definition member_ok :: "member_id \<Rightarrow> bool" where
  "member_ok m \<longleftrightarrow> length m = member_bytes"

definition place_sendable :: "place \<Rightarrow> bool" where
  "place_sendable p \<longleftrightarrow> p \<noteq> [] \<and> length p \<le> longest_place"

fun op_ok :: "shared_op \<Rightarrow> bool" where
  "op_ok (Added e recording p w s) \<longleftrightarrow>
     entry_ok e \<and> recording_ok recording \<and> place_sendable p \<and> pred_option member_ok w \<and> stamp_ok s"
| "op_ok (Moved e p s) \<longleftrightarrow> entry_ok e \<and> place_sendable p \<and> stamp_ok s"
| "op_ok (Removed e s) \<longleftrightarrow> entry_ok e \<and> stamp_ok s"
| "op_ok (Renamed name s) \<longleftrightarrow> utf8 name \<and> stamp_ok s"
| "op_ok (Member m name public s) \<longleftrightarrow> member_ok m \<and> utf8 name \<and> length public = public_bytes \<and> stamp_ok s"
| "op_ok (MemberLeft m s) \<longleftrightarrow> member_ok m \<and> stamp_ok s"

fun sent_op :: "shared_op \<Rightarrow> shared_op" where
  "sent_op (Added e recording p w s) = Added e (sent_recording recording) p w s"
| "sent_op (Renamed name s) = Renamed (within_the_longest_text name) s"
| "sent_op (Member m name public s) = Member m (within_the_longest_text name) public s"
| "sent_op op = op"

interpretation entries: codec entry_ok "\<lambda>e. e" rd_entry "\<lambda>e. e"
  by unfold_locales (auto simp: rd_entry_def entry_ok_def reads growing)

interpretation members: codec member_ok "\<lambda>m. m" rd_member "\<lambda>m. m"
  by unfold_locales (auto simp: rd_member_def member_ok_def reads growing)

lemma grows_placed [growing]: "grows (placed_bytes bs)"
  unfolding placed_bytes_def by (intro growing)

interpretation places: codec place_sendable wr_bytes rd_place "\<lambda>p. p"
proof
  show "rd_place (wr_bytes p @ rest) = Inr (p, rest)" if "place_sendable p" for p rest
    using that by (simp add: rd_place_def place_sendable_def placed_bytes_def reads longest_place_def u64_max_def)
  show "grows rd_place" unfolding rd_place_def by (intro growing)
qed

lemmas op_reads [reads] = entries.read_back members.read_back places.read_back members.option_read_back [simplified]

lemma op_read_back: "op_ok op \<Longrightarrow> decoded_op (encoded_op op @ []) = Inr (Some (sent_op op))"
  by (cases op) (simp_all add: decoded_op_def rd_op_def rd_done_def reads del: append_Nil2)

lemmas op_read = op_read_back [unfolded append_Nil2]

lemma op_unknown: "5 < tag \<Longrightarrow> decoded_op (tag # rest) = Inr None"
  by (auto simp: decoded_op_def rd_op_def rd_byte_def)

interpretation op_frames: sized_codec "\<lambda>f. length f \<le> largest_op" wr_bytes "rd_bytes largest_op" "\<lambda>f. f" 1
proof
  show "rd_bytes largest_op (wr_bytes f @ rest) = Inr (f, rest)" if "length f \<le> largest_op" for f rest
    using that by (simp add: reads largest_op_def u64_max_def)
  show "grows (rd_bytes largest_op)" by (intro growing)
  show "1 \<le> length (wr_bytes f)" for f
    using length_nonempty by (simp add: wr_bytes_def trans_le_add1)
qed

lemma op_frames_read:
  assumes "\<forall>f\<in>set fs. length f \<le> largest_op \<and> decoded_op f = Inr (g f)"
  shows "rd_ops (length fs) (concat (map wr_bytes fs) @ rest) = Inr (List.map_filter g fs, rest)"
  using assms by (induction fs) (simp_all add: map_filter_simps op_frames.read_back split: option.split)

lemma ops_read:
  assumes "\<forall>f\<in>set fs. length f \<le> largest_op \<and> decoded_op f = Inr (g f)" and "length fs \<le> u64_max"
  shows "decoded_ops (wr_list wr_bytes fs) = Inr (List.map_filter g fs)"
proof -
  have "list_all (\<lambda>f. length f \<le> largest_op) fs" using assms(1) by (simp add: list_all_iff)
  from op_frames.count_written [OF this assms(2), of 1 "[]"] op_frames_read [OF assms(1), of "[]"]
  show ?thesis by (simp add: decoded_ops_def rd_whole_def rd_done_def wr_list_def)
qed

definition ops_ok :: "shared_op list \<Rightarrow> bool" where
  "ops_ok ops \<longleftrightarrow> list_all (\<lambda>op. op_ok op \<and> length (encoded_op op) \<le> largest_op) ops \<and> length ops \<le> u64_max"

subsection \<open>What arrives\<close>

lemma gives_op: "gives (pred_option (\<lambda>op. op_ok op \<and> sent_op op = op)) rd_op"
proof -
  have e: "gives entry_ok rd_entry" and m: "gives member_ok rd_member"
    unfolding rd_entry_def rd_member_def entry_ok_def [abs_def] member_ok_def [abs_def] by (rule gives_fixed)+
  have p: "gives place_sendable rd_place"
    unfolding rd_place_def placed_bytes_def by (intro giving) (simp add: place_sendable_def)
  show ?thesis
    unfolding rd_op_def
    by (intro giving gives_then [OF e] gives_then [OF m] gives_then [OF p] gives_then [OF gives_optional [OF m]]) simp_all
qed

lemma op_arrives: "decoded_op bs = Inr (Some op) \<Longrightarrow> op_ok op \<and> sent_op op = op"
  using givesD [OF gives_op, of bs "Some op"] by (auto simp: decoded_op_def split: sum.splits option.splits)

text \<open>Nothing keeps a place of nothing but zeros from arriving; \<open>op_ok\<close> allows it.\<close>

lemma zeros_arrive:
  assumes "entry_ok e" and "stamp_ok s" and "0 < n" and "n \<le> longest_place"
  shows "decoded_op (encoded_op (Moved e (replicate n 0) s)) = Inr (Some (Moved e (replicate n 0) s))"
  using op_read [of "Moved e (replicate n 0) s"] assms by (simp add: place_sendable_def)

end
