(* ===== verification/SharedRising.thy ===== *)
theory SharedRising
  imports PlayQueue
begin

text \<open>
  The longest run of rows that can stay where they are when the playlist file is edited
  (\<open>longest_rising\<close> in \<open>crates/resonate-sync/src/shared/diff.rs\<close>): patience sorting over positions
  some of which hold nothing, with the walk back through the runs a partial function.
\<close>

subsection \<open>The longest rising run\<close>

definition value_at :: "nat option list \<Rightarrow> nat \<Rightarrow> nat option" where
  "value_at s i = (case get s i of None \<Rightarrow> None | Some v \<Rightarrow> v)"

text \<open>\<open>partition_point\<close> of a slice all of whose elements that satisfy the predicate come first.\<close>

definition partition_point :: "('a \<Rightarrow> bool) \<Rightarrow> 'a list \<Rightarrow> nat" where
  "partition_point P xs = length (takeWhile P xs)"

definition rising_step :: "nat option list \<Rightarrow> nat \<Rightarrow> nat list \<times> nat option list \<Rightarrow> nat list \<times> nat option list" where
  "rising_step s i st = (case st of (tails, behind) \<Rightarrow>
     (case value_at s i of
        None \<Rightarrow> (tails, behind)
      | Some v \<Rightarrow>
          let spot = partition_point (\<lambda>t. case value_at s t of None \<Rightarrow> False | Some held \<Rightarrow> held < v) tails
          in (if spot = length tails then tails @ [i] else tails[spot := i],
              behind[i := (case checked_sub spot 1 of None \<Rightarrow> None | Some earlier \<Rightarrow> Some (tails ! earlier))])))"

definition rising_runs :: "nat option list \<Rightarrow> nat \<Rightarrow> nat list \<times> nat option list" where
  "rising_runs s n = fold (rising_step s) [0..<n] ([], replicate (length s) None)"

partial_function (option) walked :: "nat option list \<Rightarrow> nat option \<Rightarrow> nat list option" where
  "walked behind w = (case w of None \<Rightarrow> Some []
     | Some i \<Rightarrow> Option.bind (walked behind (behind ! i)) (\<lambda>is. Some (i # is)))"

declare walked.simps [code]

definition longest_rising :: "nat option list \<Rightarrow> nat set option" where
  "longest_rising s = (case rising_runs s (length s) of (tails, behind) \<Rightarrow>
     map_option set (walked behind (back_of tails)))"

text \<open>A set of positions whose values rise.\<close>

definition rising :: "nat option list \<Rightarrow> nat set \<Rightarrow> bool" where
  "rising s S \<longleftrightarrow> (\<forall>i\<in>S. value_at s i \<noteq> None) \<and>
     (\<forall>i\<in>S. \<forall>j\<in>S. i < j \<longrightarrow> the (value_at s i) < the (value_at s j))"

lemma value_in: "value_at s i \<noteq> None \<Longrightarrow> i < length s"
  by (auto simp: value_at_def get_def split: if_splits)

text \<open>Walking back only ever looks below where it is.\<close>

lemma walked_same:
  assumes "\<forall>k\<le>i. behind' ! k = behind ! k" and "\<forall>k\<le>i. \<forall>b. behind ! k = Some b \<longrightarrow> b < k"
  shows "walked behind' (Some i) = walked behind (Some i)"
  using assms
proof (induction i rule: less_induct)
  case (less i)
  have "walked behind' (behind ! i) = walked behind (behind ! i)"
  proof (cases "behind ! i")
    case None
    then show ?thesis by (simp add: walked.simps [of behind'] walked.simps [of behind])
  next
    case (Some b)
    then have "b < i" using less.prems(2) by auto
    moreover have "\<forall>k\<le>b. behind' ! k = behind ! k" "\<forall>k\<le>b. \<forall>c. behind ! k = Some c \<longrightarrow> c < k"
      using less.prems \<open>b < i\<close> by auto
    ultimately show ?thesis using less.IH [of b] Some by simp
  qed
  moreover have "behind' ! i = behind ! i" using less.prems(1) by simp
  ultimately show ?case by (subst walked.simps, subst (2) walked.simps) simp
qed

definition chain :: "nat option list \<Rightarrow> nat option list \<Rightarrow> nat \<Rightarrow> nat \<Rightarrow> bool" where
  "chain s behind i k \<longleftrightarrow> (\<exists>is. walked behind (Some i) = Some (i # is) \<and> length is = k \<and>
     sorted_wrt (\<lambda>a b. b < a) (i # is) \<and> rising s (set (i # is)))"

definition runs_ok :: "nat option list \<Rightarrow> nat \<Rightarrow> nat list \<Rightarrow> nat option list \<Rightarrow> bool" where
  "runs_ok s n tails behind \<longleftrightarrow>
     length behind = length s \<and> (\<forall>k. \<forall>b. k < length s \<longrightarrow> behind ! k = Some b \<longrightarrow> b < k) \<and>
     (\<forall>j<length tails. tails ! j < n \<and> value_at s (tails ! j) \<noteq> None \<and> chain s behind (tails ! j) j) \<and>
     sorted_wrt (\<lambda>a b. the (value_at s a) < the (value_at s b)) tails \<and>
     (\<forall>S. finite S \<longrightarrow> S \<noteq> {} \<longrightarrow> S \<subseteq> {..<n} \<longrightarrow> rising s S \<longrightarrow>
        card S \<le> length tails \<and> the (value_at s (tails ! (card S - 1))) \<le> the (value_at s (Max S)))"

lemma partition_spot:
  assumes "sorted_wrt (\<lambda>a b. f a < f b) xs" and "spot = partition_point (\<lambda>x. f x < v) xs"
  shows "spot \<le> length xs" and "j < spot \<Longrightarrow> f (xs ! j) < (v :: nat)" and "spot \<le> j \<Longrightarrow> j < length xs \<Longrightarrow> v \<le> f (xs ! j)"
proof -
  let ?P = "\<lambda>x. f x < v"
  have spot: "spot = length (takeWhile ?P xs)" using assms(2) by (simp add: partition_point_def)
  show "spot \<le> length xs" unfolding spot by (rule length_takeWhile_le)
  show "f (xs ! j) < v" if "j < spot"
    using that nth_mem [of j "takeWhile ?P xs"] takeWhile_nth [of j ?P xs] set_takeWhileD unfolding spot by metis
  show "v \<le> f (xs ! j)" if "spot \<le> j" "j < length xs"
  proof -
    have "\<not> ?P (xs ! spot)" using that nth_length_takeWhile [of ?P xs] unfolding spot by simp
    moreover have "f (xs ! spot) \<le> f (xs ! j)"
      using that assms(1) by (cases "spot = j") (auto simp: sorted_wrt_iff_nth_less less_imp_le)
    ultimately show ?thesis by simp
  qed
qed

lemma runs_ok_start: "runs_ok s 0 [] (replicate (length s) None)"
  by (simp add: runs_ok_def)

lemma rising_less: "rising s S \<Longrightarrow> T \<subseteq> S \<Longrightarrow> rising s T"
  by (auto simp: rising_def)

lemma walked_Some: "walked behind (Some i) = map_option ((#) i) (walked behind (behind ! i))"
  by (subst walked.simps) (cases "walked behind (behind ! i)", simp_all)

lemma walked_None [simp]: "walked behind None = Some []"
  by (simp add: walked.simps)

lemma runs_ok_none:
  assumes "runs_ok s n tails behind" and "value_at s n = None"
  shows "runs_ok s (Suc n) tails behind"
  unfolding runs_ok_def
proof (intro conjI allI impI)
  fix S
  assume S: "finite S" "S \<noteq> {}" "S \<subseteq> {..<Suc n}" "rising s S"
  have "n \<notin> S" using S(4) assms(2) by (auto simp: rising_def)
  then have "S \<subseteq> {..<n}" using S(3) by (auto simp: less_Suc_eq)
  then show "card S \<le> length tails" "the (value_at s (tails ! (card S - 1))) \<le> the (value_at s (Max S))"
    using assms(1) S unfolding runs_ok_def by blast+
qed (use assms(1) in \<open>auto simp: runs_ok_def less_Suc_eq\<close>)

lemma chain_kept:
  assumes "chain s behind i k" and "\<forall>b\<le>i. behind' ! b = behind ! b" and "\<forall>b\<le>i. \<forall>c. behind ! b = Some c \<longrightarrow> c < b"
  shows "chain s behind' i k"
  using assms(1) walked_same [OF assms(2,3)] by (simp add: chain_def)

lemma chain_longer:
  assumes "chain s behind t k" and "behind ! i = Some t" and "t < i"
    and "value_at s i = Some v" and "the (value_at s t) < v"
  shows "chain s behind i (Suc k)"
proof -
  obtain ts where ts: "walked behind (Some t) = Some (t # ts)" "length ts = k"
    "sorted_wrt (\<lambda>a b. b < a) (t # ts)" "rising s (set (t # ts))"
    using assms(1) by (auto simp: chain_def)
  have below: "the (value_at s a) < v" if "a \<in> set (t # ts)" for a
  proof (cases "a = t")
    case False
    then have "the (value_at s a) < the (value_at s t)" using that ts(3,4) by (auto simp: rising_def)
    then show ?thesis using assms(5) by simp
  qed (simp add: assms(5))
  have "walked behind (Some i) = Some (i # t # ts)" using ts(1) assms(2) by (simp add: walked_Some)
  moreover have "sorted_wrt (\<lambda>a b. b < a) (i # t # ts)" using ts(3) assms(3) by auto
  moreover have "rising s (set (i # t # ts))"
    using ts(3,4) below assms(3,4) by (fastforce simp: rising_def)
  ultimately show ?thesis using ts(2) by (auto simp: chain_def)
qed

definition put_tail :: "nat list \<Rightarrow> nat \<Rightarrow> nat \<Rightarrow> nat list" where
  "put_tail tails spot i = (if spot = length tails then tails @ [i] else tails[spot := i])"

lemma put_tail_nth:
  "spot \<le> length tails \<Longrightarrow> j < length (put_tail tails spot i) \<Longrightarrow>
    put_tail tails spot i ! j = (if j = spot then i else tails ! j)"
  by (auto simp: put_tail_def nth_append)

lemma put_tail_length: "spot \<le> length tails \<Longrightarrow> length (put_tail tails spot i) = max (length tails) (Suc spot)"
  by (auto simp: put_tail_def)

lemma runs_ok_some:
  assumes ok: "runs_ok s n tails behind" and v: "value_at s n = Some v"
    and spot: "spot = partition_point (\<lambda>t. the (value_at s t) < v) tails"
    and behind': "behind' = behind[n := (if spot = 0 then None else Some (tails ! (spot - 1)))]"
  shows "runs_ok s (Suc n) (put_tail tails spot n) behind'"
proof -
  let ?f = "\<lambda>a. the (value_at s a)" and ?tails = "put_tail tails spot n"
  have len: "length behind = length s" and points: "\<And>k b. k < length s \<Longrightarrow> behind ! k = Some b \<Longrightarrow> b < k"
    and tails: "\<And>j. j < length tails \<Longrightarrow> tails ! j < n \<and> value_at s (tails ! j) \<noteq> None \<and> chain s behind (tails ! j) j"
    and sorted: "sorted_wrt (\<lambda>a b. ?f a < ?f b) tails"
    and best: "\<And>S. finite S \<Longrightarrow> S \<noteq> {} \<Longrightarrow> S \<subseteq> {..<n} \<Longrightarrow> rising s S \<Longrightarrow>
        card S \<le> length tails \<and> ?f (tails ! (card S - 1)) \<le> ?f (Max S)"
    using ok unfolding runs_ok_def by blast+
  have n: "n < length s" using v value_in [of s n] by simp
  note at_spot = partition_spot [OF sorted spot]
  have nth: "\<And>j. j < length ?tails \<Longrightarrow> ?tails ! j = (if j = spot then n else tails ! j)"
    and size: "length ?tails = max (length tails) (Suc spot)"
    using at_spot(1) by (simp_all add: put_tail_nth put_tail_length)
  have kept: "behind' ! b = behind ! b" if "b \<noteq> n" for b using that by (simp add: behind')
  have keep: "chain s behind' t j" if "chain s behind t j" "t < n" for t j
    using that n kept points by (intro chain_kept [OF that(1)]) auto
  have points': "b < k" if "k < length s" "behind' ! k = Some b" for k b
  proof (cases "k = n")
    case True
    then have "spot \<noteq> 0" "b = tails ! (spot - 1)" using that len n by (auto simp: behind' split: if_splits)
    then show ?thesis using tails [of "spot - 1"] at_spot(1) True by simp
  qed (use that points kept in auto)
  have new: "chain s behind' n spot"
  proof (cases spot)
    case 0
    then have "behind' ! n = None" using n len by (simp add: behind')
    then show ?thesis using 0 v by (auto simp: chain_def walked_Some rising_def)
  next
    case (Suc j)
    then have j: "j < length tails" "?f (tails ! j) < v" using at_spot(1,2) by auto
    have "behind' ! n = Some (tails ! j)" using n len Suc by (simp add: behind')
    then show ?thesis using chain_longer [OF keep] tails [OF j(1)] j(2) v Suc by blast
  qed
  have sorted': "sorted_wrt (\<lambda>a b. ?f a < ?f b) ?tails"
    unfolding sorted_wrt_iff_nth_less
  proof (intro allI impI)
    fix a b
    assume ab: "a < b" "b < length ?tails"
    have a: "?tails ! a = (if a = spot then n else tails ! a)"
      and b: "?tails ! b = (if b = spot then n else tails ! b)" using nth ab by simp_all
    have old: "a < b \<Longrightarrow> b < length tails \<Longrightarrow> ?f (tails ! a) < ?f (tails ! b)" for a b
      using sorted by (simp add: sorted_wrt_iff_nth_less)
    have "b = spot \<or> b < length tails" using ab(2) at_spot(1) unfolding size less_max_iff_disj by auto
    moreover have "a = spot \<Longrightarrow> b < length tails \<Longrightarrow> v < ?f (tails ! b)"
      using at_spot(3) [of a] old [of a b] ab by force
    ultimately show "?f (?tails ! a) < ?f (?tails ! b)"
      using at_spot(2) old ab(1) v by (auto simp: a b)
  qed
  have best': "card S \<le> length ?tails \<and> ?f (?tails ! (card S - 1)) \<le> ?f (Max S)"
    if S: "finite S" "S \<noteq> {}" "S \<subseteq> {..<Suc n}" "rising s S" for S
  proof (cases "n \<in> S")
    case False
    then have "S \<subseteq> {..<n}" using S(3) by (auto simp: less_Suc_eq)
    then have old: "card S \<le> length tails" "?f (tails ! (card S - 1)) \<le> ?f (Max S)" using best S by blast+
    have pos: "0 < card S" using S by (simp add: card_gt_0_iff)
    then have "?f (?tails ! (card S - 1)) \<le> ?f (tails ! (card S - 1))"
      using nth [of "card S - 1"] size old(1) at_spot(3) [of "card S - 1"] v by auto
    then show ?thesis using old size by simp
  next
    case True
    let ?T = "S - {n}"
    have T: "finite ?T" "?T \<subseteq> {..<n}" "rising s ?T" using S by (auto simp: less_Suc_eq rising_less)
    have card: "card S = Suc (card ?T)" using S(1) True by (metis card.remove)
    have max: "Max S = n" using S(1,3) True by (intro Max_eqI) auto
    have "card ?T \<le> spot"
    proof (cases "?T = {}")
      case False
      note old = best [OF T(1) False T(2,3)]
      have "Max ?T \<in> ?T" using T(1) False by (rule Max_in)
      then have "Max ?T < n" "?f (Max ?T) < v" using S(4) T(2) True v by (force simp: rising_def)+
      then have "?f (tails ! (card ?T - 1)) < v" using old by simp
      then have "card ?T - 1 < spot" using at_spot(3) [of "card ?T - 1"] old T(1) False card_gt_0_iff [of ?T]
        by (meson diff_less leD leI less_le_trans zero_less_one)
      then show ?thesis by simp
    qed (use card in \<open>metis card.empty le0\<close>)
    then show ?thesis using nth [of "card ?T"] size card max v at_spot(2) [of "card ?T"]
      by (auto simp: less_imp_le)
  qed
  have "?tails ! j < Suc n \<and> value_at s (?tails ! j) \<noteq> None \<and> chain s behind' (?tails ! j) j"
    if "j < length ?tails" for j
  proof (cases "j = spot")
    case False
    then have "j < length tails" using that at_spot(1) unfolding size less_max_iff_disj by auto
    then show ?thesis using False nth [OF that] tails [of j] keep [of "tails ! j" j] by simp
  qed (use nth [OF that] new v in simp)
  then show ?thesis unfolding runs_ok_def
    using sorted' best' points' len behind' by auto
qed

lemma rising_step_ok:
  assumes "runs_ok s n tails behind" and "rising_step s n (tails, behind) = (tails', behind')"
  shows "runs_ok s (Suc n) tails' behind'"
proof (cases "value_at s n")
  case None
  then show ?thesis using assms runs_ok_none by (simp add: rising_step_def)
next
  case (Some v)
  let ?P = "\<lambda>t. case value_at s t of None \<Rightarrow> False | Some held \<Rightarrow> held < v"
  have "takeWhile ?P tails = takeWhile (\<lambda>t. the (value_at s t) < v) tails"
    using assms(1) by (intro takeWhile_cong) (auto simp: runs_ok_def in_set_conv_nth split: option.split)
  then have "partition_point ?P tails = partition_point (\<lambda>t. the (value_at s t) < v) tails"
    by (simp add: partition_point_def)
  then show ?thesis using runs_ok_some [OF assms(1) Some refl refl] assms(2) Some
    by (auto simp: rising_step_def put_tail_def checked_sub_def Let_def not_le split: if_splits)
qed

lemma rising_runs_ok: "case rising_runs s n of (tails, behind) \<Rightarrow> runs_ok s n tails behind"
proof (induction n)
  case 0
  then show ?case by (simp add: rising_runs_def runs_ok_start)
next
  case (Suc n)
  have "rising_runs s (Suc n) = rising_step s n (rising_runs s n)" by (simp add: rising_runs_def)
  then show ?case using Suc rising_step_ok by (auto split: prod.splits)
qed

text \<open>What is kept in order rises, and nothing that rises is longer; and the walk back always ends.\<close>

lemma longest_is_longest:
  "\<exists>kept. longest_rising s = Some kept \<and> rising s kept \<and> (\<forall>S. rising s S \<longrightarrow> card S \<le> card kept)"
proof -
  obtain tails behind where runs: "rising_runs s (length s) = (tails, behind)" by fastforce
  then have ok: "runs_ok s (length s) tails behind" using rising_runs_ok [of s "length s"] by simp
  have inside: "S \<subseteq> {..<length s}" if "rising s S" for S
    using that value_in [of s] by (auto simp: rising_def)
  have best: "card S \<le> length tails" if "rising s S" for S
  proof (cases "S = {}")
    case False
    moreover have "finite S" using inside [OF that] finite_subset by blast
    ultimately show ?thesis using ok that inside [OF that] unfolding runs_ok_def by blast
  qed simp
  show ?thesis
  proof (cases tails rule: rev_cases)
    case Nil
    then show ?thesis using best runs by (auto simp: longest_rising_def back_of_def rising_def)
  next
    case (snoc ts t)
    then have "chain s behind t (length ts)" using ok by (auto simp: runs_ok_def nth_append)
    then obtain us where walk: "walked behind (Some t) = Some (t # us)" "length us = length ts"
      "sorted_wrt (\<lambda>a b. b < a) (t # us)" "rising s (set (t # us))" by (auto simp: chain_def)
    have "distinct (t # us)" using walk(3)
      by (metis distinct_rev rev_rev_ident sorted_wrt_rev strict_sorted_iff)
    then have "card (set (t # us)) = length tails"
      using walk(2) snoc by (metis distinct_card length_Cons length_append_singleton)
    moreover have "longest_rising s = Some (set (t # us))"
      using runs snoc walk(1) by (simp add: longest_rising_def back_of_def)
    ultimately show ?thesis using walk(4) best by metis
  qed
qed

end
