(* ===== verification/SharedDiff.thy ===== *)
theory SharedDiff
  imports SharedMerge SharedRising
begin

text \<open>
  What a change of the playlist file says of the shared list (\<open>crates/resonate-sync/src/shared/diff.rs\<close>):
  the rows of the file are paired with the rows of the list that were written to it, those that
  still stand in order stay, the longest run of them that can, and the others are moved, added or
  removed. The letters and words of every script are the standard library's and those of the
  \<open>unicode_normalization\<close> crate; they are parameters. What resolves a recording, mints an entry
  and stamps an operation (\<open>Resolving\<close>) is a record of functions over a state of its own.
\<close>

subsection \<open>Naming a song\<close>

record unicode =
  un_trim :: "bytes \<Rightarrow> bytes"
  un_folded_letters :: "bytes \<Rightarrow> bytes"
  un_title_words :: "bytes \<Rightarrow> bytes"

definition named_prefix :: bytes where
  "named_prefix = map (of_nat \<circ> of_char) ''named:''"

definition key_separator :: bytes where
  "key_separator = [0x1f]"

definition named_key :: "unicode \<Rightarrow> recording \<Rightarrow> bytes" where
  "named_key u r = named_prefix
     @ un_folded_letters u (un_trim u (rc_artist r)) @ key_separator
     @ un_title_words u (rc_title r) @ key_separator
     @ un_folded_letters u (un_trim u (rc_album r))"

definition names_the_same_song_as :: "unicode \<Rightarrow> recording \<Rightarrow> recording \<Rightarrow> bool" where
  "names_the_same_song_as u a b = (case (rc_mbid a, rc_mbid b) of
     (Some mine, Some theirs) \<Rightarrow> mine = theirs
   | _ \<Rightarrow> named_key u a = named_key u b)"

subsection \<open>Pairing rows\<close>

record looking =
  lk_list :: shared_list
  lk_written :: "entry_id list"
  lk_listed :: "recording option list"
  lk_by :: "member_id option"

record ('d, 'e) resolving =
  rs_held_as :: "recording \<Rightarrow> 'd \<Rightarrow> ('e + recording option) \<times> 'd"
  rs_minted :: "'d \<Rightarrow> ('e + entry_id) \<times> 'd"
  rs_stamped :: "'d \<Rightarrow> stamp_time \<times> 'd"

definition do_then :: "('e + 'a) \<times> 'd \<Rightarrow> ('a \<Rightarrow> 'd \<Rightarrow> ('e + 'b) \<times> 'd) \<Rightarrow> ('e + 'b) \<times> 'd" where
  "do_then r f = (case r of (Inl e, d) \<Rightarrow> (Inl e, d) | (Inr a, d) \<Rightarrow> f a d)"

definition found_free :: "unicode \<Rightarrow> recording list \<Rightarrow> bool list \<Rightarrow> recording \<Rightarrow> nat option" where
  "found_free u named claimed r =
     List.find (\<lambda>i. \<not> claimed ! i \<and> names_the_same_song_as u (named ! i) r) [0..<length named]"

fun paired_as_named :: "unicode \<Rightarrow> recording list \<Rightarrow> listed list \<Rightarrow> bool list \<Rightarrow> nat option list \<times> bool list" where
  "paired_as_named u named [] claimed = ([], claimed)"
| "paired_as_named u named (row # rows) claimed =
     (let found = found_free u named claimed (li_recording row);
          (pairs, after_all) = paired_as_named u named rows (case found of None \<Rightarrow> claimed | Some i \<Rightarrow> claimed[i := True])
      in (found # pairs, after_all))"

fun paired_as_held :: "unicode \<Rightarrow> ('d, 'e) resolving \<Rightarrow> recording list \<Rightarrow> (listed \<times> nat option) list \<Rightarrow> bool list \<Rightarrow>
    'd \<Rightarrow> ('e + nat option list) \<times> 'd" where
  "paired_as_held u D named [] claimed d = (Inr [], d)"
| "paired_as_held u D named ((row, pair) # rest) claimed d =
     (if pair \<noteq> None \<or> list_all id claimed
      then do_then (paired_as_held u D named rest claimed d) (\<lambda>pairs d. (Inr (pair # pairs), d))
      else do_then (rs_held_as D (li_recording row) d) (\<lambda>own d.
        let found = (case own of None \<Rightarrow> None | Some own \<Rightarrow> found_free u named claimed own)
        in do_then (paired_as_held u D named rest (case found of None \<Rightarrow> claimed | Some i \<Rightarrow> claimed[i := True]) d)
             (\<lambda>pairs d. (Inr (found # pairs), d))))"

definition paired_with :: "unicode \<Rightarrow> ('d, 'e) resolving \<Rightarrow> listed list \<Rightarrow> recording list \<Rightarrow> 'd \<Rightarrow> ('e + nat option list) \<times> 'd" where
  "paired_with u D base named d =
     (case paired_as_named u named base (replicate (length named) False) of (pairs, claimed) \<Rightarrow>
        paired_as_held u D named (zip base pairs) claimed d)"

subsection \<open>The edits a change makes\<close>

definition base_of_named :: "nat option list \<Rightarrow> nat \<Rightarrow> nat option list" where
  "base_of_named pairs n =
     fold (\<lambda>(i, pair) v. case pair of None \<Rightarrow> v | Some k \<Rightarrow> v[k := Some i]) (enumerate 0 pairs) (replicate n None)"

fun removed_ops :: "('d, 'e) resolving \<Rightarrow> (listed \<times> nat option) list \<Rightarrow> 'd \<Rightarrow> shared_op list \<times> 'd" where
  "removed_ops D [] d = ([], d)"
| "removed_ops D ((row, pair) # rest) d =
     (if pair = None
      then case rs_stamped D d of (s, d) \<Rightarrow>
           (case removed_ops D rest d of (ops, d) \<Rightarrow> (Removed (li_entry row) s # ops, d))
      else removed_ops D rest d)"

definition placed_after :: "place option \<Rightarrow> place list \<Rightarrow> place option" where
  "placed_after prior standing = (case prior of
     Some prior \<Rightarrow> (case List.find (\<lambda>p. p > prior) standing of
         Some following \<Rightarrow> place_between (Some prior) (Some following)
       | None \<Rightarrow> place_after prior)
   | None \<Rightarrow> (case standing of
         first # _ \<Rightarrow> place_before first
       | [] \<Rightarrow> Some first_place))"

text \<open>One row that is moved or added: the operation, once its place is found.\<close>

definition put_op :: "('d, 'e) resolving \<Rightarrow> member_id option \<Rightarrow> listed list \<Rightarrow> nat option \<Rightarrow> recording \<Rightarrow> place \<Rightarrow>
    'd \<Rightarrow> ('e + shared_op) \<times> 'd" where
  "put_op D by base base_at r p d = (case base_at of
     Some b \<Rightarrow> (case rs_stamped D d of (s, d) \<Rightarrow> (Inr (Moved (li_entry (base ! b)) p s), d))
   | None \<Rightarrow> do_then (rs_minted D d) (\<lambda>e d.
       case rs_stamped D d of (s, d) \<Rightarrow> (Inr (Added e r p by s), d)))"

fun settled :: "('d, 'e) resolving \<Rightarrow> member_id option \<Rightarrow> listed list \<Rightarrow> nat set \<Rightarrow> place list \<Rightarrow> place option \<Rightarrow>
    (nat \<times> nat option \<times> recording) list \<Rightarrow> 'd \<Rightarrow> (('e + shared_op list) \<times> 'd) option" where
  "settled D by base kept standing prior [] d = Some (Inr [], d)"
| "settled D by base kept standing prior ((i, base_at, r) # rest) d =
     (if base_at \<noteq> None \<and> i \<in> kept
      then settled D by base kept standing (Some (li_place (base ! the base_at))) rest d
      else Option.bind (placed_after prior standing) (\<lambda>p.
        case put_op D by base base_at r p d of
          (Inl e, d) \<Rightarrow> Some (Inl e, d)
        | (Inr op, d) \<Rightarrow> map_option (\<lambda>r. do_then r (\<lambda>ops d. (Inr (op # ops), d)))
            (settled D by base kept (sort (standing @ [p])) (Some p) rest d)))"

definition named_of :: "recording option list \<Rightarrow> recording list" where
  "named_of listed = List.map_filter id listed"

definition base_rows :: "shared_list \<Rightarrow> entry_id list \<Rightarrow> listed list" where
  "base_rows l written = List.map_filter (\<lambda>e. List.find (\<lambda>row. li_entry row = e) (rows_listed l)) written"

definition moving_entries :: "listed list \<Rightarrow> nat option list \<Rightarrow> nat set \<Rightarrow> entry_id list" where
  "moving_entries base base_of kept =
     List.map_filter (\<lambda>(i, b). case b of None \<Rightarrow> None | Some b \<Rightarrow> if i \<in> kept then None else Some (li_entry (base ! b)))
       (enumerate 0 base_of)"

definition edits_seen :: "unicode \<Rightarrow> ('d, 'e) resolving \<Rightarrow> looking \<Rightarrow> 'd \<Rightarrow> (('e + shared_op list) \<times> 'd) option" where
  "edits_seen u D k d =
     (let rows = rows_listed (lk_list k);
          base = base_rows (lk_list k) (lk_written k);
          named = named_of (lk_listed k);
          some_row_is_unnamed = (length named < length (lk_listed k))
      in case paired_with u D base named d of
        (Inl e, d) \<Rightarrow> Some (Inl e, d)
      | (Inr pairs, d) \<Rightarrow>
        (case (if some_row_is_unnamed then ([], d) else removed_ops D (zip base pairs) d) of (removals, d) \<Rightarrow>
          let base_of = base_of_named pairs (length named)
          in Option.bind (longest_rising base_of) (\<lambda>kept.
            let moving = moving_entries base base_of kept;
                removed = map (li_entry \<circ> fst) (filter (\<lambda>(_, pair). \<not> some_row_is_unnamed \<and> pair = None) (zip base pairs));
                standing = sort (map li_place (filter (\<lambda>row. li_entry row \<notin> set moving \<and> li_entry row \<notin> set removed) rows))
            in map_option (\<lambda>r. do_then r (\<lambda>ops d. (Inr (removals @ ops), d)))
                 (settled D (lk_by k) base kept standing None (enumerate 0 (zip base_of named)) d))))"

definition written_order :: "unicode \<Rightarrow> ('d, 'e) resolving \<Rightarrow> listed list \<Rightarrow> recording option list \<Rightarrow> 'd \<Rightarrow>
    ('e + entry_id list) \<times> 'd" where
  "written_order u D rows listed d =
     do_then (paired_with u D rows (named_of listed) d) (\<lambda>pairs d.
       (Inr (map snd (sort_key fst (List.map_filter (\<lambda>(pair, row). map_option (\<lambda>i. (i, li_entry row)) pair) (zip pairs rows)))), d))"

text \<open>A list whose places the code made is always looked at to the end.\<close>

lemma placed_after_found:
  assumes "\<forall>p\<in>set standing. place_ok p"
  shows "\<exists>p. placed_after prior standing = Some p \<and> place_ok p \<and>
    (\<forall>low. prior = Some low \<longrightarrow> low < p) \<and> (\<forall>q\<in>set standing. sorted standing \<longrightarrow> (\<forall>low. prior = Some low \<longrightarrow> low < q) \<longrightarrow> p < q)"
proof (cases prior)
  case None
  then show ?thesis
    using assms before_lies_before by (cases standing) (fastforce simp: placed_after_def first_place_def place_ok_def)+
next
  case (Some low)
  show ?thesis
  proof (cases "List.find (\<lambda>p. p > low) standing")
    case None
    moreover from None have "\<forall>q\<in>set standing. \<not> low < q" by (simp add: find_None_iff)
    ultimately show ?thesis using Some after_lies_after [of low] by (auto simp: placed_after_def)
  next
    case found: (Some following)
    then obtain i where i: "i < length standing" "low < standing ! i" "following = standing ! i" "\<forall>j<i. \<not> low < standing ! j"
      by (auto simp: find_Some_iff)
    then obtain p where p: "place_between (Some low) (Some following) = Some p" "low < p" "p < following" "place_ok p"
      using between_lies_between [of low following] assms by auto
    moreover have "p < q" if "q \<in> set standing" "sorted standing" "low < q" for q
    proof -
      from that(1) obtain j where j: "j < length standing" "standing ! j = q"
        unfolding in_set_conv_nth by blast
      then have "i \<le> j" using i(4) that(3) by (meson leI)
      then have "following \<le> q" using sorted_nth_mono [OF that(2) _ j(1)] j(2) i(3) by blast
      then show ?thesis using p(3) by simp
    qed
    ultimately show ?thesis using Some found by (auto simp: placed_after_def)
  qed
qed

lemma settled_returns:
  "\<forall>p\<in>set standing. place_ok p \<Longrightarrow> \<exists>r. settled D by base kept standing prior todo d = Some r"
proof (induction D "by" base kept standing prior todo d rule: settled.induct)
  case (2 D "by" base kept standing prior i base_at r rest d)
  obtain p where p: "placed_after prior standing = Some p" "place_ok p"
    using placed_after_found [OF "2.prems"] by blast
  show ?case
  proof (cases "base_at \<noteq> None \<and> i \<in> kept")
    case False
    show ?thesis
    proof (cases "put_op D by base base_at r p d")
      case (Pair r d')
      then show ?thesis using "2.IH"(2) [OF False p(1)] "2.prems" p False by (cases r) auto
    qed
  qed (use 2 in simp)
qed simp

lemma mapped_Some: "(\<exists>r. map_option f x = Some r) \<longleftrightarrow> (\<exists>r. x = Some r)"
  by auto

lemma edits_seen_returns:
  assumes "\<forall>row\<in>set (rows_listed (lk_list k)). place_ok (li_place row)"
  shows "\<exists>r. edits_seen u D k d = Some r"
proof -
  let ?base = "base_rows (lk_list k) (lk_written k)" and ?named = "named_of (lk_listed k)"
  obtain r d1 where paired: "paired_with u D ?base ?named d = (r, d1)" by fastforce
  show ?thesis
  proof (cases r)
    case (Inr pairs)
    obtain kept where kept: "longest_rising (base_of_named pairs (length ?named)) = Some kept"
      using longest_is_longest by blast
    have standing: "\<forall>p\<in>set (sort (map li_place (filter P (rows_listed (lk_list k))))). place_ok p" for P
      using assms by auto
    obtain removals d2 where removals: "(if length ?named < length (lk_listed k) then ([], d1)
        else removed_ops D (zip ?base pairs) d1) = (removals, d2)" by fastforce
    show ?thesis
      unfolding edits_seen_def Let_def paired Inr prod.case sum.case removals kept bind.bind_lunit mapped_Some
      by (rule settled_returns [OF standing])
  qed (simp add: edits_seen_def Let_def paired)
qed

end
