(* ===== verification/SharedPaired.thy ===== *)
theory SharedPaired
  imports SharedDiff
begin

text \<open>
  How rows are paired: every row of the file is taken by at most one row of the list, and only by
  one that names the same song, in the list's spelling or in the catalog's own.
\<close>

definition somes :: "'a option list \<Rightarrow> 'a list" where
  "somes = List.map_filter id"

lemma somes_simps [simp]:
  "somes [] = []" "somes (None # xs) = somes xs" "somes (Some x # xs) = x # somes xs" "somes (xs @ ys) = somes xs @ somes ys"
  by (simp_all add: somes_def map_filter_def)

lemma set_somes: "x \<in> set (somes xs) \<longleftrightarrow> Some x \<in> set xs"
  by (induction xs) (auto simp: somes_def map_filter_def)

lemma found_free_Some:
  "found_free u named claimed r = Some i \<Longrightarrow> i < length named \<and> \<not> claimed ! i \<and> names_the_same_song_as u (named ! i) r"
  by (auto simp: found_free_def find_Some_iff)

definition own_spelling :: "('d, 'e) resolving \<Rightarrow> recording \<Rightarrow> recording \<Rightarrow> bool" where
  "own_spelling D r own \<longleftrightarrow> (\<exists>d d'. rs_held_as D r d = (Inr (Some own), d'))"

definition reads_as :: "unicode \<Rightarrow> ('d, 'e) resolving \<Rightarrow> recording \<Rightarrow> recording \<Rightarrow> bool" where
  "reads_as u D n r \<longleftrightarrow> names_the_same_song_as u n r \<or> (\<exists>own. own_spelling D r own \<and> names_the_same_song_as u n own)"

definition pairs_ok :: "unicode \<Rightarrow> ('d, 'e) resolving \<Rightarrow> recording list \<Rightarrow> listed list \<Rightarrow> bool list \<Rightarrow> nat option list \<Rightarrow> bool" where
  "pairs_ok u D named rows claimed pairs \<longleftrightarrow>
     length pairs = length rows \<and> distinct (somes pairs) \<and>
     (\<forall>i\<in>set (somes pairs). i < length named \<and> \<not> claimed ! i) \<and>
     (\<forall>a i. a < length rows \<longrightarrow> pairs ! a = Some i \<longrightarrow> reads_as u D (named ! i) (li_recording (rows ! a)))"

lemma pairs_ok_Cons:
  assumes "pairs_ok u D named rows (case found of None \<Rightarrow> claimed | Some i \<Rightarrow> claimed[i := True]) pairs"
    and "\<And>i. found = Some i \<Longrightarrow> i < length named \<and> \<not> claimed ! i \<and> reads_as u D (named ! i) (li_recording row)"
    and "length claimed = length named"
  shows "pairs_ok u D named (row # rows) claimed (found # pairs)"
proof (cases found)
  case None
  then show ?thesis using assms by (auto simp: pairs_ok_def nth_Cons split: nat.split)
next
  case (Some i)
  then have i: "i < length named" "\<not> claimed ! i" "reads_as u D (named ! i) (li_recording row)" using assms(2) by blast+
  have rest: "pairs_ok u D named rows (claimed[i := True]) pairs" using assms(1) Some by simp
  then have others: "\<forall>j\<in>set (somes pairs). j \<noteq> i \<and> \<not> claimed ! j"
    using i(1) assms(3) by (metis nth_list_update pairs_ok_def)
  then show ?thesis using rest i Some by (auto simp: pairs_ok_def nth_Cons split: nat.split)
qed

definition claims_grow :: "bool list \<Rightarrow> nat option list \<Rightarrow> bool list \<Rightarrow> bool" where
  "claims_grow claimed pairs after_all \<longleftrightarrow> length after_all = length claimed \<and>
     (\<forall>i<length claimed. after_all ! i \<longleftrightarrow> claimed ! i \<or> i \<in> set (somes pairs))"

lemma as_named_ok:
  assumes "paired_as_named u named rows claimed = (pairs, after_all)" and "length claimed = length named"
  shows "pairs_ok u D named rows claimed pairs \<and> claims_grow claimed pairs after_all"
  using assms
proof (induction rows arbitrary: claimed pairs)
  case Nil
  then show ?case by (auto simp: pairs_ok_def claims_grow_def)
next
  case (Cons row rows)
  define found where "found = found_free u named claimed (li_recording row)"
  define after where "after = (case found of None \<Rightarrow> claimed | Some i \<Rightarrow> claimed[i := True])"
  have len: "length after = length named" using Cons.prems(2) by (simp add: after_def split: option.split)
  obtain ps where ps: "paired_as_named u named rows after = (ps, after_all)" and pairs: "pairs = found # ps"
    using Cons.prems(1) by (auto simp: Let_def found_def after_def split: prod.splits)
  have free: "i < length named \<and> \<not> claimed ! i \<and> reads_as u D (named ! i) (li_recording row)" if "found = Some i" for i
    using that found_free_Some unfolding found_def reads_as_def by blast
  note IH = Cons.IH [OF ps len]
  have "pairs_ok u D named (row # rows) claimed pairs"
    unfolding pairs using IH Cons.prems(2) free by (intro pairs_ok_Cons) (auto simp: after_def)
  moreover have "claims_grow claimed pairs after_all"
    using IH free len Cons.prems(2)
    by (cases found) (auto simp: pairs claims_grow_def after_def nth_list_update)
  ultimately show ?case ..
qed

text \<open>The second round leaves the pairs of the first, and takes only rows the first left.\<close>

lemma as_held_ok:
  assumes "paired_as_held u D named (zip rows pairs) claimed d = (Inr pairs', d')"
    and "length claimed = length named" and "length pairs = length rows"
    and "distinct (somes pairs)" and "\<forall>i\<in>set (somes pairs). i < length named \<and> claimed ! i"
    and "\<forall>a i. a < length rows \<longrightarrow> pairs ! a = Some i \<longrightarrow> reads_as u D (named ! i) (li_recording (rows ! a))"
  shows "length pairs' = length rows \<and> distinct (somes pairs') \<and>
    (\<forall>i\<in>set (somes pairs'). i < length named \<and> (i \<in> set (somes pairs) \<or> \<not> claimed ! i)) \<and>
    (\<forall>a i. a < length rows \<longrightarrow> pairs' ! a = Some i \<longrightarrow> reads_as u D (named ! i) (li_recording (rows ! a)))"
  using assms
proof (induction rows arbitrary: pairs claimed d pairs')
  case Nil
  then show ?case by simp
next
  case (Cons row rows)
  obtain pair ps where pairs: "pairs = pair # ps" using Cons.prems(3) by (cases pairs) auto
  have reads: "\<forall>a i. a < length rows \<longrightarrow> ps ! a = Some i \<longrightarrow> reads_as u D (named ! i) (li_recording (rows ! a))"
    using Cons.prems(6) unfolding pairs by (metis Suc_less_eq length_Cons nth_Cons_Suc)
  have tail: "length ps = length rows" "distinct (somes ps)" "\<forall>i\<in>set (somes ps). i < length named \<and> claimed ! i"
    using Cons.prems(3-5) unfolding pairs by (cases pair; auto)+
  show ?case
  proof (cases "pair \<noteq> None \<or> list_all id claimed")
    case True
    then obtain ps' where ps': "paired_as_held u D named (zip rows ps) claimed d = (Inr ps', d')" "pairs' = pair # ps'"
      using Cons.prems(1) unfolding pairs by (auto simp: do_then_def split: prod.splits sum.splits)
    note IH = Cons.IH [OF ps'(1) Cons.prems(2) tail reads]
    show ?thesis using IH Cons.prems(4-6) unfolding pairs ps'(2)
      by (cases pair) (auto simp: nth_Cons split: nat.split)
  next
    case False
    then obtain own d1 where own: "rs_held_as D (li_recording row) d = (Inr own, d1)"
      using Cons.prems(1) unfolding pairs by (auto simp: do_then_def split: prod.splits sum.splits)
    define found where "found = (case own of None \<Rightarrow> None | Some own \<Rightarrow> found_free u named claimed own)"
    define after where "after = (case found of None \<Rightarrow> claimed | Some i \<Rightarrow> claimed[i := True])"
    obtain ps' where ps': "paired_as_held u D named (zip rows ps) after d1 = (Inr ps', d')" "pairs' = found # ps'"
      using Cons.prems(1) own False unfolding pairs
      by (auto simp: do_then_def found_def after_def Let_def split: prod.splits sum.splits)
    have free: "i < length named \<and> \<not> claimed ! i \<and> reads_as u D (named ! i) (li_recording row)" if "found = Some i" for i
      using that own found_free_Some unfolding found_def reads_as_def own_spelling_def
      by (metis (no_types, lifting) option.case_eq_if option.collapse option.distinct(1))
    have len: "length after = length named" using Cons.prems(2) by (simp add: after_def split: option.split)
    have tail': "\<forall>i\<in>set (somes ps). i < length named \<and> after ! i"
      using tail(3) Cons.prems(2) free by (cases found) (auto simp: after_def nth_list_update)
    note IH = Cons.IH [OF ps'(1) len tail(1,2) tail' reads]
    have new: "i \<notin> set (somes ps')" if "found = Some i" for i
      using IH free [OF that] tail(3) that Cons.prems(2) by (auto simp: after_def)
    show ?thesis using IH free new tail Cons.prems(2) False unfolding pairs ps'(2)
      by (cases found) (auto simp: nth_Cons after_def nth_list_update split: nat.split if_splits)
  qed
qed

lemma paired_ok:
  assumes "paired_with u D base named d = (Inr pairs, d')"
  shows "pairs_ok u D named base (replicate (length named) False) pairs"
proof -
  obtain ps after_all where first: "paired_as_named u named base (replicate (length named) False) = (ps, after_all)"
    by fastforce
  then have ok: "pairs_ok u D named base (replicate (length named) False) ps" "claims_grow (replicate (length named) False) ps after_all"
    using as_named_ok [of u named base "replicate (length named) False"] by auto
  have "paired_as_held u D named (zip base ps) after_all d = (Inr pairs, d')"
    using assms first by (simp add: paired_with_def)
  from as_held_ok [OF this] show ?thesis
    using ok by (auto simp: pairs_ok_def claims_grow_def)
qed

lemma base_of_named_nth:
  assumes "distinct (somes pairs)" and "\<forall>i\<in>set (somes pairs). i < n"
  shows "length (base_of_named pairs n) = n \<and>
    (\<forall>i<n. \<forall>a. base_of_named pairs n ! i = Some a \<longleftrightarrow> a < length pairs \<and> pairs ! a = Some i)"
  using assms
proof (induction pairs rule: rev_induct)
  case Nil
  then show ?case by (simp add: base_of_named_def)
next
  case (snoc p pairs)
  have step: "base_of_named (pairs @ [p]) n =
      (case p of None \<Rightarrow> base_of_named pairs n | Some k \<Rightarrow> (base_of_named pairs n)[k := Some (length pairs)])"
    by (simp add: base_of_named_def enumerate_append_eq split: option.split)
  have IH: "length (base_of_named pairs n) = n"
    "\<And>i a. i < n \<Longrightarrow> base_of_named pairs n ! i = Some a \<longleftrightarrow> a < length pairs \<and> pairs ! a = Some i"
    using snoc.IH snoc.prems by (cases p; simp)+
  show ?case
  proof (cases p)
    case None
    then show ?thesis using IH unfolding step by (auto simp: nth_append less_Suc_eq)
  next
    case (Some k)
    have "\<forall>a<length pairs. pairs ! a \<noteq> Some k"
      using snoc.prems(1) Some set_somes [of k pairs] by (auto dest: nth_mem)
    moreover have "k < n" using snoc.prems(2) Some by simp
    ultimately show ?thesis using IH Some unfolding step by (auto simp: nth_append less_Suc_eq nth_list_update)
  qed
qed

end
