(* ===== verification/SharedEdited.thy ===== *)
theory SharedEdited
  imports SharedPaired
begin

text \<open>
  What the edits of a change do (\<open>edits_seen\<close> of \<open>crates/resonate-sync/src/shared/diff.rs\<close>): once
  they are applied the list reads as the file does, row by row, and what the file never held stays.
  The laws what resolves a row has to keep are a locale; the device's own (\<open>Doing\<close> of
  \<open>service.rs\<close>) keeps them.
\<close>

subsection \<open>What one operation does to one row\<close>

fun op_on :: "shared_op \<Rightarrow> entry_id option" where
  "op_on (Added e r p who s) = Some e"
| "op_on (Moved e p s) = Some e"
| "op_on (Removed e s) = Some e"
| "op_on _ = None"

lemma row_step_other: "op_on op \<noteq> Some e \<Longrightarrow> row_step op e v = v"
  by (cases op) auto

lemma rows_applied_all:
  assumes "om_ok (sl_rows l)"
  shows "om_ok (sl_rows (fold applied ops l)) \<and>
    map_of (sl_rows (fold applied ops l)) e = fold (\<lambda>op. row_step op e) ops (map_of (sl_rows l) e)"
  using assms
proof (induction ops arbitrary: l)
  case (Cons op ops)
  have "om_ok (sl_rows (applied op l))" "map_of (sl_rows (applied op l)) e = row_step op e (map_of (sl_rows l) e)"
    using Cons.prems by (cases op; simp)+
  then show ?case using Cons.IH by simp
qed simp

lemma rows_untouched: "Some e \<notin> op_on ` set ops \<Longrightarrow> fold (\<lambda>op. row_step op e) ops v = v"
  by (induction ops arbitrary: v) (auto simp: row_step_other)

lemma rows_touched_once:
  assumes "distinct (map op_on ops)" and "op \<in> set ops" and "op_on op = Some e"
  shows "fold (\<lambda>op. row_step op e) ops v = row_step op e v"
  using assms
proof (induction ops arbitrary: v)
  case (Cons a ops)
  show ?case
  proof (cases "a = op")
    case True
    then have "Some e \<notin> op_on ` set ops" using Cons.prems by auto
    then show ?thesis using True by (simp add: rows_untouched)
  next
    case False
    then have "op \<in> set ops" "op_on a \<noteq> Some e" using Cons.prems by force+
    then show ?thesis using Cons.IH Cons.prems by (simp add: row_step_other)
  qed
qed simp

lemma listed_row_Some:
  "listed_row (e, row) = Some x \<longleftrightarrow> e = li_entry x \<and> sr_recording row = Some (li_recording x) \<and> sr_by row = li_by x \<and>
     (\<exists>s. sr_placed row = Some (li_place x, s))"
  by (cases x) (auto simp: listed_row_def split: option.splits)

lemma do_then_Inr: "do_then r f = (Inr b, d') \<longleftrightarrow> (\<exists>a d. r = (Inr a, d) \<and> f a d = (Inr b, d'))"
  by (auto simp: do_then_def split: prod.split sum.split)

definition stamps_upto :: "stamp_time \<Rightarrow> shared_list \<Rightarrow> bool" where
  "stamps_upto t l \<longleftrightarrow> (\<forall>e row p s. map_of (sl_rows l) e = Some row \<longrightarrow> sr_placed row = Some (p, s) \<longrightarrow> s \<le> t)"

lemma listed_kept:
  assumes "om_ok (sl_rows l)" and "Some (li_entry x) \<notin> op_on ` set ops"
  shows "x \<in> set (rows_listed (fold applied ops l)) \<longleftrightarrow> x \<in> set (rows_listed l)"
  using rows_applied_all [OF assms(1), of ops "li_entry x"] assms
  by (simp add: listed_iff rows_untouched)

lemma listed_moved:
  assumes "om_ok (sl_rows l)" and "distinct (map op_on ops)" and "x \<in> set (rows_listed l)" and "list_whole l"
    and "Moved (li_entry x) p s \<in> set ops" and "stamps_upto t l" and "t < s"
  shows "x\<lparr>li_place := p\<rparr> \<in> set (rows_listed (fold applied ops l))"
proof -
  obtain row where row: "map_of (sl_rows l) (li_entry x) = Some row" "listed_row (li_entry x, row) = Some x"
    using assms(1,3) by (auto simp: listed_iff)
  then obtain q s' where placed: "sr_placed row = Some (q, s')" and rec: "sr_recording row = Some (li_recording x)"
    by (auto simp: listed_row_Some)
  then have "s' < s" using assms(6,7) row(1) by (fastforce simp: stamps_upto_def)
  moreover have "sr_removed row = None"
    using assms(4) row(1) rec by (fastforce simp: list_whole_def row_whole_def split: if_splits)
  ultimately have "listed_row (li_entry x, moved_to p s row) = Some (x\<lparr>li_place := p\<rparr>)"
    using row(2) placed rec by (auto simp: moved_to_def placed_later_def listed_row_Some)
  then show ?thesis
    using rows_applied_all [OF assms(1), of ops "li_entry x"] rows_touched_once [OF assms(2,5)] row(1)
    by (simp add: listed_iff)
qed

lemma listed_added:
  assumes "om_ok (sl_rows l)" and "distinct (map op_on ops)" and "map_of (sl_rows l) e = None"
    and "Added e r p who s \<in> set ops"
  shows "\<lparr>li_entry = e, li_recording = r, li_place = p, li_by = who\<rparr> \<in> set (rows_listed (fold applied ops l))"
  using rows_applied_all [OF assms(1), of ops e] rows_touched_once [OF assms(2,4)] assms(3)
  by (simp add: listed_iff added_to_def placed_later_def default_row_def listed_row_def or_default_def)

lemma listed_not_removed:
  assumes "om_ok (sl_rows l)" and "distinct (map op_on ops)" and "Removed e s \<in> set ops"
    and "x \<in> set (rows_listed (fold applied ops l))"
  shows "li_entry x \<noteq> e"
proof
  assume e: "li_entry x = e"
  show False
    using assms(4) rows_applied_all [OF assms(1), of ops e] rows_touched_once [OF assms(2,3)] e
    by (simp add: listed_iff removed_at_def listed_row_def)
qed

subsection \<open>Where each row of the file ends up\<close>

fun seat_for :: "member_id option \<Rightarrow> listed list \<Rightarrow> nat set \<Rightarrow> nat \<times> nat option \<times> recording \<Rightarrow>
    shared_op option \<times> listed \<Rightarrow> bool" where
  "seat_for who base kept (i, None, r) (op, x) \<longleftrightarrow>
     (\<exists>e p s. op = Some (Added e r p who s) \<and> x = \<lparr>li_entry = e, li_recording = r, li_place = p, li_by = who\<rparr>)"
| "seat_for who base kept (i, Some b, r) (op, x) \<longleftrightarrow>
     (if i \<in> kept then op = None \<and> x = base ! b
      else \<exists>p s. op = Some (Moved (li_entry (base ! b)) p s) \<and> x = (base ! b)\<lparr>li_place := p\<rparr>)"

definition past :: "place option \<Rightarrow> place \<Rightarrow> bool" where
  "past prior p \<longleftrightarrow> (\<forall>low. prior = Some low \<longrightarrow> low < p)"

definition kept_places :: "listed list \<Rightarrow> nat set \<Rightarrow> (nat \<times> nat option \<times> recording) list \<Rightarrow> place list" where
  "kept_places base kept todo =
     map (\<lambda>(i, b, r). li_place (base ! the b)) (filter (\<lambda>(i, b, r). b \<noteq> None \<and> i \<in> kept) todo)"

definition entry_minted :: "shared_op \<Rightarrow> entry_id option" where
  "entry_minted op = (case op of Added e _ _ _ _ \<Rightarrow> Some e | _ \<Rightarrow> None)"

definition entries_minted :: "shared_op list \<Rightarrow> entry_id list" where
  "entries_minted = List.map_filter entry_minted"

lemma entries_minted_simps [simp]:
  "entries_minted [] = []"
  "entries_minted (op # ops) = (case entry_minted op of None \<Rightarrow> entries_minted ops | Some e \<Rightarrow> e # entries_minted ops)"
  by (simp_all add: entries_minted_def map_filter_simps split: option.split)

definition seats_found :: "member_id option \<Rightarrow> listed list \<Rightarrow> nat set \<Rightarrow> stamp_time \<Rightarrow> entry_id set \<Rightarrow> place option \<Rightarrow>
    (nat \<times> nat option \<times> recording) list \<Rightarrow> shared_op list \<Rightarrow> (shared_op option \<times> listed) list \<Rightarrow> bool" where
  "seats_found who base kept t known prior todo ops us \<longleftrightarrow>
     list_all2 (seat_for who base kept) todo us \<and> ops = somes (map fst us) \<and>
     sorted_wrt (<) (map (li_place \<circ> snd) us) \<and> (\<forall>u\<in>set us. past prior (li_place (snd u))) \<and>
     (\<forall>op\<in>set ops. t < op_stamp op) \<and> distinct (entries_minted ops) \<and> set (entries_minted ops) \<inter> known = {}"

lemma seats_found_kept:
  assumes "seats_found who base kept t known (Some (li_place (base ! b))) todo ops us"
    and "i \<in> kept" and "past prior (li_place (base ! b))"
  shows "seats_found who base kept t known prior ((i, Some b, r) # todo) ops ((None, base ! b) # us)"
  using assms by (fastforce simp: seats_found_def past_def)

lemma seats_found_put:
  assumes "seats_found who base kept t known' (Some (li_place x)) todo ops us"
    and "seat_for who base kept u (Some op, x)" and "past prior (li_place x)" and "t < op_stamp op" and "known \<subseteq> known'"
    and "\<forall>e. entry_minted op = Some e \<longrightarrow> e \<notin> known \<and> e \<in> known'"
  shows "seats_found who base kept t known prior (u # todo) (op # ops) ((Some op, x) # us)"
  using assms by (fastforce simp: seats_found_def past_def split: option.split)

lemma op_on_seat: "seat_for who base kept t (Some op, x) \<Longrightarrow> op_on op = Some (li_entry x)"
  by (cases "(who, base, kept, t, Some op, x)" rule: seat_for.cases) (auto split: if_splits)

definition base_at :: "nat \<times> nat option \<times> recording \<Rightarrow> nat option" where
  "base_at t = fst (snd t)"

lemma base_at_simp [simp]: "base_at (i, b, r) = b"
  by (simp add: base_at_def)

definition seat_entry :: "shared_op option \<times> listed \<Rightarrow> entry_id" where
  "seat_entry u = li_entry (snd u)"

lemma seats_on:
  assumes "list_all2 (seat_for who base kept) todo us"
  shows "map op_on (somes (map fst us)) = map (Some \<circ> seat_entry) (filter (\<lambda>u. fst u \<noteq> None) us)"
  using assms
proof (induction rule: list_all2_induct)
  case (Cons t todo u us)
  then show ?case using op_on_seat [of who base kept t] by (cases u, cases "fst u") (auto simp: seat_entry_def)
qed simp

lemma seats_entries:
  assumes "list_all2 (seat_for who base kept) todo us"
    and "distinct (somes (map base_at todo))" and "distinct (entries_minted (somes (map fst us)))"
    and "inj_on (\<lambda>b. li_entry (base ! b)) (set (somes (map base_at todo)))"
    and "set (entries_minted (somes (map fst us))) \<inter> (\<lambda>b. li_entry (base ! b)) ` set (somes (map base_at todo)) = {}"
  shows "distinct (map seat_entry us) \<and> seat_entry ` set us =
    (\<lambda>b. li_entry (base ! b)) ` set (somes (map base_at todo)) \<union> set (entries_minted (somes (map fst us)))"
  using assms
proof (induction rule: list_all2_induct)
  case (Cons t todo u us)
  obtain i b r where t: "t = (i, b, r)" by (cases t)
  obtain op x where u: "u = (op, x)" by (cases u)
  let ?B = "\<lambda>todo. (\<lambda>b. li_entry (base ! b)) ` set (somes (map base_at todo))"
  let ?M = "\<lambda>us. set (entries_minted (somes (map fst us)))"
  have new: "?B (t # todo) \<union> ?M (u # us) = insert (li_entry x) (?B todo \<union> ?M us) \<and> li_entry x \<notin> ?B todo \<union> ?M us \<and>
    distinct (somes (map base_at todo)) \<and> distinct (entries_minted (somes (map fst us))) \<and>
    inj_on (\<lambda>b. li_entry (base ! b)) (set (somes (map base_at todo))) \<and> ?M us \<inter> ?B todo = {}"
  proof (cases b)
    case None
    then obtain e p s where "op = Some (Added e r p who s)" "li_entry x = e"
      using Cons.hyps(1) unfolding t u by auto
    then show ?thesis using Cons.prems None unfolding t u by (auto simp: entry_minted_def)
  next
    case (Some c)
    then have x: "li_entry x = li_entry (base ! c)" and op: "op = None \<or> (\<exists>p s. op = Some (Moved (li_entry (base ! c)) p s))"
      using Cons.hyps(1) unfolding t u by (auto split: if_splits)
    have M: "entries_minted (somes (map fst (u # us))) = entries_minted (somes (map fst us))"
      using op by (auto simp: u entry_minted_def)
    show ?thesis using Cons.prems unfolding M x by (auto simp: t Some)
  qed
  then have IH: "distinct (map seat_entry us)" "seat_entry ` set us = ?B todo \<union> ?M us"
    using Cons.IH by blast+
  have "distinct (map seat_entry (u # us)) \<and> seat_entry ` set (u # us) = insert (li_entry x) (?B todo \<union> ?M us)"
    using IH new u by (simp add: seat_entry_def)
  then show ?case using new by argo
qed simp

lemma somes_distinct:
  "(\<And>i j v. i < j \<Longrightarrow> j < length xs \<Longrightarrow> xs ! i = Some v \<Longrightarrow> xs ! j \<noteq> Some v) \<Longrightarrow> distinct (somes xs)"
proof (induction xs)
  case (Cons x xs)
  have "distinct (somes xs)" using Cons.prems [of "Suc _" "Suc _"] by (intro Cons.IH) simp
  moreover have "Some v \<notin> set xs" if "x = Some v" for v
    using Cons.prems [of 0 "Suc _"] that by (auto simp: in_set_conv_nth)
  ultimately show ?case by (cases x) (auto simp: set_somes)
qed simp

text \<open>The seats of rows that pair and settle as they do.\<close>

lemma paired_seats:
  assumes pairs: "pairs_ok u D named base claimed pairs" and base: "distinct (map li_entry base)"
    and seats: "seats_found who base kept t known prior (enumerate 0 (zip (base_of_named pairs (length named)) named)) puts us"
    and known: "li_entry ` set base \<subseteq> known"
  shows "distinct (map seat_entry us)"
    and "map op_on puts = map (Some \<circ> seat_entry) (filter (\<lambda>u. fst u \<noteq> None) us)"
    and "seat_entry ` set us = (\<lambda>b. li_entry (base ! b)) ` {b. b < length base \<and> pairs ! b \<noteq> None} \<union> set (entries_minted puts)"
proof -
  let ?bs = "base_of_named pairs (length named)" and ?todo = "enumerate 0 (zip (base_of_named pairs (length named)) named)"
  have len: "length pairs = length base" and once: "distinct (somes pairs)" "\<forall>i\<in>set (somes pairs). i < length named"
    using pairs by (auto simp: pairs_ok_def)
  have bs: "length ?bs = length named" "\<And>i b. i < length named \<Longrightarrow> ?bs ! i = Some b \<longleftrightarrow> b < length base \<and> pairs ! b = Some i"
    using base_of_named_nth [OF once] len by auto
  have todo: "map base_at ?todo = ?bs" using bs(1) by (intro nth_equalityI) (simp_all add: nth_enumerate_eq base_at_def)
  have set_bs: "set (somes ?bs) = {b. b < length base \<and> pairs ! b \<noteq> None}"
  proof -
    have "b \<in> set (somes ?bs) \<longleftrightarrow> b < length base \<and> pairs ! b \<noteq> None" for b
    proof -
      have "b \<in> set (somes ?bs) \<longleftrightarrow> (\<exists>i<length named. ?bs ! i = Some b)"
        using bs(1) unfolding set_somes in_set_conv_nth [of "Some b"] by simp
      also have "\<dots> \<longleftrightarrow> b < length base \<and> (\<exists>i<length named. pairs ! b = Some i)" using bs(2) by auto
      also have "\<dots> \<longleftrightarrow> b < length base \<and> pairs ! b \<noteq> None"
        using once(2) len set_somes [of _ pairs] by (metis not_None_eq nth_mem)
      finally show ?thesis .
    qed
    then show ?thesis by blast
  qed
  have distinct: "distinct (somes ?bs)"
    using bs by (intro somes_distinct) auto
  have inj: "inj_on (\<lambda>b. li_entry (base ! b)) (set (somes ?bs))"
    using base set_bs by (auto simp: inj_on_def distinct_conv_nth)
  have all2: "list_all2 (seat_for who base kept) ?todo us" and puts: "puts = somes (map fst us)"
    and minted: "distinct (entries_minted puts)" "set (entries_minted puts) \<inter> known = {}"
    using seats by (auto simp: seats_found_def)
  have apart: "set (entries_minted puts) \<inter> (\<lambda>b. li_entry (base ! b)) ` set (somes ?bs) = {}"
    using minted(2) known set_bs by fastforce
  note entries = seats_entries [OF all2, unfolded todo, OF distinct minted(1) [unfolded puts] inj apart [unfolded puts]]
  show "distinct (map seat_entry us)" using entries by blast
  show "map op_on puts = map (Some \<circ> seat_entry) (filter (\<lambda>u. fst u \<noteq> None) us)"
    using seats_on [OF all2] puts by simp
  show "seat_entry ` set us = (\<lambda>b. li_entry (base ! b)) ` {b. b < length base \<and> pairs ! b \<noteq> None} \<union> set (entries_minted puts)"
    using entries unfolding set_bs puts by blast
qed

subsection \<open>How the list reads afterwards\<close>

definition reads_after :: "unicode \<Rightarrow> ('d, 'e) resolving \<Rightarrow> shared_list \<Rightarrow> listed list \<Rightarrow> recording list \<Rightarrow> bool \<Rightarrow>
    shared_list \<Rightarrow> bool" where
  "reads_after u D l base named some_unnamed l' \<longleftrightarrow> (\<exists>seats.
     list_all2 (\<lambda>n x. li_recording x = n \<or> reads_as u D n (li_recording x)) named seats \<and>
     filter (\<lambda>x. x \<in> set seats) (rows_listed l') = seats \<and>
     (\<forall>x. x \<in> set (rows_listed l') \<and> x \<notin> set seats \<longleftrightarrow>
        x \<in> set (rows_listed l) \<and> li_entry x \<notin> li_entry ` set seats \<and> (some_unnamed \<or> x \<notin> set base)))"

lemma same_sorted:
  assumes "sorted_wrt R xs" and "sorted_wrt R ys" and "distinct xs" and "distinct ys" and "set xs = set ys"
    and "\<And>a b. a \<in> set xs \<Longrightarrow> b \<in> set xs \<Longrightarrow> R a b \<Longrightarrow> R b a \<Longrightarrow> a = b"
  shows "xs = ys"
  using assms
proof (induction xs arbitrary: ys)
  case (Cons x xs)
  then obtain y ys' where ys: "ys = y # ys'" by (cases ys) auto
  have "x = y"
  proof (rule ccontr)
    assume "x \<noteq> y"
    then have "x \<in> set ys'" "y \<in> set xs" using Cons.prems(5) ys by auto
    then show False using Cons.prems(1,2,6) \<open>x \<noteq> y\<close> ys by auto
  qed
  moreover have "xs = ys'"
  proof (rule Cons.IH)
    show "set xs = set ys'" using Cons.prems(3-5) ys \<open>x = y\<close> by (metis distinct.simps(2) insert_ident list.simps(15))
    show "a = b" if "a \<in> set xs" "b \<in> set xs" "R a b" "R b a" for a b
      using Cons.prems(6) that by simp
  qed (use Cons.prems(1-4) ys in auto)
  ultimately show ?case using ys by simp
qed simp

lemma listed_once:
  assumes "om_ok (sl_rows l)" and "x \<in> set (rows_listed l)" and "y \<in> set (rows_listed l)" and "li_entry x = li_entry y"
  shows "x = y"
  using rows_once [OF assms(1)] assms(2-4) by (meson distinct_map inj_onD)

lemma seat_listed:
  assumes "list_whole l" and "distinct (map op_on ops)" and "stamps_upto t l" and "\<forall>op\<in>set ops. \<forall>p s. op = Moved (li_entry y) p s \<longrightarrow> t < s"
    and "seat_for who base kept (i, b, r) (op, x)" and "\<And>c. b = Some c \<Longrightarrow> base ! c = y \<and> y \<in> set (rows_listed l)"
    and "b = None \<Longrightarrow> map_of (sl_rows l) (li_entry x) = None"
    and "case op of None \<Rightarrow> Some (li_entry x) \<notin> op_on ` set ops | Some op \<Rightarrow> op \<in> set ops"
  shows "x \<in> set (rows_listed (fold applied ops l))"
proof -
  have ok: "om_ok (sl_rows l)" using assms(1) by (simp add: list_whole_def)
  show ?thesis
  proof (cases b)
    case None
    then show ?thesis using assms(5,7,8) listed_added [OF ok assms(2)] by auto
  next
    case (Some c)
    show ?thesis
    proof (cases "i \<in> kept")
      case True
      then show ?thesis using assms(5,6,8) Some listed_kept [OF ok] by auto
    next
      case False
      then show ?thesis
        using assms(4-6,8) Some listed_moved [OF ok assms(2) _ assms(1) _ assms(3)] by auto
    qed
  qed
qed

lemma read_after:
  assumes whole: "list_whole l" and upto: "stamps_upto t l"
    and base: "distinct (map li_entry base)" "set base \<subseteq> set (rows_listed l)"
    and pairs: "pairs_ok u D named base claimed pairs"
    and seats: "seats_found who base kept t known prior (enumerate 0 (zip (base_of_named pairs (length named)) named)) puts us"
    and known: "\<And>e. map_of (sl_rows l) e \<noteq> None \<Longrightarrow> e \<in> known"
    and removals: "map op_on removals = map (Some \<circ> li_entry \<circ> fst) (filter (\<lambda>(_, p). p = None \<and> \<not> some_unnamed) (zip base pairs))"
      "\<forall>op\<in>set removals. \<exists>e s. op = Removed e s"
    and ops: "ops = removals @ puts"
  shows "reads_after u D l base named some_unnamed (fold applied ops l)"
proof -
  let ?l = "fold applied ops l" and ?todo = "enumerate 0 (zip (base_of_named pairs (length named)) named)"
  let ?seats = "map snd us"
  have ok: "om_ok (sl_rows l)" using whole by (simp add: list_whole_def)
  have ok': "om_ok (sl_rows ?l)" using rows_applied_all [OF ok] by blast
  have listed_known: "li_entry x \<in> known" if "x \<in> set (rows_listed l)" for x
    using that known by (auto simp: listed_iff [OF ok])
  have base_known: "li_entry ` set base \<subseteq> known" using base(2) listed_known by blast
  note facts = paired_seats [OF pairs base(1) seats base_known]
  have len: "length pairs = length base" "length named = length us" and all2: "list_all2 (seat_for who base kept) ?todo us"
    and stamps: "\<forall>op\<in>set puts. t < op_stamp op" and fresh: "set (entries_minted puts) \<inter> known = {}" 
    and rising: "sorted_wrt (<) (map (li_place \<circ> snd) us)" and puts: "puts = somes (map fst us)"
    and once: "distinct (somes pairs)" "\<forall>i\<in>set (somes pairs). i < length named"
    using pairs seats by (auto simp: pairs_ok_def seats_found_def base_of_named_nth dest!: list_all2_lengthD)
  have bs: "\<And>i b. i < length named \<Longrightarrow> base_of_named pairs (length named) ! i = Some b \<longleftrightarrow> b < length base \<and> pairs ! b = Some i"
    using base_of_named_nth [OF once] len by auto
  have seat: "seat_for who base kept (i, base_of_named pairs (length named) ! i, named ! i) (us ! i)" if "i < length named" for i
    using list_all2_nthD2 [OF all2, of i] that len(2) base_of_named_nth [OF once]
    by (simp add: nth_enumerate_eq)
  define lost where "lost = {b. b < length base \<and> pairs ! b = None \<and> \<not> some_unnamed}"
  define gone where "gone = (\<lambda>b. li_entry (base ! b)) ` lost"
  have "set (filter (\<lambda>(_, p). p = None \<and> \<not> some_unnamed) (zip base pairs)) = (\<lambda>b. (base ! b, pairs ! b)) ` lost"
    by (auto simp: set_zip len(1) lost_def)
  then have gone: "op_on ` set removals = Some ` gone"
    using removals(1) [THEN arg_cong, of set] by (simp add: image_image gone_def)
  have apart: "gone \<inter> seat_entry ` set us = {}"
  proof -
    let ?paired = "{b. b < length base \<and> pairs ! b \<noteq> None}"
    have "inj_on (\<lambda>b. li_entry (base ! b)) {..<length base}"
      using base(1) by (auto simp: inj_on_def distinct_conv_nth)
    then have "(\<lambda>b. li_entry (base ! b)) ` lost \<inter> (\<lambda>b. li_entry (base ! b)) ` ?paired =
        (\<lambda>b. li_entry (base ! b)) ` (lost \<inter> ?paired)"
      by (rule inj_on_image_Int [symmetric]) (auto simp: lost_def)
    also have "lost \<inter> ?paired = {}" by (auto simp: lost_def)
    finally have "gone \<inter> (\<lambda>b. li_entry (base ! b)) ` ?paired = {}" by (simp add: gone_def)
    moreover have "gone \<subseteq> known" using base_known by (force simp: gone_def lost_def)
    ultimately show ?thesis unfolding facts(3) using fresh by blast
  qed
  have on: "map op_on ops = map (Some \<circ> li_entry \<circ> fst) (filter (\<lambda>(_, p). p = None \<and> \<not> some_unnamed) (zip base pairs)) @
      map (Some \<circ> seat_entry) (filter (\<lambda>u. fst u \<noteq> None) us)"
    using removals(1) facts(2) by (simp add: ops)
  have distinct_ops: "distinct (map op_on ops)"
  proof -
    have "distinct (map (li_entry \<circ> fst) (zip base pairs))" using base(1) len(1) by (simp flip: map_map)
    then have "distinct (map op_on removals)"
      unfolding removals(1) by (simp add: distinct_map inj_on_def split: prod.splits)
    moreover have "distinct (map op_on puts)"
      using facts(1) unfolding facts(2) by (auto simp: distinct_map inj_on_def)
    moreover have "op_on ` set removals \<inter> op_on ` set puts = {}"
      using apart facts(2) [THEN arg_cong, of set] unfolding gone by auto
    ultimately show ?thesis by (simp add: ops)
  qed
  have untouched: "Some e \<notin> op_on ` set ops \<longleftrightarrow> e \<notin> gone \<and> (\<forall>u\<in>set us. seat_entry u = e \<longrightarrow> fst u = None)" for e
    using gone facts(2) [THEN arg_cong, of set] by (auto simp: ops image_Un)
  have same_seat: "v = w" if "v \<in> set us" "w \<in> set us" "seat_entry v = seat_entry w" for v w
    using facts(1) that by (meson distinct_map inj_onD)
  have listed: "snd v \<in> set (rows_listed ?l)" if v: "v \<in> set us" for v
  proof -
    obtain i where i: "i < length named" "us ! i = v" using v len(2) by (metis in_set_conv_nth)
    define b where "b = base_of_named pairs (length named) ! i"
    obtain op x where vx: "v = (op, x)" by (cases v)
    have s: "seat_for who base kept (i, b, named ! i) (op, x)" using seat [OF i(1)] i(2) vx by (simp add: b_def)
    have "x \<in> set (rows_listed ?l)"
    proof (rule seat_listed [OF whole distinct_ops upto _ s, of "base ! the b"])
      show "\<forall>op\<in>set ops. \<forall>p s. op = Moved (li_entry (base ! the b)) p s \<longrightarrow> t < s"
        using stamps removals(2) by (auto simp: ops)
      show "base ! c = base ! the b \<and> base ! the b \<in> set (rows_listed l)" if "b = Some c" for c
        using that bs [OF i(1), of c] base(2) by (auto simp: b_def)
      show "map_of (sl_rows l) (li_entry x) = None" if "b = None"
      proof -
        obtain p z where "op = Some (Added (li_entry x) (named ! i) p who z)"
          using s \<open>b = None\<close> by auto
        then have "Added (li_entry x) (named ! i) p who z \<in> set puts" using v vx by (force simp: puts set_somes)
        then have "li_entry x \<in> set (entries_minted puts)"
          by (force simp: entries_minted_def map_filter_def entry_minted_def)
        then show ?thesis using fresh known by blast
      qed
      show "case op of None \<Rightarrow> Some (li_entry x) \<notin> op_on ` set ops | Some op \<Rightarrow> op \<in> set ops"
      proof (cases op)
        case None
        have "li_entry x \<notin> gone" using apart v vx by (force simp: seat_entry_def)
        moreover have "fst w = None" if "w \<in> set us" "seat_entry w = li_entry x" for w
          using same_seat [OF that(1) v] that(2) vx None by (simp add: seat_entry_def)
        ultimately show ?thesis using None untouched by simp
      next
        case (Some o')
        then have "o' \<in> set puts" using v vx by (force simp: puts set_somes)
        then show ?thesis using Some by (simp add: ops)
      qed
    qed
    then show ?thesis by (simp add: vx)
  qed
  have rows: "filter (\<lambda>x. x \<in> set ?seats) (rows_listed ?l) = ?seats"
  proof (rule same_sorted [of listed_before])
    show "sorted_wrt listed_before (filter (\<lambda>x. x \<in> set ?seats) (rows_listed ?l))"
      using rows_sorted by (rule sorted_wrt_filter)
    show "sorted_wrt listed_before ?seats"
      using rising by (simp add: sorted_wrt_map listed_before_def comp_def) (erule sorted_wrt_mono_rel [rotated], simp)
    show "distinct (filter (\<lambda>x. x \<in> set ?seats) (rows_listed ?l))"
      using rows_once [OF ok'] by (simp add: distinct_map)
    show "distinct ?seats" using facts(1) by (auto simp: distinct_map inj_on_def seat_entry_def)
    show "set (filter (\<lambda>x. x \<in> set ?seats) (rows_listed ?l)) = set ?seats" using listed by auto
    show "x = y" if "x \<in> set (filter (\<lambda>x. x \<in> set ?seats) (rows_listed ?l))"
      "y \<in> set (filter (\<lambda>x. x \<in> set ?seats) (rows_listed ?l))" "listed_before x y" "listed_before y x" for x y
    proof -
      have "li_entry x = li_entry y" using that(3,4) by (auto simp: listed_before_def)
      then show ?thesis using listed_once [OF ok', of x y] that(1,2) by simp
    qed
  qed
  have reads: "list_all2 (\<lambda>n x. li_recording x = n \<or> reads_as u D n (li_recording x)) named ?seats"
  proof (rule list_all2_all_nthI)
    show "length named = length ?seats" by (simp add: len(2))
    fix i
    assume i: "i < length named"
    obtain op x where v: "us ! i = (op, x)" by fastforce
    show "li_recording (?seats ! i) = named ! i \<or> reads_as u D (named ! i) (li_recording (?seats ! i))"
    proof (cases "base_of_named pairs (length named) ! i")
      case None
      then show ?thesis using seat [OF i] v i len(2) by auto
    next
      case (Some c)
      then have "c < length base" "pairs ! c = Some i" using bs [OF i] by blast+
      then have "reads_as u D (named ! i) (li_recording (base ! c))" using pairs by (simp add: pairs_ok_def)
      moreover have "li_recording x = li_recording (base ! c)"
        using seat [OF i] Some v by (auto split: if_splits)
      ultimately show ?thesis using v i len(2) by simp
    qed
  qed
  have seat_of: "\<exists>y\<in>set us. seat_entry y = li_entry x" if "x = base ! b" "b < length base" "pairs ! b \<noteq> None" for x b
    using that facts(3) by (metis (mono_tags, lifting) UnI1 image_iff mem_Collect_eq)
  have entries: "li_entry ` set ?seats = seat_entry ` set us" by (auto simp: seat_entry_def image_image)
  have others: "x \<in> set (rows_listed ?l) \<and> x \<notin> set ?seats \<longleftrightarrow>
      x \<in> set (rows_listed l) \<and> li_entry x \<notin> li_entry ` set ?seats \<and> (some_unnamed \<or> x \<notin> set base)" for x
  proof (cases "li_entry x \<in> seat_entry ` set us")
    case True
    then obtain v where v: "v \<in> set us" "seat_entry v = li_entry x" by force
    then have "x = snd v" if "x \<in> set (rows_listed ?l)"
      using listed_once [OF ok' that listed [OF v(1)]] by (simp add: seat_entry_def)
    then show ?thesis using True v(1) unfolding entries by auto
  next
    case False
    then have apart_x: "x \<notin> set ?seats" by (auto simp: seat_entry_def image_iff)
    have on_x: "Some (li_entry x) \<notin> op_on ` set ops \<longleftrightarrow> li_entry x \<notin> gone" using untouched False by force
    show ?thesis
    proof (cases "li_entry x \<in> gone")
      case True
      then obtain b where b: "b \<in> lost" "li_entry x = li_entry (base ! b)" by (auto simp: gone_def)
      then have named: "\<not> some_unnamed" "base ! b \<in> set base" by (auto simp: lost_def)
      have "x = base ! b" if "x \<in> set (rows_listed l)"
        using listed_once [OF ok that] base(2) named(2) b(2) by blast
      moreover have "x \<notin> set (rows_listed ?l)"
      proof -
        have "Some (li_entry x) \<in> op_on ` set removals" using gone True by blast
        then obtain s where "Removed (li_entry x) s \<in> set ops" using removals(2) by (fastforce simp: ops)
        then show ?thesis using listed_not_removed [OF ok distinct_ops] by blast
      qed
      ultimately show ?thesis using named by blast
    next
      case kept: False
      have "some_unnamed" if "x \<in> set base"
      proof (rule ccontr)
        assume "\<not> some_unnamed"
        obtain b where b: "b < length base" "x = base ! b" using \<open>x \<in> set base\<close> by (metis in_set_conv_nth)
        have "pairs ! b \<noteq> None"
        proof
          assume "pairs ! b = None"
          then have "b \<in> lost" using b(1) \<open>\<not> some_unnamed\<close> by (simp add: lost_def)
          then show False using kept b(2) by (simp add: gone_def)
        qed
        then show False using seat_of [OF b(2,1)] False by (metis image_eqI)
      qed
      then show ?thesis using listed_kept [OF ok, of x ops] on_x kept False apart_x unfolding entries by blast
    qed
  qed
  show ?thesis unfolding reads_after_def using reads rows others by blast
qed

lemma base_rows_ok:
  "set (base_rows l written) \<subseteq> set (rows_listed l)"
  "distinct written \<Longrightarrow> distinct (map li_entry (base_rows l written))"
proof -
  have step: "base_rows l (e # es) = (case List.find (\<lambda>row. li_entry row = e) (rows_listed l) of
      None \<Rightarrow> base_rows l es | Some row \<Rightarrow> row # base_rows l es)" for e es
    by (simp add: base_rows_def map_filter_simps split: option.split)
  have found: "row \<in> set (rows_listed l) \<and> li_entry row = e" if "List.find (\<lambda>row. li_entry row = e) (rows_listed l) = Some row" for e row
    using that by (auto simp: find_Some_iff)
  have none: "base_rows l [] = []" by (simp add: base_rows_def map_filter_simps)
  have "set (base_rows l written) \<subseteq> set (rows_listed l) \<and> li_entry ` set (base_rows l written) \<subseteq> set written \<and>
      (distinct written \<longrightarrow> distinct (map li_entry (base_rows l written)))"
  proof (induction written)
    case (Cons e es)
    then show ?case
    proof (cases "List.find (\<lambda>row. li_entry row = e) (rows_listed l)")
      case (Some row)
      then show ?thesis using Cons.IH found [OF Some] by (auto simp: step)
    qed (auto simp: step)
  qed (simp add: none)
  then show "set (base_rows l written) \<subseteq> set (rows_listed l)"
    "distinct written \<Longrightarrow> distinct (map li_entry (base_rows l written))" by blast+
qed

lemma named_of_shorter: "length (named_of listed) < length listed \<longleftrightarrow> None \<in> set listed"
proof -
  have "length (named_of xs) \<le> length xs \<and> (length (named_of xs) < length xs \<longleftrightarrow> None \<in> set xs)" for xs :: "recording option list"
    by (induction xs) (auto simp: named_of_def map_filter_simps split: option.split)
  then show ?thesis by blast
qed

lemma kept_places_rise:
  assumes "sorted_wrt (<) (map li_place base)" and "rising bs kept" and "length bs = length named"
    and "\<And>i b. i < length named \<Longrightarrow> bs ! i = Some b \<Longrightarrow> b < length base"
  shows "sorted_wrt (<) (kept_places base kept (enumerate 0 (zip bs named)))"
proof -
  let ?todo = "enumerate 0 (zip bs named)"
  have item: "i < length named \<and> bs ! i = b" if "(i, b, r) \<in> set ?todo" for i b r
    using that assms(3) by (auto simp: in_set_enumerate_eq)
  have "sorted_wrt (\<lambda>t u. fst t < fst u) ?todo"
    by (simp add: sorted_wrt_iff_nth_less nth_enumerate_eq)
  then have "sorted_wrt (\<lambda>t u. fst t < fst u) (filter (\<lambda>(i, b, r). b \<noteq> None \<and> i \<in> kept) ?todo)"
    by (rule sorted_wrt_filter)
  moreover have "(\<lambda>(i, b, r). li_place (base ! the b)) t < (\<lambda>(i, b, r). li_place (base ! the b)) u"
    if t: "t \<in> set (filter (\<lambda>(i, b, r). b \<noteq> None \<and> i \<in> kept) ?todo)"
      and u: "u \<in> set (filter (\<lambda>(i, b, r). b \<noteq> None \<and> i \<in> kept) ?todo)" and "fst t < fst u" for t u
  proof -
    obtain i b r where ib: "t = (i, Some b, r)" "i \<in> kept" "i < length named" "bs ! i = Some b"
      by (rule prod_cases3 [of t]) (use item t in auto)
    obtain j c q where jc: "u = (j, Some c, q)" "j \<in> kept" "j < length named" "bs ! j = Some c"
      by (rule prod_cases3 [of u]) (use item u in auto)
    have "b < c" using assms(2,3) ib jc \<open>fst t < fst u\<close> by (fastforce simp: rising_def value_at_def get_def)
    moreover have "c < length base" using assms(4) jc by blast
    ultimately show ?thesis using assms(1) ib(1) jc(1) by (simp add: sorted_wrt_iff_nth_less)
  qed
  ultimately show ?thesis
    unfolding kept_places_def sorted_wrt_map by (rule sorted_wrt_mono_rel [rotated]) 
qed

end
