(* ===== verification/SharedDoing.thy ===== *)
theory SharedDoing
  imports SharedEdited
begin

text \<open>
  A device looking at its playlist file: the laws the edits need of what resolves a row, mints an
  entry and stamps an operation are a locale, and the device's own (\<open>Doing\<close> of
  \<open>crates/resonate-sync/src/shared/service.rs\<close>) keeps them. What the system's clock reads and what
  its randomness draws are given one after another; what the catalog holds a recording as is a
  parameter, the catalog being a database.
\<close>

text \<open>
  What the edits need of what resolves, mints and stamps: entries not met before, and stamps later
  than a bound, as long as a condition holds that each call keeps.
\<close>

locale resolver =
  fixes D :: "('d, 'e) resolving"
    and good :: "'d \<Rightarrow> bool"
    and used :: "'d \<Rightarrow> entry_id set"
    and bound :: stamp_time
  assumes held_law: "good d \<Longrightarrow> rs_held_as D r d = (v, d') \<Longrightarrow> good d' \<and> used d \<subseteq> used d'"
    and minted_law: "good d \<Longrightarrow> rs_minted D d = (Inr e, d') \<Longrightarrow> good d' \<and> used d \<subseteq> used d' \<and> e \<notin> used d \<and> e \<in> used d'"
    and stamped_law: "good d \<Longrightarrow> rs_stamped D d = (s, d') \<Longrightarrow> good d' \<and> used d \<subseteq> used d' \<and> bound < s"
begin

lemma put_op_seat:
  assumes "put_op D who base b r p d = (Inr op, d')" and "good d" and "b \<noteq> None \<Longrightarrow> i \<notin> kept"
  shows "good d' \<and> used d \<subseteq> used d' \<and> bound < op_stamp op \<and>
    (\<exists>x. seat_for who base kept (i, b, r) (Some op, x) \<and> li_place x = p) \<and>
    (\<forall>e. entry_minted op = Some e \<longrightarrow> e \<notin> used d \<and> e \<in> used d')"
proof (cases b)
  case None
  then obtain e d1 where mint: "rs_minted D d = (Inr e, d1)"
    and rest: "op = Added e r p who (fst (rs_stamped D d1))" "d' = snd (rs_stamped D d1)"
    using assms(1) by (auto simp: put_op_def do_then_Inr case_prod_beta)
  obtain s d2 where stamp: "rs_stamped D d1 = (s, d2)" by fastforce
  then have op: "op = Added e r p who s" "d2 = d'" using rest by simp_all
  show ?thesis using minted_law [OF assms(2) mint] stamped_law [OF _ stamp] None
    by (auto simp: op entry_minted_def)
next
  case (Some c)
  then obtain s where "rs_stamped D d = (s, d')" and "op = Moved (li_entry (base ! c)) p s"
    using assms(1) by (auto simp: put_op_def split: prod.splits)
  then show ?thesis using stamped_law [OF assms(2)] assms(3) Some by (auto simp: entry_minted_def)
qed

lemma settled_seats:
  assumes "settled D who base kept standing prior todo d = Some (Inr ops, d')" and "good d"
    and "\<forall>p\<in>set standing. place_ok p" and "sorted standing"
    and "sorted_wrt (<) (kept_places base kept todo)" and "set (kept_places base kept todo) \<subseteq> set standing"
    and "\<forall>q\<in>set (kept_places base kept todo). past prior q"
  shows "\<exists>us. seats_found who base kept bound (used d) prior todo ops us"
  using assms
proof (induction todo arbitrary: standing prior d ops)
  case Nil
  then show ?case by (simp add: seats_found_def)
next
  case (Cons t todo)
  obtain i b r where t: "t = (i, b, r)" by (cases t)
  show ?case
  proof (cases "b \<noteq> None \<and> i \<in> kept")
    case True
    then obtain c where b: "b = Some c" "i \<in> kept" by auto
    let ?q = "li_place (base ! c)"
    have places: "kept_places base kept (t # todo) = ?q # kept_places base kept todo"
      by (simp add: kept_places_def t b)
    have rest: "settled D who base kept standing (Some ?q) todo d = Some (Inr ops, d')"
      using Cons.prems(1) t b by simp
    have "\<exists>us. seats_found who base kept bound (used d) (Some ?q) todo ops us"
      using Cons.prems(5,6) unfolding places
      by (intro Cons.IH [OF rest Cons.prems(2-4)]) (auto simp: past_def)
    moreover have "past prior ?q" using Cons.prems(7) unfolding places by simp
    ultimately show ?thesis unfolding t b(1) using seats_found_kept b(2) by blast
  next
    case False
    obtain p where p: "placed_after prior standing = Some p" "place_ok p" "past prior p"
      "\<forall>q\<in>set standing. past prior q \<longrightarrow> p < q"
      using placed_after_found [OF Cons.prems(3), of prior] Cons.prems(4) by (auto simp: past_def)
    obtain op d1 ops' where put: "put_op D who base b r p d = (Inr op, d1)" and ops: "ops = op # ops'"
      and rest: "settled D who base kept (sort (standing @ [p])) (Some p) todo d1 = Some (Inr ops', d')"
      using Cons.prems(1) False p(1) unfolding t
      by (auto simp: do_then_Inr split: prod.splits sum.splits if_splits)
    note law = put_op_seat [OF put Cons.prems(2), of i kept]
    obtain x where x: "seat_for who base kept (i, b, r) (Some op, x)" "li_place x = p" using law False by blast
    have places: "kept_places base kept (t # todo) = kept_places base kept todo"
      using False by (auto simp: kept_places_def t)
    have "good d1" using law False by blast
    then have "\<exists>us. seats_found who base kept bound (used d1) (Some p) todo ops' us"
      using Cons.prems(3,5-7) p(2,4) unfolding places
      by (intro Cons.IH [OF rest]) (auto simp: past_def subset_iff)
    then show ?thesis unfolding t ops using seats_found_put x p(3) law False by blast
  qed
qed

lemma held_rows_keep:
  "paired_as_held u D named todo claimed d = (Inr pairs, d') \<Longrightarrow> good d \<Longrightarrow> good d' \<and> used d \<subseteq> used d'"
proof (induction todo arbitrary: claimed d pairs)
  case (Cons t todo)
  obtain row pair where t: "t = (row, pair)" by fastforce
  show ?case
  proof (cases "pair \<noteq> None \<or> list_all id claimed")
    case True
    then obtain ps where "paired_as_held u D named todo claimed d = (Inr ps, d')"
      using Cons.prems(1) by (auto simp: t do_then_Inr)
    then show ?thesis using Cons.IH Cons.prems(2) by blast
  next
    case False
    then obtain own d1 claimed' ps where held: "rs_held_as D (li_recording row) d = (Inr own, d1)"
      and rest: "paired_as_held u D named todo claimed' d1 = (Inr ps, d')"
      using Cons.prems(1) by (auto simp: t do_then_Inr Let_def)
    have "good d1 \<and> used d \<subseteq> used d1" using held_law [OF Cons.prems(2) held] by blast
    then show ?thesis using Cons.IH [OF rest] by blast
  qed
qed simp

lemma removed_ops_law:
  "removed_ops D todo d = (ops, d') \<Longrightarrow> good d \<Longrightarrow> good d' \<and> used d \<subseteq> used d' \<and>
     map op_on ops = map (Some \<circ> li_entry \<circ> fst) (filter (\<lambda>(_, p). p = None) todo) \<and> (\<forall>op\<in>set ops. \<exists>e s. op = Removed e s)"
proof (induction todo arbitrary: d ops)
  case (Cons t todo)
  obtain row pair where t: "t = (row, pair)" by fastforce
  show ?case
  proof (cases pair)
    case None
    obtain s d1 where stamp: "rs_stamped D d = (s, d1)" by fastforce
    then obtain ops' where rest: "removed_ops D todo d1 = (ops', d')" and ops: "ops = Removed (li_entry row) s # ops'"
      using Cons.prems(1) None t by (auto split: prod.splits)
    have "good d1 \<and> used d \<subseteq> used d1" using stamped_law [OF Cons.prems(2) stamp] by blast
    then show ?thesis using Cons.IH [OF rest] None t ops by auto
  next
    case (Some i)
    then show ?thesis using Cons t by auto
  qed
qed simp

lemma edits_read:
  assumes edits: "edits_seen u D k d = Some (Inr ops, d')" and good: "good d"
    and whole: "list_whole (lk_list k)" and upto: "stamps_upto bound (lk_list k)"
    and places: "\<forall>row\<in>set (rows_listed (lk_list k)). place_ok (li_place row)"
    and base: "base = base_rows (lk_list k) (lk_written k)" "distinct (lk_written k)" "sorted_wrt (<) (map li_place base)"
    and known: "\<And>e. map_of (sl_rows (lk_list k)) e \<noteq> None \<Longrightarrow> e \<in> used d"
  shows "reads_after u D (lk_list k) base (named_of (lk_listed k)) (None \<in> set (lk_listed k)) (fold applied ops (lk_list k))"
proof -
  let ?named = "named_of (lk_listed k)" and ?rows = "rows_listed (lk_list k)"
  define unnamed where "unnamed = (length ?named < length (lk_listed k))"
  obtain pairs d1 where paired: "paired_with u D base ?named d = (Inr pairs, d1)"
    using edits by (auto simp: edits_seen_def Let_def base(1) split: prod.splits sum.splits)
  obtain removals d2 where removals: "(if unnamed then ([], d1) else removed_ops D (zip base pairs) d1) = (removals, d2)"
    by fastforce
  obtain kept where kept: "longest_rising (base_of_named pairs (length ?named)) = Some kept"
      "rising (base_of_named pairs (length ?named)) kept"
    using longest_is_longest by blast
  let ?bs = "base_of_named pairs (length ?named)"
  define standing where "standing = sort (map li_place (filter (\<lambda>row. li_entry row \<notin> set (moving_entries base ?bs kept) \<and>
      li_entry row \<notin> set (map (li_entry \<circ> fst) (filter (\<lambda>(_, pair). \<not> unnamed \<and> pair = None) (zip base pairs)))) ?rows))"
  obtain puts where settled: "settled D (lk_by k) base kept standing None (enumerate 0 (zip ?bs ?named)) d2 = Some (Inr puts, d')"
    and ops: "ops = removals @ puts"
    using edits unfolding edits_seen_def Let_def base(1) [symmetric] paired prod.case sum.case unnamed_def [symmetric]
      removals kept bind.bind_lunit standing_def [symmetric]
    by (auto simp: do_then_Inr)
  have base_in: "set base \<subseteq> set ?rows" "distinct (map li_entry base)"
    unfolding base(1) using base_rows_ok base(2) by blast+
  have pairs: "pairs_ok u D ?named base (replicate (length ?named) False) pairs" by (rule paired_ok [OF paired])
  then have len: "length pairs = length base" and once: "distinct (somes pairs)" "\<forall>i\<in>set (somes pairs). i < length ?named"
    by (auto simp: pairs_ok_def)
  have bs: "length ?bs = length ?named"
    "\<And>i b. i < length ?named \<Longrightarrow> ?bs ! i = Some b \<longleftrightarrow> b < length base \<and> pairs ! b = Some i"
    using base_of_named_nth [OF once] len by auto
  have law1: "good d1 \<and> used d \<subseteq> used d1"
    using paired held_rows_keep [OF _ good] by (auto simp: paired_with_def split: prod.splits)
  then have law2: "good d2 \<and> used d1 \<subseteq> used d2 \<and>
      map op_on removals = map (Some \<circ> li_entry \<circ> fst) (filter (\<lambda>(_, p). p = None \<and> \<not> unnamed) (zip base pairs)) \<and>
      (\<forall>op\<in>set removals. \<exists>e s. op = Removed e s)"
    using removals removed_ops_law [of "zip base pairs" d1 removals d2] by (cases unnamed) auto
  have standing_ok: "\<forall>p\<in>set standing. place_ok p" "sorted standing"
    using places by (auto simp: standing_def)
  have inside: "set (kept_places base kept (enumerate 0 (zip ?bs ?named))) \<subseteq> set standing"
  proof
    fix q
    assume "q \<in> set (kept_places base kept (enumerate 0 (zip ?bs ?named)))"
    then obtain i b where i: "i < length ?named" "?bs ! i = Some b" "i \<in> kept" and q: "q = li_place (base ! b)"
      using bs(1) by (auto simp: kept_places_def in_set_enumerate_eq)
    then have b: "b < length base" "pairs ! b = Some i" using bs(2) by blast+
    have same: "c = b" if "li_entry (base ! c) = li_entry (base ! b)" "c < length base" for c
      using base_in(2) that b(1) by (auto simp: distinct_conv_nth)
    have "li_entry (base ! b) \<notin> set (moving_entries base ?bs kept)"
    proof
      assume "li_entry (base ! b) \<in> set (moving_entries base ?bs kept)"
      then obtain j c where j: "j < length ?named" "?bs ! j = Some c" "j \<notin> kept" "li_entry (base ! c) = li_entry (base ! b)"
        using bs(1) by (auto simp: moving_entries_def map_filter_def in_set_enumerate_eq split: option.splits if_splits)
      then have "c = b" "pairs ! c = Some j" using same bs(2) by blast+
      then show False using b(2) i(3) j(3) by simp
    qed
    moreover have "li_entry (base ! b) \<notin> set (map (li_entry \<circ> fst) (filter (\<lambda>(_, pair). \<not> unnamed \<and> pair = None) (zip base pairs)))"
    proof
      assume "li_entry (base ! b) \<in> set (map (li_entry \<circ> fst) (filter (\<lambda>(_, pair). \<not> unnamed \<and> pair = None) (zip base pairs)))"
      then obtain c where "c < length base" "pairs ! c = None" "li_entry (base ! c) = li_entry (base ! b)"
        using len by (auto simp: set_zip)
      then show False using same b(2) by force
    qed
    moreover have "base ! b \<in> set ?rows" using base_in(1) b(1) by auto
    ultimately show "q \<in> set standing"
      unfolding standing_def q set_sort set_map [of li_place] set_filter [of _ ?rows]
      by (intro imageI CollectI conjI)
  qed
  obtain us where us: "seats_found (lk_by k) base kept bound (used d2) None (enumerate 0 (zip ?bs ?named)) puts us"
    using settled_seats [OF settled _ standing_ok kept_places_rise [OF base(3) kept(2) bs(1)] inside] law2 bs(2)
    by (auto simp: past_def)
  have "reads_after u D (lk_list k) base ?named unnamed (fold applied ops (lk_list k))"
    using law1 law2 known by (intro read_after [OF whole upto base_in(2,1) pairs us _ _ _ ops]) auto
  then show ?thesis by (simp add: unnamed_def named_of_shorter)
qed

end

subsection \<open>A device that looks\<close>

record doing =
  dg_clock :: clock
  dg_reads :: nat
  dg_draws :: "entry_id list"

definition doing_held_as :: "(recording \<Rightarrow> 'e + recording option) \<Rightarrow> recording \<Rightarrow> doing \<Rightarrow> ('e + recording option) \<times> doing" where
  "doing_held_as held r d = (held r, d)"

definition doing_minted :: "'e \<Rightarrow> doing \<Rightarrow> ('e + entry_id) \<times> doing" where
  "doing_minted refused d = (case dg_draws d of
     [] \<Rightarrow> (Inl refused, d)
   | e # rest \<Rightarrow> (Inr e, d\<lparr>dg_draws := rest\<rparr>))"

definition doing_stamped :: "(nat \<Rightarrow> i64) \<Rightarrow> device_id \<Rightarrow> doing \<Rightarrow> stamp_time \<times> doing" where
  "doing_stamped wall device d = (case clock_now (wall (dg_reads d)) device (dg_clock d) of
     (s, c) \<Rightarrow> (s, d\<lparr>dg_clock := c, dg_reads := dg_reads d + 1\<rparr>))"

definition doing_resolving :: "(recording \<Rightarrow> 'e + recording option) \<Rightarrow> 'e \<Rightarrow> (nat \<Rightarrow> i64) \<Rightarrow> device_id \<Rightarrow> (doing, 'e) resolving" where
  "doing_resolving held refused wall device =
     \<lparr>rs_held_as = doing_held_as held, rs_minted = doing_minted refused, rs_stamped = doing_stamped wall device\<rparr>"

text \<open>The clock has seen the stamp, and no entry is drawn twice.\<close>

definition doing_good :: "stamp_time \<Rightarrow> doing \<Rightarrow> bool" where
  "doing_good t d \<longleftrightarrow> ts_nanos t \<noteq> i64_largest \<and> sint (ts_nanos t) \<le> sint (dg_clock d) \<and> distinct (dg_draws d)"

definition doing_used :: "doing \<Rightarrow> entry_id set" where
  "doing_used d = - set (dg_draws d)"

lemma one_later_past:
  assumes "v \<noteq> i64_largest" and "sint v \<le> sint c"
  shows "sint v < sint (one_later c)"
proof (cases "c = i64_largest")
  case True
  have "sint v \<noteq> sint i64_largest" using assms(1) signed_word_eqI by metis
  then show ?thesis using True largest(2) [of v] largest(1) by (simp add: one_later_def)
next
  case False
  then show ?thesis using assms(2) one_later_later by simp
qed

interpretation device_doing: resolver "doing_resolving held refused wall device" "doing_good t" doing_used t
  for held refused wall device t
proof
  fix d d' r v e s
  assume good: "doing_good t d"
  show "doing_good t d' \<and> doing_used d \<subseteq> doing_used d'"
    if "rs_held_as (doing_resolving held refused wall device) r d = (v, d')"
    using that good by (simp add: doing_resolving_def doing_held_as_def)
  show "doing_good t d' \<and> doing_used d \<subseteq> doing_used d' \<and> e \<notin> doing_used d \<and> e \<in> doing_used d'"
    if "rs_minted (doing_resolving held refused wall device) d = (Inr e, d')"
    using that good by (auto simp: doing_resolving_def doing_minted_def doing_good_def doing_used_def split: list.splits)
  show "doing_good t d' \<and> doing_used d \<subseteq> doing_used d' \<and> t < s"
    if "rs_stamped (doing_resolving held refused wall device) d = (s, d')"
    using that good one_later_past [of "ts_nanos t" "dg_clock d"]
    by (auto simp: doing_resolving_def doing_stamped_def clock_now_def Let_def doing_good_def doing_used_def sint_signed_max
        intro!: later_nanos)
qed

lemma base_rows_all:
  assumes "om_ok (sl_rows l)"
  shows "base_rows l (map li_entry (rows_listed l)) = rows_listed l"
proof -
  have "List.find (\<lambda>row. li_entry row = li_entry x) (rows_listed l) = Some x" if "x \<in> set (rows_listed l)" for x
  proof (cases "List.find (\<lambda>row. li_entry row = li_entry x) (rows_listed l)")
    case None
    then show ?thesis using that by (auto simp: find_None_iff)
  next
    case (Some y)
    then have "y \<in> set (rows_listed l)" "li_entry y = li_entry x" by (auto simp: find_Some_iff)
    then show ?thesis using Some listed_once [OF assms] that by blast
  qed
  moreover have "set xs \<subseteq> set (rows_listed l) \<Longrightarrow>
      (\<And>x. x \<in> set (rows_listed l) \<Longrightarrow> List.find (\<lambda>row. li_entry row = li_entry x) (rows_listed l) = Some x) \<Longrightarrow>
      base_rows l (map li_entry xs) = xs" for xs
    by (induction xs) (simp_all add: base_rows_def map_filter_simps)
  ultimately show ?thesis by blast
qed

lemma device_edits:
  assumes "edits_seen u (doing_resolving held refused wall device) k d = Some (Inr ops, d')" and "doing_good t d"
    and "list_whole (lk_list k)" and "stamps_upto t (lk_list k)"
    and "\<forall>row\<in>set (rows_listed (lk_list k)). place_ok (li_place row)"
    and "distinct (lk_written k)"
    and "sorted_wrt (<) (map li_place (base_rows (lk_list k) (lk_written k)))"
    and "fst ` set (sl_rows (lk_list k)) \<inter> set (dg_draws d) = {}"
  shows "reads_after u (doing_resolving held refused wall device) (lk_list k) (base_rows (lk_list k) (lk_written k))
      (named_of (lk_listed k)) (None \<in> set (lk_listed k)) (fold applied ops (lk_list k))"
proof (rule device_doing.edits_read [OF assms(1-5) refl assms(6,7)])
  show "e \<in> doing_used d" if "map_of (sl_rows (lk_list k)) e \<noteq> None" for e
  proof -
    have "e \<in> fst ` set (sl_rows (lk_list k))" using that unfolding map_of_eq_None_iff by blast
    then show ?thesis using assms(8) unfolding doing_used_def by blast
  qed
qed

subsection \<open>A song put above all the others\<close>

text \<open>A song named above every row of the list as it was written: all of them stay, and a place is sought before the first.\<close>

lemma names_itself [simp]: "names_the_same_song_as u r r"
  by (simp add: names_the_same_song_as_def split: option.split)

lemma paired_below:
  assumes "\<And>i j. i < length rows \<Longrightarrow> j < length rows \<Longrightarrow>
      names_the_same_song_as u (li_recording (rows ! i)) (li_recording (rows ! j)) \<Longrightarrow> i = j"
    and "\<And>x. x \<in> set rows \<Longrightarrow> \<not> names_the_same_song_as u r (li_recording x)"
    and "rows = xs @ ys"
  shows "paired_as_named u (r # map li_recording rows) ys (False # replicate (length xs) True @ replicate (length ys) False) =
    (map Some [Suc (length xs)..<Suc (length rows)], False # replicate (length rows) True)"
  using assms(3)
proof (induction ys arbitrary: xs)
  case (Cons y ys)
  let ?named = "r # map li_recording rows"
  let ?claimed = "False # replicate (length xs) True @ replicate (length (y # ys)) False"
  have y: "rows ! length xs = y" "length xs < length rows" using Cons.prems by simp_all
  have "found_free u ?named ?claimed (li_recording y) = Some (Suc (length xs))"
    unfolding found_free_def find_Some_iff
  proof (intro exI [of _ "Suc (length xs)"] conjI allI impI)
    fix j
    assume j: "j < Suc (length xs)"
    show "\<not> (\<not> ?claimed ! ([0..<length ?named] ! j) \<and>
        names_the_same_song_as u (?named ! ([0..<length ?named] ! j)) (li_recording y))"
    proof (cases j)
      case 0
      then show ?thesis using assms(2) [of y] y by (metis length_Cons list.size(4) nth_Cons_0 nth_mem nth_upt zero_less_Suc add.left_neutral)
    next
      case (Suc i)
      then show ?thesis using j y(2) by (simp add: nth_append del: upt_Suc)
    qed
  qed (use y in \<open>simp_all add: nth_append del: upt_Suc\<close>)
  moreover have "?claimed[Suc (length xs) := True] = False # replicate (length (xs @ [y])) True @ replicate (length ys) False"
    by (simp add: list_update_append replicate_app_Cons_same)
  ultimately show ?case using Cons.IH [of "xs @ [y]"] Cons.prems
    by (simp add: upt_conv_Cons del: upt_Suc)
qed simp

lemma all_in_order_stay:
  assumes "longest_rising (None # map Some [0..<n]) = Some kept"
  shows "kept = {1..n}"
proof -
  let ?s = "None # map Some [0..<n]"
  have r: "rising ?s kept" "\<forall>S. rising ?s S \<longrightarrow> card S \<le> card kept"
    using longest_is_longest [of ?s] assms by auto
  have at: "value_at ?s i = (if i = 0 \<or> n < i then None else Some (i - 1))" for i
    by (cases i) (auto simp: value_at_def get_def)
  have "rising ?s {1..n}" by (auto simp: rising_def at)
  then have "n \<le> card kept" using r(2) by fastforce
  moreover have "kept \<subseteq> {1..n}" using r(1) by (auto simp: rising_def at split: if_splits)
  ultimately show ?thesis by (intro card_subset_eq) (auto dest: card_mono [rotated])
qed

lemma all_paired_held:
  "length is = length rows \<Longrightarrow> paired_as_held u D named (zip rows (map Some is)) claimed d = (Inr (map Some is), d)"
proof (induction rows arbitrary: "is")
  case (Cons row rows)
  then show ?case by (cases "is") (simp_all add: do_then_def)
qed simp

lemma none_removed:
  "length is = length rows \<Longrightarrow> removed_ops D (zip rows (map Some is)) d = ([], d)"
proof (induction rows arbitrary: "is")
  case (Cons row rows)
  then show ?case by (cases "is") simp_all
qed simp

lemma base_of_below: "base_of_named (map Some [1..<Suc n]) (Suc n) = None # map Some [0..<n]"
proof (rule nth_equalityI)
  have "somes (map Some [1..<Suc n]) = [1..<Suc n]" by (simp add: somes_def map_filter_def comp_def del: upt_Suc)
  then have once: "distinct (somes (map Some [1..<Suc n]))" "\<forall>i\<in>set (somes (map Some [1..<Suc n])). i < Suc n"
    by (simp_all del: upt_Suc)
  note b = base_of_named_nth [OF once]
  then show "length (base_of_named (map Some [1..<Suc n]) (Suc n)) = length (None # map Some [0..<n])" by simp
  show "base_of_named (map Some [1..<Suc n]) (Suc n) ! i = (None # map Some [0..<n]) ! i"
    if "i < length (base_of_named (map Some [1..<Suc n]) (Suc n))" for i
  proof -
    have i: "i < Suc n" using that b by simp
    have at: "\<And>a. base_of_named (map Some [1..<Suc n]) (Suc n) ! i = Some a \<longleftrightarrow> a < n \<and> Suc a = i"
      using b i by (auto simp del: upt_Suc)
    show ?thesis
    proof (cases i)
      case 0
      then show ?thesis using at by (cases "base_of_named (map Some [1..<Suc n]) (Suc n) ! i") auto
    next
      case (Suc j)
      then show ?thesis using at [of j] i by simp
    qed
  qed
qed

lemma none_move:
  assumes "\<And>i. i < length bs \<Longrightarrow> bs ! i \<noteq> None \<Longrightarrow> i \<in> kept"
  shows "moving_entries base bs kept = []"
proof -
  have "(case x of (i, None) \<Rightarrow> None | (i, Some b) \<Rightarrow> if i \<in> kept then None else Some (li_entry (base ! b))) = None"
    if "x \<in> set (enumerate 0 bs)" for x
    using assms [of "fst x"] that by (cases x) (auto simp: in_set_enumerate_eq split: option.split)
  then show ?thesis by (auto simp: moving_entries_def map_filter_def filter_empty_conv)
qed

lemma zeros_on_top:
  assumes ok: "om_ok (sl_rows (lk_list k))"
    and written: "lk_written k = map li_entry (rows_listed (lk_list k))"
    and listed: "lk_listed k = Some r # map (Some \<circ> li_recording) (rows_listed (lk_list k))"
    and apart: "\<And>i j. i < length (rows_listed (lk_list k)) \<Longrightarrow> j < length (rows_listed (lk_list k)) \<Longrightarrow>
      names_the_same_song_as u (li_recording (rows_listed (lk_list k) ! i)) (li_recording (rows_listed (lk_list k) ! j)) \<Longrightarrow> i = j"
    and new: "\<And>x. x \<in> set (rows_listed (lk_list k)) \<Longrightarrow> \<not> names_the_same_song_as u r (li_recording x)"
    and zeros: "rows_listed (lk_list k) = x # xs" "li_place x = replicate n 0"
  shows "edits_seen u D k d = None"
proof -
  let ?rows = "rows_listed (lk_list k)"
  let ?n = "length ?rows"
  let ?pairs = "map Some [1..<Suc ?n]"
  have base: "base_rows (lk_list k) (lk_written k) = ?rows" using base_rows_all [OF ok] written by simp
  have named: "named_of (lk_listed k) = r # map li_recording ?rows"
    by (simp add: named_of_def listed map_filter_def comp_def)
  have as_named: "paired_as_named u (r # map li_recording ?rows) ?rows (replicate (Suc ?n) False) = (?pairs, False # replicate ?n True)"
  proof -
    have "?rows = [] @ ?rows" by simp
    from paired_below [OF apart new this] show ?thesis by (simp del: upt_Suc)
  qed
  have paired: "paired_with u D ?rows (named_of (lk_listed k)) d = (Inr ?pairs, d)"
  proof -
    have "length [1..<Suc ?n] = ?n" by (simp del: upt_Suc)
    from all_paired_held [OF this] show ?thesis using as_named by (simp add: paired_with_def named del: upt_Suc)
  qed
  have removals: "removed_ops D (zip ?rows ?pairs) d = ([], d)" by (rule none_removed) (simp del: upt_Suc)
  obtain kept where kept: "longest_rising (None # map Some [0..<?n]) = Some kept" using longest_is_longest by blast
  have moving: "moving_entries ?rows (None # map Some [0..<?n]) kept = []"
    by (rule none_move) (auto simp: all_in_order_stay [OF kept] nth_Cons split: nat.splits)
  have gone: "filter (\<lambda>(_, pair). \<not> False \<and> pair = None) (zip ?rows ?pairs) = []"
    by (auto simp: filter_empty_conv set_zip simp del: upt_Suc)
  have "sorted_wrt (\<lambda>a b. li_place a \<le> li_place b) ?rows"
    using rows_sorted by (rule sorted_wrt_mono_rel [rotated]) (auto simp: listed_before_def)
  then have "sort (map li_place ?rows) = map li_place ?rows" by (intro sort_key_id_if_sorted) (simp add: sorted_wrt_map)
  then have standing: "sort (map li_place (filter (\<lambda>row. li_entry row \<notin> set [] \<and> li_entry row \<notin> set []) ?rows)) =
      replicate n 0 # map li_place xs"
    using zeros by simp
  have todo: "enumerate 0 (zip (None # map Some [0..<?n]) (named_of (lk_listed k))) =
      (0, None, r) # enumerate 1 (zip (map Some [0..<?n]) (map li_recording ?rows))"
    by (simp add: named)
  have unnamed: "(Suc ?n < length (lk_listed k)) = False" by (simp add: listed)
  have len: "length (named_of (lk_listed k)) = Suc ?n" by (simp add: named)
  have never: "settled D (lk_by k) ?rows kept (replicate n 0 # map li_place xs) None
      ((0, None, r) # enumerate 1 (zip (map Some [0..<?n]) (map li_recording ?rows))) d = None"
    using before_never [of "replicate n 0"] by (simp add: placed_after_def list_all_iff)
  show ?thesis
    unfolding edits_seen_def Let_def base paired prod.case sum.case len unnamed if_False removals base_of_below kept
      bind.bind_lunit moving gone list.map standing todo never by simp
qed

end
