(* ===== verification/SharedContracts.thy ===== *)
theory SharedContracts
  imports SharedDoing SharedWire WireContracts
begin

text \<open>
  What shared playlists promise (\<open>crates/resonate-sync/src/shared/\<close> and the clock of
  \<open>change.rs\<close>): there is always a place for a song, every device ends on the same list, a list comes
  back from its operations, and the list reads as the file a listener edited.
\<close>

subsection \<open>Places and stamps\<close>

text \<open>
  C6. There is always a place for a song: between any two places, before any and after any, the
  search ends with a place that lies there and that does not end in a zero byte, as the first
  place does not, so the next search ends as well.
\<close>

theorem there_is_always_a_place:
  assumes "place_ok high" and "low < high"
  shows "place_ok first_place \<and>
    (\<exists>p. place_between (Some low) (Some high) = Some p \<and> low < p \<and> p < high \<and> place_ok p) \<and>
    (\<exists>p. place_before high = Some p \<and> p < high \<and> place_ok p) \<and>
    (\<exists>p. place_after low = Some p \<and> low < p \<and> place_ok p)"
proof (intro conjI)
  show "place_ok first_place" by (simp add: place_ok_def first_place_def)
qed (rule between_lies_between [OF assms(2,1)] before_lies_before [OF assms(1)] after_lies_after)+

theorem there_is_always_a_place_witness:
  "\<exists>p. place_between (Some [0x80, 0, 0, 1]) (Some [0x80, 0, 0, 2]) = Some p \<and> [0x80, 0, 0, 1] < p \<and> p < [0x80, 0, 0, 2 :: u8] \<and> place_ok p"
  using there_is_always_a_place [of "[0x80, 0, 0, 2]" "[0x80, 0, 0, 1]"] by (simp add: place_ok_def)

lemma zeros_below: "low < (replicate n 0 :: bytes) \<Longrightarrow> \<exists>m. low = replicate m 0"
proof (induction n arbitrary: low)
  case (Suc n)
  show ?case
  proof (cases low)
    case Nil
    then show ?thesis by (intro exI [of _ 0]) simp
  next
    case (Cons b bs)
    then have "b = 0" "bs < replicate n 0" using Suc.prems by (auto simp: word_less_nat_alt)
    then obtain m where "bs = replicate m 0" using Suc.IH by blast
    then show ?thesis using Cons \<open>b = 0\<close> by (intro exI [of _ "Suc m"]) simp
  qed
qed simp

lemma byte_at_replicate: "byte_at (replicate n 0) j = 0"
  by (rule byte_at_zeros) (simp add: list_all_iff)

text \<open>
  Whatever a device stamps and sees, the stamps it gives rise, and each is later than every
  stamp the clock had seen before, until the clock stands at the last nanosecond it can hold.
\<close>

theorem stamps_only_rise:
  assumes "ticks device (earlier @ later) c = (ss, c')" and "\<forall>s\<in>set ss. ts_nanos s \<noteq> i64_largest"
  shows "sorted_wrt (<) ss \<and>
    (\<forall>seen s. Saw seen \<in> set earlier \<longrightarrow> s \<in> set (fst (ticks device later (snd (ticks device earlier c)))) \<longrightarrow> seen < s)"
proof -
  obtain ss1 c1 where early: "ticks device earlier c = (ss1, c1)" by fastforce
  obtain ss2 where late: "ticks device later c1 = (ss2, c')" and ss: "ss = ss1 @ ss2"
    using assms(1) early by (auto simp: ticks_append split: prod.splits)
  have given: "\<forall>s\<in>set ss2. sint c1 < sint (ts_nanos s)"
    using ticks_given [OF late] assms(2) by (simp add: ss)
  have "seen < s" if "Saw seen \<in> set earlier" "s \<in> set ss2" for seen s
    using ticks_rise [OF early] that given by (intro later_nanos) (meson le_less_trans)
  then show ?thesis using ticks_given [OF assms(1,2)] early late by simp
qed

theorem stamps_only_rise_witness:
  "\<lparr>ts_nanos = 100, ts_device = [2]\<rparr> < (\<lparr>ts_nanos = 101, ts_device = [1]\<rparr> :: stamp_time)"
proof -
  let ?ts = "[Saw \<lparr>ts_nanos = 100, ts_device = [2]\<rparr>]" and ?us = "[Stamps 5]"
  have early: "ticks [1] ?ts 7 = ([], 100)" by (simp add: clock_saw_def signed_max_def)
  have late: "ticks [1] ?us 100 = ([\<lparr>ts_nanos = 101, ts_device = [1]\<rparr>], 101)"
    by (simp add: clock_now_def one_later_def signed_max_def i64_largest_def)
  have both: "ticks [1] (?ts @ ?us) 7 = ([\<lparr>ts_nanos = 101, ts_device = [1]\<rparr>], 101)"
    using early late unfolding ticks_append by simp
  from stamps_only_rise [OF both] show ?thesis
    unfolding early snd_conv late fst_conv by (simp add: i64_largest_def)
qed

subsection \<open>Every device's list\<close>


definition sample_stamp :: "i64 \<Rightarrow> u8 \<Rightarrow> stamp_time" where
  "sample_stamp n d = \<lparr>ts_nanos = n, ts_device = replicate 16 d\<rparr>"

definition sample_song :: "nat \<Rightarrow> recording" where
  "sample_song n = \<lparr>rc_mbid = None, rc_title = replicate n 0x61, rc_artist = [], rc_album = [], rc_length = None\<rparr>"

definition sample_ops :: "shared_op list" where
  "sample_ops = [Added [1] (sample_song 1) first_place None (sample_stamp 1 1),
     Moved [1] [0x81] (sample_stamp 3 2), Moved [1] [0x82] (sample_stamp 2 1)]"

lemmas sample_defs = sample_ops_def sample_stamp_def sample_song_def


text \<open>
  C25. A song taken out of a shared list stays out, whatever else is done before or after; and a
  list shows its rows in the order of their places, one row for an entry.
\<close>

theorem what_is_removed_stays_removed:
  assumes "list_all op_real ops" and "Removed e s \<in> set ops"
  shows "e \<notin> li_entry ` set (rows_listed (fold applied ops empty_list)) \<and>
    sorted_wrt listed_before (rows_listed (fold applied ops empty_list)) \<and>
    distinct (map li_entry (rows_listed (fold applied ops empty_list)))"
proof -
  let ?l = "fold applied ops empty_list"
  have ok: "om_ok (sl_rows ?l)" using all_applied_whole [OF empty_whole assms(1)] by (simp add: list_whole_def)
  have "vw_rows (view_of ?l) = vw_rows (fold view_step ops (view_of empty_list))"
    using all_applied_refine [OF empty_whole assms(1)] by simp
  then obtain row where "map_of (sl_rows ?l) e = Some row" "sr_recording row = None"
    using removed_once [OF assms(2), of "view_of empty_list"] by (auto simp: view_of_def)
  then have "e \<notin> li_entry ` set (rows_listed ?l)" by (auto simp: listed_iff [OF ok] listed_row_def)
  then show ?thesis using rows_sorted rows_once [OF ok] by blast
qed

theorem what_is_removed_stays_removed_witness:
  "rows_listed (fold applied (Removed [1] (sample_stamp 9 1) # sample_ops) empty_list) = []"
proof -
  have "list_all op_real (Removed [1] (sample_stamp 9 1) # sample_ops)" by (simp add: sample_defs)
  from what_is_removed_stays_removed [OF this, of "[1]" "sample_stamp 9 1"] show ?thesis
    by (simp add: sample_defs empty_list_def added_to_def moved_to_def placed_later_def or_default_def default_row_def
        removed_at_def latest_def rows_listed_def map_filter_simps listed_row_def)
qed

text \<open>
  Every list that operations make is whole: its maps are in order, a row is either placed or
  removed, nobody is here whom nobody described. And the operations such a list is written as
  make exactly that list again.
\<close>

theorem lists_come_back_from_their_operations:
  assumes "list_all op_real ops"
  shows "list_whole (fold applied ops empty_list) \<and>
    fold applied (as_ops (fold applied ops empty_list)) empty_list = fold applied ops empty_list"
  using all_applied_whole [OF empty_whole assms] as_ops_again by blast

theorem lists_come_back_from_their_operations_witness:
  "as_ops (fold applied sample_ops empty_list) = [Added [1] (sample_song 1) [0x81] None (sample_stamp 3 2)] \<and>
   fold applied (as_ops (fold applied sample_ops empty_list)) empty_list = fold applied sample_ops empty_list"
proof -
  have "list_all op_real sample_ops" by (simp add: sample_defs)
  from lists_come_back_from_their_operations [OF this] show ?thesis
    by (simp add: sample_defs empty_list_def added_to_def moved_to_def placed_later_def or_default_def default_row_def
        as_ops_def row_ops_def stamp_orders)
qed

text \<open>
  C27. Operations on a shared list are read back as they are sent, and what a newer device writes
  among them, of kinds that are not known here, is passed over without losing the others.
\<close>

theorem operations_come_back_among_unknown_ones:
  assumes "\<forall>op. Inl op \<in> set frames \<longrightarrow> op_ok op \<and> length (encoded_op op) \<le> largest_op"
    and "\<forall>bs. Inr bs \<in> set frames \<longrightarrow> length bs \<le> largest_op \<and> bs \<noteq> [] \<and> 5 < hd bs"
    and "length frames \<le> u64_max"
  shows "decoded_ops (wr_list (\<lambda>f. wr_bytes (case f of Inl op \<Rightarrow> encoded_op op | Inr bs \<Rightarrow> bs)) frames) =
    Inr (List.map_filter (\<lambda>f. case f of Inl op \<Rightarrow> Some (sent_op op) | Inr _ \<Rightarrow> None) frames)"
proof -
  let ?w = "\<lambda>f. case f of Inl op \<Rightarrow> encoded_op op | Inr bs \<Rightarrow> bs"
  define g where "g bs = (case decoded_op bs of Inl _ \<Rightarrow> None | Inr op \<Rightarrow> op)" for bs
  have each: "length (?w f) \<le> largest_op \<and>
      decoded_op (?w f) = Inr (case f of Inl op \<Rightarrow> Some (sent_op op) | Inr _ \<Rightarrow> None)" if "f \<in> set frames" for f
  proof (cases f)
    case (Inl op)
    then show ?thesis using assms(1) that op_read by auto
  next
    case (Inr bs)
    have "bs \<noteq> []" "5 < hd bs" using assms(2) that Inr by blast+
    then obtain tag rest where "bs = tag # rest" "5 < tag" by (cases bs) auto
    then show ?thesis using Inr assms(2) that op_unknown by auto
  qed
  then have "\<forall>bs\<in>set (map ?w frames). length bs \<le> largest_op \<and> decoded_op bs = Inr (g bs)"
    by (auto simp: g_def)
  from ops_read [OF this] assms(3)
  have "decoded_ops (wr_list wr_bytes (map ?w frames)) = Inr (List.map_filter g (map ?w frames))" by simp
  moreover have "List.map_filter g (map ?w frames) =
      List.map_filter (\<lambda>f. case f of Inl op \<Rightarrow> Some (sent_op op) | Inr _ \<Rightarrow> None) frames"
    using each by (induction frames) (auto simp: map_filter_simps g_def split: option.split)
  ultimately show ?thesis by (simp add: wr_list_def comp_def)
qed

theorem operations_come_back_among_unknown_ones_witness:
  "decoded_ops (wr_list wr_bytes [[6, 1, 2], encoded_op (Removed (replicate 16 1) (sample_stamp 5 1)), [200]]) =
     Inr [Removed (replicate 16 1) (sample_stamp 5 1)]"
proof -
  let ?op = "Removed (replicate 16 1) (sample_stamp 5 1)"
  have "op_ok ?op" "length (encoded_op ?op) \<le> largest_op"
    using number_at_most_ten [of 10]
    by (simp_all add: sample_stamp_def entry_ok_def entry_bytes_def stamp_ok_def device_ok_def device_bytes_def
        wr_byte_def wr_stamp_def wr_signed_def largest_op_def)
  with operations_come_back_among_unknown_ones [of "[Inr [6, 1, 2], Inl ?op, Inr [200]]"]
  show ?thesis by (simp add: wr_list_def map_filter_simps largest_op_def u64_max_def)
qed

subsection \<open>The list and the playlist file\<close>

text \<open>
  C26. What stays in place when a playlist file is edited is as much as can: the rows kept rise in
  the order they had, no set of rows that do is larger, and the walk that gathers them ends.
\<close>

theorem what_stays_is_the_longest_run:
  "\<exists>kept. longest_rising s = Some kept \<and> rising s kept \<and> (\<forall>S. rising s S \<longrightarrow> card S \<le> card kept)"
  by (rule longest_is_longest)

theorem what_stays_is_the_longest_run_witness:
  "\<exists>kept. longest_rising [Some 3, Some 0, None, Some 1] = Some kept \<and> 2 \<le> card kept"
proof -
  have "rising [Some 3, Some 0, None, Some 1] {1, 3}" by (simp add: rising_def value_at_def get_def)
  moreover have "card {1, 3 :: nat} = 2" by simp
  ultimately show ?thesis using what_stays_is_the_longest_run [of "[Some 3, Some 0, None, Some 1]"] by metis
qed

text \<open>
  C5. A look at a playlist file ends, with the edits it found or the error that stopped it,
  whatever the file holds, as long as no place of the list ends in a zero byte.
\<close>

theorem every_look_at_the_file_ends:
  assumes "\<forall>row\<in>set (rows_listed (lk_list k)). place_ok (li_place row)"
  shows "\<exists>r. edits_seen u D k d = Some r"
  by (rule edits_seen_returns [OF assms])

definition sample_unicode :: unicode where
  "sample_unicode = \<lparr>un_trim = (\<lambda>t. t), un_folded_letters = (\<lambda>t. t), un_title_words = (\<lambda>t. t)\<rparr>"

definition sample_list :: shared_list where
  "sample_list = fold applied
     [Added [1] (sample_song 1) [0x80, 0, 0, 1] None (sample_stamp 1 1),
      Added [2] (sample_song 2) [0x80, 0, 1, 1] None (sample_stamp 2 1)] empty_list"

definition sample_look :: looking where
  "sample_look = \<lparr>lk_list = sample_list, lk_written = [[1], [2]],
     lk_listed = [Some (sample_song 2), Some (sample_song 3), Some (sample_song 1)], lk_by = None\<rparr>"

definition sample_device :: "(doing, unit) resolving" where
  "sample_device = doing_resolving (\<lambda>_. Inr None) () (\<lambda>_. 5) (replicate 16 9)"

definition sample_doing :: doing where
  "sample_doing = \<lparr>dg_clock = 7, dg_reads = 0, dg_draws = [[3], [4]]\<rparr>"

lemma sample_rows: "rows_listed sample_list =
    [\<lparr>li_entry = [1], li_recording = sample_song 1, li_place = [0x80, 0, 0, 1], li_by = None\<rparr>,
     \<lparr>li_entry = [2], li_recording = sample_song 2, li_place = [0x80, 0, 1, 1], li_by = None\<rparr>]"
  by (simp add: sample_list_def empty_list_def added_to_def placed_later_def or_default_def default_row_def
      rows_listed_def map_filter_simps listed_row_def)

theorem every_look_at_the_file_ends_witness:
  "\<exists>r. edits_seen sample_unicode sample_device sample_look sample_doing = Some r"
  using every_look_at_the_file_ends [of sample_look] by (simp add: sample_look_def sample_rows place_ok_def)

text \<open>
  C7. A place of nothing but zeros arrives from another device as any place does, yet no song can
  be put before it: the search for a place before it, or between it and any place below, never
  ends. So where the first row of a list stands at such a place, its rows name different songs and
  all were written to the playlist file, a look at that file with a new song put above them never
  ends either.
\<close>

theorem a_place_of_zeros_is_searched_forever:
  assumes "entry_ok e" and "stamp_ok s" and "0 < n" and "n \<le> longest_place"
    and "om_ok (sl_rows (lk_list k))" and "rows_listed (lk_list k) = x # xs" and "li_place x = replicate n 0"
    and "\<And>i j. i < length (x # xs) \<Longrightarrow> j < length (x # xs) \<Longrightarrow>
      names_the_same_song_as u (li_recording ((x # xs) ! i)) (li_recording ((x # xs) ! j)) \<Longrightarrow> i = j"
    and "lk_written k = map li_entry (x # xs)"
    and "lk_listed k = Some new_song # map (Some \<circ> li_recording) (x # xs)"
    and "\<And>y. y \<in> set (x # xs) \<Longrightarrow> \<not> names_the_same_song_as u new_song (li_recording y)"
  shows "decoded_op (encoded_op (Moved e (replicate n 0) s)) = Inr (Some (Moved e (replicate n 0) s)) \<and>
    place_before (replicate n 0) = None \<and>
    (\<forall>low < replicate n 0. place_between (Some low) (Some (replicate n 0)) = None) \<and>
    edits_seen u D k d = None"
proof (intro conjI allI impI)
  have before: "place_before (replicate n 0) = None" by (rule before_never) (simp add: list_all_iff)
  show "place_before (replicate n 0) = None" by (rule before)
  show "edits_seen u D k d = None"
    by (rule zeros_on_top [OF assms(5), unfolded assms(6), OF assms(9,10,8,11) refl assms(7)])
  show "decoded_op (encoded_op (Moved e (replicate n 0) s)) = Inr (Some (Moved e (replicate n 0) s))"
    by (rule zeros_arrive [OF assms(1-4)])
next
  fix low :: place
  assume "low < replicate n 0"
  then obtain m where "low = replicate m 0" using zeros_below by blast
  then show "place_between (Some low) (Some (replicate n 0)) = None"
    by (intro between_never) (simp add: byte_at_replicate)
qed

text \<open>Two songs, the first moved by another device to a place of one zero; the file has a third above them.\<close>

definition zeros_list :: shared_list where
  "zeros_list = applied (Moved [1] [0] (sample_stamp 3 2)) sample_list"

definition zeros_look :: looking where
  "zeros_look = \<lparr>lk_list = zeros_list, lk_written = [[1], [2]],
     lk_listed = [Some (sample_song 3), Some (sample_song 1), Some (sample_song 2)], lk_by = None\<rparr>"

lemma zeros_rows: "rows_listed zeros_list =
    [\<lparr>li_entry = [1], li_recording = sample_song 1, li_place = [0], li_by = None\<rparr>,
     \<lparr>li_entry = [2], li_recording = sample_song 2, li_place = [0x80, 0, 1, 1], li_by = None\<rparr>]"
  by (simp add: zeros_list_def sample_list_def empty_list_def added_to_def moved_to_def placed_later_def or_default_def
      default_row_def rows_listed_def map_filter_simps listed_row_def sample_stamp_def stamp_orders)

lemma sample_songs_differ: "names_the_same_song_as sample_unicode (sample_song i) (sample_song j) \<longleftrightarrow> i = j"
proof -
  have "replicate i a = replicate j a \<longleftrightarrow> i = j" for a :: u8 by (metis length_replicate)
  then show ?thesis by (simp add: names_the_same_song_as_def named_key_def sample_song_def sample_unicode_def)
qed

theorem a_place_of_zeros_is_searched_forever_witness:
  "decoded_op (encoded_op (Moved (replicate 16 7) [0] \<lparr>ts_nanos = 1, ts_device = replicate 16 9\<rparr>)) =
     Inr (Some (Moved (replicate 16 7) [0] \<lparr>ts_nanos = 1, ts_device = replicate 16 9\<rparr>)) \<and> place_before [0] = None \<and>
   edits_seen sample_unicode sample_device zeros_look sample_doing = None"
proof -
  have ids: "entry_ok (replicate 16 7)" "stamp_ok \<lparr>ts_nanos = 1, ts_device = replicate 16 9\<rparr>"
    by (simp_all add: entry_ok_def entry_bytes_def stamp_ok_def device_ok_def device_bytes_def)
  have one: "0 < (1 :: nat)" "1 \<le> longest_place" by (simp_all add: longest_place_def)
  have "list_whole zeros_list"
    using all_applied_whole [OF empty_whole, of "[Added [1] (sample_song 1) [0x80, 0, 0, 1] None (sample_stamp 1 1),
      Added [2] (sample_song 2) [0x80, 0, 1, 1] None (sample_stamp 2 1), Moved [1] [0] (sample_stamp 3 2)]"]
    by (simp add: zeros_list_def sample_list_def)
  then have ok: "om_ok (sl_rows (lk_list zeros_look))" by (simp add: zeros_look_def list_whole_def)
  let ?x = "\<lparr>li_entry = [1], li_recording = sample_song 1, li_place = [0 :: u8], li_by = None :: member_id option\<rparr>"
  let ?y = "\<lparr>li_entry = [2], li_recording = sample_song 2, li_place = [0x80, 0, 1, 1], li_by = None\<rparr>"
  have look: "rows_listed (lk_list zeros_look) = ?x # [?y]" "li_place ?x = replicate 1 0"
    "lk_written zeros_look = map li_entry (?x # [?y])"
    "lk_listed zeros_look = Some (sample_song 3) # map (Some \<circ> li_recording) (?x # [?y])"
    by (simp_all add: zeros_look_def zeros_rows)
  have apart: "i = j" if "i < length (?x # [?y])" "j < length (?x # [?y])"
    "names_the_same_song_as sample_unicode (li_recording ((?x # [?y]) ! i)) (li_recording ((?x # [?y]) ! j))" for i j
    using that by (cases i; cases j) (auto simp: sample_songs_differ)
  have new: "\<not> names_the_same_song_as sample_unicode (sample_song 3) (li_recording z)" if "z \<in> set (?x # [?y])" for z
    using that by (auto simp: sample_songs_differ)
  from a_place_of_zeros_is_searched_forever [OF ids one ok look(1,2) apart look(3,4) new, of sample_device sample_doing]
  show ?thesis by simp
qed

text \<open>
  C3. Once the edits a device finds are made, its list reads as the playlist file the listener
  left. Every row the file names has a row of the list, in the file's order, which holds the
  recording named there or one the file's row names the same song as, in the list's spelling or
  the catalog's own. The rows the file does not name stay as they were if they were never written
  to it, as those another device added were not, or if some row of it has no name at all; the
  others are gone. The rows written to the file stand at places that rise in the order they were
  written in, no place of the list ends in a zero byte, the device's clock has seen the list's
  stamps, and the entries it draws are new.
\<close>

theorem the_list_reads_as_the_file:
  assumes "edits_seen u (doing_resolving held refused wall device) k d = Some (Inr ops, d')" and "doing_good t d"
    and "list_whole (lk_list k)" and "stamps_upto t (lk_list k)"
    and "\<forall>row\<in>set (rows_listed (lk_list k)). place_ok (li_place row)"
    and "distinct (lk_written k)"
    and "sorted_wrt (<) (map li_place (base_rows (lk_list k) (lk_written k)))"
    and "fst ` set (sl_rows (lk_list k)) \<inter> set (dg_draws d) = {}"
  shows "\<exists>seats. list_all2 (\<lambda>n x. li_recording x = n \<or> reads_as u (doing_resolving held refused wall device) n (li_recording x))
        (named_of (lk_listed k)) seats \<and>
      filter (\<lambda>x. x \<in> set seats) (rows_listed (fold applied ops (lk_list k))) = seats \<and>
      {x \<in> set (rows_listed (fold applied ops (lk_list k))). x \<notin> set seats} =
        {x \<in> set (rows_listed (lk_list k)). li_entry x \<notin> li_entry ` set seats \<and>
           (None \<in> set (lk_listed k) \<or> x \<notin> set (base_rows (lk_list k) (lk_written k)))}"
  using device_edits [OF assms] unfolding reads_after_def by blast

text \<open>A third row another device put between the two; the file has lost the first song and has a row with no name.\<close>

definition shared_by_two :: shared_list where
  "shared_by_two = applied (Added [9] (sample_song 9) [0x80, 0, 0, 5] None (sample_stamp 3 1)) sample_list"

definition look_of_two :: looking where
  "look_of_two = \<lparr>lk_list = shared_by_two, lk_written = [[1], [2]],
     lk_listed = [Some (sample_song 2), None, Some (sample_song 3)], lk_by = None\<rparr>"

lemma rows_of_two: "rows_listed shared_by_two =
    [\<lparr>li_entry = [1], li_recording = sample_song 1, li_place = [0x80, 0, 0, 1], li_by = None\<rparr>,
     \<lparr>li_entry = [9], li_recording = sample_song 9, li_place = [0x80, 0, 0, 5], li_by = None\<rparr>,
     \<lparr>li_entry = [2], li_recording = sample_song 2, li_place = [0x80, 0, 1, 1], li_by = None\<rparr>]"
  by (simp add: shared_by_two_def sample_list_def empty_list_def added_to_def placed_later_def or_default_def
      default_row_def rows_listed_def map_filter_simps listed_row_def)

lemma edits_of_two: "case edits_seen sample_unicode sample_device look_of_two sample_doing of Some (Inr ops, d') \<Rightarrow> True | _ \<Rightarrow> False"
  by code_simp

theorem the_list_reads_as_the_file_witness:
  "\<exists>ops d' seats. edits_seen sample_unicode sample_device look_of_two sample_doing = Some (Inr ops, d') \<and>
    list_all2 (\<lambda>n x. li_recording x = n \<or> reads_as sample_unicode sample_device n (li_recording x))
      [sample_song 2, sample_song 3] seats \<and>
    filter (\<lambda>x. x \<in> set seats) (rows_listed (fold applied ops shared_by_two)) = seats \<and>
    {x \<in> set (rows_listed (fold applied ops shared_by_two)). x \<notin> set seats} =
      {x \<in> set (rows_listed shared_by_two). li_entry x \<notin> li_entry ` set seats}"
proof -
  obtain ops d' where seen: "edits_seen sample_unicode sample_device look_of_two sample_doing = Some (Inr ops, d')"
    using edits_of_two by (auto split: option.splits sum.splits prod.splits)
  have good: "doing_good (sample_stamp 3 1) sample_doing"
    by (simp add: doing_good_def sample_doing_def sample_stamp_def i64_largest_def)
  have whole: "list_whole shared_by_two"
    using all_applied_whole [OF empty_whole, of "[Added [1] (sample_song 1) [0x80, 0, 0, 1] None (sample_stamp 1 1),
      Added [2] (sample_song 2) [0x80, 0, 1, 1] None (sample_stamp 2 1),
      Added [9] (sample_song 9) [0x80, 0, 0, 5] None (sample_stamp 3 1)]"]
    by (simp add: shared_by_two_def sample_list_def)
  have "sl_rows shared_by_two = [([1], \<lparr>sr_recording = Some (sample_song 1), sr_by = None,
      sr_placed = Some ([0x80, 0, 0, 1], sample_stamp 1 1), sr_removed = None\<rparr>),
     ([2], \<lparr>sr_recording = Some (sample_song 2), sr_by = None,
      sr_placed = Some ([0x80, 0, 1, 1], sample_stamp 2 1), sr_removed = None\<rparr>),
     ([9], \<lparr>sr_recording = Some (sample_song 9), sr_by = None,
      sr_placed = Some ([0x80, 0, 0, 5], sample_stamp 3 1), sr_removed = None\<rparr>)]"
    by (simp add: shared_by_two_def sample_list_def empty_list_def added_to_def placed_later_def or_default_def default_row_def)
  then have stamps: "stamps_upto (sample_stamp 3 1) shared_by_two" and keys: "fst ` set (sl_rows shared_by_two) = {[1], [2], [9]}"
    by (auto simp: stamps_upto_def sample_stamp_def stamp_orders split: if_splits)
  have base: "base_rows shared_by_two [[1], [2]] =
     [\<lparr>li_entry = [1], li_recording = sample_song 1, li_place = [0x80, 0, 0, 1], li_by = None\<rparr>,
      \<lparr>li_entry = [2], li_recording = sample_song 2, li_place = [0x80, 0, 1, 1], li_by = None\<rparr>]"
    by (simp add: base_rows_def rows_of_two map_filter_simps)
  from the_list_reads_as_the_file [OF seen [unfolded sample_device_def] good] whole stamps keys seen show ?thesis
    by (simp add: look_of_two_def base rows_of_two sample_device_def place_ok_def named_of_def map_filter_simps sample_doing_def)
qed

end
