(* ===== verification/PartySaid.thy ===== *)
theory PartySaid
  imports WireValid
begin

text \<open>
  What is said in a listening party (\<open>crates/resonate-sync/src/party/said.rs\<close>): the host says what
  it plays and who is there, a guest says hello and asks for a song. The messages are written over
  the byte format of \<open>Wire\<close> before they are sealed.
\<close>

definition songs_ahead_told_at_most :: nat where
  "songs_ahead_told_at_most = 8"

definition people_told_at_most :: nat where
  "people_told_at_most = 64"

record party_song =
  ps_row :: u64
  ps_recording :: recording
  ps_isrc :: "bytes option"

record party_now =
  pn_song :: "party_song option"
  pn_next :: "party_song list"
  pn_playing :: bool
  pn_position_nanos :: u64
  pn_anchor_nanos :: u64
  pn_coarse :: bool

datatype party_said =
  Hello bytes
| People "(device_id \<times> bytes) list"
| Now party_now
| Ask party_song

definition saturating_sub :: "u64 \<Rightarrow> u64 \<Rightarrow> u64" where
  "saturating_sub a b = (if a < b then 0 else a - b)"

definition saturating_add :: "u64 \<Rightarrow> u64 \<Rightarrow> u64" where
  "saturating_add a b = (if a + b < a then - 1 else a + b)"

definition position_at :: "party_now \<Rightarrow> u64 \<Rightarrow> u64" where
  "position_at n server_nanos =
     (if pn_playing n
      then saturating_add (pn_position_nanos n) (saturating_sub server_nanos (pn_anchor_nanos n))
      else pn_position_nanos n)"

subsection \<open>Writing and reading\<close>

definition written_song :: "party_song \<Rightarrow> bytes" where
  "written_song s = wr_number (ps_row s) @ wr_recording (ps_recording s) @ wr_option wr_text (ps_isrc s)"

definition read_song :: "party_song reader" where
  "read_song =
     rd_then rd_number (\<lambda>row.
     rd_then rd_recording (\<lambda>recording.
     rd_then (rd_option rd_text) (\<lambda>isrc.
     rd_ok \<lparr>ps_row = row, ps_recording = recording, ps_isrc = isrc\<rparr>)))"

definition wr_person :: "device_id \<times> bytes \<Rightarrow> bytes" where
  "wr_person p = fst p @ wr_text (snd p)"

definition rd_person :: "(device_id \<times> bytes) reader" where
  "rd_person = rd_then rd_device (\<lambda>member. rd_then rd_text (\<lambda>name. rd_ok (member, name)))"

fun said_encoded :: "party_said \<Rightarrow> bytes" where
  "said_encoded (Hello name) = wr_byte 0 @ wr_text name"
| "said_encoded (People people) = wr_byte 1 @ wr_list wr_person people"
| "said_encoded (Now n) =
     wr_byte 2 @ wr_option written_song (pn_song n)
     @ wr_list written_song (take songs_ahead_told_at_most (pn_next n))
     @ wr_flag (pn_playing n) @ wr_number (pn_position_nanos n) @ wr_number (pn_anchor_nanos n) @ wr_flag (pn_coarse n)"
| "said_encoded (Ask s) = wr_byte 3 @ written_song s"

definition rd_songs_ahead :: "party_song list reader" where
  "rd_songs_ahead = rd_then (rd_length songs_ahead_told_at_most) (\<lambda>n. rd_many n read_song)"

definition rd_people :: "(device_id \<times> bytes) list reader" where
  "rd_people = rd_then (rd_length people_told_at_most) (\<lambda>n. rd_many n rd_person)"

definition rd_party_now :: "party_now reader" where
  "rd_party_now =
     rd_then (rd_option read_song) (\<lambda>song.
     rd_then rd_songs_ahead (\<lambda>following.
     rd_then rd_flag (\<lambda>playing.
     rd_then rd_number (\<lambda>pos.
     rd_then rd_number (\<lambda>anchor.
     rd_then rd_flag (\<lambda>coarse.
     rd_ok \<lparr>pn_song = song, pn_next = following, pn_playing = playing, pn_position_nanos = pos,
        pn_anchor_nanos = anchor, pn_coarse = coarse\<rparr>))))))"

definition rd_said :: "party_said reader" where
  "rd_said = rd_then rd_byte (\<lambda>tag.
     if tag = 0 then rd_then rd_text (\<lambda>name. rd_ok (Hello name))
     else if tag = 1 then rd_then rd_people (\<lambda>people. rd_ok (People people))
     else if tag = 2 then rd_then rd_party_now (\<lambda>n. rd_ok (Now n))
     else if tag = 3 then rd_then read_song (\<lambda>s. rd_ok (Ask s))
     else rd_fail (BadTag tag))"

definition said_decoded :: "bytes \<Rightarrow> malformed + party_said" where
  "said_decoded = rd_whole rd_said"

subsection \<open>Songs and people\<close>

definition party_song_ok :: "party_song \<Rightarrow> bool" where
  "party_song_ok s \<longleftrightarrow> recording_ok (ps_recording s) \<and> pred_option utf8 (ps_isrc s)"

definition sent_party_song :: "party_song \<Rightarrow> party_song" where
  "sent_party_song s = s\<lparr>ps_recording := sent_recording (ps_recording s),
     ps_isrc := map_option within_the_longest_text (ps_isrc s)\<rparr>"

definition person_ok :: "device_id \<times> bytes \<Rightarrow> bool" where
  "person_ok p \<longleftrightarrow> device_ok (fst p) \<and> utf8 (snd p)"

definition sent_person :: "device_id \<times> bytes \<Rightarrow> device_id \<times> bytes" where
  "sent_person p = (fst p, within_the_longest_text (snd p))"

definition party_now_ok :: "party_now \<Rightarrow> bool" where
  "party_now_ok n \<longleftrightarrow> pred_option party_song_ok (pn_song n) \<and> list_all party_song_ok (pn_next n)"

definition sent_party_now :: "party_now \<Rightarrow> party_now" where
  "sent_party_now n = n\<lparr>pn_song := map_option sent_party_song (pn_song n),
     pn_next := map sent_party_song (take songs_ahead_told_at_most (pn_next n))\<rparr>"

fun said_ok :: "party_said \<Rightarrow> bool" where
  "said_ok (Hello name) \<longleftrightarrow> utf8 name"
| "said_ok (People people) \<longleftrightarrow> list_all person_ok people \<and> length people \<le> people_told_at_most"
| "said_ok (Now n) \<longleftrightarrow> party_now_ok n"
| "said_ok (Ask s) \<longleftrightarrow> party_song_ok s"

fun sent_said :: "party_said \<Rightarrow> party_said" where
  "sent_said (Hello name) = Hello (within_the_longest_text name)"
| "sent_said (People people) = People (map sent_person people)"
| "sent_said (Now n) = Now (sent_party_now n)"
| "sent_said (Ask s) = Ask (sent_party_song s)"

interpretation party_songs: sized_codec party_song_ok written_song read_song sent_party_song 1
proof
  show "read_song (written_song s @ rest) = Inr (sent_party_song s, rest)" if "party_song_ok s" for s rest
    using that by (simp add: read_song_def written_song_def party_song_ok_def sent_party_song_def reads texts.option_read_back)
  show "grows read_song" unfolding read_song_def by (intro growing)
  show "1 \<le> length (written_song s)" for s
    using number_nonempty [of "ps_row s"] by (simp add: written_song_def)
qed

interpretation party_people: sized_codec person_ok wr_person rd_person sent_person device_bytes
proof
  show "rd_person (wr_person p @ rest) = Inr (sent_person p, rest)" if "person_ok p" for p rest
    using that by (simp add: rd_person_def wr_person_def person_ok_def sent_person_def reads)
  show "grows rd_person" unfolding rd_person_def by (intro growing)
  show "device_bytes \<le> length (wr_person p)" if "person_ok p" for p
    using that by (simp add: wr_person_def person_ok_def device_ok_def)
qed

context sized_codec
begin

lemma length_read_back:
  assumes "list_all ok xs" and "length xs \<le> most" and "most \<le> u64_max" and "0 < least"
  shows "rd_then (rd_length most) (\<lambda>n. rd_many n rd) (wr_list wr xs @ rest) = Inr (map sent xs, rest)"
proof -
  have "length xs \<le> least * length xs" using assms(4) by (cases least) simp_all
  also have "\<dots> \<le> length (concat (map wr xs))" by (rule all_long_enough [OF assms(1)])
  finally have "length xs \<le> length (concat (map wr xs) @ rest)" by simp
  then show ?thesis using assms(2,3) many [OF assms(1)] by (simp add: wr_list_def rd_length_written)
qed

end

lemma songs_ahead_read [reads]:
  "list_all party_song_ok ss \<Longrightarrow> rd_songs_ahead (wr_list written_song (take songs_ahead_told_at_most ss) @ rest) =
     Inr (map sent_party_song (take songs_ahead_told_at_most ss), rest)"
  unfolding rd_songs_ahead_def
  by (rule party_songs.length_read_back) (simp_all add: list_all_take songs_ahead_told_at_most_def u64_max_def)

lemma people_read [reads]:
  "list_all person_ok people \<Longrightarrow> length people \<le> people_told_at_most \<Longrightarrow>
     rd_people (wr_list wr_person people @ rest) = Inr (map sent_person people, rest)"
  unfolding rd_people_def
  by (rule party_people.length_read_back) (simp_all add: people_told_at_most_def device_bytes_def u64_max_def)

lemma grows_party_lists [growing]: "grows rd_songs_ahead" "grows rd_people"
  unfolding rd_songs_ahead_def rd_people_def by (intro growing party_songs.growing party_people.growing)+

interpretation said: codec said_ok said_encoded rd_said sent_said
proof
  show "grows rd_said"
    unfolding rd_said_def rd_party_now_def by (intro growing party_songs.growing)
  show "rd_said (said_encoded m @ rest) = Inr (sent_said m, rest)" if "said_ok m" for m rest
    using that
    by (cases m) (simp_all add: rd_said_def rd_party_now_def party_now_ok_def sent_party_now_def reads
        party_songs.read_back party_songs.option_read_back)
qed

subsection \<open>What is heard\<close>

lemma gives_party_song: "gives (\<lambda>s. party_song_ok s \<and> sent_party_song s = s) read_song"
  unfolding read_song_def
  by (intro giving gives_optional [OF gives_text, THEN gives_then]) (simp add: party_song_ok_def sent_party_song_def arrived)

lemma gives_person: "gives (\<lambda>p. person_ok p \<and> sent_person p = p) rd_person"
  unfolding rd_person_def by (intro giving) (simp add: person_ok_def sent_person_def)

lemma gives_songs_ahead:
  "gives (\<lambda>ss. list_all (\<lambda>s. party_song_ok s \<and> sent_party_song s = s) ss \<and> length ss \<le> songs_ahead_told_at_most) rd_songs_ahead"
  unfolding rd_songs_ahead_def by (rule gives_weaken [OF gives_listed [OF gives_party_song gives_length]]) simp

lemma gives_people:
  "gives (\<lambda>ps. list_all (\<lambda>p. person_ok p \<and> sent_person p = p) ps \<and> length ps \<le> people_told_at_most) rd_people"
  unfolding rd_people_def by (rule gives_weaken [OF gives_listed [OF gives_person gives_length]]) simp

lemma gives_party_now: "gives (\<lambda>n. party_now_ok n \<and> sent_party_now n = n) rd_party_now"
  unfolding rd_party_now_def
  by (intro giving gives_optional [OF gives_party_song, THEN gives_then] gives_then [OF gives_songs_ahead])
    (auto simp: party_now_ok_def sent_party_now_def arrived)

lemma gives_said: "gives (\<lambda>m. said_ok m \<and> sent_said m = m) rd_said"
  unfolding rd_said_def
  by (intro giving gives_then [OF gives_party_song] gives_then [OF gives_people] gives_then [OF gives_party_now])
    (auto simp: arrived)

interpretation said_arriving: faithful_codec said_ok said_encoded rd_said sent_said
  by unfold_locales (rule gives_said)

text \<open>A host that names more people than a guest reads says something no guest can read.\<close>

lemma too_many_people:
  assumes "people_told_at_most < length people" and "length people \<le> u64_max"
  shows "said_decoded (said_encoded (People people)) = Inl (Overlong (length people))"
proof -
  have "unat (of_nat (length people) :: u64) = length people"
    using assms(2) by (simp add: unsigned_of_nat take_bit_nat_eq_self u64_max_def)
  then show ?thesis
    using assms by (simp add: said_decoded_def rd_whole_def rd_said_def reads wr_list_def wr_length_def rd_length_def rd_people_def)
qed

end
