(* ===== verification/PartyClock.thy ===== *)
theory PartyClock
  imports PartySaid
begin

text \<open>
  The clock a party goes by (\<open>ServerClock\<close> of \<open>crates/resonate-sync/src/party/clock.rs\<close>): how far the
  server's clock is ahead of this machine's, by the quickest answer of the last minute. Sums of
  two 64-bit readings are taken in 128 bits, which hold them; they are integers here.
\<close>

definition clock_window :: u64 where
  "clock_window = 60000000000"

definition a_gap_forgets_the_window_past :: u64 where
  "a_gap_forgets_the_window_past = 10000000000"

record sample =
  sm_heard_at :: u64
  sm_round_trip :: u64
  sm_server_ahead_by :: int

type_synonym server_clock = "sample list"

definition u64_checked_sub :: "u64 \<Rightarrow> u64 \<Rightarrow> u64 option" where
  "u64_checked_sub a b = (if b \<le> a then Some (a - b) else None)"

definition taken_sample :: "u64 \<Rightarrow> u64 \<Rightarrow> u64 \<Rightarrow> u64 \<Rightarrow> sample" where
  "taken_sample sent_at server_at heard_at round_trip =
     (let midway = int (unat sent_at) + int (unat (round_trip div 2))
      in \<lparr>sm_heard_at = heard_at, sm_round_trip = round_trip, sm_server_ahead_by = int (unat server_at) - midway\<rparr>)"

definition answered :: "u64 \<Rightarrow> u64 \<Rightarrow> u64 \<Rightarrow> server_clock \<Rightarrow> server_clock" where
  "answered sent_at server_at heard_at samples =
     (case u64_checked_sub heard_at sent_at of
        None \<Rightarrow> samples
      | Some round_trip \<Rightarrow>
          let gone = (case back_of samples of None \<Rightarrow> False
                | Some latest \<Rightarrow> saturating_sub sent_at (sm_heard_at latest) > a_gap_forgets_the_window_past);
              kept = (if gone then [] else samples)
          in dropWhile (\<lambda>oldest. saturating_sub heard_at (sm_heard_at oldest) > clock_window)
               (kept @ [taken_sample sent_at server_at heard_at round_trip]))"

text \<open>The first of the samples whose round trip is the least.\<close>

fun best :: "server_clock \<Rightarrow> sample option" where
  "best [] = None"
| "best (s # ss) = (case best ss of None \<Rightarrow> Some s
     | Some t \<Rightarrow> Some (if sm_round_trip s \<le> sm_round_trip t then s else t))"

definition round_trip_of :: "server_clock \<Rightarrow> duration option" where
  "round_trip_of samples = map_option (\<lambda>s.
     \<lparr>dur_secs = unat (sm_round_trip s) div 1000000000, dur_nanos = unat (sm_round_trip s) mod 1000000000\<rparr>) (best samples)"

definition in_u64 :: "int \<Rightarrow> u64 option" where
  "in_u64 i = (if 0 \<le> i \<and> i \<le> int u64_max then Some (of_int i) else None)"

definition to_server_clock :: "server_clock \<Rightarrow> u64 \<Rightarrow> u64 option" where
  "to_server_clock samples here = Option.bind (best samples) (\<lambda>b. in_u64 (int (unat here) + sm_server_ahead_by b))"

definition from_server_clock :: "server_clock \<Rightarrow> u64 \<Rightarrow> u64 option" where
  "from_server_clock samples there = Option.bind (best samples) (\<lambda>b. in_u64 (int (unat there) - sm_server_ahead_by b))"

text \<open>The answers a machine hears, one after another: when each was asked, the server's clock, when it was heard.\<close>

definition answers_heard :: "(u64 \<times> u64 \<times> u64) list \<Rightarrow> server_clock" where
  "answers_heard as = fold (\<lambda>(sent_at, server_at, heard_at). answered sent_at server_at heard_at) as []"

lemma in_u64_Some: "in_u64 i = Some v \<longleftrightarrow> i = int (unat v)"
proof
  assume "in_u64 i = Some v"
  then have i: "0 \<le> i" "i \<le> int u64_max" "v = of_int i" by (auto simp: in_u64_def split: if_splits)
  then have "int (unat v) = take_bit 64 i" by (simp add: unsigned_of_int)
  also have "\<dots> = i" using i by (intro take_bit_int_eq_self) (simp_all add: u64_max_def)
  finally show "i = int (unat v)" by simp
next
  assume i: "i = int (unat v)"
  moreover have "uint v \<le> int u64_max" using unsigned_less [where 'b = 64 and 'a = int, of v] by (simp add: u64_max_def)
  ultimately show "in_u64 i = Some v" by (simp add: in_u64_def)
qed

lemma best_is: "best samples = Some b \<Longrightarrow> b \<in> set samples \<and> (\<forall>s\<in>set samples. sm_round_trip b \<le> sm_round_trip s)"
proof (induction samples arbitrary: b)
  case (Cons s ss)
  show ?case
  proof (cases "best ss")
    case None
    then have "ss = []" by (cases ss) (auto split: option.splits)
    then show ?thesis using Cons.prems None by simp
  next
    case (Some t)
    then show ?thesis using Cons by (auto split: if_splits dest: order.trans)
  qed
qed simp

lemma best_some: "samples \<noteq> [] \<Longrightarrow> best samples \<noteq> None"
  by (cases samples) (auto split: option.split)

text \<open>
  What it takes for an answer to be true: the server read its clock, ahead of this machine's by
  \<open>ahead\<close>, at some moment between the asking and the hearing.
\<close>

definition true_answer :: "int \<Rightarrow> u64 \<times> u64 \<times> u64 \<Rightarrow> bool" where
  "true_answer ahead a = (case a of (sent_at, server_at, heard_at) \<Rightarrow>
     int (unat sent_at) + ahead \<le> int (unat server_at) \<and> int (unat server_at) \<le> int (unat heard_at) + ahead)"

definition near_enough :: "int \<Rightarrow> sample \<Rightarrow> bool" where
  "near_enough ahead s \<longleftrightarrow> 2 * \<bar>sm_server_ahead_by s - ahead\<bar> \<le> int (unat (sm_round_trip s)) + 1"

lemma taken_near:
  assumes "true_answer ahead (sent_at, server_at, heard_at)" and "sent_at \<le> heard_at"
  shows "near_enough ahead (taken_sample sent_at server_at heard_at (heard_at - sent_at))"
proof -
  have trip: "int (unat (heard_at - sent_at)) = int (unat heard_at) - int (unat sent_at)"
    using assms(2) by (simp add: unat_sub_if_size word_le_nat_alt)
  have half: "int (unat ((heard_at - sent_at) div 2)) = int (unat (heard_at - sent_at)) div 2"
    by (simp add: unat_div zdiv_int)
  have middle: "2 * \<bar>v - (s + (h - s) div 2) - ahead\<bar> \<le> h - s + 1" if "s + ahead \<le> v" "v \<le> h + ahead" for s h v :: int
  proof -
    have "2 * ((h - s) div 2) \<le> h - s" "h - s \<le> 2 * ((h - s) div 2) + 1" by presburger+
    then have "- (h - s + 1) \<le> 2 * (v - (s + (h - s) div 2) - ahead)" "2 * (v - (s + (h - s) div 2) - ahead) \<le> h - s + 1"
      using that by (simp_all only: right_diff_distrib distrib_left)
    moreover have "2 * \<bar>x\<bar> \<le> t" if "- t \<le> 2 * x" "2 * x \<le> t" for x t :: int using that by linarith
    ultimately show ?thesis by blast
  qed
  show ?thesis
    using assms(1) middle unfolding near_enough_def taken_sample_def true_answer_def Let_def sample.simps half trip
    by simp
qed

lemma answered_near:
  assumes "\<forall>s\<in>set samples. near_enough ahead s" and "true_answer ahead (sent_at, server_at, heard_at)"
  shows "\<forall>s\<in>set (answered sent_at server_at heard_at samples). near_enough ahead s"
  using assms taken_near [of ahead sent_at server_at heard_at]
  by (auto simp: answered_def u64_checked_sub_def Let_def dest!: set_dropWhileD split: if_splits)

lemma heard_near:
  assumes "list_all (true_answer ahead) as"
  shows "\<forall>s\<in>set (answers_heard as). near_enough ahead s"
proof -
  have "\<forall>s\<in>set (fold (\<lambda>(sent_at, server_at, heard_at). answered sent_at server_at heard_at) as samples). near_enough ahead s"
    if "\<forall>s\<in>set samples. near_enough ahead s" for samples
    using assms that
  proof (induction as arbitrary: samples)
    case (Cons a as)
    obtain sent_at server_at heard_at where a: "a = (sent_at, server_at, heard_at)" by (cases a)
    then have "\<forall>s\<in>set (answered sent_at server_at heard_at samples). near_enough ahead s"
      using Cons.prems by (intro answered_near) simp_all
    then show ?case using Cons.IH Cons.prems(1) by (simp add: a)
  qed simp
  from this [of "[]"] show ?thesis by (simp add: answers_heard_def)
qed

text \<open>So what the clock makes of a moment is wrong by half the quickest round trip at most.\<close>

lemma clock_near:
  assumes "list_all (true_answer ahead) as" and "to_server_clock (answers_heard as) here = Some there"
    and "s \<in> set (answers_heard as)"
  shows "2 * \<bar>int (unat there) - (int (unat here) + ahead)\<bar> \<le> int (unat (sm_round_trip s)) + 1"
proof -
  obtain b where b: "best (answers_heard as) = Some b" "int (unat there) = int (unat here) + sm_server_ahead_by b"
    using assms(2) by (auto simp: to_server_clock_def in_u64_Some split: Option.bind_splits)
  then have "near_enough ahead b" "sm_round_trip b \<le> sm_round_trip s"
    using best_is heard_near [OF assms(1)] assms(3) by blast+
  then show ?thesis using b(2) by (simp add: near_enough_def word_le_def)
qed

lemma there_and_back: "to_server_clock samples here = Some there \<longleftrightarrow> best samples \<noteq> None \<and> from_server_clock samples there = Some here"
  by (cases "best samples") (auto simp: to_server_clock_def from_server_clock_def in_u64_Some)

text \<open>While a machine's own clock goes forward, no sample is kept that is older than the window.\<close>

definition heard_in_order :: "server_clock \<Rightarrow> bool" where
  "heard_in_order samples \<longleftrightarrow> sorted_wrt (\<lambda>s t. sm_heard_at s \<le> sm_heard_at t) samples"

definition in_window :: "server_clock \<Rightarrow> bool" where
  "in_window samples \<longleftrightarrow> heard_in_order samples \<and>
     (\<forall>latest. back_of samples = Some latest \<longrightarrow>
        (\<forall>s\<in>set samples. unat (sm_heard_at latest) - unat (sm_heard_at s) \<le> unat clock_window))"

lemma saturating_sub_unat: "unat (saturating_sub a b) = unat a - unat b"
  by (simp add: saturating_sub_def word_less_nat_alt unat_sub word_le_nat_alt)

lemma answered_in_window:
  assumes "heard_in_order samples" and "\<forall>s\<in>set samples. sm_heard_at s \<le> heard_at" and "sent_at \<le> heard_at"
  shows "in_window (answered sent_at server_at heard_at samples) \<and> answered sent_at server_at heard_at samples \<noteq> []"
proof -
  let ?new = "taken_sample sent_at server_at heard_at (heard_at - sent_at)"
  define kept where "kept = (if (case back_of samples of None \<Rightarrow> False
      | Some latest \<Rightarrow> saturating_sub sent_at (sm_heard_at latest) > a_gap_forgets_the_window_past) then [] else samples)"
  let ?old = "\<lambda>oldest. saturating_sub heard_at (sm_heard_at oldest) > clock_window"
  have new: "sm_heard_at ?new = heard_at" "\<not> ?old ?new"
    by (simp_all add: taken_sample_def Let_def saturating_sub_def)
  have order: "heard_in_order (kept @ [?new])"
    using assms(1,2) new(1) by (auto simp: kept_def heard_in_order_def sorted_wrt_append)
  define after where "after = dropWhile ?old (kept @ [?new])"
  have last: "after \<noteq> []" "last after = ?new"
    using new(2) by (auto simp: after_def dropWhile_append split: if_splits)
  have sorted: "sorted_wrt (\<lambda>s t. sm_heard_at s \<le> sm_heard_at t) after"
    using order unfolding after_def heard_in_order_def by (rule sorted_wrt_dropWhile)
  have "\<not> ?old (hd after)" using last(1) unfolding after_def by (rule hd_dropWhile)
  then have "unat heard_at - unat (sm_heard_at (hd after)) \<le> unat clock_window"
    by (simp add: word_less_nat_alt saturating_sub_unat not_less)
  moreover have "unat (sm_heard_at (hd after)) \<le> unat (sm_heard_at s)" if "s \<in> set after" for s
    using sorted last(1) that by (cases after) (auto simp: word_le_nat_alt)
  ultimately have "\<forall>s\<in>set after. unat heard_at - unat (sm_heard_at s) \<le> unat clock_window"
    by (meson diff_le_mono2 le_trans)
  then have "in_window after"
    using sorted last new(1) by (auto simp: in_window_def heard_in_order_def back_of_def)
  moreover have "answered sent_at server_at heard_at samples = after"
    using assms(3) by (simp add: answered_def u64_checked_sub_def Let_def after_def kept_def)
  ultimately show ?thesis using last(1) by simp
qed

end
