(* ===== verification/PartyFollow.thy ===== *)
theory PartyFollow
  imports PartyClock
begin

text \<open>
  A guest following the host of a party (\<open>crates/resonate-sync/src/party/follow.rs\<close>, \<open>ahead.rs\<close>):
  five times a second it looks at what the host plays and what it plays itself, and does at most
  one thing. Times and positions are nanoseconds in 64 bits.
\<close>

definition out_of_step_past :: u64 where
  "out_of_step_past = 40000000"

definition far_enough_to_seek :: u64 where
  "far_enough_to_seek = 2000000000"

definition samples_before_a_nudge :: u32 where
  "samples_before_a_nudge = 5"

definition nudges_apart :: u64 where
  "nudges_apart = 5000000000"

definition handed_on_within :: u64 where
  "handed_on_within = 2000000000"

definition pauses_seen_before_sitting_out :: u32 where
  "pauses_seen_before_sitting_out = 3"

datatype mine = MinePlaying | MinePaused | MineStopped

record seen =
  sn_now_nanos :: u64
  sn_host_row :: "u64 option"
  sn_host_next :: "u64 list"
  sn_host_playing :: bool
  sn_host_position :: "u64 option"
  sn_coarse :: bool
  sn_mine :: mine
  sn_mine_row :: "u64 option"
  sn_mine_position :: "u64 option"

datatype follow_doing = DoNothing | DoFind u64 | DoPause | DoPlay | DoNudge | DoSeek u64

datatype sitting_out = NotHeld | CannotStartMidSong | AskedTo

datatype follow_standing = WaitingForTheHost | Finding | SittingOut sitting_out | HostPaused | InStep

record follow =
  fo_finding :: "u64 option"
  fo_out_for :: "(u64 \<times> sitting_out) option"
  fo_asked_out :: bool
  fo_pauses_seen :: u32
  fo_meant_to_play :: bool
  fo_over :: u32
  fo_last_moved_at :: "u64 option"
  fo_handing_on_since :: "u64 option"
  fo_last_host_row :: "u64 option"
  fo_last_host_next :: "u64 list"
  fo_aligned_row :: "u64 option"
  fo_standing :: "follow_standing option"

definition follow_start :: follow where
  "follow_start = \<lparr>fo_finding = None, fo_out_for = None, fo_asked_out = False, fo_pauses_seen = 0,
     fo_meant_to_play = False, fo_over = 0, fo_last_moved_at = None, fo_handing_on_since = None,
     fo_last_host_row = None, fo_last_host_next = [], fo_aligned_row = None, fo_standing = None\<rparr>"

definition follow_standing_of :: "follow \<Rightarrow> follow_standing" where
  "follow_standing_of f = (case fo_standing f of None \<Rightarrow> WaitingForTheHost | Some s \<Rightarrow> s)"

definition song_found :: "u64 \<Rightarrow> bool \<Rightarrow> follow \<Rightarrow> follow" where
  "song_found row is_held f =
     (let f = (if fo_finding f = Some row then f\<lparr>fo_finding := None\<rparr> else f)
      in if is_held then f else f\<lparr>fo_out_for := Some (row, NotHeld)\<rparr>)"

definition song_loaded :: "u64 \<Rightarrow> bool \<Rightarrow> u64 \<Rightarrow> follow \<Rightarrow> follow" where
  "song_loaded row sounding now_nanos f =
     f\<lparr>fo_meant_to_play := sounding, fo_over := 0, fo_aligned_row := Some row, fo_last_moved_at := Some now_nanos\<rparr>"

definition cannot_start_mid_song :: "u64 \<Rightarrow> follow \<Rightarrow> follow" where
  "cannot_start_mid_song row f = f\<lparr>fo_out_for := Some (row, CannotStartMidSong)\<rparr>"

definition stood :: "follow_standing \<Rightarrow> follow_doing \<Rightarrow> follow \<Rightarrow> follow_doing \<times> follow" where
  "stood s does f =
     (let f = f\<lparr>fo_standing := Some s\<rparr>
      in (does, if does = DoPause then f\<lparr>fo_meant_to_play := False\<rparr> else f))"

definition handing_on :: "seen \<Rightarrow> u64 \<Rightarrow> follow \<Rightarrow> bool \<times> follow" where
  "handing_on s host_row f =
     (let handed = (case sn_mine_row s of None \<Rightarrow> False
        | Some m \<Rightarrow> m \<in> set (sn_host_next s) \<or> (fo_last_host_row f = Some m \<and> host_row \<in> set (fo_last_host_next f)))
      in if \<not> handed then (False, f\<lparr>fo_handing_on_since := None\<rparr>)
         else let since = (case fo_handing_on_since f of None \<Rightarrow> sn_now_nanos s | Some t \<Rightarrow> t)
              in (saturating_sub (sn_now_nanos s) since < handed_on_within, f\<lparr>fo_handing_on_since := Some since\<rparr>))"

definition abs_diff :: "u64 \<Rightarrow> u64 \<Rightarrow> u64" where
  "abs_diff a b = (if a < b then b - a else a - b)"

definition u32_saturating_suc :: "u32 \<Rightarrow> u32" where
  "u32_saturating_suc v = (if v = - 1 then v else v + 1)"

definition keeping_step :: "seen \<Rightarrow> u64 \<Rightarrow> follow \<Rightarrow> follow_doing \<times> follow" where
  "keeping_step s host_row f = (case (sn_mine_position s, sn_host_position s) of
     (Some m, Some host) \<Rightarrow>
       (let apart = abs_diff m host
        in if apart \<le> out_of_step_past then (DoNothing, f\<lparr>fo_over := 0\<rparr>)
           else let f = f\<lparr>fo_over := u32_saturating_suc (fo_over f)\<rparr>
                in if fo_over f < samples_before_a_nudge then (DoNothing, f)
                   else if (case fo_last_moved_at f of None \<Rightarrow> False
                            | Some moved \<Rightarrow> saturating_sub (sn_now_nanos s) moved < nudges_apart) then (DoNothing, f)
                   else if sn_coarse s \<and> fo_aligned_row f = Some host_row then (DoNothing, f)
                   else let f = f\<lparr>fo_over := 0, fo_last_moved_at := Some (sn_now_nanos s), fo_aligned_row := Some host_row\<rparr>
                        in (if apart > far_enough_to_seek then DoSeek host else DoNudge, f))
   | _ \<Rightarrow> (DoNothing, f))"

definition step_in_step :: "seen \<Rightarrow> u64 \<Rightarrow> follow \<Rightarrow> follow_doing \<times> follow" where
  "step_in_step s host_row f =
     (if \<not> sn_host_playing s then stood HostPaused (if sn_mine s = MinePlaying then DoPause else DoNothing) f
      else if sn_mine s \<noteq> MinePlaying then
        stood InStep DoPlay (f\<lparr>fo_meant_to_play := True, fo_over := samples_before_a_nudge, fo_last_moved_at := None\<rparr>)
      else case keeping_step s host_row f of (does, f) \<Rightarrow> stood InStep does f)"

definition step_on_the_song :: "seen \<Rightarrow> u64 \<Rightarrow> follow \<Rightarrow> follow_doing \<times> follow" where
  "step_on_the_song s host_row f =
     (if sn_mine_row s \<noteq> Some host_row then
        case handing_on s host_row f of (handed, f) \<Rightarrow>
          if handed then stood InStep DoNothing f
          else if fo_finding f = Some host_row then stood Finding DoNothing f
          else stood Finding (DoFind host_row) (f\<lparr>fo_finding := Some host_row\<rparr>)
      else step_in_step s host_row (f\<lparr>fo_handing_on_since := None\<rparr>))"

definition step_with_a_song :: "seen \<Rightarrow> u64 \<Rightarrow> follow \<Rightarrow> follow_doing \<times> follow" where
  "step_with_a_song s host_row f = (case fo_out_for f of
     Some (row, why) \<Rightarrow>
       if row = host_row then stood (SittingOut why) (if sn_mine s = MinePlaying then DoPause else DoNothing) f
       else step_on_the_song s host_row (f\<lparr>fo_out_for := None\<rparr>)
   | None \<Rightarrow> step_on_the_song s host_row f)"

text \<open>Where the guest is paused though it was meant to play; \<open>None\<close> is going on with the step.\<close>

definition pauses_counted :: "seen \<Rightarrow> follow \<Rightarrow> follow_doing option \<times> follow" where
  "pauses_counted s f =
     (if fo_meant_to_play f \<and> sn_mine s = MinePaused then
        let f = f\<lparr>fo_pauses_seen := u32_saturating_suc (fo_pauses_seen f)\<rparr>
        in if fo_pauses_seen f < pauses_seen_before_sitting_out then (Some DoNothing, f)
           else (None, f\<lparr>fo_pauses_seen := 0, fo_asked_out := True, fo_meant_to_play := False\<rparr>)
      else (None, f\<lparr>fo_pauses_seen := 0\<rparr>))"

definition asked_back :: "follow \<Rightarrow> follow" where
  "asked_back f = f\<lparr>fo_asked_out := False, fo_over := samples_before_a_nudge, fo_last_moved_at := None,
     fo_meant_to_play := True\<rparr>"

definition step_beside_the_host :: "seen \<Rightarrow> follow \<Rightarrow> follow_doing \<times> follow" where
  "step_beside_the_host s f = (case sn_host_row s of
     None \<Rightarrow> stood WaitingForTheHost DoNothing f
   | Some host_row \<Rightarrow>
       case step_with_a_song s host_row f of (does, f) \<Rightarrow>
         (does, if fo_last_host_row f \<noteq> Some host_row
                then f\<lparr>fo_last_host_row := sn_host_row s, fo_last_host_next := sn_host_next s\<rparr> else f))"

definition follow_step :: "seen \<Rightarrow> follow \<Rightarrow> follow_doing \<times> follow" where
  "follow_step s f = (case pauses_counted s f of
     (Some does, f) \<Rightarrow> (does, f)
   | (None, f) \<Rightarrow>
       if fo_asked_out f then
         if sn_mine s \<noteq> MinePlaying then stood (SittingOut AskedTo) DoNothing f
         else step_beside_the_host s (asked_back f)
       else step_beside_the_host s f)"

subsection \<open>A guest's looks, one after another\<close>

datatype follow_event =
  Looks seen
| SongFound u64 bool
| SongLoaded u64 bool u64
| CannotStart u64

fun follow_by :: "follow_event \<Rightarrow> follow \<Rightarrow> follow_doing \<times> follow" where
  "follow_by (Looks s) f = follow_step s f"
| "follow_by (SongFound row is_held) f = (DoNothing, song_found row is_held f)"
| "follow_by (SongLoaded row sounding now) f = (DoNothing, song_loaded row sounding now f)"
| "follow_by (CannotStart row) f = (DoNothing, cannot_start_mid_song row f)"

text \<open>The steps a guest takes: from a state, by an event, doing something, to a state.\<close>

inductive follows :: "follow \<Rightarrow> (follow_event \<times> follow_doing) list \<Rightarrow> follow \<Rightarrow> bool" where
  follows_start: "follows f [] f"
| follows_on: "follows f es g \<Longrightarrow> follow_by e g = (does, h) \<Longrightarrow> follows f (es @ [(e, does)]) h"

inductive_cases follows_NilE: "follows f [] g"
inductive_cases follows_snocE: "follows f (es @ [(e, does)]) g"

subsection \<open>Moves are apart\<close>

definition moves :: "follow_doing \<Rightarrow> bool" where
  "moves does \<longleftrightarrow> does = DoNudge \<or> (\<exists>t. does = DoSeek t)"

lemma moves_simps [simp]:
  "\<not> moves DoNothing" "\<not> moves (DoFind r)" "\<not> moves DoPause" "\<not> moves DoPlay" "moves DoNudge" "moves (DoSeek t)"
  by (simp_all add: moves_def)

text \<open>How a look changes when the guest last moved and whether it sits out.\<close>

definition moved_well :: "seen \<Rightarrow> follow \<Rightarrow> follow_doing \<Rightarrow> follow \<Rightarrow> bool" where
  "moved_well s f does g \<longleftrightarrow> fo_asked_out g = fo_asked_out f \<and>
     (if moves does
      then fo_last_moved_at g = Some (sn_now_nanos s) \<and>
        (\<forall>t. fo_last_moved_at f = Some t \<longrightarrow> unat t + unat nudges_apart \<le> unat (sn_now_nanos s))
      else fo_last_moved_at g = fo_last_moved_at f)"

lemma stood_moved:
  "moved_well s f does g \<Longrightarrow> moved_well s f does (snd (stood st does g))"
  by (auto simp: moved_well_def stood_def Let_def)

lemma keeping_step_moved: "keeping_step s row f = (does, g) \<Longrightarrow> moved_well s f does g"
  by (auto simp: keeping_step_def moved_well_def Let_def word_less_nat_alt saturating_sub_unat not_less nudges_apart_def
      split: option.splits if_splits)

lemma step_in_step_moved:
  "step_in_step s row f = (does, g) \<Longrightarrow> sn_mine s = MinePlaying \<Longrightarrow> moved_well s f does g"
  using keeping_step_moved [of s row f]
  by (auto simp: step_in_step_def stood_def moved_well_def Let_def split: if_splits prod.splits)

lemma step_with_a_song_moved:
  assumes "step_with_a_song s row f = (does, g)" and "sn_mine s = MinePlaying"
  shows "moved_well s f does g"
  using assms step_in_step_moved
  by (fastforce simp: step_with_a_song_def step_on_the_song_def handing_on_def stood_def moved_well_def Let_def
      split: option.splits if_splits prod.splits)

lemma look_moved:
  assumes "follow_step s f = (does, g)" and "sn_mine s = MinePlaying" and "\<not> fo_asked_out f"
  shows "moved_well s f does g"
proof -
  have "step_beside_the_host s (f\<lparr>fo_pauses_seen := 0\<rparr>) = (does, g)"
    using assms by (simp add: follow_step_def pauses_counted_def)
  then show ?thesis
    using step_with_a_song_moved [of s _ "f\<lparr>fo_pauses_seen := 0\<rparr>"] assms(2)
    by (auto simp: step_beside_the_host_def stood_def moved_well_def Let_def split: option.splits prod.splits if_splits)
qed

text \<open>The guest is found playing whenever it looks; songs are found and loaded for it meanwhile.\<close>

definition plays_on :: "follow_event \<Rightarrow> bool" where
  "plays_on e \<longleftrightarrow> (case e of Looks s \<Rightarrow> sn_mine s = MinePlaying | _ \<Rightarrow> True)"

text \<open>
  The moments that count for when it may be moved: its moves, marked \<open>True\<close>, and the songs loaded
  for it, each with what its clock read.
\<close>

definition moment_of :: "follow_event \<times> follow_doing \<Rightarrow> (bool \<times> u64) list" where
  "moment_of ed = (case ed of
     (Looks s, does) \<Rightarrow> if moves does then [(True, sn_now_nanos s)] else []
   | (SongLoaded _ _ now, _) \<Rightarrow> [(False, now)]
   | _ \<Rightarrow> [])"

definition moments :: "(follow_event \<times> follow_doing) list \<Rightarrow> (bool \<times> u64) list" where
  "moments es = concat (map moment_of es)"

definition moved_times :: "(follow_event \<times> follow_doing) list \<Rightarrow> u64 list" where
  "moved_times es = map snd (filter fst (moments es))"

lemma moments_snoc: "moments (es @ [e]) = moments es @ moment_of e"
  by (simp add: moments_def)

definition moves_apart :: "bool \<times> u64 \<Rightarrow> bool \<times> u64 \<Rightarrow> bool" where
  "moves_apart a b \<longleftrightarrow> (fst b \<longrightarrow> unat (snd a) + unat nudges_apart \<le> unat (snd b))"

lemma follows_apart:
  assumes "follows f es g" and "\<not> fo_asked_out f" and "\<forall>e\<in>set es. plays_on (fst e)"
  shows "successively moves_apart (moments es) \<and> \<not> fo_asked_out g \<and>
    (moments es \<noteq> [] \<longrightarrow> fo_last_moved_at g = Some (snd (last (moments es))))"
  using assms
proof (induction rule: follows.induct)
  case (follows_start f)
  then show ?case by (simp add: moments_def)
next
  case (follows_on f es g e does h)
  then have IH: "successively moves_apart (moments es)" "\<not> fo_asked_out g"
    "moments es \<noteq> [] \<longrightarrow> fo_last_moved_at g = Some (snd (last (moments es)))" by simp_all
  have on: "plays_on e" using follows_on.prems by simp
  show ?case
  proof (cases e)
    case (Looks s)
    then have "moved_well s g does h" using follows_on.hyps(2) on IH(2) look_moved by (simp add: plays_on_def)
    then show ?thesis
      using IH Looks by (auto simp: moments_snoc moment_of_def successively_append_iff moved_well_def moves_apart_def)
  qed (use follows_on.hyps(2) IH in \<open>auto simp: moments_snoc moment_of_def song_found_def song_loaded_def
      cannot_start_mid_song_def successively_append_iff moves_apart_def Let_def split: if_splits\<close>)
qed

text \<open>Where the clock never goes back, any two moves are apart, not only one and the moment before it.\<close>

lemma moved_times_apart:
  assumes "successively moves_apart ms" and "sorted (map (\<lambda>m. unat (snd m)) ms)"
  shows "sorted_wrt (\<lambda>a b. unat a + unat nudges_apart \<le> unat b) (map snd (filter fst ms))"
  using assms
proof (induction ms rule: rev_induct)
  case (snoc m ms)
  have IH: "sorted_wrt (\<lambda>a b. unat a + unat nudges_apart \<le> unat b) (map snd (filter fst ms))"
    using snoc by (simp add: successively_append_iff sorted_append)
  have "unat a + unat nudges_apart \<le> unat (snd m)" if "fst m" "a \<in> set (map snd (filter fst ms))" for a
  proof -
    from that(2) obtain k where k: "k \<in> set ms" "a = snd k" by auto
    then have "unat a \<le> unat (snd (last ms))"
      using snoc.prems(2) by (cases ms rule: rev_cases) (auto simp: sorted_append)
    moreover have "moves_apart (last ms) m" using snoc.prems(1) k(1) by (auto simp: successively_append_iff)
    ultimately show ?thesis using that(1) by (simp add: moves_apart_def)
  qed
  then show ?case using IH by (cases "fst m") (simp_all add: sorted_wrt_append del: set_map set_filter)
qed simp

subsection \<open>What is asked for\<close>

definition finds :: "(follow_event \<times> follow_doing) list \<Rightarrow> u64 list" where
  "finds es = List.map_filter (\<lambda>(e, does). case does of DoFind row \<Rightarrow> Some row | _ \<Rightarrow> None) es"

lemma finds_snoc: "finds (es @ [(e, does)]) = finds es @ (case does of DoFind row \<Rightarrow> [row] | _ \<Rightarrow> [])"
  by (simp add: finds_def map_filter_def split: follow_doing.split)

definition found_well :: "follow \<Rightarrow> follow_doing \<Rightarrow> follow \<Rightarrow> bool" where
  "found_well f does g \<longleftrightarrow> (case does of
     DoFind row \<Rightarrow> fo_finding f \<noteq> Some row \<and> fo_finding g = Some row | _ \<Rightarrow> fo_finding g = fo_finding f)"

lemma keeping_step_found: "keeping_step s row f = (does, g) \<Longrightarrow> (\<forall>r. does \<noteq> DoFind r) \<and> fo_finding g = fo_finding f"
  by (auto simp: keeping_step_def Let_def split: option.splits if_splits)

lemma step_in_step_found: "step_in_step s row f = (does, g) \<Longrightarrow> (\<forall>r. does \<noteq> DoFind r) \<and> fo_finding g = fo_finding f"
  using keeping_step_found [of s row f]
  by (auto simp: step_in_step_def stood_def Let_def split: if_splits prod.splits)

lemma step_on_the_song_found: "step_on_the_song s row f = (does, g) \<Longrightarrow> found_well f does g"
  using step_in_step_found [of s row "f\<lparr>fo_handing_on_since := None\<rparr>" does g]
  by (auto simp: step_on_the_song_def handing_on_def stood_def found_well_def Let_def
      split: if_splits prod.splits follow_doing.split)

lemma step_with_a_song_found: "step_with_a_song s row f = (does, g) \<Longrightarrow> found_well f does g"
  using step_on_the_song_found [of s row f does g] step_on_the_song_found [of s row "f\<lparr>fo_out_for := None\<rparr>" does g]
  by (auto simp: step_with_a_song_def stood_def found_well_def Let_def split: option.splits if_splits follow_doing.splits)

lemma step_beside_found: "step_beside_the_host s f = (does, g) \<Longrightarrow> found_well f does g"
  using step_with_a_song_found [of s _ f does]
  by (fastforce simp: step_beside_the_host_def stood_def found_well_def Let_def
      split: option.splits prod.splits if_splits follow_doing.splits)

lemma look_found: "follow_step s f = (does, g) \<Longrightarrow> found_well f does g"
  using step_beside_found [of s "snd (pauses_counted s f)" does g] step_beside_found [of s "asked_back (snd (pauses_counted s f))" does g]
  by (auto simp: follow_step_def pauses_counted_def asked_back_def stood_def found_well_def Let_def
      split: if_splits follow_doing.splits)

definition not_found_yet :: "follow_event \<Rightarrow> bool" where
  "not_found_yet e \<longleftrightarrow> (case e of SongFound _ _ \<Rightarrow> False | _ \<Rightarrow> True)"

lemma distinct_adj_snoc: "distinct_adj (xs @ [x]) \<longleftrightarrow> distinct_adj xs \<and> (xs \<noteq> [] \<longrightarrow> last xs \<noteq> x)"
  by (auto simp: distinct_adj_append_iff)

lemma follows_finds:
  assumes "follows f es g" and "\<forall>e\<in>set es. not_found_yet (fst e)"
  shows "distinct_adj (finds es) \<and> (finds es \<noteq> [] \<longrightarrow> fo_finding g = Some (last (finds es)))"
  using assms
proof (induction rule: follows.induct)
  case (follows_start f)
  then show ?case by (simp add: finds_def map_filter_simps)
next
  case (follows_on f es g e does h)
  have "found_well g does h"
    using follows_on.hyps(2) follows_on.prems look_found
    by (cases e) (auto simp: not_found_yet_def found_well_def song_loaded_def cannot_start_mid_song_def)
  then show ?case
    using follows_on.IH follows_on.prems
    by (auto simp: finds_snoc found_well_def distinct_adj_snoc split: follow_doing.splits)
qed

subsection \<open>Out of step is not for long\<close>

fun doings :: "follow \<Rightarrow> follow_event list \<Rightarrow> follow_doing list" where
  "doings f [] = []"
| "doings f (e # es) = (case follow_by e f of (does, g) \<Rightarrow> does # doings g es)"

definition after_all :: "follow \<Rightarrow> follow_event list \<Rightarrow> follow" where
  "after_all f es = fold (\<lambda>e f. snd (follow_by e f)) es f"

lemma doings_snoc: "doings f (es @ [e]) = doings f es @ [fst (follow_by e (after_all f es))]"
  by (induction es arbitrary: f) (simp_all add: after_all_def case_prod_beta)

lemma after_all_snoc: "after_all f (es @ [e]) = snd (follow_by e (after_all f es))"
  by (simp add: after_all_def)

lemma length_doings [simp]: "length (doings f es) = length es"
  by (induction es arbitrary: f) (simp_all add: case_prod_beta)

lemma follows_doings: "follows f (zip es (doings f es)) (after_all f es)"
proof (induction es rule: rev_induct)
  case Nil
  then show ?case by (simp add: after_all_def follows_start)
next
  case (snoc e es)
  show ?case
    using follows_on [OF snoc.IH surjective_pairing [of "follow_by e (after_all f es)"]]
    by (simp add: doings_snoc after_all_snoc zip_append)
qed

text \<open>
  A look that finds the guest playing the song the host plays, both known where, further apart than
  is let pass. What stands still then is a guest of a host whose place is known only coarsely, once
  it has been lined up with it for the song.
\<close>

definition off_step :: "u64 \<Rightarrow> seen \<Rightarrow> bool" where
  "off_step row s \<longleftrightarrow> sn_host_row s = Some row \<and> sn_host_playing s \<and>
     sn_mine s = MinePlaying \<and> sn_mine_row s = Some row \<and>
     (case (sn_mine_position s, sn_host_position s) of
        (Some m, Some host) \<Rightarrow> abs_diff m host > out_of_step_past | _ \<Rightarrow> False)"

definition lined_up :: "u64 \<Rightarrow> seen \<Rightarrow> follow \<Rightarrow> bool" where
  "lined_up row s f \<longleftrightarrow> sn_coarse s \<and> fo_aligned_row f = Some row"

definition sits_in :: "u64 \<Rightarrow> follow \<Rightarrow> bool" where
  "sits_in row f \<longleftrightarrow> \<not> fo_asked_out f \<and> (\<forall>why. fo_out_for f \<noteq> Some (row, why))"

lemma u32_suc: "min 5 (unat v + 1) \<le> unat (u32_saturating_suc v)"
proof (cases "v = - 1")
  case False
  then have "unat (v + 1) = unat v + 1" using unat_eq_zero unatSuc [of v] by (simp add: eq_neg_iff_add_eq_0 add.commute)
  then show ?thesis using False by (simp add: u32_saturating_suc_def)
qed (simp add: u32_saturating_suc_def unsigned_minus_1_eq_mask mask_eq_exp_minus_1)

definition held_back :: "u64 \<Rightarrow> seen \<Rightarrow> follow \<Rightarrow> bool" where
  "held_back row s f \<longleftrightarrow> lined_up row s f \<or>
     (\<exists>t. fo_last_moved_at f = Some t \<and> unat (sn_now_nanos s) < unat t + unat nudges_apart)"

text \<open>What a look out of step does: a move, which lines the guest up, or one more such look counted.\<close>

definition looked_off :: "u64 \<Rightarrow> seen \<Rightarrow> follow \<Rightarrow> follow_doing \<Rightarrow> follow \<Rightarrow> bool" where
  "looked_off row s f does g \<longleftrightarrow>
     (if moves does then \<not> lined_up row s f \<and> fo_aligned_row g = Some row
      else fo_aligned_row g = fo_aligned_row f \<and> fo_last_moved_at g = fo_last_moved_at f \<and>
        min 5 (unat (fo_over f) + 1) \<le> unat (fo_over g) \<and> (unat (fo_over g) < 5 \<or> held_back row s f))"

lemma off_step_keeping:
  assumes "off_step row s" and "keeping_step s row f = (does, g)"
  shows "fo_asked_out g = fo_asked_out f \<and> fo_out_for g = fo_out_for f \<and> looked_off row s f does g"
  using assms u32_suc [of "fo_over f"]
  by (auto simp: off_step_def keeping_step_def Let_def samples_before_a_nudge_def word_less_nat_alt word_le_nat_alt
      saturating_sub_unat nudges_apart_def looked_off_def held_back_def lined_up_def split: option.splits if_splits)

lemma off_look:
  assumes "off_step row s" and "sits_in row f" and "follow_step s f = (does, g)"
  shows "sits_in row g \<and> looked_off row s f does g"
proof -
  define f' where "f' = f\<lparr>fo_pauses_seen := 0, fo_out_for := None, fo_handing_on_since := None\<rparr>"
  have s: "sn_host_row s = Some row" "sn_host_playing s" "sn_mine s = MinePlaying" "sn_mine_row s = Some row"
    using assms(1) by (auto simp: off_step_def)
  obtain does' g' where keeps: "keeping_step s row f' = (does', g')" by fastforce
  have "step_with_a_song s row (f\<lparr>fo_pauses_seen := 0\<rparr>) = stood InStep does' g'"
    using s assms(2) keeps
    by (cases f) (auto simp: step_with_a_song_def step_on_the_song_def step_in_step_def sits_in_def f'_def split: option.split)
  then have g: "does = does' \<and> fo_asked_out g = fo_asked_out g' \<and> fo_out_for g = fo_out_for g' \<and>
      fo_last_moved_at g = fo_last_moved_at g' \<and> fo_over g = fo_over g' \<and> fo_aligned_row g = fo_aligned_row g'"
    using assms(2,3) s
    by (auto simp: follow_step_def pauses_counted_def step_beside_the_host_def sits_in_def stood_def Let_def
        split: prod.splits if_splits)
  then show ?thesis
    using off_step_keeping [OF assms(1) keeps] assms(2)
    by (auto simp: f'_def sits_in_def looked_off_def held_back_def lined_up_def)
qed

lemma moves_in_time:
  assumes "list_all (off_step row) ss" and "sits_in row f" and "\<forall>d\<in>set (doings f (map Looks ss)). \<not> moves d"
  shows "sits_in row (after_all f (map Looks ss)) \<and> fo_last_moved_at (after_all f (map Looks ss)) = fo_last_moved_at f \<and>
    fo_aligned_row (after_all f (map Looks ss)) = fo_aligned_row f \<and>
    min 5 (length ss) \<le> unat (fo_over (after_all f (map Looks ss))) \<and>
    (5 \<le> length ss \<longrightarrow> held_back row (last ss) f)"
  using assms
proof (induction ss rule: rev_induct)
  case Nil
  then show ?case by (simp add: after_all_def)
next
  case (snoc s ss)
  let ?g = "after_all f (map Looks ss)"
  have IH: "sits_in row ?g" "fo_last_moved_at ?g = fo_last_moved_at f" "fo_aligned_row ?g = fo_aligned_row f"
    "min 5 (length ss) \<le> unat (fo_over ?g)"
    using snoc by (auto simp: doings_snoc)
  obtain does h where look: "follow_step s ?g = (does, h)" by fastforce
  have off: "off_step row s" using snoc.prems(1) by simp
  have "\<not> moves does" using snoc.prems(3) look by (simp add: doings_snoc)
  then have h: "sits_in row h" "fo_last_moved_at h = fo_last_moved_at ?g" "fo_aligned_row h = fo_aligned_row ?g"
    "min 5 (unat (fo_over ?g) + 1) \<le> unat (fo_over h)" "unat (fo_over h) < 5 \<or> held_back row s ?g"
    using off_look [OF off IH(1) look] by (simp_all add: looked_off_def)
  have same: "held_back row s ?g = held_back row s f" by (simp add: held_back_def lined_up_def IH(2,3))
  have over: "min 5 (length (ss @ [s])) \<le> unat (fo_over h)" using IH(4) h(4) by simp
  have "after_all f (map Looks (ss @ [s])) = h" using look by (simp add: after_all_snoc)
  then show ?case using h IH(2,3) over same by auto
qed

text \<open>Of a host known only coarsely, a guest lined up with it is left alone.\<close>

lemma left_alone:
  assumes "list_all (off_step row) ss" and "list_all sn_coarse ss" and "sits_in row f" and "fo_aligned_row f = Some row"
  shows "filter moves (doings f (map Looks ss)) = []"
  using assms
proof (induction ss arbitrary: f)
  case (Cons s ss)
  obtain does g where look: "follow_step s f = (does, g)" by fastforce
  have "sits_in row g \<and> looked_off row s f does g" using off_look [OF _ _ look] Cons.prems by simp
  then have "\<not> moves does" "fo_aligned_row g = Some row" "sits_in row g"
    using Cons.prems by (auto simp: looked_off_def lined_up_def split: if_splits)
  then show ?case using Cons look by simp
qed simp

lemma lined_up_once:
  assumes "list_all (off_step row) ss" and "list_all sn_coarse ss" and "sits_in row f"
  shows "length (filter moves (doings f (map Looks ss))) \<le> 1"
  using assms
proof (induction ss arbitrary: f)
  case (Cons s ss)
  obtain does g where look: "follow_step s f = (does, g)" by fastforce
  have g: "sits_in row g \<and> looked_off row s f does g" using off_look [OF _ _ look] Cons.prems by simp
  show ?case
  proof (cases "moves does")
    case True
    then have "fo_aligned_row g = Some row" using g by (simp add: looked_off_def)
    then show ?thesis using left_alone [of row ss g] Cons.prems g look by simp
  next
    case False
    then show ?thesis using Cons g look by simp
  qed
qed simp

subsection \<open>Sitting out\<close>

definition looks_of :: "(follow_event \<times> follow_doing) list \<Rightarrow> mine list" where
  "looks_of es = List.map_filter (\<lambda>(e, does). case e of Looks s \<Rightarrow> Some (sn_mine s) | _ \<Rightarrow> None) es"

lemma looks_of_snoc: "looks_of (es @ [(e, does)]) = looks_of es @ (case e of Looks s \<Rightarrow> [sn_mine s] | _ \<Rightarrow> [])"
  by (simp add: looks_of_def map_filter_def split: follow_event.split)

definition same_asking :: "follow \<Rightarrow> follow \<Rightarrow> bool" where
  "same_asking f g \<longleftrightarrow> fo_asked_out g = fo_asked_out f \<and> fo_pauses_seen g = fo_pauses_seen f"

lemma keeping_step_asking: "keeping_step s row f = (does, g) \<Longrightarrow> same_asking f g"
  by (auto simp: keeping_step_def same_asking_def Let_def split: option.splits if_splits)

lemma step_in_step_asking: "step_in_step s row f = (does, g) \<Longrightarrow> same_asking f g"
  using keeping_step_asking [of s row f]
  by (auto simp: step_in_step_def stood_def same_asking_def Let_def split: if_splits prod.splits)

lemma step_on_the_song_asking: "step_on_the_song s row f = (does, g) \<Longrightarrow> same_asking f g"
  using step_in_step_asking [of s row "f\<lparr>fo_handing_on_since := None\<rparr>" does g]
  by (auto simp: step_on_the_song_def handing_on_def stood_def same_asking_def Let_def split: if_splits prod.splits)

lemma step_beside_asking: "step_beside_the_host s f = (does, g) \<Longrightarrow> same_asking f g"
  using step_on_the_song_asking [of s _ f] step_on_the_song_asking [of s _ "f\<lparr>fo_out_for := None\<rparr>"]
  by (fastforce simp: step_beside_the_host_def step_with_a_song_def stood_def same_asking_def Let_def
      split: option.splits prod.splits if_splits)

text \<open>How many looks in a row found it paused, and that it sits out only after three.\<close>

definition asked_well :: "mine list \<Rightarrow> follow \<Rightarrow> bool" where
  "asked_well looks g \<longleftrightarrow> unat (fo_pauses_seen g) < 3 \<and>
     (\<exists>pre. looks = pre @ replicate (unat (fo_pauses_seen g)) MinePaused) \<and>
     (fo_asked_out g \<longrightarrow> (\<exists>pre mid. looks = pre @ replicate 3 MinePaused @ mid \<and> MinePlaying \<notin> set mid))"

lemma asked_on: "asked_well looks g \<Longrightarrow> fo_asked_out g \<Longrightarrow> m \<noteq> MinePlaying \<Longrightarrow>
    \<exists>pre mid. looks @ [m] = pre @ replicate 3 MinePaused @ mid \<and> MinePlaying \<notin> set mid"
  unfolding asked_well_def by (metis append.assoc set_ConsD set_append UnE empty_iff list.set(1))

lemma look_asked:
  assumes "asked_well looks f" and "follow_step s f = (does, g)"
  shows "asked_well (looks @ [sn_mine s]) g"
proof (cases "fo_meant_to_play f \<and> sn_mine s = MinePaused")
  case True
  let ?n = "unat (fo_pauses_seen f)"
  obtain pre where pre: "looks = pre @ replicate ?n MinePaused" "?n < 3" using assms(1) by (auto simp: asked_well_def)
  have "fo_pauses_seen f \<noteq> - 1" using pre(2) by (auto simp: unsigned_minus_1_eq_mask mask_eq_exp_minus_1)
  then have suc: "unat (u32_saturating_suc (fo_pauses_seen f)) = Suc ?n"
    by (simp add: u32_saturating_suc_def unatSuc eq_neg_iff_add_eq_0 add.commute)
  have more: "looks @ [sn_mine s] = pre @ replicate (Suc ?n) MinePaused"
    using pre(1) True by (simp add: replicate_append_same)
  show ?thesis
  proof (cases "Suc ?n < 3")
    case small: True
    then have "g = f\<lparr>fo_pauses_seen := u32_saturating_suc (fo_pauses_seen f)\<rparr>"
      using assms(2) True suc
      by (simp add: follow_step_def pauses_counted_def Let_def pauses_seen_before_sitting_out_def word_less_nat_alt)
    then have g: "unat (fo_pauses_seen g) = Suc ?n" "fo_asked_out g = fo_asked_out f" using suc by simp_all
    have "fo_asked_out f \<Longrightarrow> \<exists>pre mid. looks @ [sn_mine s] = pre @ replicate 3 MinePaused @ mid \<and> MinePlaying \<notin> set mid"
      using asked_on [OF assms(1), of "sn_mine s"] True by simp
    then show ?thesis unfolding asked_well_def g using more small by blast
  next
    case False
    then have three: "looks @ [sn_mine s] = pre @ replicate 3 MinePaused @ []"
      using more pre(2) by (cases "?n = 2") (simp_all add: numeral_eq_Suc)
    have "fo_pauses_seen g = 0"
      using assms(2) True suc False
      by (auto simp: follow_step_def pauses_counted_def Let_def pauses_seen_before_sitting_out_def word_less_nat_alt stood_def)
    then show ?thesis using three unfolding asked_well_def by force
  qed
next
  case False
  let ?f = "f\<lparr>fo_pauses_seen := 0\<rparr>"
  have step: "(if fo_asked_out f then
       if sn_mine s \<noteq> MinePlaying then stood (SittingOut AskedTo) DoNothing ?f
       else step_beside_the_host s (asked_back ?f)
     else step_beside_the_host s ?f) = (does, g)"
    using assms(2) False by (simp add: follow_step_def pauses_counted_def)
  have "fo_pauses_seen g = 0 \<and> (fo_asked_out g \<longrightarrow> fo_asked_out f \<and> sn_mine s \<noteq> MinePlaying)"
    using step step_beside_asking [of s "asked_back ?f" does g] step_beside_asking [of s ?f does g]
    by (auto simp: stood_def same_asking_def asked_back_def Let_def split: if_splits)
  then show ?thesis using asked_on [OF assms(1)] by (auto simp: asked_well_def)
qed

lemma follows_asked:
  assumes "follows f es g" and "f = follow_start"
  shows "asked_well (looks_of es) g"
  using assms
proof (induction rule: follows.induct)
  case (follows_start f)
  then show ?case by (simp add: asked_well_def looks_of_def map_filter_simps follow_start_def)
next
  case (follows_on f es g e does h)
  then have well: "asked_well (looks_of es) g" by simp
  show ?case
  proof (cases e)
    case (Looks s)
    then show ?thesis using look_asked [OF well] follows_on.hyps(2) by (simp add: looks_of_snoc)
  next
    case (SongFound row is_held)
    then have "fo_pauses_seen h = fo_pauses_seen g" "fo_asked_out h = fo_asked_out g"
      using follows_on.hyps(2) by (auto simp: song_found_def Let_def split: if_splits)
    then show ?thesis using well SongFound by (simp add: looks_of_snoc asked_well_def)
  qed (use follows_on.hyps(2) well in \<open>auto simp: looks_of_snoc asked_well_def song_loaded_def cannot_start_mid_song_def\<close>)
qed

subsection \<open>Finding ahead\<close>

text \<open>What a guest looks up before the host comes to it (\<open>ahead.rs\<close>).\<close>

definition songs_found_ahead :: nat where
  "songs_found_ahead = 3"

definition wanted_ahead :: "u64 list \<Rightarrow> u64 list" where
  "wanted_ahead host_next = take songs_found_ahead host_next"

record ahead =
  ah_asked_for :: "u64 list option"
  ah_finding :: bool

definition ahead_start :: ahead where
  "ahead_start = \<lparr>ah_asked_for = None, ah_finding = False\<rparr>"

definition ahead_step :: "u64 list \<Rightarrow> u64 list \<Rightarrow> ahead \<Rightarrow> u64 list option \<times> ahead" where
  "ahead_step host_next standing a =
     (let wanted = wanted_ahead host_next
      in if wanted = standing then (None, a\<lparr>ah_asked_for := None\<rparr>)
         else if ah_finding a \<or> ah_asked_for a = Some wanted then (None, a)
         else (Some wanted, a\<lparr>ah_asked_for := Some wanted, ah_finding := True\<rparr>))"

definition ahead_found :: "u64 list \<Rightarrow> u64 list \<Rightarrow> ahead \<Rightarrow> bool \<times> ahead" where
  "ahead_found wanted host_next a = (wanted_ahead host_next = wanted, a\<lparr>ah_finding := False\<rparr>)"

definition ahead_not_kept :: "ahead \<Rightarrow> ahead" where
  "ahead_not_kept a = a\<lparr>ah_asked_for := None\<rparr>"

definition ahead_not_found :: "ahead \<Rightarrow> ahead" where
  "ahead_not_found a = a\<lparr>ah_finding := False\<rparr>"

definition ahead_forget :: "ahead \<Rightarrow> ahead" where
  "ahead_forget a = a\<lparr>ah_asked_for := None\<rparr>"

text \<open>What is asked for is what is wanted, is not held yet, and nothing is being looked for already.\<close>

lemma ahead_asks:
  "ahead_step host_next standing a = (Some rows, b) \<longleftrightarrow>
     rows = wanted_ahead host_next \<and> rows \<noteq> standing \<and> \<not> ah_finding a \<and> ah_asked_for a \<noteq> Some rows \<and>
     b = \<lparr>ah_asked_for = Some rows, ah_finding = True\<rparr>"
  by (cases a) (auto simp: ahead_step_def Let_def)

lemma ahead_asked_once:
  "ahead_step host_next standing a = (Some rows, b) \<Longrightarrow> fst (ahead_step host_next' standing' b) = None"
  by (auto simp: ahead_asks) (simp add: ahead_step_def Let_def)

end
