(* ===== verification/PartyContracts.thy ===== *)
theory PartyContracts
  imports PartyFollow
begin

text \<open>
  What a listening party promises (\<open>crates/resonate-sync/src/party/\<close>): a clock as near the server's as
  the quickest answer allows, a guest that is put right when it falls out of step and not more
  often than every five seconds, and that leaves the host only when it is asked to.
\<close>

text \<open>
  C31. While the server answers with what its clock reads between the asking and the hearing,
  the moment the clock makes of any moment here is wrong by half the round trip of any answer it
  keeps at most, and turned back it is the moment it was made of.
\<close>

theorem the_party_clock_is_near:
  assumes "list_all (true_answer ahead) as" and "to_server_clock (answers_heard as) here = Some there"
    and "s \<in> set (answers_heard as)"
  shows "2 * \<bar>int (unat there) - (int (unat here) + ahead)\<bar> \<le> int (unat (sm_round_trip s)) + 1 \<and>
    from_server_clock (answers_heard as) there = Some here"
  using clock_near [OF assms] there_and_back assms(2) by blast

lemma sample_answers:
  "answers_heard [(0, 1050, 100), (1000, 2005, 1010)] =
     [\<lparr>sm_heard_at = 100, sm_round_trip = 100, sm_server_ahead_by = 1000\<rparr>,
      \<lparr>sm_heard_at = 1010, sm_round_trip = 10, sm_server_ahead_by = 1000\<rparr>]"
  by code_simp

theorem the_party_clock_is_near_witness:
  "\<bar>int (unat (1007 :: u64)) - (int (unat (7 :: u64)) + 996)\<bar> \<le> 5"
proof -
  let ?as = "[(0, 1050, 100), (1000, 2005, 1010)] :: (u64 \<times> u64 \<times> u64) list"
  have there: "to_server_clock (answers_heard ?as) 7 = Some 1007"
    unfolding sample_answers by (simp add: to_server_clock_def in_u64_def u64_max_def)
  have true: "list_all (true_answer 996) ?as" by (simp add: true_answer_def)
  from the_party_clock_is_near [OF true there, of "\<lparr>sm_heard_at = 1010, sm_round_trip = 10, sm_server_ahead_by = 1000\<rparr>"]
  show ?thesis by (simp add: sample_answers)
qed

text \<open>
  C29. While a guest is found playing whenever it looks, it is nudged or made to seek no sooner than
  five seconds after it last was, and no sooner than five seconds after a song was loaded for it,
  whatever the host does, whatever songs are found or loaded, and whatever its clock reads: of the
  moments at which it was moved or a song was loaded, each move is five seconds past the moment
  before it. So where its clock does not go back, any two moves are five seconds apart. It does not
  sit the party out at first.
\<close>

theorem moves_are_five_seconds_apart:
  assumes "follows f es g" and "\<not> fo_asked_out f" and "\<forall>e\<in>set es. plays_on (fst e)"
  shows "successively (\<lambda>(_, a) (moved, b). moved \<longrightarrow> unat a + 5000000000 \<le> unat b) (moments es) \<and>
    (sorted (map (\<lambda>m. unat (snd m)) (moments es)) \<longrightarrow>
      sorted_wrt (\<lambda>a b. unat a + 5000000000 \<le> unat b) (moved_times es))"
proof -
  have apart: "successively moves_apart (moments es)" using follows_apart [OF assms] by blast
  have "unat nudges_apart = 5000000000" by (simp add: nudges_apart_def)
  then show ?thesis
    using moved_times_apart [OF apart] apart
    by (simp add: moved_times_def moves_apart_def [abs_def] case_prod_beta')
qed

definition off_look_at :: "u64 \<Rightarrow> u64 \<Rightarrow> seen" where
  "off_look_at t host = \<lparr>sn_now_nanos = t, sn_host_row = Some 1, sn_host_next = [2], sn_host_playing = True,
     sn_host_position = Some host, sn_coarse = False, sn_mine = MinePlaying, sn_mine_row = Some 1,
     sn_mine_position = Some 1000000000\<rparr>"

definition sample_looks :: "u64 list" where
  "sample_looks = [1000000000, 2000000000, 3000000000, 4000000000, 5000000000, 6000000000, 7000000000, 8000000000,
     9000000000, 10000000000]"

definition sample_events :: "follow_event list" where
  "sample_events = map (\<lambda>t. Looks (off_look_at t 1080000000)) sample_looks @ [SongLoaded 1 True 10500000000]"

lemma sample_doings: "doings follow_start sample_events =
    [DoNothing, DoNothing, DoNothing, DoNothing, DoNudge, DoNothing, DoNothing, DoNothing, DoNothing, DoNudge, DoNothing]"
  by code_simp

theorem moves_are_five_seconds_apart_witness:
  "moments (zip sample_events (doings follow_start sample_events)) = [(True, 5000000000), (True, 10000000000), (False, 10500000000)] \<and>
   sorted_wrt (\<lambda>a b. unat a + 5000000000 \<le> unat b) [5000000000, 10000000000 :: u64]"
proof -
  have run: "follows follow_start (zip sample_events (doings follow_start sample_events)) (after_all follow_start sample_events)"
    by (rule follows_doings)
  have at: "moments (zip sample_events (doings follow_start sample_events)) =
      [(True, 5000000000), (True, 10000000000), (False, 10500000000)]"
    unfolding sample_doings
    by (simp add: sample_events_def sample_looks_def moments_def moment_of_def off_look_at_def)
  have "\<forall>e\<in>set (zip sample_events (doings follow_start sample_events)). plays_on (fst e)"
    by (auto simp: sample_events_def plays_on_def off_look_at_def dest!: set_zip_leftD)
  from moves_are_five_seconds_apart [OF run _ this] at show ?thesis by (simp add: follow_start_def moved_times_def)
qed

text \<open>
  C28. A guest that plays the song the host is playing and does not sit it out, found more than
  forty milliseconds from where the host is at five looks or more in a row, is nudged or made to
  seek at one of them, if the last of them comes no sooner than five seconds after it was last
  moved. Where the host's place is known only coarsely it is lined up with the host once for the
  song: moved at exactly one of these looks, and at none where it had been lined up before.
\<close>

theorem out_of_step_is_soon_put_right:
  assumes "list_all (off_step row) ss" and "5 \<le> length ss" and "sits_in row f"
    and "\<forall>t. fo_last_moved_at f = Some t \<longrightarrow> unat t + 5000000000 \<le> unat (sn_now_nanos (last ss))"
    and "\<forall>s\<in>set ss. sn_coarse s = coarse"
  shows "let moved = filter moves (doings f (map Looks ss)) in
    if coarse then length moved = (if fo_aligned_row f = Some row then 0 else 1) else moved \<noteq> []"
proof -
  let ?moved = "filter moves (doings f (map Looks ss))"
  have "ss \<noteq> []" using assms(2) by auto
  then have last: "sn_coarse (last ss) = coarse" using assms(5) by simp
  have some: "?moved \<noteq> []" if "\<not> (coarse \<and> fo_aligned_row f = Some row)"
  proof
    assume "?moved = []"
    then have "\<forall>d\<in>set (doings f (map Looks ss)). \<not> moves d" by (simp add: filter_empty_conv)
    from moves_in_time [OF assms(1,3) this] assms(2) have "held_back row (last ss) f" by blast
    then show False using assms(4) that last by (auto simp: held_back_def lined_up_def nudges_apart_def)
  qed
  show ?thesis
  proof (cases coarse)
    case True
    then have coarse: "list_all sn_coarse ss" using assms(5) by (simp add: list_all_iff)
    show ?thesis
      using left_alone [OF assms(1) coarse assms(3)] lined_up_once [OF assms(1) coarse assms(3)] some True
      by (cases "?moved") (auto simp: Let_def)
  qed (use some in \<open>simp add: Let_def\<close>)
qed

definition coarse_look_at :: "u64 \<Rightarrow> u64 \<Rightarrow> seen" where
  "coarse_look_at t host = (off_look_at t host)\<lparr>sn_coarse := True\<rparr>"

theorem out_of_step_is_soon_put_right_witness:
  "filter moves (doings follow_start (map Looks (map (\<lambda>t. off_look_at t 1080000000) (take 5 sample_looks)))) \<noteq> [] \<and>
   length (filter moves (doings follow_start (map Looks (map (\<lambda>t. coarse_look_at t 1080000000) sample_looks)))) = 1"
  using out_of_step_is_soon_put_right [of 1 "map (\<lambda>t. off_look_at t 1080000000) (take 5 sample_looks)" follow_start False]
    out_of_step_is_soon_put_right [of 1 "map (\<lambda>t. coarse_look_at t 1080000000) sample_looks" follow_start True]
  by (simp add: sample_looks_def off_look_at_def coarse_look_at_def off_step_def abs_diff_def out_of_step_past_def sits_in_def
      follow_start_def Let_def)

text \<open>
  C30. A guest sits a party out only when it was found paused three looks in a row, and has not
  been found playing since; and until a song was found it never asks twice in a row for the same.
\<close>

theorem a_guest_leaves_only_when_it_is_paused:
  assumes "follows follow_start es g"
  shows "(fo_asked_out g \<longrightarrow> (\<exists>pre mid. looks_of es = pre @ replicate 3 MinePaused @ mid \<and> MinePlaying \<notin> set mid)) \<and>
    ((\<forall>e\<in>set es. not_found_yet (fst e)) \<longrightarrow> distinct_adj (finds es))"
  using follows_asked [OF assms refl] follows_finds [OF assms] by (simp add: asked_well_def)

definition paused_look :: seen where
  "paused_look = (off_look_at 0 1000000000)\<lparr>sn_mine := MinePaused\<rparr>"

theorem a_guest_leaves_only_when_it_is_paused_witness:
  "fo_asked_out (after_all follow_start (SongLoaded 1 True 0 # replicate 3 (Looks paused_look))) \<and>
   (\<exists>pre mid. [MinePaused, MinePaused, MinePaused] = pre @ replicate 3 MinePaused @ mid \<and> MinePlaying \<notin> set mid)"
proof -
  let ?es = "SongLoaded 1 True 0 # replicate 3 (Looks paused_look)"
  have asked: "fo_asked_out (after_all follow_start ?es)" by code_simp
  have looks: "looks_of (zip ?es (doings follow_start ?es)) = [MinePaused, MinePaused, MinePaused]" by code_simp
  from a_guest_leaves_only_when_it_is_paused [OF follows_doings [of follow_start ?es]] asked looks
  show ?thesis by simp
qed

end
