(* ===== verification/Inboxes.thy ===== *)
theory Inboxes
  imports OrderedMaps WireServer
begin

text \<open>
  The channels of the sync server: a session's task reads the notices other tasks send it
  (\<open>unbounded_channel\<close>), and a count of the bytes it has not read yet (\<open>backlog\<close>) keeps what is
  passed on for others within a bound (\<open>told\<close> of \<open>crates/resonate-server/src/rooms.rs\<close>,
  \<open>relay\<close> of \<open>hub.rs\<close>). Rooms and spaces share this one theory.
\<close>

lemma om_drop_length: "length m \<le> n \<Longrightarrow> length (om_drop k m) \<le> n"
  unfolding om_drop_def using length_filter_le order_trans by blast

record 'n inbox =
  ib_notices :: "'n list"
  ib_reading :: bool
  ib_backlog :: nat

definition fresh_inbox :: "'n inbox" where
  "fresh_inbox = \<lparr>ib_notices = [], ib_reading = True, ib_backlog = 0\<rparr>"

text \<open>\<open>UnboundedSender::send\<close>: it fails where nobody holds the receiver any more.\<close>

definition send :: "'n \<Rightarrow> 'n inbox \<Rightarrow> bool \<times> 'n inbox" where
  "send n ib = (if ib_reading ib then (True, ib\<lparr>ib_notices := ib_notices ib @ [n]\<rparr>) else (False, ib))"

text \<open>A notice that counts against the bytes a session may leave unread.\<close>

definition send_counted :: "nat \<Rightarrow> nat \<Rightarrow> 'n \<Rightarrow> 'n inbox \<Rightarrow> bool \<times> 'n inbox" where
  "send_counted most bytes n ib =
     (if ib_backlog ib + bytes > most then (False, ib)
      else case send n (ib\<lparr>ib_backlog := ib_backlog ib + bytes\<rparr>) of
        (True, ib) \<Rightarrow> (True, ib)
      | (False, ib) \<Rightarrow> (False, ib\<lparr>ib_backlog := ib_backlog ib - bytes\<rparr>))"

text \<open>The session reads its next notice, which frees the bytes it was counted with.\<close>

definition take_notice :: "('n \<Rightarrow> nat) \<Rightarrow> 'n inbox \<Rightarrow> ('n \<times> 'n inbox) option" where
  "take_notice weight ib = (case ib_notices ib of
     [] \<Rightarrow> None
   | n # rest \<Rightarrow> Some (n, ib\<lparr>ib_notices := rest, ib_backlog := ib_backlog ib - weight n\<rparr>))"

text \<open>The task ends: what it did not read is lost.\<close>

definition hang_up :: "'n inbox \<Rightarrow> 'n inbox" where
  "hang_up ib = ib\<lparr>ib_notices := [], ib_reading := False\<rparr>"

subsection \<open>The inboxes of all sessions\<close>

type_synonym 'n inboxes = "u64 \<Rightarrow> 'n inbox option"

definition sent_to :: "('n inbox \<Rightarrow> bool \<times> 'n inbox) \<Rightarrow> u64 \<Rightarrow> 'n inboxes \<Rightarrow> bool \<times> 'n inboxes" where
  "sent_to sending s boxes = (case boxes s of
     None \<Rightarrow> (False, boxes)
   | Some ib \<Rightarrow> (case sending ib of (sent, ib) \<Rightarrow> (sent, boxes(s \<mapsto> ib))))"

definition told_one :: "'n \<Rightarrow> u64 \<Rightarrow> 'n inboxes \<Rightarrow> 'n inboxes" where
  "told_one n s boxes = snd (sent_to (send n) s boxes)"

definition told_all :: "'n \<Rightarrow> u64 list \<Rightarrow> 'n inboxes \<Rightarrow> 'n inboxes" where
  "told_all n ss boxes = fold (told_one n) ss boxes"

definition counted_to_all :: "nat \<Rightarrow> nat \<Rightarrow> 'n \<Rightarrow> u64 list \<Rightarrow> 'n inboxes \<Rightarrow> 'n inboxes" where
  "counted_to_all most bytes n ss boxes =
     fold (\<lambda>s boxes. snd (sent_to (send_counted most bytes n) s boxes)) ss boxes"

subsection \<open>What is counted is what is unread\<close>

locale counted_notices =
  fixes weight :: "'n \<Rightarrow> nat" and most :: nat
begin

definition unread :: "'n inbox \<Rightarrow> nat" where
  "unread ib = sum_list (map weight (ib_notices ib))"

definition inbox_ok :: "'n inbox \<Rightarrow> bool" where
  "inbox_ok ib \<longleftrightarrow> (ib_reading ib \<longrightarrow> ib_backlog ib = unread ib \<and> unread ib \<le> most)
     \<and> (\<not> ib_reading ib \<longrightarrow> ib_notices ib = [])"

lemma fresh_ok [simp]: "inbox_ok fresh_inbox"
  by (simp add: inbox_ok_def fresh_inbox_def unread_def)

lemma send_ok: "inbox_ok ib \<Longrightarrow> weight n = 0 \<Longrightarrow> inbox_ok (snd (send n ib))"
  by (simp add: inbox_ok_def send_def unread_def)

lemma send_counted_ok: "inbox_ok ib \<Longrightarrow> inbox_ok (snd (send_counted most (weight n) n ib))"
  by (simp add: inbox_ok_def send_counted_def send_def unread_def)

lemma take_notice_ok: "inbox_ok ib \<Longrightarrow> take_notice weight ib = Some (n, ib') \<Longrightarrow> inbox_ok ib'"
  by (auto simp: inbox_ok_def take_notice_def unread_def split: list.splits)

lemma taken_was_counted:
  "inbox_ok ib \<Longrightarrow> take_notice weight ib = Some (n, ib') \<Longrightarrow> weight n \<le> ib_backlog ib"
  by (cases "ib_reading ib") (auto simp: inbox_ok_def take_notice_def unread_def split: list.splits)

lemma hang_up_ok [simp]: "inbox_ok (hang_up ib)"
  by (simp add: inbox_ok_def hang_up_def)

definition inboxes_ok :: "'n inboxes \<Rightarrow> bool" where
  "inboxes_ok boxes \<longleftrightarrow> (\<forall>s ib. boxes s = Some ib \<longrightarrow> inbox_ok ib)"

lemma inboxes_okD: "inboxes_ok boxes \<Longrightarrow> boxes s = Some ib \<Longrightarrow> inbox_ok ib"
  by (simp add: inboxes_ok_def)

lemma no_inboxes_ok [simp]: "inboxes_ok Map.empty"
  by (simp add: inboxes_ok_def)

lemma inbox_put_ok: "inboxes_ok boxes \<Longrightarrow> inbox_ok ib \<Longrightarrow> inboxes_ok (boxes(s \<mapsto> ib))"
  by (simp add: inboxes_ok_def)

lemma sent_to_ok:
  "inboxes_ok boxes \<Longrightarrow> (\<And>ib. inbox_ok ib \<Longrightarrow> inbox_ok (snd (sending ib))) \<Longrightarrow>
   inboxes_ok (snd (sent_to sending s boxes))"
  by (auto simp: sent_to_def inboxes_ok_def split: option.splits prod.splits) (metis snd_conv)

lemma told_one_ok: "inboxes_ok boxes \<Longrightarrow> weight n = 0 \<Longrightarrow> inboxes_ok (told_one n s boxes)"
  unfolding told_one_def by (rule sent_to_ok) (simp_all add: send_ok)

lemma told_all_ok: "inboxes_ok boxes \<Longrightarrow> weight n = 0 \<Longrightarrow> inboxes_ok (told_all n ss boxes)"
  unfolding told_all_def by (induction ss arbitrary: boxes) (simp_all add: told_one_ok)

lemma counted_to_one_ok:
  "inboxes_ok boxes \<Longrightarrow> inboxes_ok (snd (sent_to (send_counted most (weight n) n) s boxes))"
  by (rule sent_to_ok) (simp_all add: send_counted_ok)

lemma counted_to_all_ok:
  "inboxes_ok boxes \<Longrightarrow> inboxes_ok (counted_to_all most (weight n) n ss boxes)"
  unfolding counted_to_all_def by (induction ss arbitrary: boxes) (simp_all add: counted_to_one_ok)

end

subsection \<open>Who is told what\<close>

lemma told_one_other [simp]: "s \<noteq> t \<Longrightarrow> told_one n s boxes t = boxes t"
  by (simp add: told_one_def sent_to_def split: option.splits prod.splits)

lemma told_one_here:
  "boxes s = Some ib \<Longrightarrow> ib_reading ib \<Longrightarrow> told_one n s boxes s = Some (ib\<lparr>ib_notices := ib_notices ib @ [n]\<rparr>)"
  by (simp add: told_one_def sent_to_def send_def)

lemma told_all_other: "t \<notin> set ss \<Longrightarrow> told_all n ss boxes t = boxes t"
  unfolding told_all_def by (induction ss arbitrary: boxes) auto

lemma told_all_here:
  "distinct ss \<Longrightarrow> s \<in> set ss \<Longrightarrow> boxes s = Some ib \<Longrightarrow> ib_reading ib \<Longrightarrow>
   told_all n ss boxes s = Some (ib\<lparr>ib_notices := ib_notices ib @ [n]\<rparr>)"
proof (induction ss arbitrary: boxes)
  case (Cons a ss)
  show ?case
  proof (cases "s = a")
    case True
    with Cons.prems have "s \<notin> set ss" by simp
    then have "told_all n (a # ss) boxes s = told_one n a boxes s"
      using told_all_other [of s ss n "told_one n a boxes"] by (simp add: told_all_def)
    then show ?thesis using True Cons.prems by (simp add: told_one_here)
  next
    case False
    then have "told_one n a boxes s = Some ib" using Cons.prems by simp
    with False Cons show ?thesis by (simp add: told_all_def)
  qed
qed simp

lemma sent_to_same [simp]: "snd (sent_to sending s boxes) t = None \<longleftrightarrow> boxes t = None"
  by (auto simp: sent_to_def split: option.splits prod.splits)

lemma fold_inboxes_same:
  "(\<And>s boxes. f s boxes t = None \<longleftrightarrow> boxes t = None) \<Longrightarrow> fold f ss boxes t = None \<longleftrightarrow> boxes t = None"
  by (induction ss arbitrary: boxes) simp_all

lemma inboxes_same [simp]:
  "told_one n s boxes t = None \<longleftrightarrow> boxes t = None"
  "told_all n ss boxes t = None \<longleftrightarrow> boxes t = None"
  "counted_to_all most w n ss boxes t = None \<longleftrightarrow> boxes t = None"
  by (simp_all add: told_one_def told_all_def counted_to_all_def fold_inboxes_same)

lemma counted_other: "t \<notin> set ss \<Longrightarrow> counted_to_all most w n ss boxes t = boxes t"
proof (induction ss arbitrary: boxes)
  case (Cons s ss)
  then have "snd (sent_to (send_counted most w n) s boxes) t = boxes t"
    by (simp add: sent_to_def split: option.splits prod.splits)
  with Cons show ?case by (simp add: counted_to_all_def)
qed (simp add: counted_to_all_def)

lemma later_session:
  fixes s :: u64
  assumes "s \<noteq> - 1"
  shows "t \<le> s \<Longrightarrow> t < s + 1"
proof -
  have "unat (s + 1) = Suc (unat s)"
    using assms by (metis add.commute add_eq_0_iff unatSuc)
  then show "t \<le> s \<Longrightarrow> t < s + 1" by (simp add: word_le_nat_alt word_less_nat_alt)
qed

end
