(* ===== verification/Rooms.thy ===== *)
theory Rooms
  imports Inboxes
begin

text \<open>
  The rooms of listening parties on the sync server
  (\<open>crates/resonate-server/src/rooms.rs\<close>): a host makes a room with two tokens, guests come in with
  one of them, and what anybody says is passed on. Each member's session has an inbox.
\<close>

definition room_backlog_bytes_at_most :: nat where
  "room_backlog_bytes_at_most = 1024 * 1024"

datatype room_notice = Heard device_id bytes | CameIn device_id | WentOut device_id | Replaced | Ended

record room_member =
  mb_session :: u64

record room =
  ro_token :: bytes
  ro_host_token :: bytes
  ro_host :: device_id
  ro_host_session :: "u64 option"
  ro_members :: "(device_id \<times> room_member) list"

record rooms =
  rs_rooms :: "(bytes \<times> room) list"
  rs_sessions :: u64
  rs_inboxes :: "room_notice inboxes"

record joined_room =
  jr_session :: u64
  jr_members :: "device_id list"
  jr_host :: device_id

record room_asked =
  ra_room :: bytes
  ra_token :: bytes
  ra_host_token :: "bytes option"
  ra_member :: device_id

record room_limits =
  rl_rooms :: nat
  rl_members :: nat

datatype leaving = Plainly | TheHostLeft

definition no_rooms :: rooms where
  "no_rooms = \<lparr>rs_rooms = [], rs_sessions = 0, rs_inboxes = Map.empty\<rparr>"

abbreviation room_at :: "rooms \<Rightarrow> bytes \<Rightarrow> room option" where
  "room_at rs k \<equiv> map_of (rs_rooms rs) k"

abbreviation member_at :: "room \<Rightarrow> device_id \<Rightarrow> room_member option" where
  "member_at r m \<equiv> map_of (ro_members r) m"

abbreviation put_room :: "bytes \<Rightarrow> room \<Rightarrow> rooms \<Rightarrow> rooms" where
  "put_room k r rs \<equiv> rs\<lparr>rs_rooms := om_at k (\<lambda>_. r) (rs_rooms rs)\<rparr>"

text \<open>The sessions of a room's members, in the order the map is walked in.\<close>

definition sessions_of :: "room \<Rightarrow> u64 list" where
  "sessions_of r = map (mb_session \<circ> snd) (ro_members r)"

subsection \<open>Joining\<close>

text \<open>
  The room asked for, made first where there is none and the one asking brings a host token; the
  guard of the address asking is a state \<open>'g\<close> that \<open>may_host\<close> counts in.
\<close>

definition room_found ::
  "room_asked \<Rightarrow> room_limits \<Rightarrow> ('g \<Rightarrow> bool \<times> 'g) \<Rightarrow> 'g \<Rightarrow> rooms \<Rightarrow> (refusal + room) \<times> 'g \<times> rooms" where
  "room_found asked limits may_host g rs = (case room_at rs (ra_room asked) of
     Some r \<Rightarrow> (Inr r, g, rs)
   | None \<Rightarrow> (case ra_host_token asked of
       None \<Rightarrow> (Inl NoSuchRoom, g, rs)
     | Some host_token \<Rightarrow>
         if length (rs_rooms rs) \<ge> rl_rooms limits then (Inl Busy, g, rs)
         else case may_host g of
           (False, g) \<Rightarrow> (Inl TooFast, g, rs)
         | (True, g) \<Rightarrow>
             (let r = \<lparr>ro_token = ra_token asked, ro_host_token = host_token, ro_host = ra_member asked,
                       ro_host_session = None, ro_members = []\<rparr>
              in (Inr r, g, put_room (ra_room asked) r rs))))"

definition hosting :: "room_asked \<Rightarrow> room \<Rightarrow> refusal + bool" where
  "hosting asked r =
     (if ro_token r \<noteq> ra_token asked then Inl RefusedToken
      else case ra_host_token asked of
        Some host_token \<Rightarrow> if ro_host_token r = host_token then Inr True else Inl RefusedToken
      | None \<Rightarrow> Inr False)"

definition with_member :: "device_id \<Rightarrow> bool \<Rightarrow> u64 \<Rightarrow> room \<Rightarrow> room" where
  "with_member member is_host session r =
     (let r = r\<lparr>ro_members := om_at member (\<lambda>_. \<lparr>mb_session = session\<rparr>) (ro_members r)\<rparr>
      in if is_host then r\<lparr>ro_host := member, ro_host_session := Some session\<rparr> else r)"

definition seated :: "room_asked \<Rightarrow> bool \<Rightarrow> u64 \<Rightarrow> room \<Rightarrow> rooms \<Rightarrow> joined_room \<times> rooms" where
  "seated asked is_host session r rs =
     (let member = ra_member asked;
          boxes = (rs_inboxes rs)(session \<mapsto> fresh_inbox);
          boxes = (case member_at r member of
                     None \<Rightarrow> boxes
                   | Some replaced \<Rightarrow> told_one Replaced (mb_session replaced) boxes);
          r = with_member member is_host session r;
          others = filter (\<lambda>m. fst m \<noteq> member) (ro_members r);
          boxes = told_all (CameIn member) (map (mb_session \<circ> snd) others) boxes
      in (\<lparr>jr_session = session, jr_members = map fst others, jr_host = ro_host r\<rparr>,
          (put_room (ra_room asked) r rs)\<lparr>rs_inboxes := boxes\<rparr>))"

definition rooms_join ::
  "room_asked \<Rightarrow> room_limits \<Rightarrow> ('g \<Rightarrow> bool \<times> 'g) \<Rightarrow> 'g \<Rightarrow> rooms \<Rightarrow> (refusal + joined_room) \<times> 'g \<times> rooms" where
  "rooms_join asked limits may_host g rs =
     (let session = rs_sessions rs + 1;
          rs = rs\<lparr>rs_sessions := session\<rparr>
      in case room_found asked limits may_host g rs of
           (Inl refusal, g, rs) \<Rightarrow> (Inl refusal, g, rs)
         | (Inr r, g, rs) \<Rightarrow>
             (case hosting asked r of
                Inl refusal \<Rightarrow> (Inl refusal, g, rs)
              | Inr is_host \<Rightarrow>
                  if member_at r (ra_member asked) = None \<and> length (ro_members r) \<ge> rl_members limits
                  then (Inl Busy, g, rs)
                  else case seated asked is_host session r rs of (joined, rs) \<Rightarrow> (Inr joined, g, rs)))"

subsection \<open>Leaving and ending\<close>

definition rooms_leave :: "bytes \<Rightarrow> device_id \<Rightarrow> u64 \<Rightarrow> rooms \<Rightarrow> leaving \<times> rooms" where
  "rooms_leave room member session rs = (case room_at rs room of
     None \<Rightarrow> (Plainly, rs)
   | Some r \<Rightarrow>
       if (case member_at r member of None \<Rightarrow> True | Some present \<Rightarrow> mb_session present \<noteq> session) then (Plainly, rs)
       else
         let r = r\<lparr>ro_members := om_drop member (ro_members r)\<rparr>;
             boxes = told_all (WentOut member) (sessions_of r) (rs_inboxes rs);
             host_left = (ro_host_session r = Some session);
             r = (if host_left then r\<lparr>ro_host_session := None\<rparr> else r)
         in if ro_members r = [] \<and> ro_host_session r = None
            then (Plainly, rs\<lparr>rs_rooms := om_drop room (rs_rooms rs), rs_inboxes := boxes\<rparr>)
            else (if host_left then TheHostLeft else Plainly, (put_room room r rs)\<lparr>rs_inboxes := boxes\<rparr>))"

definition room_ended :: "bytes \<Rightarrow> room \<Rightarrow> rooms \<Rightarrow> rooms" where
  "room_ended room r rs =
     rs\<lparr>rs_rooms := om_drop room (rs_rooms rs), rs_inboxes := told_all Ended (sessions_of r) (rs_inboxes rs)\<rparr>"

definition end_unless_the_host_came_back :: "bytes \<Rightarrow> rooms \<Rightarrow> bool \<times> rooms" where
  "end_unless_the_host_came_back room rs = (case room_at rs room of
     None \<Rightarrow> (False, rs)
   | Some r \<Rightarrow> if ro_host_session r \<noteq> None then (False, rs) else (True, room_ended room r rs))"

definition rooms_end :: "bytes \<Rightarrow> u64 \<Rightarrow> rooms \<Rightarrow> rooms" where
  "rooms_end room session rs = (case room_at rs room of
     None \<Rightarrow> rs
   | Some r \<Rightarrow> if ro_host_session r \<noteq> Some session then rs else room_ended room r rs)"

subsection \<open>Saying\<close>

definition room_told :: "device_id \<Rightarrow> bytes \<Rightarrow> u64 list \<Rightarrow> room_notice inboxes \<Rightarrow> room_notice inboxes" where
  "room_told from sealed sessions boxes =
     counted_to_all room_backlog_bytes_at_most (length sealed) (Heard from sealed) sessions boxes"

definition rooms_say :: "bytes \<Rightarrow> device_id \<Rightarrow> u64 \<Rightarrow> device_id option \<Rightarrow> bytes \<Rightarrow> rooms \<Rightarrow> rooms" where
  "rooms_say room from session to sealed rs = (case room_at rs room of
     None \<Rightarrow> rs
   | Some r \<Rightarrow>
       let hearing = (if ro_host_session r = Some session then
                        (case to of
                           Some to \<Rightarrow> (case member_at r to of None \<Rightarrow> [] | Some m \<Rightarrow> [mb_session m])
                         | None \<Rightarrow> map (mb_session \<circ> snd) (filter (\<lambda>m. fst m \<noteq> from) (ro_members r)))
                      else (case member_at r (ro_host r) of None \<Rightarrow> [] | Some m \<Rightarrow> [mb_session m]))
       in rs\<lparr>rs_inboxes := room_told from sealed hearing (rs_inboxes rs)\<rparr>)"

definition rooms_kick :: "bytes \<Rightarrow> u64 \<Rightarrow> device_id \<Rightarrow> rooms \<Rightarrow> bool \<times> rooms" where
  "rooms_kick room session member rs = (case room_at rs room of
     None \<Rightarrow> (False, rs)
   | Some r \<Rightarrow>
       if ro_host_session r \<noteq> Some session \<or> member = ro_host r then (False, rs)
       else case member_at r member of
         None \<Rightarrow> (False, rs)
       | Some kicked \<Rightarrow> (case sent_to (send Ended) (mb_session kicked) (rs_inboxes rs) of
           (sent, boxes) \<Rightarrow> (sent, rs\<lparr>rs_inboxes := boxes\<rparr>)))"

subsection \<open>What the tasks of the sessions do\<close>

definition room_notice_bytes :: "room_notice \<Rightarrow> nat" where
  "room_notice_bytes n = (case n of Heard _ sealed \<Rightarrow> length sealed | _ \<Rightarrow> 0)"

definition room_reads :: "u64 \<Rightarrow> rooms \<Rightarrow> room_notice option \<times> rooms" where
  "room_reads session rs = (case rs_inboxes rs session of
     None \<Rightarrow> (None, rs)
   | Some ib \<Rightarrow> (case take_notice room_notice_bytes ib of
       None \<Rightarrow> (None, rs)
     | Some (n, ib) \<Rightarrow> (Some n, rs\<lparr>rs_inboxes := (rs_inboxes rs)(session \<mapsto> ib)\<rparr>)))"

definition room_hangs_up :: "u64 \<Rightarrow> rooms \<Rightarrow> rooms" where
  "room_hangs_up session rs =
     rs\<lparr>rs_inboxes := (rs_inboxes rs)(session := map_option hang_up (rs_inboxes rs session))\<rparr>"

end
