(* ===== verification/RoomsInvariant.thy ===== *)
theory RoomsInvariant
  imports Rooms
begin

text \<open>
  What holds of the rooms whatever their sessions do: the sessions let in are remembered in a log
  (a ghost of the proof) with what they asked for, every member of a room and its host come from
  that log, and nobody's unread notices pass the bound. At the end, what becomes of a room whose
  host's seat a guest has taken.
\<close>

interpretation heard: counted_notices room_notice_bytes room_backlog_bytes_at_most .

lemma room_notice_bytes_simps [simp]:
  "room_notice_bytes (Heard d sealed) = length sealed"
  "room_notice_bytes (CameIn d) = 0"
  "room_notice_bytes (WentOut d) = 0"
  "room_notice_bytes Replaced = 0"
  "room_notice_bytes Ended = 0"
  by (simp_all add: room_notice_bytes_def)

type_synonym room_log = "(u64 \<times> room_asked) list"

text \<open>A session was let into the room with its token; one that hosts brought the host's token too.\<close>

definition let_in :: "room_log \<Rightarrow> bytes \<Rightarrow> room \<Rightarrow> device_id \<Rightarrow> u64 \<Rightarrow> bool" where
  "let_in log k r m s \<longleftrightarrow> (\<exists>asked. (s, asked) \<in> set log \<and> ra_room asked = k \<and> ra_token asked = ro_token r
     \<and> ra_member asked = m)"

definition let_host :: "room_log \<Rightarrow> bytes \<Rightarrow> room \<Rightarrow> u64 \<Rightarrow> bool" where
  "let_host log k r s \<longleftrightarrow> (\<exists>asked. (s, asked) \<in> set log \<and> ra_room asked = k \<and> ra_token asked = ro_token r
     \<and> ra_host_token asked = Some (ro_host_token r) \<and> ra_member asked = ro_host r)"

definition room_ok :: "room_limits \<Rightarrow> room_log \<Rightarrow> bytes \<Rightarrow> room \<Rightarrow> bool" where
  "room_ok limits log k r \<longleftrightarrow>
     om_ok (ro_members r) \<and> length (ro_members r) \<le> rl_members limits
     \<and> (\<forall>m s. member_at r m = Some s \<longrightarrow> let_in log k r m (mb_session s))
     \<and> (\<forall>s. ro_host_session r = Some s \<longrightarrow> let_host log k r s)"

definition rooms_ok :: "room_limits \<Rightarrow> room_log \<Rightarrow> rooms \<Rightarrow> bool" where
  "rooms_ok limits log rs \<longleftrightarrow>
     om_ok (rs_rooms rs) \<and> length (rs_rooms rs) \<le> rl_rooms limits
     \<and> (\<forall>k r. room_at rs k = Some r \<longrightarrow> room_ok limits log k r)
     \<and> (\<forall>s\<in>fst ` set log. s \<le> rs_sessions rs) \<and> distinct (map fst log)
     \<and> (\<forall>s. rs_inboxes rs s \<noteq> None \<longleftrightarrow> s \<in> fst ` set log)
     \<and> heard.inboxes_ok (rs_inboxes rs)"

lemma rooms_okD:
  assumes "rooms_ok limits log rs"
  shows "om_ok (rs_rooms rs)" "length (rs_rooms rs) \<le> rl_rooms limits"
    "room_at rs k = Some r \<Longrightarrow> room_ok limits log k r"
    "s \<in> fst ` set log \<Longrightarrow> s \<le> rs_sessions rs" "distinct (map fst log)"
    "rs_inboxes rs s \<noteq> None \<longleftrightarrow> s \<in> fst ` set log" "heard.inboxes_ok (rs_inboxes rs)"
  using assms by (auto simp: rooms_ok_def)

subsection \<open>The inboxes\<close>

lemma room_told_ok: "heard.inboxes_ok boxes \<Longrightarrow> heard.inboxes_ok (room_told from sealed ss boxes)"
  unfolding room_told_def using heard.counted_to_all_ok [of boxes "Heard from sealed"] by simp

text \<open>Whatever only changes the inboxes, each staying well-formed, keeps the rest.\<close>

lemma rooms_ok_inboxes:
  "rooms_ok limits log rs \<Longrightarrow> heard.inboxes_ok boxes \<Longrightarrow>
   (\<And>s. boxes s = None \<longleftrightarrow> rs_inboxes rs s = None) \<Longrightarrow> rooms_ok limits log (rs\<lparr>rs_inboxes := boxes\<rparr>)"
  by (simp add: rooms_ok_def)

lemma rooms_ok_dropped:
  assumes "rooms_ok limits log rs"
  shows "rooms_ok limits log (rs\<lparr>rs_rooms := om_drop k (rs_rooms rs)\<rparr>)"
proof -
  have "length (om_drop k (rs_rooms rs)) \<le> rl_rooms limits"
    using rooms_okD(2) [OF assms] by (rule om_drop_length)
  then show ?thesis using assms by (simp add: rooms_ok_def)
qed

lemma rooms_ok_put:
  assumes "rooms_ok limits log rs" and "room_ok limits log k r"
    and "room_at rs k = None \<Longrightarrow> length (rs_rooms rs) < rl_rooms limits"
  shows "rooms_ok limits log (put_room k r rs)"
  using assms by (auto simp: rooms_ok_def om_length_at)

lemma let_in_cong: "ro_token r' = ro_token r \<Longrightarrow> let_in log k r' m s = let_in log k r m s"
  by (simp add: let_in_def)

lemma let_more: "let_in log k r m s \<Longrightarrow> let_in (log @ l) k r m s" "let_host log k r s \<Longrightarrow> let_host (log @ l) k r s"
  by (auto simp: let_in_def let_host_def)

lemma room_ok_more: "room_ok limits log k r \<Longrightarrow> room_ok limits (log @ l) k r"
  by (auto simp: room_ok_def let_more)

lemma told_all_ok_at: "heard.inboxes_ok boxes \<Longrightarrow> room_notice_bytes n = 0 \<Longrightarrow> heard.inboxes_ok (told_all n ss boxes)"
  by (rule heard.told_all_ok)

subsection \<open>Joining\<close>

lemma room_found_Inr:
  assumes "room_found asked limits may_host g rs = (Inr r, g', rs')"
  shows "(rs' = rs \<and> room_at rs (ra_room asked) = Some r)
     \<or> (room_at rs (ra_room asked) = None \<and> length (rs_rooms rs) < rl_rooms limits
        \<and> rs' = put_room (ra_room asked) r rs \<and> ro_members r = [] \<and> ro_host_session r = None
        \<and> ro_token r = ra_token asked \<and> ro_host r = ra_member asked
        \<and> ra_host_token asked = Some (ro_host_token r))"
  using assms by (auto simp: room_found_def Let_def split: option.splits if_splits prod.splits bool.splits)

lemma room_found_Inl:
  "room_found asked limits may_host g rs = (Inl e, g', rs') \<Longrightarrow> rs' = rs"
  by (auto simp: room_found_def Let_def split: option.splits if_splits prod.splits bool.splits)

lemma found_ok:
  assumes ok: "rooms_ok limits log rs" and found: "room_found asked limits may_host g rs = (Inr r, g', rs')"
  shows "rooms_ok limits log rs' \<and> room_ok limits log (ra_room asked) r \<and> room_at rs' (ra_room asked) = Some r
     \<and> rs_sessions rs' = rs_sessions rs"
  using room_found_Inr [OF found]
proof (elim disjE conjE)
  assume "rs' = rs" "room_at rs (ra_room asked) = Some r"
  with ok show ?thesis by (auto intro: rooms_okD)
next
  assume new: "room_at rs (ra_room asked) = None" "length (rs_rooms rs) < rl_rooms limits"
    "rs' = put_room (ra_room asked) r rs" "ro_members r = []" "ro_host_session r = None"
  then have r: "room_ok limits log (ra_room asked) r" by (simp add: room_ok_def)
  moreover have "om_ok (rs_rooms rs)" using ok by (rule rooms_okD)
  ultimately show ?thesis using new rooms_ok_put [OF ok r] by simp
qed

lemma with_member_simps [simp]:
  "ro_token (with_member m is_host s r) = ro_token r"
  "ro_host_token (with_member m is_host s r) = ro_host_token r"
  "ro_members (with_member m is_host s r) = om_at m (\<lambda>_. \<lparr>mb_session = s\<rparr>) (ro_members r)"
  "ro_host (with_member m is_host s r) = (if is_host then m else ro_host r)"
  "ro_host_session (with_member m is_host s r) = (if is_host then Some s else ro_host_session r)"
  by (simp_all add: with_member_def Let_def)

lemma seated_simps:
  assumes "seated asked is_host session r rs = (joined, rs')"
  shows "rs_rooms rs' = om_at (ra_room asked) (\<lambda>_. with_member (ra_member asked) is_host session r) (rs_rooms rs)"
    and "rs_sessions rs' = rs_sessions rs" and "jr_session joined = session"
  using assms by (auto simp: seated_def Let_def)

lemma seated_inboxes:
  assumes "heard.inboxes_ok (rs_inboxes rs)" "seated asked is_host session r rs = (joined, rs')"
  shows "heard.inboxes_ok (rs_inboxes rs')" "rs_inboxes rs' s = None \<longleftrightarrow> s \<noteq> session \<and> rs_inboxes rs s = None"
  using assms
  by (auto simp: seated_def Let_def heard.inbox_put_ok split: option.splits if_splits intro!: heard.told_all_ok heard.told_one_ok)

lemma sessions_rise:
  assumes ok: "rooms_ok limits log rs" and room: "rs_sessions rs \<noteq> - 1"
  shows "rooms_ok limits log (rs\<lparr>rs_sessions := rs_sessions rs + 1\<rparr>)"
    and "t \<in> fst ` set log \<Longrightarrow> t < rs_sessions rs + 1"
proof -
  show later: "t < rs_sessions rs + 1" if "t \<in> fst ` set log" for t
    using rooms_okD(4) [OF ok that] later_session [OF room] by blast
  show "rooms_ok limits log (rs\<lparr>rs_sessions := rs_sessions rs + 1\<rparr>)"
    using ok later by (auto simp: rooms_ok_def intro: less_imp_le)
qed

lemma join_ok:
  assumes ok: "rooms_ok limits log rs" and room: "rs_sessions rs \<noteq> - 1"
    and joins: "rooms_join asked limits may_host g rs = (Inr joined, g', rs')"
  shows "rooms_ok limits (log @ [(jr_session joined, asked)]) rs'" (is ?ok)
    and "jr_session joined = rs_sessions rs + 1" (is ?session)
proof -
  let ?s = "rs_sessions rs + 1"
  let ?rs = "rs\<lparr>rs_sessions := ?s\<rparr>"
  let ?log = "log @ [(?s, asked)]"
  note ok1 = sessions_rise(1) [OF ok room] and later = sessions_rise(2) [OF ok room]
  obtain r rs1 is_host g1 where found: "room_found asked limits may_host g ?rs = (Inr r, g1, rs1)"
    and host: "hosting asked r = Inr is_host"
    and fits: "member_at r (ra_member asked) \<noteq> None \<or> length (ro_members r) < rl_members limits"
    and seat: "seated asked is_host ?s r rs1 = (joined, rs')"
    using joins by (auto simp: rooms_join_def Let_def split: prod.splits sum.splits if_splits)
  note f = found_ok [OF ok1 found]
  from f have ok2: "rooms_ok limits log rs1" and r: "room_ok limits log (ra_room asked) r"
    and at: "room_at rs1 (ra_room asked) = Some r" and s1: "rs_sessions rs1 = ?s" by auto
  from r have members: "om_ok (ro_members r)" by (simp add: room_ok_def)
  let ?r = "with_member (ra_member asked) is_host ?s r"
  from host have token: "ra_token asked = ro_token r"
    and host_token: "is_host \<Longrightarrow> ra_host_token asked = Some (ro_host_token r)"
    by (auto simp: hosting_def split: if_splits option.splits)
  have "room_ok limits ?log (ra_room asked) ?r"
  proof -
    have "length (ro_members ?r) \<le> rl_members limits"
      using r fits members by (auto simp: om_length_at room_ok_def)
    moreover have "let_in ?log (ra_room asked) ?r m (mb_session s)" if "member_at ?r m = Some s" for m s
      using that r members token by (auto simp: let_in_def room_ok_def split: if_splits)
    moreover have "let_host ?log (ra_room asked) ?r s" if "ro_host_session ?r = Some s" for s
      using that r token host_token
      by (cases is_host) (auto simp: let_host_def room_ok_def)
    ultimately show ?thesis using members by (simp add: room_ok_def)
  qed
  moreover have "room_ok limits ?log k q" if "room_at rs1 k = Some q" for k q
    using rooms_okD(3) [OF ok2 that] by (rule room_ok_more)
  moreover have "length (rs_rooms rs') \<le> rl_rooms limits"
    using rooms_okD(1,2) [OF ok2] at by (simp add: seated_simps [OF seat] om_length_at)
  moreover have "distinct (map fst ?log)" using rooms_okD(5) [OF ok] later by force
  moreover have "s \<le> ?s" if "s \<in> fst ` set log" for s
    using later [OF that] by simp
  ultimately show ?ok
    using rooms_okD(1,6,7) [OF ok2] seated_inboxes [OF rooms_okD(7) [OF ok2] seat] seated_simps [OF seat] s1
    by (auto simp: rooms_ok_def)
  show ?session by (simp add: seated_simps [OF seat])
qed

lemma join_refused_ok:
  assumes ok: "rooms_ok limits log rs" and room: "rs_sessions rs \<noteq> - 1"
    and joins: "rooms_join asked limits may_host g rs = (Inl refusal, g', rs')"
  shows "rooms_ok limits log rs'"
proof -
  let ?rs = "rs\<lparr>rs_sessions := rs_sessions rs + 1\<rparr>"
  note ok1 = sessions_rise(1) [OF ok room]
  obtain found g1 rs1 where f: "room_found asked limits may_host g ?rs = (found, g1, rs1)" by (metis prod_cases3)
  show ?thesis
  proof (cases found)
    case (Inl e)
    with f joins have "rs' = ?rs" using room_found_Inl by (auto simp: rooms_join_def)
    with ok1 show ?thesis by simp
  next
    case (Inr r)
    with f joins have "rs' = rs1"
      by (auto simp: rooms_join_def split: sum.splits if_splits prod.splits)
    with found_ok [OF ok1 f [unfolded Inr]] show ?thesis by simp
  qed
qed

subsection \<open>Everything else\<close>

lemma leave_ok:
  assumes ok: "rooms_ok limits log rs"
  shows "rooms_ok limits log (snd (rooms_leave room member session rs))"
proof (cases "room_at rs room")
  case None
  with ok show ?thesis by (simp add: rooms_leave_def)
next
  case (Some r)
  let ?r = "r\<lparr>ro_members := om_drop member (ro_members r)\<rparr>"
  let ?q = "if ro_host_session r = Some session then ?r\<lparr>ro_host_session := None\<rparr> else ?r"
  let ?boxes = "told_all (WentOut member) (sessions_of ?r) (rs_inboxes rs)"
  have r: "room_ok limits log room r" by (rule rooms_okD(3) [OF ok Some])
  have "length (om_drop member (ro_members r)) \<le> rl_members limits"
    using r by (simp add: room_ok_def om_drop_length)
  then have "room_ok limits log room ?q" using r
    by (auto simp: room_ok_def let_in_def let_host_def)
  then have put: "rooms_ok limits log (put_room room ?q rs)"
    by (rule rooms_ok_put [OF ok]) (simp add: Some)
  have boxes: "heard.inboxes_ok ?boxes" using rooms_okD(7) [OF ok] by (intro heard.told_all_ok) simp_all
  note gone = rooms_ok_inboxes [OF rooms_ok_dropped [OF ok] boxes, of room, simplified]
  note kept = rooms_ok_inboxes [OF put boxes, simplified]
  show ?thesis using Some gone kept ok by (auto simp: rooms_leave_def Let_def split: option.splits)
qed

lemma ended_ok: "rooms_ok limits log rs \<Longrightarrow> rooms_ok limits log (room_ended room r rs)"
proof -
  assume ok: "rooms_ok limits log rs"
  have "heard.inboxes_ok (told_all Ended (sessions_of r) (rs_inboxes rs))"
    using rooms_okD(7) [OF ok] by (intro heard.told_all_ok) simp_all
  from rooms_ok_inboxes [OF rooms_ok_dropped [OF ok] this] show ?thesis by (simp add: room_ended_def)
qed

lemma grace_ok: "rooms_ok limits log rs \<Longrightarrow> rooms_ok limits log (snd (end_unless_the_host_came_back room rs))"
  by (auto simp: end_unless_the_host_came_back_def ended_ok split: option.splits)

lemma end_ok: "rooms_ok limits log rs \<Longrightarrow> rooms_ok limits log (rooms_end room session rs)"
  by (auto simp: rooms_end_def ended_ok split: option.splits)

lemma room_told_there: "room_told from sealed ss boxes s = None \<longleftrightarrow> boxes s = None"
  by (simp add: room_told_def)

lemma say_ok: "rooms_ok limits log rs \<Longrightarrow> rooms_ok limits log (rooms_say room from session to sealed rs)"
  by (auto simp: rooms_say_def Let_def room_told_there intro!: rooms_ok_inboxes room_told_ok rooms_okD(7)
      split: option.splits)

lemma kick_ok:
  assumes "rooms_ok limits log rs"
  shows "rooms_ok limits log (snd (rooms_kick room session member rs))"
proof -
  have "heard.inboxes_ok (snd (sent_to (send Ended) s (rs_inboxes rs)))" for s
    by (intro heard.sent_to_ok heard.send_ok rooms_okD(7) [OF assms]) simp_all
  then have "rooms_ok limits log (rs\<lparr>rs_inboxes := snd (sent_to (send Ended) s (rs_inboxes rs))\<rparr>)" for s
    using rooms_ok_inboxes [OF assms] by simp
  with assms show ?thesis by (auto simp: rooms_kick_def case_prod_unfold split: option.splits)
qed

lemma reads_ok: "rooms_ok limits log rs \<Longrightarrow> rooms_ok limits log (snd (room_reads session rs))"
  by (auto simp: room_reads_def intro!: rooms_ok_inboxes heard.inbox_put_ok
      intro: heard.take_notice_ok heard.inboxes_okD rooms_okD(7) split: option.splits if_splits)

lemma hangs_up_ok: "rooms_ok limits log rs \<Longrightarrow> rooms_ok limits log (room_hangs_up session rs)"
  unfolding room_hangs_up_def
  by (rule rooms_ok_inboxes)
    (auto simp: heard.inboxes_ok_def rooms_ok_def heard.hang_up_ok split: if_splits)

subsection \<open>The rooms a server reaches\<close>

inductive rooms_reached :: "room_limits \<Rightarrow> room_log \<Rightarrow> rooms \<Rightarrow> bool" for limits where
  at_first: "rooms_reached limits [] no_rooms"
| joins: "rooms_reached limits log rs \<Longrightarrow> rs_sessions rs \<noteq> - 1 \<Longrightarrow>
    rooms_join asked limits may_host () rs = (Inr joined, g, rs') \<Longrightarrow>
    rooms_reached limits (log @ [(jr_session joined, asked)]) rs'"
| turned_away: "rooms_reached limits log rs \<Longrightarrow> rs_sessions rs \<noteq> - 1 \<Longrightarrow>
    rooms_join asked limits may_host () rs = (Inl refusal, g, rs') \<Longrightarrow> rooms_reached limits log rs'"
| leaves: "rooms_reached limits log rs \<Longrightarrow> rooms_reached limits log (snd (rooms_leave room member session rs))"
| grace: "rooms_reached limits log rs \<Longrightarrow> rooms_reached limits log (snd (end_unless_the_host_came_back room rs))"
| ends: "rooms_reached limits log rs \<Longrightarrow> rooms_reached limits log (rooms_end room session rs)"
| says: "rooms_reached limits log rs \<Longrightarrow> rooms_reached limits log (rooms_say room from session to sealed rs)"
| kicks: "rooms_reached limits log rs \<Longrightarrow> rooms_reached limits log (snd (rooms_kick room session member rs))"
| reads: "rooms_reached limits log rs \<Longrightarrow> rooms_reached limits log (snd (room_reads session rs))"
| hangs_up: "rooms_reached limits log rs \<Longrightarrow> rooms_reached limits log (room_hangs_up session rs)"

lemma no_rooms_ok [simp]: "rooms_ok limits [] no_rooms"
  by (simp add: rooms_ok_def no_rooms_def)

lemma rooms_reached_ok: "rooms_reached limits log rs \<Longrightarrow> rooms_ok limits log rs"
proof (induction rule: rooms_reached.induct)
  case (joins log rs asked may_host joined g rs')
  from join_ok(1) [OF joins.IH joins.hyps(2,3)] show ?case .
qed (simp_all add: join_refused_ok leave_ok grace_ok end_ok say_ok kick_ok reads_ok hangs_up_ok)

subsection \<open>Who is heard, and by whom\<close>

lemma sessions_distinct:
  assumes "rooms_ok limits log rs" and "room_at rs k = Some r"
  shows "distinct (sessions_of r)"
proof -
  have r: "room_ok limits log k r" by (rule rooms_okD(3) [OF assms])
  then have members: "om_ok (ro_members r)" by (simp add: room_ok_def)
  have "m = m'" if "(m, a) \<in> set (ro_members r)" "(m', a') \<in> set (ro_members r)" "mb_session a = mb_session a'" for m m' a a'
  proof -
    have "let_in log k r m (mb_session a)" "let_in log k r m' (mb_session a)"
      using that r members by (auto simp: room_ok_def om_in_set)
    then show ?thesis
      using eq_key_imp_eq_value [OF rooms_okD(5) [OF assms(1)]] by (auto simp: let_in_def)
  qed
  then show ?thesis using om_distinct [OF members]
    unfolding sessions_of_def distinct_map inj_on_def by (fastforce intro: prod_eqI room_member.equality)
qed

lemma ended_tells_all:
  assumes "rooms_ok limits log rs" and "room_at rs k = Some r" and "member_at r m = Some present"
    and "rs_inboxes rs (mb_session present) = Some ib" and "ib_reading ib"
  shows "room_at (room_ended k r rs) k = None"
    and "rs_inboxes (room_ended k r rs) (mb_session present) = Some (ib\<lparr>ib_notices := ib_notices ib @ [Ended]\<rparr>)"
proof -
  have "om_ok (rs_rooms rs)" using assms(1) by (rule rooms_okD)
  then show "room_at (room_ended k r rs) k = None" by (simp add: room_ended_def)
  have "mb_session present \<in> set (sessions_of r)"
    using assms(3) by (force simp: sessions_of_def dest: map_of_SomeD)
  then show "rs_inboxes (room_ended k r rs) (mb_session present) = Some (ib\<lparr>ib_notices := ib_notices ib @ [Ended]\<rparr>)"
    using sessions_distinct [OF assms(1,2)] assms(4,5) by (simp add: room_ended_def told_all_here)
qed

lemma guests_reach_the_host:
  assumes "room_at rs k = Some r" and "ro_host_session r \<noteq> Some s"
    and "\<And>h. member_at r (ro_host r) = Some h \<Longrightarrow> t \<noteq> mb_session h"
  shows "rs_inboxes (rooms_say k from s to sealed rs) t = rs_inboxes rs t"
  using assms by (auto simp: rooms_say_def room_told_def counted_other split: option.splits)

lemma host_brought_its_token:
  "rooms_ok limits log rs \<Longrightarrow> room_at rs k = Some r \<Longrightarrow> ro_host_session r = Some s \<Longrightarrow> let_host log k r s"
  using rooms_okD(3) by (fastforce simp: room_ok_def)

subsection \<open>A room left over\<close>

text \<open>
  One thing that happens to the rooms, other than that the host's session \<open>s\<close> ends the room \<open>k\<close>
  and that somebody comes into it with its host's token.
\<close>

inductive without_the_host :: "room_limits \<Rightarrow> bytes \<Rightarrow> u64 \<Rightarrow> rooms \<Rightarrow> rooms \<Rightarrow> bool" for limits k s where
  one_asks: "rs_sessions rs \<noteq> - 1 \<Longrightarrow> ra_room asked \<noteq> k \<or> ra_host_token asked = None \<Longrightarrow>
    rooms_join asked limits may_host () rs = (answer, g, rs') \<Longrightarrow> without_the_host limits k s rs rs'"
| one_leaves: "without_the_host limits k s rs (snd (rooms_leave room member session rs))"
| grace_is_over: "without_the_host limits k s rs (snd (end_unless_the_host_came_back room rs))"
| one_ends: "room \<noteq> k \<or> session \<noteq> s \<Longrightarrow> without_the_host limits k s rs (rooms_end room session rs)"
| one_says: "without_the_host limits k s rs (rooms_say room from session to sealed rs)"
| one_kicks: "without_the_host limits k s rs (snd (rooms_kick room session member rs))"
| one_reads: "without_the_host limits k s rs (snd (room_reads session rs))"
| one_hangs_up: "without_the_host limits k s rs (room_hangs_up session rs)"

lemma without_reached:
  "without_the_host limits k s rs rs' \<Longrightarrow> rooms_reached limits log rs \<Longrightarrow> \<exists>log. rooms_reached limits log rs'"
proof (induction rule: without_the_host.induct)
  case (one_asks rs asked may_host answer g rs')
  then show ?case by (cases answer) (blast intro: rooms_reached.intros)+
qed (blast intro: rooms_reached.intros)+

text \<open>The room stands, is its host's still by its own account, and none of its members is that host's session.\<close>

definition left_over :: "bytes \<Rightarrow> u64 \<Rightarrow> rooms \<Rightarrow> bool" where
  "left_over k s rs \<longleftrightarrow> s \<le> rs_sessions rs \<and>
     (\<exists>r. room_at rs k = Some r \<and> ro_host_session r = Some s \<and> (\<forall>m p. member_at r m = Some p \<longrightarrow> mb_session p \<noteq> s))"

lemma left_over_same:
  "left_over k s rs \<Longrightarrow> room_at rs' k = room_at rs k \<Longrightarrow> rs_sessions rs' = rs_sessions rs \<Longrightarrow> left_over k s rs'"
  by (simp add: left_over_def)

lemma room_of_others:
  assumes "om_ok (rs_rooms rs)" and "k \<noteq> j"
  shows "room_at (put_room j r rs) k = room_at rs k" and "room_at (room_ended j r rs) k = room_at rs k"
  using assms by (simp_all add: room_ended_def)

lemma left_over_join:
  assumes ok: "rooms_ok limits log rs" and left: "left_over k s rs" and room: "rs_sessions rs \<noteq> - 1"
    and plain: "ra_room asked \<noteq> k \<or> ra_host_token asked = None"
    and joins: "rooms_join asked limits may_host () rs = (answer, g, rs')"
  shows "left_over k s rs'"
proof -
  let ?s = "rs_sessions rs + 1"
  let ?rs = "rs\<lparr>rs_sessions := ?s\<rparr>"
  obtain r where r: "room_at rs k = Some r" "ro_host_session r = Some s" "\<forall>m p. member_at r m = Some p \<longrightarrow> mb_session p \<noteq> s"
    and s: "s \<le> rs_sessions rs" using left by (auto simp: left_over_def)
  have later: "s < ?s" using later_session [OF room] s by (meson le_less_trans)
  have spaces: "om_ok (rs_rooms rs)" using ok by (rule rooms_okD)
  have rising: "left_over k s ?rs" using r later by (auto simp: left_over_def)
  obtain found g1 rs1 where f: "room_found asked limits may_host () ?rs = (found, g1, rs1)" by (metis prod_cases3)
  show ?thesis
  proof (cases found)
    case (Inl e)
    then have "rs' = ?rs" using f joins room_found_Inl by (auto simp: rooms_join_def)
    then show ?thesis using rising by simp
  next
    case (Inr q)
    have here: "room_at rs1 k = Some r \<and> rs_sessions rs1 = ?s \<and> om_ok (rs_rooms rs1) \<and> (ra_room asked = k \<longrightarrow> q = r)"
      using room_found_Inr [OF f [unfolded Inr]] r(1) spaces by auto
    then have left1: "left_over k s rs1" using r later by (auto simp: left_over_def)
    show ?thesis
    proof (cases "\<exists>joined. answer = Inr joined")
      case False
      then have "rs' = rs1" using f Inr joins
        by (auto simp: rooms_join_def Let_def split: sum.splits if_splits prod.splits)
      then show ?thesis using left1 by simp
    next
      case True
      then obtain joined is_host where host: "hosting asked q = Inr is_host"
        and seat: "seated asked is_host ?s q rs1 = (joined, rs')"
        using f Inr joins by (auto simp: rooms_join_def Let_def split: sum.splits if_splits prod.splits)
      note at = seated_simps [OF seat]
      show ?thesis
      proof (cases "ra_room asked = k")
        case False
        then show ?thesis using here left_over_same [OF left1] by (simp add: at)
      next
        case True
        then have guest: "\<not> is_host" "q = r" using plain host here by (auto simp: hosting_def split: if_splits)
        have members: "om_ok (ro_members r)" using rooms_okD(3) [OF ok r(1)] by (simp add: room_ok_def)
        show ?thesis using True guest here r later members by (auto simp: left_over_def at)
      qed
    qed
  qed
qed

lemma left_over_stays:
  assumes "without_the_host limits k s rs rs'" and "rooms_ok limits log rs" and "left_over k s rs"
  shows "left_over k s rs'"
proof -
  have spaces: "om_ok (rs_rooms rs)" using assms(2) by (rule rooms_okD)
  have members: "om_ok (ro_members r)" if "room_at rs k = Some r" for r
    using rooms_okD(3) [OF assms(2) that] by (simp add: room_ok_def)
  from assms(1) show ?thesis
  proof cases
    case (one_asks asked may_host answer g)
    then show ?thesis using left_over_join [OF assms(2,3)] by blast
  next
    case (one_leaves room member session)
    then show ?thesis using assms(3) spaces members
      by (cases "room = k") (auto simp: left_over_def rooms_leave_def Let_def split: option.splits if_splits)
  next
    case (grace_is_over room)
    then show ?thesis using assms(3) spaces
      by (cases "room = k") (auto simp: left_over_def end_unless_the_host_came_back_def room_ended_def split: option.splits)
  next
    case (one_ends room session)
    then show ?thesis using assms(3) spaces
      by (cases "room = k") (auto simp: left_over_def rooms_end_def room_ended_def split: option.splits)
  next
    case one_says
    then show ?thesis using assms(3) by (auto simp: left_over_def rooms_say_def Let_def split: option.splits)
  next
    case one_kicks
    then show ?thesis using assms(3) by (auto simp: left_over_def rooms_kick_def case_prod_unfold split: option.splits)
  next
    case one_reads
    then show ?thesis using assms(3) by (auto simp: left_over_def room_reads_def split: option.splits)
  next
    case one_hangs_up
    then show ?thesis using assms(3) by (simp add: left_over_def room_hangs_up_def)
  qed
qed

lemma left_over_for_good:
  assumes "(without_the_host limits k s)\<^sup>*\<^sup>* rs rs'" and "rooms_reached limits log rs" and "left_over k s rs"
  shows "left_over k s rs' \<and> (\<exists>log. rooms_reached limits log rs')"
  using assms
proof (induction rule: rtranclp_induct)
  case (step y z)
  then obtain log' where log: "left_over k s y" "rooms_reached limits log' y" by blast
  then show ?case
    using left_over_stays [OF step.hyps(2) rooms_reached_ok [OF log(2)] log(1)] without_reached [OF step.hyps(2) log(2)] by blast
qed blast

text \<open>A guest let in under the host's id takes the host's seat, and leaves the host's session nowhere among the members.\<close>

lemma guest_in_the_hosts_seat:
  assumes ok: "rooms_ok limits log rs" and room: "rs_sessions rs \<noteq> - 1"
    and r: "room_at rs (ra_room asked) = Some r" "ro_host_session r = Some s"
    and guest: "ra_host_token asked = None" "ra_member asked = ro_host r"
    and joins: "rooms_join asked limits may_host () rs = (Inr joined, g, rs')"
  shows "left_over (ra_room asked) s rs'"
proof -
  let ?s = "rs_sessions rs + 1"
  have rok: "room_ok limits log (ra_room asked) r" by (rule rooms_okD(3) [OF ok r(1)])
  then have host: "let_host log (ra_room asked) r s" and members: "om_ok (ro_members r)" using r(2) by (auto simp: room_ok_def)
  obtain by_host where by_host: "(s, by_host) \<in> set log" "ra_member by_host = ro_host r"
    using host by (auto simp: let_host_def)
  have s: "s \<le> rs_sessions rs" using rooms_okD(4) [OF ok, of s] by_host(1) by force
  then have later: "s < ?s" using later_session [OF room] by (meson le_less_trans)
  have only: "m = ro_host r" if "member_at r m = Some p" "mb_session p = s" for m p
  proof -
    have "let_in log (ra_room asked) r m s" using rok that by (auto simp: room_ok_def)
    then obtain by_m where "(s, by_m) \<in> set log" "ra_member by_m = m" by (auto simp: let_in_def)
    then show ?thesis using by_host eq_key_imp_eq_value [OF rooms_okD(5) [OF ok]] by metis
  qed
  obtain is_host rs1 where h: "hosting asked r = Inr is_host"
    and seat: "seated asked is_host ?s r (rs\<lparr>rs_sessions := ?s\<rparr>) = (joined, rs')"
    using joins r(1) by (auto simp: rooms_join_def room_found_def Let_def split: prod.splits sum.splits if_splits)
  have "\<not> is_host" using h guest(1) by (auto simp: hosting_def split: if_splits)
  moreover have "om_ok (rs_rooms rs)" using ok by (rule rooms_okD)
  ultimately show ?thesis using seated_simps [OF seat] members later r guest(2) only
    by (auto simp: left_over_def)
qed

lemma left_over_says:
  assumes "left_over k s rs" and "rooms_reached limits log rs"
  shows "\<exists>r. room_at rs k = Some r \<and> ro_host_session r = Some s \<and> s \<notin> set (sessions_of r)
    \<and> (\<forall>m t. fst (rooms_leave k m t rs) = Plainly) \<and> end_unless_the_host_came_back k rs = (False, rs)"
proof -
  obtain r where r: "room_at rs k = Some r" "ro_host_session r = Some s" "\<forall>m p. member_at r m = Some p \<longrightarrow> mb_session p \<noteq> s"
    using assms(1) by (auto simp: left_over_def)
  have "room_ok limits log k r" by (rule rooms_okD(3) [OF rooms_reached_ok [OF assms(2)] r(1)])
  then have "om_ok (ro_members r)" by (simp add: room_ok_def)
  then have "s \<notin> set (sessions_of r)" using r(3) by (fastforce simp: sessions_of_def om_in_set)
  moreover have "fst (rooms_leave k m t rs) = Plainly" for m t
    using r by (auto simp: rooms_leave_def Let_def split: option.splits)
  ultimately show ?thesis using r by (auto simp: end_unless_the_host_came_back_def)
qed

end
