(* ===== verification/Hub.thy ===== *)
theory Hub
  imports Inboxes
begin

text \<open>
  The devices present in the spaces of the sync server (\<open>crates/resonate-server/src/hub.rs\<close>):
  each device's session has an inbox, hears who comes and goes, and may have datagrams relayed to
  it once it said it takes them.
\<close>

datatype notice =
  NoticeAppended
| NoticeArrived device_id
| NoticeLeft device_id
| NoticePunched device_id socket_addr bytes
| NoticeCompacted u64
| NoticeClosed bytes
| NoticeReplaced
| NoticeRelayed device_id bytes

definition relay_backlog_bytes_at_most :: nat where
  "relay_backlog_bytes_at_most = 256 * 1024"

record present =
  pr_address :: socket_addr
  pr_session :: u64
  pr_relaying :: bool

record hub =
  hu_spaces :: "(bytes \<times> (device_id \<times> present) list) list"
  hu_sessions :: u64
  hu_inboxes :: "notice inboxes"

record joined_space =
  jo_session :: u64
  jo_others :: "device_id list"

definition no_hub :: hub where
  "no_hub = \<lparr>hu_spaces = [], hu_sessions = 0, hu_inboxes = Map.empty\<rparr>"

abbreviation space_at :: "hub \<Rightarrow> bytes \<Rightarrow> (device_id \<times> present) list option" where
  "space_at h k \<equiv> map_of (hu_spaces h) k"

abbreviation put_space :: "bytes \<Rightarrow> (device_id \<times> present) list \<Rightarrow> hub \<Rightarrow> hub" where
  "put_space k there h \<equiv> h\<lparr>hu_spaces := om_at k (\<lambda>_. there) (hu_spaces h)\<rparr>"

definition here :: "hub \<Rightarrow> bytes \<Rightarrow> (device_id \<times> present) list" where
  "here h k = (case space_at h k of None \<Rightarrow> [] | Some there \<Rightarrow> there)"

definition present_sessions :: "(device_id \<times> present) list \<Rightarrow> u64 list" where
  "present_sessions there = map (pr_session \<circ> snd) there"

definition hub_join :: "bytes \<Rightarrow> device_id \<Rightarrow> socket_addr \<Rightarrow> nat \<Rightarrow> hub \<Rightarrow> joined_space option \<times> hub" where
  "hub_join space device address most h =
     (let session = hu_sessions h + 1;
          h = h\<lparr>hu_sessions := session\<rparr>;
          there = here h space;
          h = put_space space there h
      in if map_of there device = None \<and> length there \<ge> most then (None, h)
         else
           let boxes = (hu_inboxes h)(session \<mapsto> fresh_inbox);
               boxes = (case map_of there device of
                          None \<Rightarrow> boxes
                        | Some replaced \<Rightarrow> told_one NoticeReplaced (pr_session replaced) boxes);
               there = om_at device (\<lambda>_. \<lparr>pr_address = address, pr_session = session, pr_relaying = False\<rparr>) there;
               others = filter (\<lambda>p. fst p \<noteq> device) there;
               boxes = told_all (NoticeArrived device) (present_sessions others) boxes
           in (Some \<lparr>jo_session = session, jo_others = map fst others\<rparr>, (put_space space there h)\<lparr>hu_inboxes := boxes\<rparr>))"

definition hub_leave :: "bytes \<Rightarrow> device_id \<Rightarrow> u64 \<Rightarrow> hub \<Rightarrow> hub" where
  "hub_leave space device session h = (case space_at h space of
     None \<Rightarrow> h
   | Some there \<Rightarrow>
       if (case map_of there device of None \<Rightarrow> True | Some present \<Rightarrow> pr_session present \<noteq> session) then h
       else
         let there = om_drop device there;
             boxes = told_all (NoticeLeft device) (present_sessions there) (hu_inboxes h)
         in (if there = [] then h\<lparr>hu_spaces := om_drop space (hu_spaces h)\<rparr> else put_space space there h)\<lparr>hu_inboxes := boxes\<rparr>)"

definition hub_tell_all :: "bytes \<Rightarrow> notice \<Rightarrow> hub \<Rightarrow> hub" where
  "hub_tell_all space n h = (case space_at h space of
     None \<Rightarrow> h
   | Some there \<Rightarrow> h\<lparr>hu_inboxes := told_all n (present_sessions there) (hu_inboxes h)\<rparr>)"

definition hub_punch :: "bytes \<Rightarrow> device_id \<Rightarrow> device_id \<Rightarrow> bytes \<Rightarrow> hub \<Rightarrow> bool \<times> hub" where
  "hub_punch space from to sealed h = (case space_at h space of
     None \<Rightarrow> (False, h)
   | Some there \<Rightarrow> (case (map_of there from, map_of there to) of
       (Some asking, Some asked) \<Rightarrow>
         (case sent_to (send (NoticePunched from (pr_address asking) sealed)) (pr_session asked) (hu_inboxes h) of
            (sent, boxes) \<Rightarrow> (sent, h\<lparr>hu_inboxes := boxes\<rparr>))
     | _ \<Rightarrow> (False, h)))"

definition hub_relaying :: "bytes \<Rightarrow> device_id \<Rightarrow> u64 \<Rightarrow> hub \<Rightarrow> hub" where
  "hub_relaying space device session h = (case space_at h space of
     None \<Rightarrow> h
   | Some there \<Rightarrow> (case map_of there device of
       None \<Rightarrow> h
     | Some present \<Rightarrow>
         if pr_session present = session
         then put_space space (om_at device (\<lambda>_. present\<lparr>pr_relaying := True\<rparr>) there) h
         else h))"

definition hub_relay :: "bytes \<Rightarrow> device_id \<Rightarrow> device_id \<Rightarrow> bytes \<Rightarrow> hub \<Rightarrow> bool \<times> hub" where
  "hub_relay space from to datagram h = (case space_at h space of
     None \<Rightarrow> (False, h)
   | Some there \<Rightarrow> (case map_of there to of
       None \<Rightarrow> (False, h)
     | Some asked \<Rightarrow>
         if \<not> pr_relaying asked then (False, h)
         else case sent_to (send_counted relay_backlog_bytes_at_most (length datagram) (NoticeRelayed from datagram))
                     (pr_session asked) (hu_inboxes h) of
           (sent, boxes) \<Rightarrow> (sent, h\<lparr>hu_inboxes := boxes\<rparr>)))"

definition notice_bytes :: "notice \<Rightarrow> nat" where
  "notice_bytes n = (case n of NoticeRelayed _ datagram \<Rightarrow> length datagram | _ \<Rightarrow> 0)"

definition hub_reads :: "u64 \<Rightarrow> hub \<Rightarrow> notice option \<times> hub" where
  "hub_reads session h = (case hu_inboxes h session of
     None \<Rightarrow> (None, h)
   | Some ib \<Rightarrow> (case take_notice notice_bytes ib of
       None \<Rightarrow> (None, h)
     | Some (n, ib) \<Rightarrow> (Some n, h\<lparr>hu_inboxes := (hu_inboxes h)(session \<mapsto> ib)\<rparr>)))"

definition hub_hangs_up :: "u64 \<Rightarrow> hub \<Rightarrow> hub" where
  "hub_hangs_up session h =
     h\<lparr>hu_inboxes := (hu_inboxes h)(session := map_option hang_up (hu_inboxes h session))\<rparr>"

subsection \<open>What holds of the hub\<close>

interpretation relayed: counted_notices notice_bytes relay_backlog_bytes_at_most .

lemma notice_bytes_simps [simp]:
  "notice_bytes (NoticeRelayed d datagram) = length datagram"
  "notice_bytes NoticeAppended = 0" "notice_bytes (NoticeArrived d) = 0" "notice_bytes (NoticeLeft d) = 0"
  "notice_bytes (NoticePunched d a sealed) = 0" "notice_bytes (NoticeCompacted t) = 0"
  "notice_bytes (NoticeClosed sealed) = 0" "notice_bytes NoticeReplaced = 0"
  by (simp_all add: notice_bytes_def)

text \<open>The sessions let in, each with the space and the device it came for (a ghost of the proof).\<close>

type_synonym hub_log = "(u64 \<times> bytes \<times> device_id) list"

definition there_ok :: "hub_log \<Rightarrow> bytes \<Rightarrow> (device_id \<times> present) list \<Rightarrow> bool" where
  "there_ok log k there \<longleftrightarrow> om_ok there
     \<and> (\<forall>d p. map_of there d = Some p \<longrightarrow> (pr_session p, k, d) \<in> set log)"

definition hub_ok :: "hub_log \<Rightarrow> hub \<Rightarrow> bool" where
  "hub_ok log h \<longleftrightarrow> om_ok (hu_spaces h)
     \<and> (\<forall>k there. space_at h k = Some there \<longrightarrow> there_ok log k there)
     \<and> (\<forall>s\<in>fst ` set log. s \<le> hu_sessions h) \<and> distinct (map fst log)
     \<and> (\<forall>s. hu_inboxes h s \<noteq> None \<longleftrightarrow> s \<in> fst ` set log)
     \<and> relayed.inboxes_ok (hu_inboxes h)"

lemma hub_okD:
  assumes "hub_ok log h"
  shows "om_ok (hu_spaces h)" "space_at h k = Some there \<Longrightarrow> there_ok log k there"
    "s \<in> fst ` set log \<Longrightarrow> s \<le> hu_sessions h" "distinct (map fst log)"
    "hu_inboxes h s \<noteq> None \<longleftrightarrow> s \<in> fst ` set log" "relayed.inboxes_ok (hu_inboxes h)"
  using assms by (auto simp: hub_ok_def)

lemma hub_ok_inboxes:
  "hub_ok log h \<Longrightarrow> relayed.inboxes_ok boxes \<Longrightarrow>
   (\<And>s. boxes s = None \<longleftrightarrow> hu_inboxes h s = None) \<Longrightarrow> hub_ok log (h\<lparr>hu_inboxes := boxes\<rparr>)"
  by (simp add: hub_ok_def)

lemma hub_ok_put: "hub_ok log h \<Longrightarrow> there_ok log k there \<Longrightarrow> hub_ok log (put_space k there h)"
  by (auto simp: hub_ok_def)

lemma hub_ok_dropped: "hub_ok log h \<Longrightarrow> hub_ok log (h\<lparr>hu_spaces := om_drop k (hu_spaces h)\<rparr>)"
  by (simp add: hub_ok_def)

lemma here_ok: "hub_ok log h \<Longrightarrow> there_ok log k (here h k)"
  using hub_okD(2) by (auto simp: here_def there_ok_def split: option.splits)

lemma hub_leave_ok:
  assumes ok: "hub_ok log h"
  shows "hub_ok log (hub_leave space device session h)"
proof (cases "space_at h space")
  case (Some there)
  let ?boxes = "told_all (NoticeLeft device) (present_sessions (om_drop device there)) (hu_inboxes h)"
  have boxes: "relayed.inboxes_ok ?boxes" using hub_okD(6) [OF ok] by (intro relayed.told_all_ok) simp_all
  have there: "there_ok log space (om_drop device there)"
    using hub_okD(2) [OF ok Some] by (simp add: there_ok_def)
  note gone = hub_ok_inboxes [OF hub_ok_dropped [OF ok] boxes, of space, simplified]
  note kept = hub_ok_inboxes [OF hub_ok_put [OF ok there] boxes, simplified]
  show ?thesis using Some gone kept ok by (auto simp: hub_leave_def Let_def split: option.splits)
qed (simp add: hub_leave_def ok)

lemma hub_tell_all_ok:
  "hub_ok log h \<Longrightarrow> notice_bytes n = 0 \<Longrightarrow> hub_ok log (hub_tell_all space n h)"
  by (auto simp: hub_tell_all_def intro!: hub_ok_inboxes relayed.told_all_ok hub_okD(6) split: option.splits)

lemma hub_sent_ok:
  assumes "hub_ok log h" and "\<And>ib. relayed.inbox_ok ib \<Longrightarrow> relayed.inbox_ok (snd (sending ib))"
  shows "hub_ok log (h\<lparr>hu_inboxes := snd (sent_to sending s (hu_inboxes h))\<rparr>)"
  by (rule hub_ok_inboxes [OF assms(1) relayed.sent_to_ok [OF hub_okD(6) [OF assms(1)] assms(2)]]) simp_all

lemma hub_punch_ok: "hub_ok log h \<Longrightarrow> hub_ok log (snd (hub_punch space from to sealed h))"
  by (auto simp: hub_punch_def case_prod_unfold intro!: hub_sent_ok relayed.send_ok split: option.splits)

lemma hub_relay_ok: "hub_ok log h \<Longrightarrow> hub_ok log (snd (hub_relay space from to datagram h))"
  using relayed.send_counted_ok [where n = "NoticeRelayed from datagram"]
  by (auto simp: hub_relay_def case_prod_unfold intro!: hub_sent_ok split: option.splits)

lemma hub_relaying_ok: "hub_ok log h \<Longrightarrow> hub_ok log (hub_relaying space device session h)"
  by (auto simp: hub_relaying_def there_ok_def intro!: hub_ok_put dest: hub_okD(2) split: option.splits)

lemma hub_reads_ok: "hub_ok log h \<Longrightarrow> hub_ok log (snd (hub_reads session h))"
  by (auto simp: hub_reads_def intro!: hub_ok_inboxes relayed.inbox_put_ok
      intro: relayed.take_notice_ok relayed.inboxes_okD hub_okD(6) split: option.splits if_splits)

lemma hub_hangs_up_ok: "hub_ok log h \<Longrightarrow> hub_ok log (hub_hangs_up session h)"
  unfolding hub_hangs_up_def
  by (rule hub_ok_inboxes) (auto simp: relayed.inboxes_ok_def hub_ok_def split: if_splits)

subsection \<open>Coming in\<close>

lemma hub_sessions_rise:
  assumes ok: "hub_ok log h" and room: "hu_sessions h \<noteq> - 1"
  shows "hub_ok log (h\<lparr>hu_sessions := hu_sessions h + 1\<rparr>)"
    and "t \<in> fst ` set log \<Longrightarrow> t < hu_sessions h + 1"
proof -
  show later: "t < hu_sessions h + 1" if "t \<in> fst ` set log" for t
    using hub_okD(3) [OF ok that] later_session [OF room] by blast
  show "hub_ok log (h\<lparr>hu_sessions := hu_sessions h + 1\<rparr>)"
    using ok later by (auto simp: hub_ok_def intro: less_imp_le)
qed

lemma hub_join_refused:
  assumes "hub_ok log h" and "hu_sessions h \<noteq> - 1" and "hub_join space device address most h = (None, h')"
  shows "hub_ok log h'"
proof -
  note rise = hub_sessions_rise(1) [OF assms(1,2)]
  have "h' = put_space space (here (h\<lparr>hu_sessions := hu_sessions h + 1\<rparr>) space) (h\<lparr>hu_sessions := hu_sessions h + 1\<rparr>)"
    using assms(3) by (auto simp: hub_join_def Let_def split: if_splits)
  with hub_ok_put [OF rise here_ok [OF rise]] show ?thesis by simp
qed

lemma hub_join_lets_in:
  assumes "hub_join space device address most h = (Some j, h')"
  shows "jo_session j = hu_sessions h + 1" and "hu_sessions h' = hu_sessions h + 1"
    and "om_ok (hu_spaces h) \<Longrightarrow> space_at h' k = (if k = space
          then Some (om_at device (\<lambda>_. \<lparr>pr_address = address, pr_session = hu_sessions h + 1, pr_relaying = False\<rparr>) (here h space))
          else space_at h k)"
    and "relayed.inboxes_ok (hu_inboxes h) \<Longrightarrow> relayed.inboxes_ok (hu_inboxes h')"
    and "hu_inboxes h' s = None \<longleftrightarrow> s \<noteq> hu_sessions h + 1 \<and> hu_inboxes h s = None"
    and "om_ok (hu_spaces h) \<Longrightarrow> om_ok (hu_spaces h')"
    and "map_of (here h space) device \<noteq> None \<or> length (here h space) < most"
proof -
  let ?h = "h\<lparr>hu_sessions := hu_sessions h + 1\<rparr>"
  have here: "here ?h space = here h space" by (simp add: here_def)
  note j = assms [unfolded hub_join_def Let_def here]
  show "jo_session j = hu_sessions h + 1" "hu_sessions h' = hu_sessions h + 1"
    using j by (auto split: if_splits)
  show "map_of (here h space) device \<noteq> None \<or> length (here h space) < most"
    using j by (auto split: if_splits)
  show "om_ok (hu_spaces h) \<Longrightarrow> om_ok (hu_spaces h')"
    using j by (auto split: if_splits)
  show "relayed.inboxes_ok (hu_inboxes h) \<Longrightarrow> relayed.inboxes_ok (hu_inboxes h')"
    using j by (auto simp: relayed.inbox_put_ok split: if_splits option.splits intro!: relayed.told_all_ok relayed.told_one_ok)
  show "hu_inboxes h' s = None \<longleftrightarrow> s \<noteq> hu_sessions h + 1 \<and> hu_inboxes h s = None"
    using j by (auto split: if_splits option.splits)
  show "space_at h' k = (if k = space
          then Some (om_at device (\<lambda>_. \<lparr>pr_address = address, pr_session = hu_sessions h + 1, pr_relaying = False\<rparr>) (here h space))
          else space_at h k)" if "om_ok (hu_spaces h)"
    using j that by (auto split: if_splits)
qed

lemma hub_join_ok:
  assumes ok: "hub_ok log h" and room: "hu_sessions h \<noteq> - 1"
    and joins: "hub_join space device address most h = (Some j, h')"
  shows "hub_ok (log @ [(jo_session j, space, device)]) h'"
proof -
  note later = hub_sessions_rise(2) [OF ok room]
  note j = hub_join_lets_in [OF joins]
  let ?log = "log @ [(hu_sessions h + 1, space, device)]"
  have "there_ok ?log k there" if "space_at h' k = Some there" for k there
    using that j(3) [OF hub_okD(1) [OF ok], of k] hub_okD(2) [OF ok, of k there] here_ok [OF ok, of space]
    by (fastforce simp: there_ok_def split: if_splits)
  moreover have "distinct (map fst ?log)" using hub_okD(4) [OF ok] later by force
  moreover have "s \<le> hu_sessions h + 1" if "s \<in> fst ` set ?log" for s
    using that later by (fastforce intro: less_imp_le)
  moreover have "(\<forall>s. hu_inboxes h' s \<noteq> None \<longleftrightarrow> s \<in> fst ` set ?log)"
    using j(5) hub_okD(5) [OF ok] by auto
  ultimately show ?thesis
    using j(4) [OF hub_okD(6) [OF ok]] j(6) [OF hub_okD(1) [OF ok]]
    unfolding hub_ok_def j(1,2) by blast
qed

lemma no_hub_ok [simp]: "hub_ok [] no_hub"
  by (simp add: hub_ok_def no_hub_def)

subsection \<open>Who is told\<close>

lemma present_distinct:
  assumes "hub_ok log h" and "space_at h k = Some there"
  shows "distinct (present_sessions there)"
proof -
  have there: "there_ok log k there" by (rule hub_okD(2) [OF assms])
  have "d = d' \<and> p = p'" if "(d, p) \<in> set there" "(d', p') \<in> set there" "pr_session p = pr_session p'" for d d' p p'
  proof -
    have "(pr_session p, k, d) \<in> set log" "(pr_session p', k, d') \<in> set log"
      using that(1,2) there by (auto simp: there_ok_def om_in_set)
    with that(3) have "(pr_session p, k, d) \<in> set log" "(pr_session p, k, d') \<in> set log" by simp_all
    then have "d = d'" using eq_key_imp_eq_value [OF hub_okD(4) [OF assms(1)]] by blast
    then show ?thesis using that there by (auto simp: there_ok_def om_in_set)
  qed
  moreover have "distinct there" using there by (auto simp: there_ok_def distinct_map dest!: om_distinct)
  ultimately show ?thesis unfolding present_sessions_def distinct_map inj_on_def by fastforce
qed

lemma everyone_is_told:
  assumes "hub_ok log h" and "space_at h k = Some there" and "map_of there d = Some p"
    and "hu_inboxes h (pr_session p) = Some ib" and "ib_reading ib"
  shows "hu_inboxes (hub_tell_all k n h) (pr_session p) = Some (ib\<lparr>ib_notices := ib_notices ib @ [n]\<rparr>)"
proof -
  have "pr_session p \<in> set (present_sessions there)"
    using assms(3) by (force simp: present_sessions_def dest: map_of_SomeD)
  then show ?thesis
    using present_distinct [OF assms(1,2)] assms by (simp add: hub_tell_all_def told_all_here)
qed

subsection \<open>The hubs a server reaches\<close>

inductive hub_reached :: "hub_log \<Rightarrow> hub \<Rightarrow> bool" where
  at_first: "hub_reached [] no_hub"
| comes: "hub_reached log h \<Longrightarrow> hu_sessions h \<noteq> - 1 \<Longrightarrow> hub_join space device address most h = (Some j, h') \<Longrightarrow>
    hub_reached (log @ [(jo_session j, space, device)]) h'"
| turned_away: "hub_reached log h \<Longrightarrow> hu_sessions h \<noteq> - 1 \<Longrightarrow> hub_join space device address most h = (None, h') \<Longrightarrow>
    hub_reached log h'"
| leaves: "hub_reached log h \<Longrightarrow> hub_reached log (hub_leave space device session h)"
| tells: "hub_reached log h \<Longrightarrow> notice_bytes n = 0 \<Longrightarrow> hub_reached log (hub_tell_all space n h)"
| punches: "hub_reached log h \<Longrightarrow> hub_reached log (snd (hub_punch space from to_device sealed h))"
| says_it_relays: "hub_reached log h \<Longrightarrow> hub_reached log (hub_relaying space device session h)"
| relays: "hub_reached log h \<Longrightarrow> hub_reached log (snd (hub_relay space from to_device datagram h))"
| reads: "hub_reached log h \<Longrightarrow> hub_reached log (snd (hub_reads session h))"
| hangs_up: "hub_reached log h \<Longrightarrow> hub_reached log (hub_hangs_up session h)"

lemma hub_reached_ok: "hub_reached log h \<Longrightarrow> hub_ok log h"
proof (induction rule: hub_reached.induct)
  case (comes log h space device address most j h')
  from hub_join_ok [OF comes.IH comes.hyps(2,3)] show ?case .
next
  case (turned_away log h space device address most h')
  from hub_join_refused [OF turned_away.IH turned_away.hyps(2,3)] show ?case .
qed (simp_all add: hub_leave_ok hub_tell_all_ok hub_punch_ok hub_relaying_ok hub_relay_ok hub_reads_ok hub_hangs_up_ok)

end
