(* ===== verification/Guard.thy ===== *)
theory Guard
  imports Wire "HOL-Library.AList" "HOL-Library.Multiset"
begin

text \<open>
  The guard at the server's door (\<open>crates/resonate-server/src/guard.rs\<close>): how many connections an
  address may hold, how many it may try in a minute, and how many spaces and rooms it may make in a
  day. An \<open>Instant\<close> is a number of nanoseconds, and \<open>duration_since\<close> is zero where the later comes
  first, as the standard library has it. The accounts are a hash map.
\<close>

subsection \<open>Accounts\<close>

type_synonym instant = nat

definition attempt_window :: nat where
  "attempt_window = 60 * 1000000000"

definition space_window :: nat where
  "space_window = 24 * 60 * 60 * 1000000000"

definition forget_after :: nat where
  "forget_after = 24 * 60 * 60 * 1000000000"

definition most_addresses_kept :: nat where
  "most_addresses_kept = 100000"

definition ipv6_prefix_bytes :: nat where
  "ipv6_prefix_bytes = 8"

record allowance =
  al_connections :: nat
  al_per_address :: nat
  al_attempts :: nat
  al_spaces :: nat
  al_shared_spaces :: nat
  al_rooms :: nat

definition default_allowance :: allowance where
  "default_allowance = \<lparr>al_connections = 2048, al_per_address = 64, al_attempts = 30, al_spaces = 5,
     al_shared_spaces = 50, al_rooms = 50\<rparr>"

record allowed =
  aw_spent :: nat
  aw_since :: instant

definition allowed_new :: "instant \<Rightarrow> allowed" where
  "allowed_new now = \<lparr>aw_spent = 0, aw_since = now\<rparr>"

definition allowed_spend :: "nat \<Rightarrow> instant \<Rightarrow> allowed \<Rightarrow> bool \<times> allowed" where
  "allowed_spend most now a =
     (let a = (if now - aw_since a \<ge> space_window then \<lparr>aw_spent = 0, aw_since = now\<rparr> else a)
      in if aw_spent a \<ge> most then (False, a) else (True, a\<lparr>aw_spent := aw_spent a + 1\<rparr>))"

record account =
  ac_open :: nat
  ac_attempts :: nat
  ac_attempts_since :: instant
  ac_spaces :: allowed
  ac_shared_spaces :: allowed
  ac_rooms :: allowed
  ac_seen :: instant

definition account_new :: "instant \<Rightarrow> account" where
  "account_new now = \<lparr>ac_open = 0, ac_attempts = 0, ac_attempts_since = now, ac_spaces = allowed_new now,
     ac_shared_spaces = allowed_new now, ac_rooms = allowed_new now, ac_seen = now\<rparr>"

text \<open>
  An address counts as itself, or in IPv6 as its first half; an IPv4 address written in six
  (\<open>to_canonical\<close>) counts as the one it is.
\<close>

definition canonical :: "ip_addr \<Rightarrow> ip_addr" where
  "canonical a = (case a of
     V4 octets \<Rightarrow> V4 octets
   | V6 octets \<Rightarrow> if take 12 octets = replicate 10 0 @ [255, 255] then V4 (drop 12 octets) else V6 octets)"

definition source_of :: "ip_addr \<Rightarrow> ip_addr" where
  "source_of a = (case canonical a of
     V6 octets \<Rightarrow> V6 (take ipv6_prefix_bytes octets @ replicate (length octets - ipv6_prefix_bytes) 0)
   | V4 octets \<Rightarrow> V4 octets)"

subsection \<open>The ledger\<close>

record ledger =
  le_accounts :: "(ip_addr \<times> account) list"
  le_open :: nat

definition no_ledger :: ledger where
  "no_ledger = \<lparr>le_accounts = [], le_open = 0\<rparr>"

abbreviation account_at :: "ledger \<Rightarrow> ip_addr \<Rightarrow> account option" where
  "account_at l a \<equiv> map_of (le_accounts l) a"

definition put_account :: "ip_addr \<Rightarrow> account \<Rightarrow> ledger \<Rightarrow> ledger" where
  "put_account a account l = l\<lparr>le_accounts := AList.update a account (le_accounts l)\<rparr>"

definition forget_quiet :: "instant \<Rightarrow> ledger \<Rightarrow> ledger" where
  "forget_quiet now l =
     l\<lparr>le_accounts := filter (\<lambda>(_, ac). ac_open ac > 0 \<or> now - ac_seen ac < forget_after) (le_accounts l)\<rparr>"

text \<open>\<open>Guard::admit\<close>: the source an \<open>Admitted\<close> is made for, where the address is let in.\<close>

definition admit :: "allowance \<Rightarrow> ip_addr \<Rightarrow> instant \<Rightarrow> ledger \<Rightarrow> ip_addr option \<times> ledger" where
  "admit al address now l =
     (let source = source_of address
      in if le_open l \<ge> al_connections al then (None, l)
         else
           let crowded = (length (le_accounts l) \<ge> most_addresses_kept \<and> account_at l source = None);
               l = (if crowded then forget_quiet now l else l)
           in if crowded \<and> length (le_accounts l) \<ge> most_addresses_kept then (None, l)
              else
                let ac = (case account_at l source of None \<Rightarrow> account_new now | Some ac \<Rightarrow> ac);
                    ac = (if now - ac_attempts_since ac \<ge> attempt_window
                          then ac\<lparr>ac_attempts_since := now, ac_attempts := 0\<rparr> else ac);
                    ac = ac\<lparr>ac_seen := now\<rparr>
                in if ac_attempts ac \<ge> al_attempts al \<or> ac_open ac \<ge> al_per_address al
                   then (None, put_account source ac l)
                   else (Some source,
                     (put_account source (ac\<lparr>ac_attempts := ac_attempts ac + 1, ac_open := ac_open ac + 1\<rparr>) l)
                       \<lparr>le_open := le_open l + 1\<rparr>))"

definition release_source :: "ip_addr \<Rightarrow> ledger \<Rightarrow> ledger" where
  "release_source source l =
     (let l = l\<lparr>le_open := le_open l - 1\<rparr>
      in case account_at l source of
           None \<Rightarrow> l
         | Some ac \<Rightarrow> put_account source (ac\<lparr>ac_open := ac_open ac - 1\<rparr>) l)"

definition spending :: "(instant \<Rightarrow> account \<Rightarrow> bool \<times> account) \<Rightarrow> ip_addr \<Rightarrow> instant \<Rightarrow> ledger \<Rightarrow> bool \<times> ledger" where
  "spending spend source now l = (case account_at l source of
     None \<Rightarrow> (False, l)
   | Some ac \<Rightarrow> (case spend now ac of (may, ac) \<Rightarrow> (may, put_account source ac l)))"

definition may_make_a_space :: "allowance \<Rightarrow> ip_addr \<Rightarrow> instant \<Rightarrow> ledger \<Rightarrow> bool \<times> ledger" where
  "may_make_a_space al = spending (\<lambda>now ac. case allowed_spend (al_spaces al) now (ac_spaces ac) of
     (may, a) \<Rightarrow> (may, ac\<lparr>ac_spaces := a\<rparr>))"

definition may_make_a_shared_space :: "allowance \<Rightarrow> ip_addr \<Rightarrow> instant \<Rightarrow> ledger \<Rightarrow> bool \<times> ledger" where
  "may_make_a_shared_space al = spending (\<lambda>now ac. case allowed_spend (al_shared_spaces al) now (ac_shared_spaces ac) of
     (may, a) \<Rightarrow> (may, ac\<lparr>ac_shared_spaces := a\<rparr>))"

definition may_host_a_room :: "allowance \<Rightarrow> ip_addr \<Rightarrow> instant \<Rightarrow> ledger \<Rightarrow> bool \<times> ledger" where
  "may_host_a_room al = spending (\<lambda>now ac. case allowed_spend (al_rooms al) now (ac_rooms ac) of
     (may, a) \<Rightarrow> (may, ac\<lparr>ac_rooms := a\<rparr>))"

subsection \<open>Counting in windows of a fixed length\<close>

text \<open>
  A count begins again once its window is over: however the windows fall, no stretch of time as
  long as a window sees more than twice what one window allows. The log of the counted times is a
  ghost, split into those of the running window and the older ones.
\<close>

definition within :: "nat \<Rightarrow> instant \<Rightarrow> instant list \<Rightarrow> nat" where
  "within window t log = length (filter (\<lambda>x. t \<le> x \<and> x < t + window) log)"

lemma filter_fewer: "(\<And>x. x \<in> set xs \<Longrightarrow> P x \<Longrightarrow> Q x) \<Longrightarrow> length (filter P xs) \<le> length (filter Q xs)"
  by (induction xs) auto

locale fixed_window =
  fixes window most :: nat
begin

definition counts :: "instant list \<Rightarrow> nat \<Rightarrow> instant \<Rightarrow> instant \<Rightarrow> bool" where
  "counts log n since now \<longleftrightarrow> (\<exists>older recent. log = older @ recent \<and> length recent \<le> n \<and> n \<le> most \<and> since \<le> now
     \<and> (\<forall>x\<in>set older. x \<le> since) \<and> (\<forall>x\<in>set log. x \<le> now)
     \<and> length (filter (\<lambda>x. since < x + window) older) \<le> most)
     \<and> (\<forall>t. within window t log \<le> 2 * most)"

lemma counts_twice: "counts log n since now \<Longrightarrow> within window t log \<le> 2 * most"
  by (simp add: counts_def)

lemma counts_past: "counts log n since now \<Longrightarrow> x \<in> set log \<Longrightarrow> x \<le> now"
  by (auto simp: counts_def)

lemma counts_start:
  "\<forall>x\<in>set log. x + window \<le> now \<Longrightarrow> \<forall>t. within window t log \<le> 2 * most \<Longrightarrow> counts log 0 now now"
  unfolding counts_def
  by (intro conjI exI [of _ log] exI [of _ "[]"]) (auto simp: filter_empty_conv not_less)

lemma counts_later:
  assumes "counts log n since now" and "now \<le> now'"
  shows "counts log n since now'"
proof -
  obtain older recent where "log = older @ recent" "length recent \<le> n" "n \<le> most" "since \<le> now"
    "\<forall>x\<in>set older. x \<le> since" "\<forall>x\<in>set log. x \<le> now" "length (filter (\<lambda>x. since < x + window) older) \<le> most"
    using assms(1) unfolding counts_def by blast
  then show ?thesis using assms unfolding counts_def
    by (intro conjI exI [of _ older] exI [of _ recent]) (auto intro: order_trans)
qed

lemma counts_again:
  assumes "counts log n since now" and "now \<le> now'" and "now' - since \<ge> window"
  shows "counts log 0 now' now'"
proof -
  obtain older recent where log: "log = older @ recent" "length recent \<le> n" "n \<le> most"
    "since \<le> now" "\<forall>x\<in>set older. x \<le> since" "\<forall>x\<in>set log. x \<le> now"
    using assms(1) unfolding counts_def by blast
  have "x + window \<le> now'" if "x \<in> set older" for x
    using that log(4,5) assms(2,3) by fastforce
  then have "filter (\<lambda>x. now' < x + window) older = []" by (fastforce simp: filter_empty_conv)
  then have "length (filter (\<lambda>x. now' < x + window) log) \<le> length recent"
    unfolding log(1) by (simp add: log(1))
  then have "length (filter (\<lambda>x. now' < x + window) log) \<le> most" using log(2,3) by simp
  then show ?thesis using assms(1,2) log(6) unfolding counts_def
    by (intro conjI exI [of _ log] exI [of _ "[]"]) fastforce+
qed

lemma counts_one:
  assumes "counts log n since now" and "now \<le> now'" and "n < most"
  shows "counts (log @ [now']) (n + 1) since now'"
proof -
  obtain older recent where log: "log = older @ recent" "length recent \<le> n" "since \<le> now"
    "\<forall>x\<in>set older. x \<le> since" "\<forall>x\<in>set log. x \<le> now" "length (filter (\<lambda>x. since < x + window) older) \<le> most"
    using assms(1) unfolding counts_def by blast
  have "within window t (log @ [now']) \<le> 2 * most" for t
  proof (cases "t \<le> now' \<and> now' < t + window")
    case False
    then show ?thesis using counts_twice [OF assms(1), of t] by (auto simp: within_def)
  next
    case True
    have "length (filter (\<lambda>x. t \<le> x \<and> x < t + window) older) \<le> length (filter (\<lambda>x. since < x + window) older)"
      using True log(3) assms(2) by (intro filter_fewer) auto
    moreover have "length (filter (\<lambda>x. t \<le> x \<and> x < t + window) recent) \<le> length recent" by (rule length_filter_le)
    ultimately have "length (filter (\<lambda>x. t \<le> x \<and> x < t + window) older) + length (filter (\<lambda>x. t \<le> x \<and> x < t + window) recent) + 1
        \<le> 2 * most" using log(2,6) assms(3) by linarith
    then show ?thesis using True by (simp add: within_def log(1))
  qed
  then show ?thesis unfolding counts_def using log assms(2,3)
    by (intro conjI exI [of _ older] exI [of _ "recent @ [now']"]) (auto intro: order_trans)
qed

end

interpretation attempts: fixed_window attempt_window most for most .

interpretation days: fixed_window space_window most for most .

text \<open>What one allowance lets be made in a day.\<close>

lemma allowed_counts:
  assumes "days.counts most log (aw_spent a) (aw_since a) now" and "now \<le> now'"
    and "allowed_spend most now' a = (may, a')"
  shows "days.counts most (if may then log @ [now'] else log) (aw_spent a') (aw_since a') now'"
proof -
  let ?a = "if now' - aw_since a \<ge> space_window then \<lparr>aw_spent = 0, aw_since = now'\<rparr> else a"
  have on: "days.counts most log (aw_spent ?a) (aw_since ?a) now'"
    using days.counts_again [OF assms(1,2)] days.counts_later [OF assms(1,2)] by simp
  show ?thesis
  proof (cases "aw_spent ?a \<ge> most")
    case True
    then have "may = False" "a' = ?a" using assms(3) by (auto simp: allowed_spend_def Let_def split: if_splits)
    with on show ?thesis by simp
  next
    case False
    then have "may = True" "a' = ?a\<lparr>aw_spent := aw_spent ?a + 1\<rparr>"
      using assms(3) by (auto simp: allowed_spend_def Let_def split: if_splits)
    with days.counts_one [OF on order_refl] False show ?thesis by simp
  qed
qed

subsection \<open>What holds of the ledger\<close>

type_synonym door_log = "(ip_addr \<times> instant) list"

definition times_of :: "ip_addr \<Rightarrow> door_log \<Rightarrow> instant list" where
  "times_of a log = map snd (filter (\<lambda>e. fst e = a) log)"

lemma times_of_snoc [simp]:
  "times_of a (log @ [(b, t)]) = (if a = b then times_of a log @ [t] else times_of a log)"
  by (simp add: times_of_def)

definition account_ok :: "allowance \<Rightarrow> instant list \<Rightarrow> instant \<Rightarrow> account \<Rightarrow> bool" where
  "account_ok al ts now ac \<longleftrightarrow> ac_open ac \<le> al_per_address al \<and> ac_seen ac \<le> now
     \<and> attempts.counts (al_attempts al) ts (ac_attempts ac) (ac_attempts_since ac) now
     \<and> (\<forall>x\<in>set ts. x \<le> ac_seen ac)"

definition no_account_ok :: "allowance \<Rightarrow> instant list \<Rightarrow> instant \<Rightarrow> bool" where
  "no_account_ok al ts now \<longleftrightarrow> (\<forall>x\<in>set ts. x + forget_after \<le> now)
     \<and> (\<forall>t. within attempt_window t ts \<le> 2 * al_attempts al)"

text \<open>An address has an account, or none worth keeping.\<close>

definition slot_ok :: "allowance \<Rightarrow> instant list \<Rightarrow> instant \<Rightarrow> account option \<Rightarrow> bool" where
  "slot_ok al ts now slot = (case slot of None \<Rightarrow> no_account_ok al ts now | Some ac \<Rightarrow> account_ok al ts now ac)"

definition open_in :: "account option \<Rightarrow> nat" where
  "open_in slot = (case slot of None \<Rightarrow> 0 | Some ac \<Rightarrow> ac_open ac)"

definition ledger_ok :: "allowance \<Rightarrow> door_log \<Rightarrow> ip_addr multiset \<Rightarrow> instant \<Rightarrow> ledger \<Rightarrow> bool" where
  "ledger_ok al log out now l \<longleftrightarrow>
     distinct (map fst (le_accounts l)) \<and> length (le_accounts l) \<le> most_addresses_kept
     \<and> le_open l = size out \<and> size out \<le> al_connections al
     \<and> (\<forall>a. count out a = open_in (account_at l a) \<and> slot_ok al (times_of a log) now (account_at l a))"

lemma slot_simps [simp]:
  "slot_ok al ts now None = no_account_ok al ts now" "slot_ok al ts now (Some ac) = account_ok al ts now ac"
  "open_in None = 0" "open_in (Some ac) = ac_open ac"
  by (simp_all add: slot_ok_def open_in_def)

lemma no_ledger_ok [simp]: "ledger_ok al [] {#} now no_ledger"
  by (simp add: ledger_ok_def no_ledger_def no_account_ok_def times_of_def within_def)

lemma account_at_put [simp]: "account_at (put_account a ac l) b = (if a = b then Some ac else account_at l b)"
  by (simp add: put_account_def update_conv')

lemma put_simps [simp]:
  "distinct (map fst (le_accounts l)) \<Longrightarrow> distinct (map fst (le_accounts (put_account a ac l)))"
  "le_open (put_account a ac l) = le_open l"
  by (simp_all add: put_account_def distinct_update)

lemma length_put: "length (le_accounts (put_account a ac l)) =
    (if account_at l a = None then length (le_accounts l) + 1 else length (le_accounts l))"
proof -
  have "length (AList.update a ac m) = (if map_of m a = None then length m + 1 else length m)" for m
    by (induction m) auto
  then show ?thesis by (simp add: put_account_def)
qed

lemma slot_later: "slot_ok al ts now slot \<Longrightarrow> now \<le> now' \<Longrightarrow> slot_ok al ts now' slot"
  by (cases slot) (auto simp: account_ok_def no_account_ok_def intro: attempts.counts_later order_trans)

lemma ledger_okD:
  assumes "ledger_ok al log out now l"
  shows "distinct (map fst (le_accounts l))" "length (le_accounts l) \<le> most_addresses_kept" "le_open l = size out"
    "size out \<le> al_connections al" "count out a = open_in (account_at l a)"
    "slot_ok al (times_of a log) now (account_at l a)"
  using assms by (auto simp: ledger_ok_def)

lemma ledger_later: "ledger_ok al log out now l \<Longrightarrow> now \<le> now' \<Longrightarrow> ledger_ok al log out now' l"
  by (auto simp: ledger_ok_def intro: slot_later)

lemma map_of_filter_value:
  "distinct (map fst m) \<Longrightarrow> map_of (filter (\<lambda>(_, v). P v) m) a =
     (case map_of m a of None \<Rightarrow> None | Some v \<Rightarrow> if P v then Some v else None)"
proof (induction m)
  case (Cons e m)
  have "map_of m (fst e) = None" using Cons.prems by (simp add: map_of_eq_None_iff)
  with Cons show ?case by (auto split: option.splits)
qed simp

lemmas account_at_kept = map_of_filter_value [where P = "\<lambda>ac. ac_open ac > 0 \<or> now - ac_seen ac < forget_after" for now]

lemma forget_quiet_ok:
  assumes ok: "ledger_ok al log out now l" and "now \<le> now'"
  shows "ledger_ok al log out now' (forget_quiet now' l)"
proof -
  note later = ledger_later [OF assms]
  note d = ledger_okD(1) [OF ok]
  let ?l = "forget_quiet now' l"
  have at: "account_at ?l a = (case account_at l a of None \<Rightarrow> None
      | Some ac \<Rightarrow> if ac_open ac > 0 \<or> now' - ac_seen ac < forget_after then Some ac else None)" for a
    unfolding forget_quiet_def by (simp add: account_at_kept [OF d])
  have "count out a = open_in (account_at ?l a) \<and> slot_ok al (times_of a log) now' (account_at ?l a)" for a
    using ledger_okD(5,6) [OF later, of a]
    by (cases "account_at l a")
      (fastforce simp: at account_ok_def no_account_ok_def dest: attempts.counts_twice)+
  moreover have "distinct (map fst (le_accounts ?l))"
    using d by (auto simp: forget_quiet_def distinct_map intro: inj_on_subset)
  moreover have "length (le_accounts ?l) \<le> length (le_accounts l)" by (simp add: forget_quiet_def)
  ultimately show ?thesis using later by (simp add: ledger_ok_def) (simp add: forget_quiet_def)
qed

text \<open>Changing the one account of an address.\<close>

lemma put_ok:
  assumes ok: "ledger_ok al log out now l" and slot: "slot_ok al (times_of a log') now (Some ac)"
    and others: "\<And>b. b \<noteq> a \<Longrightarrow> times_of b log' = times_of b log"
    and fits: "account_at l a = None \<Longrightarrow> length (le_accounts l) < most_addresses_kept"
    and counted: "\<And>b. count out' b = (if b = a then ac_open ac else count out b)"
    and opens: "n = size out'" "size out' \<le> al_connections al"
  shows "ledger_ok al log' out' now ((put_account a ac l)\<lparr>le_open := n\<rparr>)"
proof -
  have "length (le_accounts (put_account a ac l)) \<le> most_addresses_kept"
    using ledger_okD(2) [OF ok] fits by (cases "account_at l a") (simp_all add: length_put)
  moreover have "count out' b = open_in (account_at (put_account a ac l) b)
      \<and> slot_ok al (times_of b log') now (account_at (put_account a ac l) b)" for b
    using slot counted [of b] ledger_okD(5,6) [OF ok, of b] others [of b] by (cases "b = a") simp_all
  ultimately show ?thesis using ledger_okD(1) [OF ok] opens by (simp add: ledger_ok_def)
qed

lemma put_swap:
  "(put_account a ac l)\<lparr>le_open := n\<rparr> = put_account a ac (l\<lparr>le_open := n\<rparr>)"
  "le_open l = n \<Longrightarrow> put_account a ac (l\<lparr>le_open := n\<rparr>) = put_account a ac l"
  by (simp_all add: put_account_def)

text \<open>What an address is admitted with, whether it is let in or kept out.\<close>

definition attempting :: "instant \<Rightarrow> account option \<Rightarrow> account" where
  "attempting now slot =
     (let ac = (case slot of None \<Rightarrow> account_new now | Some ac \<Rightarrow> ac);
          ac = (if now - ac_attempts_since ac \<ge> attempt_window
                then ac\<lparr>ac_attempts_since := now, ac_attempts := 0\<rparr> else ac)
      in ac\<lparr>ac_seen := now\<rparr>)"

lemma attempting_ok:
  assumes "slot_ok al ts now slot" and "now \<le> now'"
  shows "account_ok al ts now' (attempting now' slot)" and "ac_open (attempting now' slot) = open_in slot"
    and "ac_seen (attempting now' slot) = now'"
proof -
  show "ac_open (attempting now' slot) = open_in slot" "ac_seen (attempting now' slot) = now'"
    by (simp_all add: attempting_def Let_def account_new_def split: option.splits)
  show "account_ok al ts now' (attempting now' slot)"
  proof (cases slot)
    case None
    then have "\<forall>x\<in>set ts. x + forget_after \<le> now'" "\<forall>t. within attempt_window t ts \<le> 2 * al_attempts al"
      using assms by (auto simp: no_account_ok_def intro: order_trans)
    moreover from this(1) have "\<forall>x\<in>set ts. x + attempt_window \<le> now'"
      by (auto simp: forget_after_def attempt_window_def)
    ultimately have "attempts.counts (al_attempts al) ts 0 now' now'" by (intro attempts.counts_start)
    then show ?thesis using None attempts.counts_past
      by (auto simp: account_ok_def attempting_def account_new_def attempt_window_def)
  next
    case (Some ac)
    then have ac: "account_ok al ts now ac" using assms(1) by simp
    then have c: "attempts.counts (al_attempts al) ts (ac_attempts ac) (ac_attempts_since ac) now"
      by (simp add: account_ok_def)
    note again = attempts.counts_again [OF c assms(2)] and later = attempts.counts_later [OF c assms(2)]
    show ?thesis using Some ac again later attempts.counts_past [OF later]
      by (auto simp: account_ok_def attempting_def Let_def)
  qed
qed

lemma admit_cases:
  assumes "admit al address now l = (let_in, l')"
  obtains "let_in = None" "l' = l \<or> l' = forget_quiet now l"
  | l1 ac where "l1 = l \<or> l1 = forget_quiet now l" "le_open l < al_connections al" "le_open l1 = le_open l"
    "account_at l1 (source_of address) = None \<Longrightarrow> length (le_accounts l1) < most_addresses_kept"
    "ac = attempting now (account_at l1 (source_of address))"
    "if ac_attempts ac \<ge> al_attempts al \<or> ac_open ac \<ge> al_per_address al
     then let_in = None \<and> l' = put_account (source_of address) ac l1
     else let_in = Some (source_of address)
       \<and> l' = (put_account (source_of address) (ac\<lparr>ac_attempts := ac_attempts ac + 1, ac_open := ac_open ac + 1\<rparr>) l1)
                \<lparr>le_open := le_open l + 1\<rparr>"
proof -
  let ?crowded = "length (le_accounts l) \<ge> most_addresses_kept \<and> account_at l (source_of address) = None"
  let ?l = "if ?crowded then forget_quiet now l else l"
  have opens: "le_open ?l = le_open l" by (simp add: forget_quiet_def)
  consider (full) "le_open l \<ge> al_connections al" | (crowded) "le_open l < al_connections al"
      "?crowded" "length (le_accounts ?l) \<ge> most_addresses_kept"
    | (tried) "le_open l < al_connections al" "\<not> (?crowded \<and> length (le_accounts ?l) \<ge> most_addresses_kept)"
    by linarith
  then show thesis
  proof cases
    case full
    with assms that(1) show thesis by (simp add: admit_def)
  next
    case crowded
    with assms that(1) show thesis by (simp add: admit_def Let_def)
  next
    case tried
    note l' = assms [unfolded admit_def Let_def, folded attempting_def [unfolded Let_def]]
    show thesis
    proof (rule that(2) [of ?l "attempting now (account_at ?l (source_of address))"])
      show "?l = l \<or> ?l = forget_quiet now l" by simp
      show "le_open l < al_connections al" using tried by simp
      show "le_open ?l = le_open l" by (rule opens)
      show "account_at ?l (source_of address) = None \<Longrightarrow> length (le_accounts ?l) < most_addresses_kept"
        using tried by (auto split: if_splits)
    qed (use tried l' opens in \<open>auto simp: attempting_def Let_def split: if_splits\<close>)
  qed
qed

lemma admit_ok:
  assumes ok: "ledger_ok al log out now l" and later: "now \<le> now'"
    and admits: "admit al address now' l = (let_in, l')"
  shows "ledger_ok al (case let_in of None \<Rightarrow> log | Some a \<Rightarrow> log @ [(a, now')])
      (case let_in of None \<Rightarrow> out | Some a \<Rightarrow> add_mset a out) now' l'"
  using admits
proof (cases rule: admit_cases)
  case 1
  then show ?thesis using ledger_later [OF ok later] forget_quiet_ok [OF ok later] by auto
next
  case (2 l1 ac)
  let ?a = "source_of address"
  have ok1: "ledger_ok al log out now' l1"
    using 2(1) ledger_later [OF ok later] forget_quiet_ok [OF ok later] by auto
  note slot = attempting_ok [OF ledger_okD(6) [OF ok1] order_refl, of ?a, folded 2(5)]
  have opens: "ac_open ac = count out ?a" using slot(2) ledger_okD(5) [OF ok1, of ?a] by simp
  have size: "le_open l1 = size out" "size out < al_connections al"
    using 2(2,3) ledger_okD(3) [OF ok1] by simp_all
  show ?thesis
  proof (cases "ac_attempts ac \<ge> al_attempts al \<or> ac_open ac \<ge> al_per_address al")
    case True
    have "ledger_ok al log out now' ((put_account ?a ac l1)\<lparr>le_open := size out\<rparr>)"
      using ok1 slot(1) 2(4) opens size by (intro put_ok [where log = log and out = out]) simp_all
    then show ?thesis using 2(6) True size(1) by (simp add: put_swap)
  next
    case False
    let ?ac = "ac\<lparr>ac_attempts := ac_attempts ac + 1, ac_open := ac_open ac + 1\<rparr>"
    have "attempts.counts (al_attempts al) (times_of ?a log @ [now']) (ac_attempts ac + 1) (ac_attempts_since ac) now'"
      using slot(1) False by (intro attempts.counts_one [OF _ order_refl]) (auto simp: account_ok_def)
    then have "account_ok al (times_of ?a log @ [now']) now' ?ac"
      using slot False by (auto simp: account_ok_def)
    then have "ledger_ok al (log @ [(?a, now')]) (add_mset ?a out) now' ((put_account ?a ?ac l1)\<lparr>le_open := le_open l + 1\<rparr>)"
      using ok1 2(3,4) opens size by (intro put_ok [where log = log and out = out]) auto
    then show ?thesis using 2(6) False by simp
  qed
qed

lemma release_ok:
  assumes ok: "ledger_ok al log out now l" and there: "a \<in># out"
  shows "ledger_ok al log (out - {#a#}) now (release_source a l)"
proof -
  have n: "count out a > 0" using there by simp
  then obtain ac where ac: "account_at l a = Some ac" using ledger_okD(5) [OF ok, of a] by (cases "account_at l a") auto
  then have "count out a = ac_open ac" "account_ok al (times_of a log) now ac"
    using ledger_okD(5,6) [OF ok, of a] by simp_all
  moreover have "size (out - {#a#}) = size out - 1" using there by (rule size_Diff_singleton)
  ultimately have "ledger_ok al log (out - {#a#}) now ((put_account a (ac\<lparr>ac_open := ac_open ac - 1\<rparr>) l)\<lparr>le_open := le_open l - 1\<rparr>)"
    using ac ledger_okD(3,4) [OF ok]
    by (intro put_ok [OF ok]) (auto simp: account_ok_def)
  then show ?thesis using ac by (simp add: release_source_def put_swap)
qed

lemma spending_ok:
  assumes ok: "ledger_ok al log out now l"
    and same: "\<And>ac. let ac' = snd (spend now ac) in ac_open ac' = ac_open ac \<and> ac_seen ac' = ac_seen ac
      \<and> ac_attempts ac' = ac_attempts ac \<and> ac_attempts_since ac' = ac_attempts_since ac"
  shows "ledger_ok al log out now (snd (spending spend a now l))"
proof (cases "account_at l a")
  case (Some ac)
  then have "account_ok al (times_of a log) now ac" "count out a = ac_open ac"
    using ledger_okD(5,6) [OF ok, of a] by simp_all
  moreover have "account_ok al (times_of a log) now (snd (spend now ac)) \<longleftrightarrow> account_ok al (times_of a log) now ac"
    using same [of ac] by (simp add: account_ok_def Let_def)
  ultimately have "ledger_ok al log out now ((put_account a (snd (spend now ac)) l)\<lparr>le_open := size out\<rparr>)"
    using Some same [of ac] ledger_okD(4) [OF ok] by (intro put_ok [OF ok]) (simp_all add: Let_def)
  then show ?thesis using Some ledger_okD(3) [OF ok] by (simp add: spending_def case_prod_unfold put_swap)
qed (simp add: spending_def ok)

lemma makes_ok:
  assumes ok: "ledger_ok al log out now l"
  shows "ledger_ok al log out now (snd (may_make_a_space al a now l))"
    and "ledger_ok al log out now (snd (may_make_a_shared_space al a now l))"
    and "ledger_ok al log out now (snd (may_host_a_room al a now l))"
  unfolding may_make_a_space_def may_make_a_shared_space_def may_host_a_room_def
  by (rule spending_ok [OF ok]; simp add: case_prod_unfold Let_def)+

subsection \<open>The ledgers a guard reaches\<close>

inductive guard_reached :: "allowance \<Rightarrow> door_log \<Rightarrow> ip_addr multiset \<Rightarrow> instant \<Rightarrow> ledger \<Rightarrow> bool" for al where
  opened: "guard_reached al [] {#} now no_ledger"
| knocks: "guard_reached al log out now l \<Longrightarrow> now \<le> now' \<Longrightarrow> admit al address now' l = (let_in, l') \<Longrightarrow>
    guard_reached al (case let_in of None \<Rightarrow> log | Some a \<Rightarrow> log @ [(a, now')])
      (case let_in of None \<Rightarrow> out | Some a \<Rightarrow> add_mset a out) now' l'"
| closes: "guard_reached al log out now l \<Longrightarrow> a \<in># out \<Longrightarrow> guard_reached al log (out - {#a#}) now (release_source a l)"
| forgets: "guard_reached al log out now l \<Longrightarrow> now \<le> now' \<Longrightarrow> guard_reached al log out now' (forget_quiet now' l)"
| makes: "guard_reached al log out now l \<Longrightarrow> now \<le> now' \<Longrightarrow>
    guard_reached al log out now' (snd (may_make_a_space al a now' l))"
| shares: "guard_reached al log out now l \<Longrightarrow> now \<le> now' \<Longrightarrow>
    guard_reached al log out now' (snd (may_make_a_shared_space al a now' l))"
| hosts: "guard_reached al log out now l \<Longrightarrow> now \<le> now' \<Longrightarrow>
    guard_reached al log out now' (snd (may_host_a_room al a now' l))"

lemma guard_reached_ok: "guard_reached al log out now l \<Longrightarrow> ledger_ok al log out now l"
  by (induction rule: guard_reached.induct)
    (auto intro: no_ledger_ok admit_ok release_ok forget_quiet_ok makes_ok ledger_later)

end
