(* ===== verification/Store.thy ===== *)
theory Store
  imports OrderedMaps WireServer "HOL-Library.Product_Lexorder"
begin

text \<open>
  The store of the sync server (\<open>crates/resonate-server/src/store.rs\<close>): three tables of an SQLite
  database, the spaces, the records of each and the parts of its snapshot. The SQL statements are
  in the source, and each is written out here over the tables as ordered maps of their primary
  keys; what the database does below them (files, locks, a disk that fails) is not modelled, so the
  only errors are those the statements themselves give. The digest (SHA-256 of \<open>ring\<close>) is a
  parameter. An INTEGER column holds a signed 64-bit number, an \<open>int\<close> here.
\<close>

subsection \<open>Numbers of columns\<close>

definition as_unsigned :: "int \<Rightarrow> u64" where
  "as_unsigned v = word_of_int v"

definition as_signed :: "u64 \<Rightarrow> int" where
  "as_signed v = sint v"

definition i64_most :: int where
  "i64_most = 9223372036854775807"

definition column_ok :: "int \<Rightarrow> bool" where
  "column_ok v \<longleftrightarrow> - i64_most - 1 \<le> v \<and> v \<le> i64_most"

definition saturating_plus :: "int \<Rightarrow> int \<Rightarrow> int" where
  "saturating_plus a b = max (- i64_most - 1) (min i64_most (a + b))"

definition next_seq :: "int \<Rightarrow> int" where
  "next_seq seq = as_signed (as_unsigned (seq + 1))"

definition length_as_column :: "nat \<Rightarrow> int" where
  "length_as_column n = min i64_most (int n)"

definition u64_saturating_add :: "u64 \<Rightarrow> u64 \<Rightarrow> u64" where
  "u64_saturating_add a b = (if unat a + unat b \<le> u64_max then a + b else - 1)"

subsection \<open>The tables\<close>

record space_row =
  sp_token :: bytes
  sp_created :: int
  sp_touched :: int
  sp_bytes :: int
  sp_head :: int
  sp_through :: int
  sp_viewer :: "bytes option"
  sp_closed :: "bytes option"

record record_row =
  rr_device :: bytes
  rr_blob :: bytes
  rr_digest :: "bytes option"

record capacity =
  cp_spaces :: u64
  cp_bytes :: u64

record store =
  so_spaces :: "(bytes \<times> space_row) list"
  so_records :: "((bytes \<times> int) \<times> record_row) list"
  so_parts :: "((bytes \<times> int) \<times> bytes) list"
  so_capacity :: capacity

datatype store_error = NoSuchSpace | AlreadyThere | OutOfRange

datatype space_claimed = ClaimMade | ClaimHeld | ClaimRefused | ClaimThrottled | ClaimFull

datatype appended = AppendedThrough u64 | AppendedFull | AppendedClosed

datatype compacted = CompactedThrough u64 | CompactedStale | CompactedFull | CompactedClosed

record stored =
  sd_seq :: u64
  sd_device :: device_id
  sd_blob :: bytes

record snapshot =
  sn_through :: u64
  sn_parts :: "bytes list"

datatype caught_up = CaughtSnapshot snapshot | CaughtRecords "stored list"

definition unlimited :: capacity where
  "unlimited = \<lparr>cp_spaces = - 1, cp_bytes = - 1\<rparr>"

definition empty_store :: store where
  "empty_store = \<lparr>so_spaces = [], so_records = [], so_parts = [], so_capacity = unlimited\<rparr>"

definition limited :: "capacity \<Rightarrow> store \<Rightarrow> store" where
  "limited capacity st = st\<lparr>so_capacity := capacity\<rparr>"

abbreviation row_of :: "store \<Rightarrow> bytes \<Rightarrow> space_row option" where
  "row_of st k \<equiv> map_of (so_spaces st) k"

definition put_row :: "bytes \<Rightarrow> space_row \<Rightarrow> store \<Rightarrow> store" where
  "put_row k row st = st\<lparr>so_spaces := om_at k (\<lambda>_. row) (so_spaces st)\<rparr>"

text \<open>The records and the parts of one space, in the order of their primary keys.\<close>

definition slice_of :: "'a \<Rightarrow> (('a \<times> 'b) \<times> 'v) list \<Rightarrow> ('b \<times> 'v) list" where
  "slice_of k m = map (\<lambda>((_, i), v). (i, v)) (filter (\<lambda>((sp, _), _). sp = k) m)"

definition records_of :: "bytes \<Rightarrow> store \<Rightarrow> (int \<times> record_row) list" where
  "records_of k st = slice_of k (so_records st)"

definition parts_of :: "bytes \<Rightarrow> store \<Rightarrow> bytes list" where
  "parts_of k st = map snd (slice_of k (so_parts st))"

text \<open>A sum over a column: one that leaves the range of its numbers is an error.\<close>

definition sum_column :: "int list \<Rightarrow> store_error + int" where
  "sum_column vs = (if column_ok (sum_list vs) then Inr (sum_list vs) else Inl OutOfRange)"

definition totals_in :: "store \<Rightarrow> store_error + u64 \<times> u64" where
  "totals_in st = (case sum_column (map (sp_bytes \<circ> snd) (so_spaces st)) of
     Inl e \<Rightarrow> Inl e
   | Inr held \<Rightarrow> Inr (of_nat (length (so_spaces st)), as_unsigned held))"

subsection \<open>Spaces\<close>

definition space_claim ::
  "bytes \<Rightarrow> bytes \<Rightarrow> int \<Rightarrow> ('g \<Rightarrow> bool \<times> 'g) \<Rightarrow> 'g \<Rightarrow> store \<Rightarrow> (store_error + space_claimed) \<times> 'g \<times> store" where
  "space_claim space token now may_make g st = (case row_of st space of
     Some row \<Rightarrow>
       if sp_token row = token then (Inr ClaimHeld, g, put_row space (row\<lparr>sp_touched := now\<rparr>) st)
       else (Inr ClaimRefused, g, st)
   | None \<Rightarrow> (case totals_in st of
       Inl e \<Rightarrow> (Inl e, g, st)
     | Inr (spaces, bytes) \<Rightarrow>
         if spaces \<ge> cp_spaces (so_capacity st) \<or> bytes \<ge> cp_bytes (so_capacity st) then (Inr ClaimFull, g, st)
         else (case may_make g of
             (False, g) \<Rightarrow> (Inr ClaimThrottled, g, st)
           | (True, g) \<Rightarrow> (Inr ClaimMade, g, put_row space
               \<lparr>sp_token = token, sp_created = now, sp_touched = now, sp_bytes = 0, sp_head = 0, sp_through = 0,
                sp_viewer = None, sp_closed = None\<rparr> st))))"

definition coalesce :: "'a option \<Rightarrow> 'a \<Rightarrow> 'a option" where
  "coalesce held new = (case held of None \<Rightarrow> Some new | Some v \<Rightarrow> Some v)"

definition allow_viewers :: "bytes \<Rightarrow> bytes \<Rightarrow> store \<Rightarrow> store" where
  "allow_viewers space viewer st = (case row_of st space of
     None \<Rightarrow> st
   | Some row \<Rightarrow> put_row space (row\<lparr>sp_viewer := coalesce (sp_viewer row) viewer\<rparr>) st)"

definition may_view :: "bytes \<Rightarrow> bytes \<Rightarrow> int \<Rightarrow> store \<Rightarrow> bool \<times> store" where
  "may_view space viewer now st = (case row_of st space of
     None \<Rightarrow> (False, st)
   | Some row \<Rightarrow> if sp_viewer row = Some viewer then (True, put_row space (row\<lparr>sp_touched := now\<rparr>) st) else (False, st))"

fun heads :: "(bytes \<Rightarrow> bytes) \<Rightarrow> space_asked list \<Rightarrow> int \<Rightarrow> store \<Rightarrow> space_head list \<times> store" where
  "heads digest [] now st = ([], st)"
| "heads digest (asked # others) now st =
     (let token = digest (ask_token asked);
          (found, st) = (case row_of st (ask_space asked) of
             None \<Rightarrow> ([], st)
           | Some row \<Rightarrow>
               if sp_token row = token \<or> sp_viewer row = Some token then
                 ([\<lparr>head_space = ask_space asked, head_at = as_unsigned (sp_head row), head_closed = (sp_closed row \<noteq> None)\<rparr>],
                  put_row (ask_space asked) (row\<lparr>sp_touched := now\<rparr>) st)
               else ([], st));
          (later, st) = heads digest others now st
      in (found @ later, st))"

definition close :: "bytes \<Rightarrow> bytes \<Rightarrow> store \<Rightarrow> (store_error + bytes) \<times> store" where
  "close space sealed st = (case row_of st space of
     None \<Rightarrow> (Inl NoSuchSpace, st)
   | Some row \<Rightarrow>
       let kept = (case sp_closed row of None \<Rightarrow> sealed | Some v \<Rightarrow> v)
       in (Inr kept, put_row space (row\<lparr>sp_closed := Some kept\<rparr>) st))"

definition closed_as :: "bytes \<Rightarrow> store \<Rightarrow> bytes option" where
  "closed_as space st = Option.bind (row_of st space) sp_closed"

definition head_of :: "bytes \<Rightarrow> store \<Rightarrow> u64 \<times> u64" where
  "head_of space st = (case row_of st space of
     None \<Rightarrow> (0, 0)
   | Some row \<Rightarrow> (as_unsigned (sp_head row), as_unsigned (sp_through row)))"

subsection \<open>Records\<close>

definition is_held :: "(bytes \<Rightarrow> bytes) \<Rightarrow> bytes \<Rightarrow> device_id \<Rightarrow> bytes \<Rightarrow> store \<Rightarrow> bool" where
  "is_held digest space device blob st \<longleftrightarrow>
     list_ex (\<lambda>(_, r). rr_device r = device \<and> rr_digest r = Some (digest blob)) (records_of space st)"

text \<open>The blobs not held yet, each with its digest; one that comes twice counts once.\<close>

fun fresh_blobs ::
  "(bytes \<Rightarrow> bytes) \<Rightarrow> bytes \<Rightarrow> device_id \<Rightarrow> store \<Rightarrow> bytes list \<Rightarrow> (bytes \<times> bytes) list \<Rightarrow> (bytes \<times> bytes) list" where
  "fresh_blobs digest space device st [] fresh = fresh"
| "fresh_blobs digest space device st (blob # blobs) fresh =
     (let known = digest blob
      in fresh_blobs digest space device st blobs
           (if \<not> is_held digest space device blob st \<and> \<not> list_ex (\<lambda>(seen, _). seen = known) fresh
            then fresh @ [(known, blob)] else fresh))"

text \<open>The blobs are put in one after another, each a number later; a number taken already is an error.\<close>

fun put_records :: "bytes \<Rightarrow> device_id \<Rightarrow> (bytes \<times> bytes) list \<Rightarrow> int \<Rightarrow> store \<Rightarrow> store_error + int \<times> store" where
  "put_records space device [] seq st = Inr (seq, st)"
| "put_records space device ((known, blob) # others) seq st =
     (let seq = next_seq seq
      in if map_of (so_records st) (space, seq) \<noteq> None then Inl AlreadyThere
         else put_records space device others seq
           (st\<lparr>so_records := om_at (space, seq) (\<lambda>_. \<lparr>rr_device = device, rr_blob = blob, rr_digest = Some known\<rparr>)
              (so_records st)\<rparr>))"

text \<open>\<open>append\<close>: a transaction, so that whatever fails leaves the store as it was.\<close>

definition append ::
  "(bytes \<Rightarrow> bytes) \<Rightarrow> bytes \<Rightarrow> device_id \<Rightarrow> bytes list \<Rightarrow> u64 \<Rightarrow> store \<Rightarrow> (store_error + appended) \<times> store" where
  "append digest space device blobs most_bytes st = (case row_of st space of
     None \<Rightarrow> (Inl NoSuchSpace, st)
   | Some row \<Rightarrow>
       if sp_closed row \<noteq> None then (Inr AppendedClosed, st)
       else
         let fresh = fresh_blobs digest space device st blobs [];
             adding = length_as_column (sum_list (map (length \<circ> snd) fresh))
         in if as_unsigned (saturating_plus (sp_bytes row) adding) > most_bytes then (Inr AppendedFull, st)
            else (case totals_in st of
              Inl e \<Rightarrow> (Inl e, st)
            | Inr (_, stored) \<Rightarrow>
                if u64_saturating_add stored (as_unsigned adding) > cp_bytes (so_capacity st) then (Inr AppendedFull, st)
                else (case put_records space device fresh (sp_head row) st of
                  Inl e \<Rightarrow> (Inl e, st)
                | Inr (seq, put) \<Rightarrow>
                    if \<not> column_ok (sp_bytes row + adding) then (Inl OutOfRange, st)
                    else (Inr (AppendedThrough (as_unsigned seq)),
                      put_row space (row\<lparr>sp_head := seq, sp_bytes := sp_bytes row + adding\<rparr>) put))))"

definition device_from :: "bytes \<Rightarrow> device_id" where
  "device_from bs = take 16 bs @ replicate (16 - length bs) 0"

text \<open>The rows are read until they hold so many bytes together, the one that reaches it included.\<close>

fun read_until :: "nat \<Rightarrow> nat \<Rightarrow> (int \<times> record_row) list \<Rightarrow> stored list" where
  "read_until bytes so_far [] = []"
| "read_until bytes so_far ((seq, r) # rows) =
     (let so_far = so_far + length (rr_blob r);
          read = \<lparr>sd_seq = as_unsigned seq, sd_device = device_from (rr_device r), sd_blob = rr_blob r\<rparr>
      in if so_far \<ge> bytes then [read] else read # read_until bytes so_far rows)"

definition records_after :: "bytes \<Rightarrow> u64 \<Rightarrow> nat \<Rightarrow> nat \<Rightarrow> store \<Rightarrow> stored list" where
  "records_after space after most bytes st =
     read_until bytes 0 (take most (filter (\<lambda>(seq, _). seq > as_signed after) (records_of space st)))"

definition snapshot_of :: "bytes \<Rightarrow> store \<Rightarrow> snapshot option" where
  "snapshot_of space st =
     (let through = snd (head_of space st)
      in if through = 0 then None else Some \<lparr>sn_through = through, sn_parts = parts_of space st\<rparr>)"

definition catch_up :: "bytes \<Rightarrow> u64 \<Rightarrow> nat \<Rightarrow> nat \<Rightarrow> store \<Rightarrow> caught_up" where
  "catch_up space after most bytes st =
     (let through = snd (head_of space st);
          records = CaughtRecords (records_after space after most bytes st)
      in if after < through then (case snapshot_of space st of None \<Rightarrow> records | Some s \<Rightarrow> CaughtSnapshot s)
         else records)"

subsection \<open>Compacting and sweeping\<close>

definition parts_from :: "bytes \<Rightarrow> bytes list \<Rightarrow> ((bytes \<times> int) \<times> bytes) list" where
  "parts_from space parts = map (\<lambda>(i, blob). ((space, length_as_column i), blob)) (enumerate 0 parts)"

fun put_parts :: "((bytes \<times> int) \<times> bytes) list \<Rightarrow> ((bytes \<times> int) \<times> bytes) list \<Rightarrow> store_error + ((bytes \<times> int) \<times> bytes) list" where
  "put_parts [] held = Inr held"
| "put_parts ((k, blob) # others) held =
     (if map_of held k \<noteq> None then Inl AlreadyThere else put_parts others (om_at k (\<lambda>_. blob) held))"

definition compact :: "bytes \<Rightarrow> u64 \<Rightarrow> bytes list \<Rightarrow> u64 \<Rightarrow> store \<Rightarrow> (store_error + compacted) \<times> store" where
  "compact space through parts most_bytes st = (case row_of st space of
     None \<Rightarrow> (Inl NoSuchSpace, st)
   | Some row \<Rightarrow>
       if sp_closed row \<noteq> None then (Inr CompactedClosed, st)
       else if as_signed through \<le> sp_through row \<or> as_signed through > sp_head row then (Inr CompactedStale, st)
       else
         let left = filter (\<lambda>((sp, seq), _). \<not> (sp = space \<and> seq \<le> as_signed through)) (so_records st);
             others = filter (\<lambda>((sp, _), _). sp \<noteq> space) (so_parts st)
         in (case put_parts (parts_from space parts) others of
              Inl e \<Rightarrow> (Inl e, st)
            | Inr put \<Rightarrow>
                let st' = st\<lparr>so_records := left, so_parts := put\<rparr>
                in (case sum_column (map (int \<circ> length \<circ> rr_blob \<circ> snd) (records_of space st')) of
                  Inl e \<Rightarrow> (Inl e, st)
                | Inr records \<Rightarrow> (case sum_column (map (int \<circ> length) (parts_of space st')) of
                    Inl e \<Rightarrow> (Inl e, st)
                  | Inr snapshots \<Rightarrow>
                      if \<not> column_ok (records + snapshots) then (Inl OutOfRange, st)
                      else if as_unsigned (records + snapshots) > most_bytes then (Inr CompactedFull, st)
                      else (Inr (CompactedThrough (as_unsigned (as_signed through))),
                        put_row space (row\<lparr>sp_through := as_signed through, sp_bytes := records + snapshots\<rparr>) st')))))"

text \<open>Deleting a space deletes its records and its parts with it (\<open>ON DELETE CASCADE\<close>).\<close>

definition delete_spaces :: "(space_row \<Rightarrow> bool) \<Rightarrow> store \<Rightarrow> nat \<times> store" where
  "delete_spaces gone st =
     (let doomed = map fst (filter (\<lambda>(_, row). gone row) (so_spaces st))
      in (length doomed,
          st\<lparr>so_spaces := filter (\<lambda>(_, row). \<not> gone row) (so_spaces st),
             so_records := filter (\<lambda>((sp, _), _). sp \<notin> set doomed) (so_records st),
             so_parts := filter (\<lambda>((sp, _), _). sp \<notin> set doomed) (so_parts st)\<rparr>))"

definition sweep_unused :: "int \<Rightarrow> store \<Rightarrow> nat \<times> store" where
  "sweep_unused made_before =
     delete_spaces (\<lambda>row. sp_head row = 0 \<and> sp_through row = 0 \<and> sp_created row < made_before)"

definition sweep :: "int \<Rightarrow> store \<Rightarrow> nat \<times> store" where
  "sweep untouched_since = delete_spaces (\<lambda>row. sp_touched row < untouched_since)"

end
