(* ===== verification/StoreInvariant.thy ===== *)
theory StoreInvariant
  imports Store
begin

text \<open>
  What every operation of the store keeps: the records of a space are numbered without a gap from
  its snapshot to its head, the bytes it is charged with are the bytes it holds, a record is known
  by its digest, and no device's blob is held twice; and exactly what a compaction makes of a space.
\<close>

subsection \<open>The rows of one space\<close>

lemma slice_Nil [simp]: "slice_of k [] = []"
  by (simp add: slice_of_def)

lemma slice_Cons: "slice_of k (e # m) = (if fst (fst e) = k then (snd (fst e), snd e) # slice_of k m else slice_of k m)"
  by (simp add: slice_of_def case_prod_unfold)

lemma slice_in: "(i, v) \<in> set (slice_of k m) \<longleftrightarrow> ((k, i), v) \<in> set m"
  by (induction m) (auto simp: slice_Cons)

lemma slice_other [simp]: "k \<noteq> k' \<Longrightarrow> slice_of k' (om_at (k, i) f m) = slice_of k' m"
  by (induction "(k, i)" f m rule: om_at.induct) (auto simp: slice_Cons)

lemma slice_put_last:
  fixes m :: "(('a :: linorder \<times> 'b :: linorder) \<times> 'v) list"
  assumes "om_ok m" and "\<forall>j\<in>fst ` set (slice_of k m). j < i"
  shows "slice_of k (om_at (k, i) f m) = slice_of k m @ [(i, f None)]"
  using assms
proof (induction "(k, i)" f m rule: om_at.induct)
  case (2 f a v m)
  then have after: "\<forall>b\<in>fst ` set m. a < b" and ok: "om_ok m" by (auto simp: om_ok_def)
  show ?case
  proof (cases "(k, i) < a")
    case True
    have "b \<noteq> (k, j)" if "b \<in> fst ` set ((a, v) # m)" for b j
    proof
      assume b: "b = (k, j)"
      with that have "(k, j) \<in> fst ` set ((a, v) # m)" by simp
      then have "j \<in> fst ` set (slice_of k ((a, v) # m))"
        by (metis (no_types, lifting) fst_conv imageE image_eqI prod.collapse slice_in)
      with 2(3) have "j < i" by blast
      moreover have "b = a \<or> a < b" using that after by auto
      then have "(k, i) < b" using True by (metis less_trans)
      ultimately show False using b by simp
    qed
    then have none: "(k, j) \<notin> fst ` set ((a, v) # m)" for j by blast
    have "slice_of k ((a, v) # m) = []"
    proof (rule ccontr)
      assume "slice_of k ((a, v) # m) \<noteq> []"
      then obtain j w where "(j, w) \<in> set (slice_of k ((a, v) # m))" by (metis list.set_intros(1) neq_Nil_conv prod.exhaust)
      then have "((k, j), w) \<in> set ((a, v) # m)" by (simp only: slice_in)
      then show False using none [of j] by force
    qed
    with True show ?thesis by (simp add: slice_Cons)
  next
    case False
    show ?thesis
    proof (cases "(k, i) = a")
      case True
      with 2(3) show ?thesis by (auto simp: slice_Cons)
    next
      case neq: False
      with False 2(1) [OF False neq ok] 2(3) show ?thesis by (auto simp: slice_Cons split: if_splits)
    qed
  qed
qed (simp add: slice_Cons)

lemma slice_filter: "slice_of k (filter (\<lambda>((sp, i), v). P sp i) m) = filter (\<lambda>(i, _). P k i) (slice_of k m)"
  by (induction m) (auto simp: slice_Cons)

lemma map_of_filtered:
  "distinct (map fst m) \<Longrightarrow> map_of (filter (\<lambda>(_, v). \<not> P v) m) k =
     (case map_of m k of None \<Rightarrow> None | Some v \<Rightarrow> if P v then None else Some v)"
proof (induction m)
  case (Cons e m)
  have "map_of m (fst e) = None" using Cons.prems by (simp add: map_of_eq_None_iff)
  with Cons show ?case by (auto split: option.splits)
qed simp

lemma om_ok_filter: "om_ok m \<Longrightarrow> om_ok (filter P m)"
  by (induction m) (auto simp: om_ok_def)

lemma slice_sorted: "om_ok m \<Longrightarrow> om_ok (slice_of k m)"
  by (induction m) (auto simp: om_ok_def slice_Cons slice_in dest: bspec [where x = "((k, _), _)"])

lemma slice_at: "om_ok m \<Longrightarrow> map_of m (k, i) = map_of (slice_of k m) i"
  by (metis (no_types) slice_in slice_sorted om_in_set not_None_eq)

subsection \<open>Records\<close>

definition charged :: "bytes \<Rightarrow> store \<Rightarrow> int" where
  "charged k st = sum_list (map (int \<circ> length \<circ> rr_blob \<circ> snd) (records_of k st))
     + sum_list (map (int \<circ> length) (parts_of k st))"

definition known_as :: "(int \<times> record_row) \<Rightarrow> bytes \<times> bytes option" where
  "known_as e = (rr_device (snd e), rr_digest (snd e))"

definition space_row_ok :: "(bytes \<Rightarrow> bytes) \<Rightarrow> bytes \<Rightarrow> space_row \<Rightarrow> store \<Rightarrow> bool" where
  "space_row_ok digest k row st \<longleftrightarrow>
     0 \<le> sp_through row \<and> sp_through row \<le> sp_head row \<and> sp_head row \<le> i64_most
     \<and> map fst (records_of k st) = [sp_through row + 1..sp_head row]
     \<and> sp_bytes row = charged k st \<and> column_ok (sp_bytes row)
     \<and> (\<forall>e\<in>set (records_of k st). rr_digest (snd e) = Some (digest (rr_blob (snd e))))
     \<and> distinct (map known_as (records_of k st))
     \<and> (sp_through row = 0 \<longrightarrow> parts_of k st = [])"

definition slot_row_ok :: "(bytes \<Rightarrow> bytes) \<Rightarrow> bytes \<Rightarrow> space_row option \<Rightarrow> store \<Rightarrow> bool" where
  "slot_row_ok digest k slot st = (case slot of
     None \<Rightarrow> records_of k st = [] \<and> parts_of k st = []
   | Some row \<Rightarrow> space_row_ok digest k row st)"

lemma slot_row_simps [simp]:
  "slot_row_ok digest k None st \<longleftrightarrow> records_of k st = [] \<and> parts_of k st = []"
  "slot_row_ok digest k (Some row) st \<longleftrightarrow> space_row_ok digest k row st"
  by (simp_all add: slot_row_ok_def)

definition store_ok :: "(bytes \<Rightarrow> bytes) \<Rightarrow> store \<Rightarrow> bool" where
  "store_ok digest st \<longleftrightarrow> om_ok (so_spaces st) \<and> om_ok (so_records st) \<and> om_ok (so_parts st)
     \<and> (\<forall>k. slot_row_ok digest k (row_of st k) st)"

lemma store_okD:
  assumes "store_ok digest st"
  shows "om_ok (so_spaces st)" "om_ok (so_records st)" "om_ok (so_parts st)"
    "row_of st k = Some row \<Longrightarrow> space_row_ok digest k row st"
    "row_of st k = None \<Longrightarrow> records_of k st = [] \<and> parts_of k st = []"
  using assms unfolding store_ok_def by (auto dest!: spec [where x = k])

lemma empty_store_ok [simp]: "store_ok digest empty_store"
  by (simp add: store_ok_def empty_store_def records_of_def parts_of_def)

lemma capacity_simps [simp]:
  "records_of k (st\<lparr>so_capacity := c\<rparr>) = records_of k st" "parts_of k (st\<lparr>so_capacity := c\<rparr>) = parts_of k st"
  "charged k (st\<lparr>so_capacity := c\<rparr>) = charged k st"
  "space_row_ok digest k row (st\<lparr>so_capacity := c\<rparr>) = space_row_ok digest k row st"
  by (simp_all add: records_of_def parts_of_def charged_def space_row_ok_def)

lemma limited_ok [simp]: "store_ok digest (limited c st) = store_ok digest st"
  by (simp add: store_ok_def limited_def slot_row_ok_def cong: option.case_cong)

lemma slot_row_same:
  "records_of k st' = records_of k st \<Longrightarrow> parts_of k st' = parts_of k st \<Longrightarrow>
   slot_row_ok digest k slot st' = slot_row_ok digest k slot st"
  by (simp add: slot_row_ok_def space_row_ok_def charged_def cong: option.case_cong)

text \<open>A row changed in place, where what counts stays.\<close>

lemma put_row_simps [simp]:
  "so_records (put_row k row st) = so_records st" "so_parts (put_row k row st) = so_parts st"
  "so_capacity (put_row k row st) = so_capacity st"
  "records_of k' (put_row k row st) = records_of k' st" "parts_of k' (put_row k row st) = parts_of k' st"
  "charged k' (put_row k row st) = charged k' st"
  "om_ok (so_spaces st) \<Longrightarrow> row_of (put_row k row st) k' = (if k' = k then Some row else row_of st k')"
  "om_ok (so_spaces st) \<Longrightarrow> om_ok (so_spaces (put_row k row st))"
  by (simp_all add: put_row_def records_of_def parts_of_def charged_def)

lemma space_row_ok_put_row [simp]: "space_row_ok digest k row (put_row k' row' st) = space_row_ok digest k row st"
  by (simp add: space_row_ok_def)

lemma put_row_ok:
  "store_ok digest st \<Longrightarrow> space_row_ok digest k row st \<Longrightarrow> store_ok digest (put_row k row st)"
  by (simp add: store_ok_def) (simp add: slot_row_ok_def cong: option.case_cong)

text \<open>One space changed, its rows too.\<close>

lemma changed_space_ok:
  assumes ok: "store_ok digest st" and "om_ok (so_records st')" and "om_ok (so_parts st')" and same: "so_spaces st' = so_spaces st"
    and others: "\<And>k'. k' \<noteq> k \<Longrightarrow> records_of k' st' = records_of k' st \<and> parts_of k' st' = parts_of k' st"
    and row: "space_row_ok digest k row st'"
  shows "store_ok digest (put_row k row st')"
proof -
  have "slot_row_ok digest k' (row_of (put_row k row st') k') (put_row k row st')" for k'
  proof (cases "k' = k")
    case True
    then show ?thesis using row store_okD(1) [OF ok] same by simp
  next
    case False
    have "row_of (put_row k row st') k' = row_of st k'"
      using False store_okD(1) [OF ok] same by simp
    moreover have "slot_row_ok digest k' (row_of st k') (put_row k row st') = slot_row_ok digest k' (row_of st k') st"
      using others [OF False] by (intro slot_row_same) simp_all
    ultimately show ?thesis using ok by (simp add: store_ok_def)
  qed
  then show ?thesis using assms(2,3) store_okD(1) [OF ok] same by (simp add: store_ok_def)
qed

lemma touched_ok:
  assumes "store_ok digest st" and "row_of st k = Some row" and "sp_through row' = sp_through row"
    "sp_head row' = sp_head row" "sp_bytes row' = sp_bytes row"
  shows "store_ok digest (put_row k row' st)"
proof (rule put_row_ok [OF assms(1)])
  show "space_row_ok digest k row' st"
    using store_okD(4) [OF assms(1,2)] unfolding space_row_ok_def assms(3-) .
qed

lemma new_space_ok:
  assumes "store_ok digest st" and "row_of st k = None" and "sp_through row = 0" "sp_head row = 0" "sp_bytes row = 0"
  shows "store_ok digest (put_row k row st)"
  using store_okD(5) [OF assms(1,2)] assms(3-)
  by (intro put_row_ok assms(1)) (simp add: space_row_ok_def charged_def i64_most_def column_ok_def)

lemma claim_ok: "store_ok digest st \<Longrightarrow> store_ok digest (snd (snd (space_claim space token now may_make g st)))"
proof (cases "row_of st space")
  case None
  assume ok: "store_ok digest st"
  show ?thesis using None new_space_ok [OF ok None] ok
    by (simp add: space_claim_def split: sum.split prod.split bool.split)
next
  case (Some row)
  assume ok: "store_ok digest st"
  show ?thesis using Some touched_ok [OF ok Some] ok by (simp add: space_claim_def)
qed

lemma allow_viewers_ok: "store_ok digest st \<Longrightarrow> store_ok digest (allow_viewers space viewer st)"
  by (auto simp: allow_viewers_def intro: touched_ok split: option.splits)

lemma may_view_ok: "store_ok digest st \<Longrightarrow> store_ok digest (snd (may_view space viewer now st))"
  by (auto simp: may_view_def intro: touched_ok split: option.splits)

lemma heads_ok: "store_ok digest st \<Longrightarrow> store_ok digest (snd (heads dg asked now st))"
proof (induction asked arbitrary: st)
  case (Cons a asked)
  have "store_ok digest (put_row (ask_space a) (row\<lparr>sp_touched := now\<rparr>) st)" if "row_of st (ask_space a) = Some row" for row
    using Cons.prems that by (rule touched_ok) simp_all
  with Cons show ?case by (auto simp: Let_def case_prod_unfold split: option.splits)
qed simp

lemma close_ok: "store_ok digest st \<Longrightarrow> store_ok digest (snd (close space sealed st))"
  by (auto simp: close_def Let_def intro: touched_ok split: option.splits)

subsection \<open>Appending\<close>

lemma signed_column: "column_ok v \<Longrightarrow> as_signed (as_unsigned v) = v"
  unfolding as_signed_def as_unsigned_def column_ok_def i64_most_def
  by (simp add: sint_sbintrunc' signed_take_bit_int_eq_self)

lemma next_seq_simp: "0 \<le> seq \<Longrightarrow> seq < i64_most \<Longrightarrow> next_seq seq = seq + 1"
  unfolding next_seq_def by (rule signed_column) (simp add: column_ok_def i64_most_def)

text \<open>What is fresh is known by its digest, once, and was not held.\<close>

definition fresh_ok :: "(bytes \<Rightarrow> bytes) \<Rightarrow> bytes \<Rightarrow> device_id \<Rightarrow> store \<Rightarrow> (bytes \<times> bytes) list \<Rightarrow> bool" where
  "fresh_ok digest space device st fresh \<longleftrightarrow> distinct (map fst fresh)
     \<and> (\<forall>(known, blob)\<in>set fresh. known = digest blob \<and> \<not> is_held digest space device blob st)"

lemma fresh_blobs_all:
  assumes "fresh_ok digest space device st fresh"
  shows "let out = fresh_blobs digest space device st blobs fresh in
      fresh_ok digest space device st out \<and> length out \<le> length fresh + length blobs
      \<and> sum_list (map (length \<circ> snd) out) \<le> sum_list (map (length \<circ> snd) fresh) + sum_list (map length blobs)
      \<and> fst ` set fresh \<subseteq> fst ` set out \<and> snd ` set out \<subseteq> snd ` set fresh \<union> set blobs
      \<and> (\<forall>blob\<in>set blobs. is_held digest space device blob st \<or> digest blob \<in> fst ` set out)"
  using assms
proof (induction blobs arbitrary: fresh)
  case (Cons b blobs)
  define new where "new = (if \<not> is_held digest space device b st \<and> \<not> list_ex (\<lambda>(seen, _). seen = digest b) fresh
    then fresh @ [(digest b, b)] else fresh)"
  define out where "out = fresh_blobs digest space device st blobs new"
  have step: "fresh_blobs digest space device st (b # blobs) fresh = out"
    by (simp add: Let_def out_def new_def)
  have "fresh_ok digest space device st new"
    using Cons.prems by (auto simp: fresh_ok_def list_ex_iff new_def)
  note ih = Cons.IH [OF this, folded out_def, unfolded Let_def]
  have "is_held digest space device b st \<or> digest b \<in> fst ` set new"
  proof (cases "list_ex (\<lambda>(seen, _). seen = digest b) fresh")
    case True
    then have "digest b \<in> fst ` set fresh" by (auto simp: list_ex_iff intro: rev_image_eqI)
    with True show ?thesis by (simp add: new_def)
  qed (auto simp: new_def)
  note mem = this
  have sets: "fst ` set fresh \<subseteq> fst ` set new" "snd ` set new \<subseteq> snd ` set fresh \<union> {b}"
    "length new \<le> length fresh + 1"
    "sum_list (map (length \<circ> snd) new) \<le> sum_list (map (length \<circ> snd) fresh) + length b" by (auto simp: new_def)
  show ?case unfolding step Let_def
  proof (intro conjI ballI)
    show "fresh_ok digest space device st out" using ih by blast
    show "length out \<le> length fresh + length (b # blobs)" using ih sets(3) by simp
    show "sum_list (map (length \<circ> snd) out) \<le> sum_list (map (length \<circ> snd) fresh) + sum_list (map length (b # blobs))"
      using ih sets(4) by simp
    show "fst ` set fresh \<subseteq> fst ` set out" using ih sets(1) by (meson subset_trans)
    have "snd ` set out \<subseteq> snd ` set new \<union> set blobs" using ih by blast
    also have "\<dots> \<subseteq> (snd ` set fresh \<union> {b}) \<union> set blobs" using sets(2) by (rule Un_mono) simp
    finally show "snd ` set out \<subseteq> snd ` set fresh \<union> set (b # blobs)" by (simp add: Un_assoc)
    have "fst ` set new \<subseteq> fst ` set out" using ih by blast
    then show "is_held digest space device blob st \<or> digest blob \<in> fst ` set out" if "blob \<in> set (b # blobs)" for blob
      using that mem ih subsetD by (cases "blob = b") auto
  qed
qed simp

lemmas fresh_blobs_facts = fresh_blobs_all [unfolded Let_def, THEN conjunct1]
  fresh_blobs_all [unfolded Let_def, THEN conjunct2, THEN conjunct1]
  fresh_blobs_all [unfolded Let_def, THEN conjunct2, THEN conjunct2, THEN conjunct1]
  fresh_blobs_all [unfolded Let_def, THEN conjunct2, THEN conjunct2, THEN conjunct2, THEN conjunct1]
  fresh_blobs_all [unfolded Let_def, THEN conjunct2, THEN conjunct2, THEN conjunct2, THEN conjunct2, THEN conjunct1]
  fresh_blobs_all [unfolded Let_def, THEN conjunct2, THEN conjunct2, THEN conjunct2, THEN conjunct2, THEN conjunct2, rule_format]

lemma no_fresh_ok [simp]: "fresh_ok digest space device st []"
  by (simp add: fresh_ok_def)

text \<open>The rows of fresh blobs, numbered from a sequence number on.\<close>

fun rows_from :: "device_id \<Rightarrow> int \<Rightarrow> (bytes \<times> bytes) list \<Rightarrow> (int \<times> record_row) list" where
  "rows_from device seq [] = []"
| "rows_from device seq ((known, blob) # fresh) =
     (seq + 1, \<lparr>rr_device = device, rr_blob = blob, rr_digest = Some known\<rparr>) # rows_from device (seq + 1) fresh"

lemma rows_from_numbers: "map fst (rows_from device seq fresh) = [seq + 1..seq + int (length fresh)]"
proof (induction device seq fresh rule: rows_from.induct)
  case (2 device seq known blob fresh)
  have "[seq + 1..seq + 1 + int (length fresh)] = (seq + 1) # [seq + 1 + 1..seq + 1 + int (length fresh)]"
    by (subst upto.simps) simp
  with 2 show ?case by (simp add: algebra_simps)
qed simp

lemma rows_from_blobs: "map (rr_blob \<circ> snd) (rows_from device seq fresh) = map snd fresh"
  by (induction device seq fresh rule: rows_from.induct) auto

lemma rows_from_known: "map known_as (rows_from device seq fresh) = map (\<lambda>(known, _). (device, Some known)) fresh"
  by (induction device seq fresh rule: rows_from.induct) (auto simp: known_as_def)

lemma rows_from_in:
  "e \<in> set (rows_from device seq fresh) \<Longrightarrow> \<exists>(known, blob)\<in>set fresh. rr_blob (snd e) = blob \<and> rr_digest (snd e) = Some known
     \<and> rr_device (snd e) = device"
  by (induction device seq fresh rule: rows_from.induct) auto

lemma put_records_gives:
  assumes "om_ok (so_records st)" and "\<forall>j\<in>fst ` set (records_of k st). j \<le> seq" and "0 \<le> seq"
    and "seq + int (length fresh) \<le> i64_most"
  obtains records where "put_records k device fresh seq st = Inr (seq + int (length fresh), st\<lparr>so_records := records\<rparr>)"
    "om_ok records" "slice_of k records = records_of k st @ rows_from device seq fresh"
    "\<And>k'. k' \<noteq> k \<Longrightarrow> slice_of k' records = records_of k' st"
  using assms
proof (induction fresh arbitrary: seq st thesis)
  case Nil
  show ?case by (rule Nil(1) [of "so_records st"]) (use Nil(2) in \<open>simp_all add: records_of_def\<close>)
next
  case (Cons f fresh)
  obtain known blob where f: "f = (known, blob)" by fastforce
  have seq: "next_seq seq = seq + 1" using Cons.prems by (intro next_seq_simp) auto
  let ?r = "\<lparr>rr_device = device, rr_blob = blob, rr_digest = Some known\<rparr>"
  let ?st = "st\<lparr>so_records := om_at (k, seq + 1) (\<lambda>_. ?r) (so_records st)\<rparr>"
  have low: "\<forall>j\<in>fst ` set (slice_of k (so_records st)). j < seq + 1"
    using Cons.prems(3) by (auto simp: records_of_def)
  have here: "records_of k ?st = records_of k st @ [(seq + 1, ?r)]"
    unfolding records_of_def using slice_put_last [OF Cons.prems(2) low] by simp
  have there: "records_of k' ?st = records_of k' st" if "k' \<noteq> k" for k'
    using that by (simp add: records_of_def)
  have free: "map_of (so_records st) (k, seq + 1) = None"
    using low by (auto simp: slice_at [OF Cons.prems(2)] map_of_eq_None_iff)
  obtain records where r: "put_records k device fresh (seq + 1) ?st = Inr (seq + 1 + int (length fresh), ?st\<lparr>so_records := records\<rparr>)"
    "om_ok records" "slice_of k records = records_of k ?st @ rows_from device (seq + 1) fresh"
    "\<And>k'. k' \<noteq> k \<Longrightarrow> slice_of k' records = records_of k' ?st"
  proof (rule Cons.IH [of "seq + 1" ?st])
    show "om_ok (so_records ?st)" using Cons.prems(2) by simp
    show "\<forall>j\<in>fst ` set (records_of k ?st). j \<le> seq + 1" using Cons.prems(3) unfolding here by auto
    show "0 \<le> seq + 1" using Cons.prems(4) by simp
    show "seq + 1 + int (length fresh) \<le> i64_most" using Cons.prems(5) by simp
  qed blast
  show ?case
  proof (rule Cons.prems(1) [of records])
    show "put_records k device (f # fresh) seq st = Inr (seq + int (length (f # fresh)), st\<lparr>so_records := records\<rparr>)"
      using r(1) free by (simp add: f Let_def seq)
    show "slice_of k records = records_of k st @ rows_from device seq (f # fresh)"
      using r(3) by (simp add: here f)
    show "slice_of k' records = records_of k' st" if "k' \<noteq> k" for k'
      using r(4) [OF that] there [OF that] by simp
  qed (rule r(2))
qed

text \<open>The blobs of an append are few and short enough for the numbers of the columns.\<close>

definition in_bounds :: "space_row \<Rightarrow> bytes list \<Rightarrow> bool" where
  "in_bounds row blobs \<longleftrightarrow> sp_head row + int (length blobs) \<le> i64_most
     \<and> int (sum_list (map length blobs)) \<le> i64_most"

lemma append_gives:
  assumes ok: "store_ok digest st" and row: "row_of st k = Some row" and bounds: "in_bounds row blobs"
    and appends: "append digest k device blobs most st = (Inr (AppendedThrough n), st')"
  defines "fresh \<equiv> fresh_blobs digest k device st blobs []"
  defines "adding \<equiv> int (sum_list (map (length \<circ> snd) fresh))"
  obtains records where "sp_closed row = None" "n = as_unsigned (sp_head row + int (length fresh))"
    "st' = put_row k (row\<lparr>sp_head := sp_head row + int (length fresh), sp_bytes := sp_bytes row + adding\<rparr>)
             (st\<lparr>so_records := records\<rparr>)"
    "om_ok records" "slice_of k records = records_of k st @ rows_from device (sp_head row) fresh"
    "\<And>k'. k' \<noteq> k \<Longrightarrow> slice_of k' records = records_of k' st"
    "column_ok (sp_bytes row + adding)" "as_unsigned (saturating_plus (sp_bytes row) adding) \<le> most"
    "\<exists>spaces held. totals_in st = Inr (spaces, held) \<and> u64_saturating_add held (as_unsigned adding) \<le> cp_bytes (so_capacity st)"
proof -
  have space: "space_row_ok digest k row st" by (rule store_okD(4) [OF ok row])
  have few: "length fresh \<le> length blobs" "sum_list (map (length \<circ> snd) fresh) \<le> sum_list (map length blobs)"
    using fresh_blobs_facts(2,3) [OF no_fresh_ok, of digest k device st blobs] by (simp_all add: fresh_def)
  have col: "length_as_column (sum_list (map (length \<circ> snd) fresh)) = adding"
    using few bounds by (simp add: length_as_column_def adding_def in_bounds_def)
  have "\<forall>j\<in>fst ` set (records_of k st). j \<le> sp_head row"
    using space by (metis (no_types, lifting) atLeastAtMost_iff set_map set_upto space_row_ok_def)
  then obtain records where r: "put_records k device fresh (sp_head row) st = Inr (sp_head row + int (length fresh), st\<lparr>so_records := records\<rparr>)"
    "om_ok records" "slice_of k records = records_of k st @ rows_from device (sp_head row) fresh"
    "\<And>k'. k' \<noteq> k \<Longrightarrow> slice_of k' records = records_of k' st"
    using put_records_gives [OF store_okD(2) [OF ok], of k "sp_head row" fresh device] space few bounds
    by (auto simp: space_row_ok_def in_bounds_def)
  note a = appends [unfolded append_def row option.case Let_def, folded fresh_def, unfolded col r(1)]
  show thesis
    by (rule that [of records]) (use a r in \<open>auto simp: not_less split: if_splits sum.splits\<close>)
qed

lemma append_else:
  "(\<forall>n. fst (append digest k device blobs most st) \<noteq> Inr (AppendedThrough n)) \<Longrightarrow>
   snd (append digest k device blobs most st) = st"
  by (auto simp: append_def Let_def split: option.splits if_splits sum.splits)

lemma is_held_known:
  "is_held digest k device blob st \<longleftrightarrow> (device, Some (digest blob)) \<in> set (map known_as (records_of k st))"
  by (auto simp: is_held_def list_ex_iff known_as_def image_iff case_prod_unfold)

lemma fresh_known:
  assumes "fresh_ok digest k device st fresh"
  shows "distinct (map known_as (rows_from device seq fresh))"
    and "set (map known_as (rows_from device seq fresh)) \<inter> set (map known_as (records_of k st)) = {}"
proof -
  have "map known_as (rows_from device seq fresh) = map (\<lambda>d. (device, Some d)) (map fst fresh)"
    by (simp add: rows_from_known case_prod_unfold)
  moreover have "distinct (map (\<lambda>d. (device, Some d)) (map fst fresh))"
    using assms by (simp only: distinct_map [of _ "map fst fresh"] fresh_ok_def) (simp add: inj_on_def)
  ultimately show "distinct (map known_as (rows_from device seq fresh))" by simp
  show "set (map known_as (rows_from device seq fresh)) \<inter> set (map known_as (records_of k st)) = {}"
    unfolding rows_from_known using assms by (fastforce simp: fresh_ok_def is_held_known)
qed

lemma int_sum: "int (sum_list (map f xs)) = sum_list (map (\<lambda>x. int (f x)) xs)"
  by (induction xs) simp_all

lemma upto_joined: "a \<le> b \<Longrightarrow> [a + 1..b + int n] = [a + 1..b] @ [b + 1..b + int n]"
  by (cases "a = b") (simp_all add: upto_split2)

lemma append_ok:
  assumes ok: "store_ok digest st" and bounds: "\<And>row. row_of st k = Some row \<Longrightarrow> in_bounds row blobs"
  shows "store_ok digest (snd (append digest k device blobs most st))"
proof (cases "\<exists>n. fst (append digest k device blobs most st) = Inr (AppendedThrough n)")
  case False
  with append_else ok show ?thesis by metis
next
  case True
  then obtain n st' where appends: "append digest k device blobs most st = (Inr (AppendedThrough n), st')"
    by (metis prod.collapse)
  then obtain row where row: "row_of st k = Some row" by (auto simp: append_def split: option.splits)
  define fresh where "fresh = fresh_blobs digest k device st blobs []"
  define adding where "adding = int (sum_list (map (length \<circ> snd) fresh))"
  obtain records where r: "st' = put_row k (row\<lparr>sp_head := sp_head row + int (length fresh), sp_bytes := sp_bytes row + adding\<rparr>)
             (st\<lparr>so_records := records\<rparr>)"
    "om_ok records" "slice_of k records = records_of k st @ rows_from device (sp_head row) fresh"
    "\<And>k'. k' \<noteq> k \<Longrightarrow> slice_of k' records = records_of k' st" "column_ok (sp_bytes row + adding)"
    by (rule append_gives [OF ok row bounds [OF row] appends, folded fresh_def, folded adding_def]) (rule that)
  let ?st = "st\<lparr>so_records := records\<rparr>"
  let ?row = "row\<lparr>sp_head := sp_head row + int (length fresh), sp_bytes := sp_bytes row + adding\<rparr>"
  have space: "space_row_ok digest k row st" by (rule store_okD(4) [OF ok row])
  have fresh: "fresh_ok digest k device st fresh" "length fresh \<le> length blobs"
    using fresh_blobs_facts(1,2) [OF no_fresh_ok, of digest k device st blobs] by (simp_all add: fresh_def)
  have here: "records_of k ?st = records_of k st @ rows_from device (sp_head row) fresh"
    using r(3) by (simp add: records_of_def)
  have parts: "parts_of k' ?st = parts_of k' st" for k' by (simp add: parts_of_def)
  have "[sp_through row + 1..sp_head row + int (length fresh)]
      = [sp_through row + 1..sp_head row] @ [sp_head row + 1..sp_head row + int (length fresh)]"
    using space by (intro upto_joined) (simp add: space_row_ok_def)
  moreover have "distinct (map known_as (records_of k ?st))"
    using space fresh_known [OF fresh(1), of "sp_head row"]
    by (simp add: here space_row_ok_def Int_commute del: set_map)
  moreover have "rr_digest (snd e) = Some (digest (rr_blob (snd e)))" if "e \<in> set (rows_from device (sp_head row) fresh)" for e
    using rows_from_in [OF that] fresh(1) by (auto simp: fresh_ok_def)
  moreover have "charged k ?st = charged k st + adding"
    unfolding charged_def parts here
    using arg_cong [OF rows_from_blobs [of device "sp_head row" fresh], of "\<lambda>bs. sum_list (map (int \<circ> length) bs)"]
    by (simp add: adding_def comp_def int_sum)
  ultimately have "space_row_ok digest k ?row ?st"
    using space bounds [OF row] fresh(2) r(5)
    unfolding space_row_ok_def parts by (auto simp: here rows_from_numbers in_bounds_def)
  then show ?thesis unfolding appends snd_conv r(1)
    by (rule changed_space_ok [OF ok, rotated -1])
      (use r(2,4) store_okD(3) [OF ok] in \<open>simp_all add: records_of_def parts_of_def\<close>)
qed

subsection \<open>Compacting\<close>

lemma put_parts_gives:
  assumes "put_parts (map (\<lambda>(i, blob). ((k, i), blob)) parts) m = Inr m'" and "om_ok m"
    and "sorted (map fst parts)" and "\<forall>j\<in>fst ` set (slice_of k m). \<forall>i\<in>fst ` set parts. j \<le> i"
  shows "om_ok m' \<and> slice_of k m' = slice_of k m @ parts \<and> (\<forall>k'. k' \<noteq> k \<longrightarrow> slice_of k' m' = slice_of k' m)"
  using assms
proof (induction parts arbitrary: m)
  case (Cons p parts)
  obtain i blob where p: "p = (i, blob)" by fastforce
  have free: "map_of m (k, i) = None"
    and put: "put_parts (map (\<lambda>(i, blob). ((k, i), blob)) parts) (om_at (k, i) (\<lambda>_. blob) m) = Inr m'"
    using Cons.prems(1) by (auto simp: p split: if_splits)
  have "i \<notin> fst ` set (slice_of k m)" using free by (simp add: slice_at [OF Cons.prems(2)] map_of_eq_None_iff)
  moreover have "\<forall>j\<in>fst ` set (slice_of k m). j \<le> i" using Cons.prems(4) by (auto simp: p)
  ultimately have low: "\<forall>j\<in>fst ` set (slice_of k m). j < i" by (metis order_le_imp_less_or_eq)
  note last = slice_put_last [OF Cons.prems(2) low, of "\<lambda>_. blob"]
  have "\<forall>j\<in>fst ` set (slice_of k (om_at (k, i) (\<lambda>_. blob) m)). \<forall>i'\<in>fst ` set parts. j \<le> i'"
    using Cons.prems(3,4) unfolding last by (auto simp: p)
  with Cons.IH [OF put] Cons.prems(2,3) last show ?case by (auto simp: p)
qed simp

lemma parts_from_pairs: "parts_from k parts = map (\<lambda>(i, blob). ((k, i), blob)) (map (\<lambda>(i, blob). (length_as_column i, blob)) (enumerate 0 parts))"
  by (simp add: parts_from_def comp_def case_prod_unfold)

lemma parts_numbers_sorted: "sorted (map fst (map (\<lambda>(i, blob). (length_as_column i, blob)) (enumerate n parts)))"
proof (induction parts arbitrary: n)
  case (Cons b parts)
  have "length_as_column n \<le> length_as_column i" if "(i, v) \<in> set (enumerate (Suc n) parts)" for i v
    using that by (auto simp: in_set_enumerate_eq length_as_column_def)
  with Cons [of "Suc n"] show ?case by auto
qed simp

lemma compact_gives:
  assumes ok: "store_ok digest st" and row: "row_of st k = Some row"
    and compacts: "compact k through parts most st = (Inr (CompactedThrough n), st')"
  obtains records put where "sp_closed row = None" "n = through"
    "sp_through row < as_signed through" "as_signed through \<le> sp_head row"
    "st' = put_row k (row\<lparr>sp_through := as_signed through, sp_bytes := charged k (st\<lparr>so_records := records, so_parts := put\<rparr>)\<rparr>)
             (st\<lparr>so_records := records, so_parts := put\<rparr>)"
    "om_ok records" "om_ok put"
    "slice_of k records = filter (\<lambda>(seq, _). seq > as_signed through) (records_of k st)"
    "map snd (slice_of k put) = parts"
    "\<And>k'. k' \<noteq> k \<Longrightarrow> slice_of k' records = records_of k' st \<and> slice_of k' put = slice_of k' (so_parts st)"
    "column_ok (charged k (st\<lparr>so_records := records, so_parts := put\<rparr>))"
    "as_unsigned (charged k (st\<lparr>so_records := records, so_parts := put\<rparr>)) \<le> most"
proof -
  define left where "left = filter (\<lambda>((sp, seq), _). \<not> (sp = k \<and> seq \<le> as_signed through)) (so_records st)"
  define others where "others = filter (\<lambda>((sp, _), _). sp \<noteq> k) (so_parts st)"
  obtain put where put: "put_parts (parts_from k parts) others = Inr put"
    using compacts row by (auto simp: compact_def Let_def left_def others_def split: if_splits sum.splits)
  let ?st = "st\<lparr>so_records := left, so_parts := put\<rparr>"
  note c = compacts [unfolded compact_def row option.case Let_def, folded left_def others_def, unfolded put sum.case]
  have c': "sp_closed row = None" "n = as_unsigned (as_signed through)" "sp_through row < as_signed through"
    "as_signed through \<le> sp_head row"
    "st' = put_row k (row\<lparr>sp_through := as_signed through, sp_bytes := charged k ?st\<rparr>) ?st"
    "column_ok (charged k ?st)" "as_unsigned (charged k ?st) \<le> most"
    using c by (auto simp: sum_column_def charged_def not_le not_less split: if_splits)
  have "om_ok others" unfolding others_def by (rule om_ok_filter) (rule store_okD(3) [OF ok])
  moreover have none: "slice_of k others = []"
    unfolding others_def using slice_filter [of k "\<lambda>sp i. sp \<noteq> k"] by simp
  ultimately have p: "om_ok put" "slice_of k put = map (\<lambda>(i, blob). (length_as_column i, blob)) (enumerate 0 parts)"
    "\<And>k'. k' \<noteq> k \<Longrightarrow> slice_of k' put = slice_of k' others"
    using put_parts_gives [OF put [unfolded parts_from_pairs] _ parts_numbers_sorted] by auto
  show thesis
  proof (rule that [of put left])
    show "n = through" using c'(2) by (simp add: as_signed_def as_unsigned_def)
    show "om_ok left" unfolding left_def by (rule om_ok_filter) (rule store_okD(2) [OF ok])
    show "slice_of k left = filter (\<lambda>(seq, _). seq > as_signed through) (records_of k st)"
      unfolding left_def records_of_def
      using slice_filter [of k "\<lambda>sp seq. \<not> (sp = k \<and> seq \<le> as_signed through)" "so_records st"] by (simp add: not_le)
    show "map snd (slice_of k put) = parts" unfolding p(2) by (simp add: comp_def case_prod_unfold)
    show "slice_of k' left = records_of k' st \<and> slice_of k' put = slice_of k' (so_parts st)" if "k' \<noteq> k" for k'
      using that p(3) slice_filter [of k' "\<lambda>sp seq. \<not> (sp = k \<and> seq \<le> as_signed through)" "so_records st"]
        slice_filter [of k' "\<lambda>sp i. sp \<noteq> k" "so_parts st"]
      by (simp add: left_def others_def records_of_def)
  qed (use c' p in auto)
qed

lemma put_parts_put:
  "om_ok m \<Longrightarrow> distinct (map fst ps) \<Longrightarrow> \<forall>k\<in>fst ` set ps. map_of m k = None \<Longrightarrow> \<exists>m'. put_parts ps m = Inr m'"
proof (induction ps arbitrary: m)
  case (Cons p ps)
  obtain k blob where p: "p = (k, blob)" by fastforce
  have "\<exists>m'. put_parts ps (om_at k (\<lambda>_. blob) m) = Inr m'"
    using Cons.prems by (intro Cons.IH) (auto simp: p)
  then show ?case using Cons.prems(3) by (simp add: p)
qed simp

lemma parts_numbered_once:
  assumes "int (length parts) \<le> i64_most"
  shows "distinct (map fst (parts_from k parts))"
proof -
  have "map fst (parts_from k parts) = map (\<lambda>i. (k, length_as_column i)) [0..<length parts]"
    by (rule nth_equalityI) (simp_all add: parts_from_def nth_enumerate_eq)
  moreover have "inj_on (\<lambda>i. (k, length_as_column i)) (set [0..<length parts])"
    using assms by (auto simp: inj_on_def length_as_column_def)
  ultimately show ?thesis by (simp add: distinct_map)
qed

lemma unsigned_column: "0 \<le> v \<Longrightarrow> column_ok v \<Longrightarrow> uint (as_unsigned v) = v"
  by (simp add: as_unsigned_def uint_word_of_int_eq take_bit_int_eq_self column_ok_def i64_most_def)

text \<open>What a compaction answers, and what a space holds when it was carried out.\<close>

lemma compact_exactly:
  fixes through :: u64 and parts :: "bytes list"
  assumes ok: "store_ok digest st" and row: "row_of st k = Some row"
    and few: "int (length parts) \<le> i64_most" "sp_bytes row + int (sum_list (map length parts)) \<le> i64_most"
  defines "kept \<equiv> filter (\<lambda>(seq, _). seq > as_signed through) (records_of k st)"
  defines "bytes \<equiv> int (sum_list (map (length \<circ> rr_blob \<circ> snd) kept) + sum_list (map length parts))"
  shows "if sp_closed row \<noteq> None then compact k through parts most st = (Inr CompactedClosed, st)
    else if as_signed through \<le> sp_through row \<or> sp_head row < as_signed through
      then compact k through parts most st = (Inr CompactedStale, st)
    else if int (unat most) < bytes then compact k through parts most st = (Inr CompactedFull, st)
    else \<exists>st'. compact k through parts most st = (Inr (CompactedThrough through), st')
      \<and> row_of st' k = Some (row\<lparr>sp_through := as_signed through, sp_bytes := bytes\<rparr>)
      \<and> records_of k st' = kept \<and> parts_of k st' = parts
      \<and> (\<forall>k'. k' \<noteq> k \<longrightarrow> row_of st' k' = row_of st k' \<and> records_of k' st' = records_of k' st \<and> parts_of k' st' = parts_of k' st)"
proof (cases "sp_closed row \<noteq> None \<or> as_signed through \<le> sp_through row \<or> sp_head row < as_signed through")
  case True
  then show ?thesis using row by (auto simp: compact_def)
next
  case False
  define left where "left = filter (\<lambda>((sp, seq), _). \<not> (sp = k \<and> seq \<le> as_signed through)) (so_records st)"
  define others where "others = filter (\<lambda>((sp, _), _). sp \<noteq> k) (so_parts st)"
  have space: "space_row_ok digest k row st" by (rule store_okD(4) [OF ok row])
  have spaces: "om_ok (so_spaces st)" by (rule store_okD(1) [OF ok])
  have others: "om_ok others" unfolding others_def by (rule om_ok_filter) (rule store_okD(3) [OF ok])
  have none: "slice_of k others = []"
    unfolding others_def using slice_filter [of k "\<lambda>sp i. sp \<noteq> k"] by simp
  have "map_of others (k, i) = None" for i by (auto simp: others_def map_of_eq_None_iff)
  then have "\<forall>key\<in>fst ` set (parts_from k parts). map_of others key = None"
    by (auto simp: parts_from_def)
  then obtain put where put: "put_parts (parts_from k parts) others = Inr put"
    using put_parts_put [OF others parts_numbered_once [OF few(1)]] by blast
  then have p: "om_ok put" "slice_of k put = map (\<lambda>(i, blob). (length_as_column i, blob)) (enumerate 0 parts)"
    "\<And>k'. k' \<noteq> k \<Longrightarrow> slice_of k' put = slice_of k' others"
    using put_parts_gives [OF put [unfolded parts_from_pairs] others parts_numbers_sorted] none by auto
  let ?st = "st\<lparr>so_records := left, so_parts := put\<rparr>"
  have here: "records_of k ?st = kept" "parts_of k ?st = parts"
    unfolding left_def kept_def records_of_def parts_of_def
    using slice_filter [of k "\<lambda>sp seq. \<not> (sp = k \<and> seq \<le> as_signed through)" "so_records st"] p(2)
    by (simp_all add: not_le comp_def case_prod_unfold)
  have elsewhere: "records_of k' ?st = records_of k' st" "parts_of k' ?st = parts_of k' st" if "k' \<noteq> k" for k'
    unfolding left_def records_of_def parts_of_def
    using that p(3) slice_filter [of k' "\<lambda>sp seq. \<not> (sp = k \<and> seq \<le> as_signed through)" "so_records st"]
      slice_filter [of k' "\<lambda>sp i. sp \<noteq> k" "so_parts st"]
    by (simp_all add: others_def)
  let ?r = "sum_list (map (int \<circ> length \<circ> rr_blob \<circ> snd) kept)" and ?p = "sum_list (map (int \<circ> length) parts)"
  have "sum_list (map (int \<circ> f) (filter P xs)) \<le> sum_list (map (int \<circ> f) xs)" for f P and xs :: "(int \<times> record_row) list"
    by (induction xs) auto
  then have "?r \<le> sum_list (map (int \<circ> length \<circ> rr_blob \<circ> snd) (records_of k st))"
    unfolding kept_def by (simp add: comp_assoc)
  moreover have "0 \<le> sum_list (map (int \<circ> length) (parts_of k st))" by (intro sum_list_nonneg) auto
  ultimately have "?r \<le> sp_bytes row" using space by (simp add: space_row_ok_def charged_def)
  have "0 \<le> ?r" "0 \<le> ?p" by (intro sum_list_nonneg; auto)+
  moreover have "bytes = ?r + ?p" "?p = int (sum_list (map length parts))"
    by (simp_all add: bytes_def int_sum comp_def)
  ultimately have sums: "bytes = ?r + ?p" "?p = int (sum_list (map length parts))" "0 \<le> ?r" "0 \<le> ?p" by blast+
  then have columns: "column_ok ?r" "column_ok ?p" "column_ok bytes"
    using \<open>?r \<le> sp_bytes row\<close> few(2) by (auto simp: column_ok_def i64_most_def)
  have "0 \<le> bytes" "column_ok bytes" using columns(3) sums by simp_all
  then have "uint (as_unsigned bytes) = bytes" by (rule unsigned_column)
  then have full: "as_unsigned bytes > most \<longleftrightarrow> int (unat most) < bytes" by (simp add: word_less_def)
  have through: "as_unsigned (as_signed through) = through" by (simp add: as_unsigned_def as_signed_def)
  have "compact k through parts most st = (if as_unsigned bytes > most then (Inr CompactedFull, st)
      else (Inr (CompactedThrough through), put_row k (row\<lparr>sp_through := as_signed through, sp_bytes := bytes\<rparr>) ?st))"
    unfolding compact_def row option.case Let_def left_def [symmetric] others_def [symmetric] put sum.case here sum_column_def
    using False columns sums(1) through by simp
  then show ?thesis
    using False full here elsewhere spaces
    by (auto simp: records_of_def parts_of_def put_row_def)
qed

lemma compact_else:
  "(\<forall>n. fst (compact k through parts most st) \<noteq> Inr (CompactedThrough n)) \<Longrightarrow>
   snd (compact k through parts most st) = st"
  by (auto simp: compact_def Let_def split: option.splits if_splits sum.splits)

lemma compact_ok:
  assumes ok: "store_ok digest st"
  shows "store_ok digest (snd (compact k through parts most st))"
proof (cases "\<exists>n. fst (compact k through parts most st) = Inr (CompactedThrough n)")
  case False
  with compact_else ok show ?thesis by metis
next
  case True
  then obtain n st' where compacts: "compact k through parts most st = (Inr (CompactedThrough n), st')"
    by (metis prod.collapse)
  then obtain row where row: "row_of st k = Some row" by (auto simp: compact_def split: option.splits)
  obtain records put where c: "sp_through row < as_signed through" "as_signed through \<le> sp_head row"
    "st' = put_row k (row\<lparr>sp_through := as_signed through, sp_bytes := charged k (st\<lparr>so_records := records, so_parts := put\<rparr>)\<rparr>)
             (st\<lparr>so_records := records, so_parts := put\<rparr>)"
    "om_ok records" "om_ok put"
    "slice_of k records = filter (\<lambda>(seq, _). seq > as_signed through) (records_of k st)"
    "\<And>k'. k' \<noteq> k \<Longrightarrow> slice_of k' records = records_of k' st \<and> slice_of k' put = slice_of k' (so_parts st)"
    "column_ok (charged k (st\<lparr>so_records := records, so_parts := put\<rparr>))"
    by (rule compact_gives [OF ok row compacts]) (rule that)
  let ?st = "st\<lparr>so_records := records, so_parts := put\<rparr>"
  have space: "space_row_ok digest k row st" by (rule store_okD(4) [OF ok row])
  have here: "records_of k ?st = filter (\<lambda>e. fst e > as_signed through) (records_of k st)"
    using c(6) by (simp add: records_of_def case_prod_unfold)
  have "map fst (records_of k ?st) = filter (\<lambda>seq. seq > as_signed through) (map fst (records_of k st))"
    unfolding here by (simp add: filter_map comp_def)
  also have "\<dots> = filter (\<lambda>seq. seq > as_signed through) [sp_through row + 1..sp_head row]"
    using space by (simp add: space_row_ok_def)
  also have "\<dots> = [as_signed through + 1..sp_head row]"
    using c(1,2) upto_joined [of "sp_through row" "as_signed through" "nat (sp_head row - as_signed through)"]
    by (simp add: filter_empty_conv)
  finally have "map fst (records_of k ?st) = [as_signed through + 1..sp_head row]" .
  moreover have "distinct (map known_as (records_of k ?st))"
    unfolding here using space by (auto simp: space_row_ok_def distinct_map intro: inj_on_subset)
  ultimately have "space_row_ok digest k (row\<lparr>sp_through := as_signed through, sp_bytes := charged k ?st\<rparr>) ?st"
    using space c(1,2,8) by (auto simp: space_row_ok_def here)
  then show ?thesis unfolding compacts snd_conv c(3)
    by (rule changed_space_ok [OF ok, rotated -1]) (use c(4,5,7) in \<open>simp_all add: records_of_def parts_of_def\<close>)
qed

subsection \<open>Sweeping\<close>

lemma delete_spaces_ok:
  assumes ok: "store_ok digest st"
  shows "store_ok digest (snd (delete_spaces gone st))"
proof -
  define doomed where "doomed = map fst (filter (\<lambda>(_, row). gone row) (so_spaces st))"
  let ?st = "snd (delete_spaces gone st)"
  note spaces = store_okD(1) [OF ok]
  have doomed: "k \<in> set doomed \<longleftrightarrow> (\<exists>row. row_of st k = Some row \<and> gone row)" for k
    using spaces by (force simp: doomed_def om_in_set)
  have row: "row_of ?st k = (case row_of st k of None \<Rightarrow> None | Some row \<Rightarrow> if gone row then None else Some row)" for k
    using om_distinct [OF spaces]
    by (simp add: delete_spaces_def Let_def map_of_filtered)
  have records: "records_of k ?st = (if k \<in> set doomed then [] else records_of k st)" for k
    using slice_filter [of k "\<lambda>sp _. sp \<notin> set doomed" "so_records st"]
    by (simp add: delete_spaces_def Let_def doomed_def records_of_def)
  have parts: "parts_of k ?st = (if k \<in> set doomed then [] else parts_of k st)" for k
    using slice_filter [of k "\<lambda>sp _. sp \<notin> set doomed" "so_parts st"]
    by (simp add: delete_spaces_def Let_def doomed_def parts_of_def)
  have "slot_row_ok digest k (row_of ?st k) ?st" for k
  proof (cases "k \<in> set doomed")
    case True
    then show ?thesis using doomed by (auto simp: row records parts)
  next
    case False
    then have "row_of ?st k = row_of st k" using doomed [of k] by (auto simp: row split: option.splits)
    moreover have "slot_row_ok digest k (row_of st k) ?st = slot_row_ok digest k (row_of st k) st"
      using False by (intro slot_row_same) (simp_all add: records parts)
    ultimately show ?thesis using ok by (simp add: store_ok_def)
  qed
  moreover have "om_ok (so_spaces ?st)" "om_ok (so_records ?st)" "om_ok (so_parts ?st)"
    using store_okD(1-3) [OF ok] by (simp_all add: delete_spaces_def Let_def om_ok_filter)
  ultimately show ?thesis by (simp add: store_ok_def)
qed

lemma sweeps_ok:
  "store_ok digest st \<Longrightarrow> store_ok digest (snd (sweep_unused made_before st))"
  "store_ok digest st \<Longrightarrow> store_ok digest (snd (sweep untouched_since st))"
  by (simp_all add: sweep_unused_def sweep_def delete_spaces_ok)

end
