(* ===== verification/CatchUp.thy ===== *)
theory CatchUp
  imports StoreInvariant
begin

text \<open>
  Catching a device up (\<open>send_records\<close> of \<open>crates/resonate-server/src/serve.rs\<close>): frame after
  frame the session looks at the store and sends what comes after what it sent, the snapshot where
  the device is behind it. Other sessions may write between two looks, so the loop is given what
  the store is at each of them.
\<close>

definition records_per_frame :: nat where
  "records_per_frame = 256"

definition record_bytes_per_frame :: nat where
  "record_bytes_per_frame = 4 * 1024 * 1024"

text \<open>What is sent of a record: not the blob, to the device it came from.\<close>

definition entry_for :: "device_id \<Rightarrow> stored \<Rightarrow> ledger_record" where
  "entry_for device r = \<lparr>rec_seq = sd_seq r, rec_blob = (if sd_device r \<noteq> device then Some (sd_blob r) else None)\<rparr>"

partial_function (option) send_records ::
  "bytes \<Rightarrow> device_id \<Rightarrow> (nat \<Rightarrow> store) \<Rightarrow> nat \<Rightarrow> u64 \<Rightarrow> (from_server list \<times> u64) option" where
  "send_records space device looks i sent_through =
     (case catch_up space sent_through records_per_frame record_bytes_per_frame (looks i) of
        CaughtSnapshot s \<Rightarrow>
          Option.bind (send_records space device looks (i + 1) (sn_through s)) (\<lambda>(frames, sent).
            Some (Snapshot (sn_through s) (sn_parts s) # frames, sent))
      | CaughtRecords stored \<Rightarrow>
          if stored = [] then Some ([], sent_through)
          else
            Option.bind (send_records space device looks (i + 1) (sd_seq (last stored))) (\<lambda>(frames, sent).
              Some (Records (map (entry_for device) stored) # frames, sent)))"

text \<open>What a device is given: the snapshots and the records of the frames it is sent.\<close>

fun snapshots_in :: "from_server list \<Rightarrow> (u64 \<times> bytes list) list" where
  "snapshots_in [] = []"
| "snapshots_in (Snapshot through parts # frames) = (through, parts) # snapshots_in frames"
| "snapshots_in (f # frames) = snapshots_in frames"

fun records_in :: "from_server list \<Rightarrow> ledger_record list" where
  "records_in [] = []"
| "records_in (Records entries # frames) = entries @ records_in frames"
| "records_in (f # frames) = records_in frames"

definition to_stored :: "int \<times> record_row \<Rightarrow> stored" where
  "to_stored e = \<lparr>sd_seq = as_unsigned (fst e), sd_device = device_from (rr_device (snd e)), sd_blob = rr_blob (snd e)\<rparr>"

definition rows_past :: "int \<Rightarrow> bytes \<Rightarrow> store \<Rightarrow> (int \<times> record_row) list" where
  "rows_past after k st = filter (\<lambda>(seq, _). seq > after) (records_of k st)"

lemma read_until_prefix:
  "\<exists>n. read_until bytes so_far rows = map to_stored (take n rows) \<and> n \<le> length rows \<and> (rows \<noteq> [] \<longrightarrow> 0 < n)"
proof (induction bytes so_far rows rule: read_until.induct)
  case (2 bytes so_far seq r rows)
  show ?case
  proof (cases "so_far + length (rr_blob r) \<ge> bytes")
    case True
    then show ?thesis by (intro exI [of _ 1]) (simp add: Let_def to_stored_def)
  next
    case False
    with 2 obtain n where "read_until bytes (so_far + length (rr_blob r)) rows = map to_stored (take n rows)"
      "n \<le> length rows" by (auto simp: Let_def)
    with False show ?thesis by (intro exI [of _ "Suc n"]) (simp add: Let_def to_stored_def)
  qed
qed simp

lemma records_after_prefix:
  obtains n where "records_after k after records_per_frame bytes st = map to_stored (take n (rows_past (as_signed after) k st))"
    "n \<le> length (rows_past (as_signed after) k st)" "rows_past (as_signed after) k st \<noteq> [] \<longrightarrow> 0 < n"
proof -
  let ?rows = "rows_past (as_signed after) k st"
  obtain n where n: "read_until bytes 0 (take records_per_frame ?rows) = map to_stored (take n (take records_per_frame ?rows))"
    "n \<le> length (take records_per_frame ?rows)" "take records_per_frame ?rows \<noteq> [] \<longrightarrow> 0 < n"
    using read_until_prefix by blast
  have "0 < records_per_frame" by (simp add: records_per_frame_def)
  then show thesis using n
    by (intro that [of n]) (auto simp: records_after_def rows_past_def)
qed

text \<open>The rows past one that is among them are those behind it.\<close>

lemma rows_past_drop:
  assumes "sorted_wrt (<) (map fst rows)" and "0 < n" and "n \<le> length rows"
  shows "filter (\<lambda>(seq, _). seq > fst (rows ! (n - 1))) (rows :: (int \<times> 'a) list) = drop n rows"
proof -
  let ?at = "rows ! (n - 1)"
  have less: "fst (rows ! i) < fst (rows ! j)" if "i < j" "j < length rows" for i j
    using sorted_wrt_nth_less [OF assms(1) that(1)] that by simp
  have low: "\<not> fst ?at < fst e" if e: "e \<in> set (take n rows)" for e
  proof -
    obtain i where i: "i < n" "e = rows ! i" using e by (auto simp: in_set_conv_nth)
    show ?thesis
    proof (cases "i = n - 1")
      case False
      then have "i < n - 1" "n - 1 < length rows" using i(1) assms(2,3) by simp_all
      from less [OF this] show ?thesis by (simp add: i(2))
    qed (simp add: i(2))
  qed
  have high: "fst ?at < fst e" if e: "e \<in> set (drop n rows)" for e
  proof -
    obtain i where "i < length rows - n" "e = rows ! (n + i)" using e assms(3) by (auto simp: in_set_conv_nth)
    then show ?thesis using less [of "n - 1" "n + i"] assms(2) by simp
  qed
  have "filter (\<lambda>(seq, _). seq > fst ?at) rows
      = filter (\<lambda>e. fst e > fst ?at) (take n rows) @ filter (\<lambda>e. fst e > fst ?at) (drop n rows)"
    by (simp add: case_prod_unfold flip: filter_append)
  also have "\<dots> = drop n rows" using low high by (simp add: filter_empty_conv)
  finally show ?thesis .
qed

lemma unsigned_mono: "0 \<le> a \<Longrightarrow> a \<le> b \<Longrightarrow> b \<le> i64_most \<Longrightarrow> as_unsigned a \<le> as_unsigned b"
  by (simp add: as_unsigned_def word_le_def uint_word_of_int i64_most_def)

lemma rows_past_numbers:
  assumes "space_row_ok digest k row st" and "sp_through row \<le> after"
  shows "map fst (rows_past after k st) = [after + 1..sp_head row]"
proof -
  have "map fst (rows_past after k st) = filter (\<lambda>seq. seq > after) (map fst (records_of k st))"
    by (simp add: rows_past_def filter_map comp_def case_prod_unfold)
  also have "\<dots> = filter (\<lambda>seq. seq > after) [sp_through row + 1..sp_head row]"
    using assms(1) by (simp add: space_row_ok_def)
  also have "\<dots> = [after + 1..sp_head row]"
  proof (cases "after < sp_head row")
    case True
    with assms(2) upto_joined [of "sp_through row" after "nat (sp_head row - after)"]
    show ?thesis by (simp add: filter_empty_conv)
  qed (simp add: filter_empty_conv)
  finally show ?thesis .
qed

lemma column_seqs:
  assumes "space_row_ok digest k row st" and "e \<in> set (rows_past after k st)"
  shows "fst e \<le> i64_most" and "as_signed (as_unsigned (fst e)) = fst e"
proof -
  have "fst e \<in> set [sp_through row + 1..sp_head row]"
    using assms by (metis (no_types, lifting) filter_is_subset in_mono list.set_map rev_image_eqI rows_past_def space_row_ok_def)
  then have "column_ok (fst e) \<and> fst e \<le> i64_most"
    using assms(1) by (auto simp: space_row_ok_def column_ok_def i64_most_def)
  then show "fst e \<le> i64_most" "as_signed (as_unsigned (fst e)) = fst e" by (simp_all add: signed_column)
qed

text \<open>Once past the snapshot, the frames hold every row that is left, in its order.\<close>

lemma sends_the_rows:
  assumes row: "row_of st k = Some row" and ok: "space_row_ok digest k row st"
    and past: "sp_through row \<le> as_signed after" "as_unsigned (sp_through row) \<le> after"
  shows "\<exists>frames. send_records k device (\<lambda>_. st) i after
      = Some (frames, if rows_past (as_signed after) k st = [] then after else as_unsigned (sp_head row))
     \<and> snapshots_in frames = [] \<and> records_in frames = map (entry_for device \<circ> to_stored) (rows_past (as_signed after) k st)"
  using past
proof (induction "length (rows_past (as_signed after) k st)" arbitrary: after i rule: less_induct)
  case less
  let ?rows = "rows_past (as_signed after) k st"
  obtain n where n: "records_after k after records_per_frame record_bytes_per_frame st = map to_stored (take n ?rows)"
    "n \<le> length ?rows" "?rows \<noteq> [] \<longrightarrow> 0 < n" by (rule records_after_prefix)
  have caught: "catch_up k after records_per_frame record_bytes_per_frame st = CaughtRecords (map to_stored (take n ?rows))"
    using leD [OF less.prems(2)] row by (simp add: catch_up_def head_of_def n(1) Let_def)
  show ?case
  proof (cases "?rows = []")
    case True
    then have "send_records k device (\<lambda>_. st) i after = Some ([], after)"
      using caught by (subst send_records.simps) simp
    with True show ?thesis by simp
  next
    case False
    with n have pos: "0 < n" by simp
    let ?last = "?rows ! (n - 1)"
    let ?after = "as_unsigned (fst ?last)"
    have last_in: "?last \<in> set ?rows" using n(2) pos by simp
    have last: "last (map to_stored (take n ?rows)) = to_stored ?last"
    proof -
      have "take n ?rows \<noteq> []" "length (take n ?rows) = n" using n(2) pos False by auto
      then show ?thesis using pos by (simp add: last_map last_conv_nth)
    qed
    have signed: "as_signed ?after = fst ?last" using ok last_in by (rule column_seqs(2))
    have more: "as_signed after < fst ?last" using last_in by (auto simp: rows_past_def)
    have sorted: "sorted_wrt (<) (map fst ?rows)"
      unfolding rows_past_numbers [OF ok less.prems(1)] by (simp add: sorted_wrt_upto)
    have rest: "rows_past (as_signed ?after) k st = drop n ?rows"
    proof -
      have "rows_past (fst ?last) k st = filter (\<lambda>(seq, _). seq > fst ?last) ?rows"
        using more by (auto simp: rows_past_def case_prod_unfold intro: filter_cong)
      then show ?thesis unfolding signed rows_past_drop [OF sorted pos n(2)] .
    qed
    have "sp_through row \<le> as_signed ?after" using less.prems(1) more signed by simp
    moreover from this have "as_unsigned (sp_through row) \<le> ?after"
      using ok more signed less.prems(1) column_seqs(1) [OF ok last_in] by (intro unsigned_mono) (auto simp: space_row_ok_def)
    ultimately obtain frames where f: "send_records k device (\<lambda>_. st) (i + 1) ?after
        = Some (frames, if drop n ?rows = [] then ?after else as_unsigned (sp_head row))"
      "snapshots_in frames = []" "records_in frames = map (entry_for device \<circ> to_stored) (drop n ?rows)"
      using less.hyps [of ?after "i + 1"] pos n(2) unfolding rest by fastforce
    have "?after = as_unsigned (sp_head row)" if "drop n ?rows = []"
    proof -
      have "n = length ?rows" using that n(2) by simp
      then have "fst ?last = last (map fst ?rows)" using False by (simp add: last_conv_nth)
      also have "\<dots> = last [as_signed after + 1..sp_head row]" by (simp add: rows_past_numbers [OF ok less.prems(1)])
      also have "as_signed after + 1 \<le> sp_head row"
        using False rows_past_numbers [OF ok less.prems(1)] upto_empty by (metis map_is_Nil_conv not_less)
      then have "last [as_signed after + 1..sp_head row] = sp_head row" by (simp add: upto_rec2)
      finally show ?thesis by simp
    qed
    then have "send_records k device (\<lambda>_. st) i after
        = Some (Records (map (entry_for device) (map to_stored (take n ?rows))) # frames, as_unsigned (sp_head row))"
      using caught f(1) False pos last by (subst send_records.simps) (simp add: to_stored_def)
    moreover have "map (entry_for device \<circ> to_stored) ?rows
        = map (entry_for device \<circ> to_stored) (take n ?rows) @ map (entry_for device \<circ> to_stored) (drop n ?rows)"
      by (simp flip: map_append)
    ultimately show ?thesis using f(2,3) False by simp
  qed
qed

lemma unsigned_signed: "as_unsigned (as_signed w) = w"
  by (simp add: as_unsigned_def as_signed_def)

lemma everything_is_sent:
  assumes ok: "store_ok digest st" and row: "row_of st k = Some row" and sane: "0 \<le> as_signed after"
  shows "\<exists>frames sent. send_records k device (\<lambda>_. st) i after = Some (frames, sent)
     \<and> snapshots_in frames = (if as_signed after < sp_through row then [(as_unsigned (sp_through row), parts_of k st)] else [])
     \<and> records_in frames = map (entry_for device \<circ> to_stored) (rows_past (max (as_signed after) (sp_through row)) k st)
     \<and> sent = (if as_signed after < sp_head row then as_unsigned (sp_head row) else after)"
proof (cases "as_signed after < sp_through row")
  case False
  have space: "space_row_ok digest k row st" by (rule store_okD(4) [OF ok row])
  have "as_signed after \<le> i64_most"
    using sint_lt [of after] by (simp add: as_signed_def i64_most_def)
  then have "as_unsigned (sp_through row) \<le> as_unsigned (as_signed after)"
    using space False by (intro unsigned_mono) (auto simp: space_row_ok_def)
  then have "as_unsigned (sp_through row) \<le> after" by (simp add: unsigned_signed)
  from sends_the_rows [OF row space _ this, of device i] False
  obtain frames where f: "send_records k device (\<lambda>_. st) i after
      = Some (frames, if rows_past (as_signed after) k st = [] then after else as_unsigned (sp_head row))"
    "snapshots_in frames = []" "records_in frames = map (entry_for device \<circ> to_stored) (rows_past (as_signed after) k st)"
    by auto
  have "rows_past (as_signed after) k st = [] \<longleftrightarrow> \<not> as_signed after < sp_head row"
  proof -
    have "rows_past (as_signed after) k st = [] \<longleftrightarrow> [as_signed after + 1..sp_head row] = []"
      using rows_past_numbers [OF space, of "as_signed after"] False by (metis map_is_Nil_conv not_less)
    then show ?thesis by auto
  qed
  then show ?thesis using f False by (simp add: max_def)
next
  case True
  let ?through = "as_unsigned (sp_through row)"
  have space: "space_row_ok digest k row st" by (rule store_okD(4) [OF ok row])
  have bounds: "0 < sp_through row" "sp_through row \<le> sp_head row" "sp_head row \<le> i64_most"
    using space True sane by (auto simp: space_row_ok_def)
  have signed: "as_signed ?through = sp_through row" using bounds by (intro signed_column) (simp add: column_ok_def)
  have less: "after < ?through"
    using True sane bounds unsigned_mono [of "as_signed after" "sp_through row"] signed unsigned_signed [of after]
    by (metis le_less_trans less_le linorder_not_le order_less_imp_le)
  moreover from this have "?through \<noteq> 0" by (metis word_not_simps(1))
  ultimately have caught: "catch_up k after records_per_frame record_bytes_per_frame st
      = CaughtSnapshot \<lparr>sn_through = ?through, sn_parts = parts_of k st\<rparr>"
    using row by (simp add: catch_up_def head_of_def snapshot_of_def Let_def)
  from sends_the_rows [OF row space, of ?through device "i + 1"] signed
  obtain frames where f: "send_records k device (\<lambda>_. st) (i + 1) ?through
      = Some (frames, if rows_past (sp_through row) k st = [] then ?through else as_unsigned (sp_head row))"
    "snapshots_in frames = []" "records_in frames = map (entry_for device \<circ> to_stored) (rows_past (sp_through row) k st)"
    by auto
  have "rows_past (sp_through row) k st = [] \<Longrightarrow> sp_head row = sp_through row"
    using rows_past_numbers [OF space order_refl] bounds by auto
  then have "send_records k device (\<lambda>_. st) i after
      = Some (Snapshot ?through (parts_of k st) # frames, as_unsigned (sp_head row))"
    using caught f(1) by (subst send_records.simps) auto
  then show ?thesis using f(2,3) True bounds by (simp add: max_def)
qed

end
