(* ===== verification/Serve.thy ===== *)
theory Serve
  imports CatchUp Hub RoomsInvariant Guard
begin

text \<open>
  The sessions of the sync server (\<open>crates/resonate-server/src/serve.rs\<close>): how a first message is
  answered, and what each message of a device and each notice of another session do to the store,
  the hub and the rooms, and send. The clocks (\<open>now\<close> in seconds for the store, \<open>at\<close> for windows of
  time), the allowance of bytes a second (\<open>Bucket\<close>, which counts in floating point: a state \<open>'b\<close>
  spent with \<open>spend\<close>) and the digest are arguments; so is what the store is whenever a loop looks at
  it again. What is sent is a list of messages; the transport that carries them is not modelled.
\<close>

subsection \<open>The server and its limits\<close>

definition protocol_version :: u16 where
  "protocol_version = 1"

definition rate_window :: nat where
  "rate_window = 60 * 1000000000"

definition unused_space_kept_for :: int where
  "unused_space_kept_for = 24 * 60 * 60"

record serve_limits =
  lm_record_bytes :: nat
  lm_space_bytes :: u64
  lm_devices :: nat
  lm_frames_per_minute :: nat
  lm_relay_bytes_per_second :: u64
  lm_idle_for :: nat
  lm_allowance :: allowance
  lm_rooms :: nat
  lm_room_members :: nat

record server =
  sv_store :: store
  sv_hub :: hub
  sv_ledger :: ledger
  sv_rooms :: rooms

record door =
  dr_version :: u16
  dr_space :: bytes
  dr_token :: bytes
  dr_viewer :: "bytes option"
  dr_device :: device_id
  dr_after :: u64

record 'b space_seat =
  se_space :: bytes
  se_device :: device_id
  se_session :: u64
  se_sent :: u64
  se_window :: instant
  se_counted :: nat
  se_bucket :: 'b

definition refuse :: "refusal \<Rightarrow> from_server list" where
  "refuse r = [RefusedWith r]"

subsection \<open>Coming in\<close>

text \<open>\<open>enter\<close> up to the session: what is sent, and the session joined to the hub where it is let in.\<close>

definition claimed ::
  "(bytes \<Rightarrow> bytes) \<Rightarrow> allowance \<Rightarrow> door \<Rightarrow> ip_addr \<Rightarrow> int \<Rightarrow> instant \<Rightarrow> server \<Rightarrow> (store_error + space_claimed) \<times> server" where
  "claimed digest al door source now at sv =
     (let making = (case dr_viewer door of
            Some _ \<Rightarrow> may_make_a_shared_space al source at
          | None \<Rightarrow> may_make_a_space al source at)
      in case space_claim (dr_space door) (digest (dr_token door)) now making (sv_ledger sv) (sv_store sv) of
           (result, ledger, st) \<Rightarrow>
             (let st = (case (dr_viewer door, result) of
                    (Some viewer, Inr ClaimMade) \<Rightarrow> allow_viewers (dr_space door) viewer st
                  | (Some viewer, Inr ClaimHeld) \<Rightarrow> allow_viewers (dr_space door) viewer st
                  | _ \<Rightarrow> st)
              in (result, sv\<lparr>sv_store := st, sv_ledger := ledger\<rparr>)))"

definition enter ::
  "(bytes \<Rightarrow> bytes) \<Rightarrow> serve_limits \<Rightarrow> door \<Rightarrow> socket_addr \<Rightarrow> ip_addr \<Rightarrow> int \<Rightarrow> instant \<Rightarrow> server \<Rightarrow>
   from_server list \<times> joined_space option \<times> server" where
  "enter digest limits door address source now at sv =
     (if dr_version door \<noteq> protocol_version then (refuse RefusedVersion, None, sv)
      else case claimed digest (lm_allowance limits) door source now at sv of
        (Inl e, sv) \<Rightarrow> ([], None, sv)
      | (Inr ClaimRefused, sv) \<Rightarrow> (refuse RefusedToken, None, sv)
      | (Inr ClaimThrottled, sv) \<Rightarrow> (refuse TooFast, None, sv)
      | (Inr ClaimFull, sv) \<Rightarrow> (refuse Busy, None, sv)
      | (Inr _, sv) \<Rightarrow> (case hub_join (dr_space door) (dr_device door) address (lm_devices limits) (sv_hub sv) of
           (None, h) \<Rightarrow> (refuse Busy, None, sv\<lparr>sv_hub := h\<rparr>)
         | (Some j, h) \<Rightarrow> ([], Some j, sv\<lparr>sv_hub := h\<rparr>)))"

text \<open>The beginning of a session: who is here, what is missed, and whether the space is closed.\<close>

definition session_begins ::
  "bytes \<Rightarrow> device_id \<Rightarrow> u64 \<Rightarrow> socket_addr \<Rightarrow> joined_space \<Rightarrow> instant \<Rightarrow> 'b \<Rightarrow> (nat \<Rightarrow> store) \<Rightarrow>
   (from_server list \<times> 'b space_seat) option" where
  "session_begins space device after seen j at bucket looks =
     Option.bind (send_records space device looks 1 after) (\<lambda>(frames, sent).
       Some (Welcome (jo_others j) seen (fst (head_of space (looks 0))) # frames
             @ (case closed_as space (looks (length frames + 2)) of None \<Rightarrow> [] | Some sealed \<Rightarrow> [Closed sealed]),
             \<lparr>se_space = space, se_device = device, se_session = jo_session j, se_sent = sent, se_window = at,
              se_counted = 0, se_bucket = bucket\<rparr>))"

text \<open>\<open>view\<close>: a device that may only read is given the same, and then let go.\<close>

definition view ::
  "(bytes \<Rightarrow> bytes) \<Rightarrow> door \<Rightarrow> socket_addr \<Rightarrow> int \<Rightarrow> (store \<Rightarrow> nat \<Rightarrow> store) \<Rightarrow> store \<Rightarrow> (from_server list \<times> store) option" where
  "view digest door address now looks st =
     (if dr_version door \<noteq> protocol_version then Some (refuse RefusedVersion, st)
      else case may_view (dr_space door) (digest (dr_token door)) now st of
        (False, st) \<Rightarrow> Some (refuse RefusedToken, st)
      | (True, st) \<Rightarrow>
          Option.bind (send_records (dr_space door) (dr_device door) (looks st) 0 (dr_after door)) (\<lambda>(frames, sent).
            Some (Welcome [] address (fst (head_of (dr_space door) st)) # frames
                  @ (case closed_as (dr_space door) st of None \<Rightarrow> [] | Some sealed \<Rightarrow> [Closed sealed]), st)))"

definition told_heads :: "(bytes \<Rightarrow> bytes) \<Rightarrow> u16 \<Rightarrow> space_asked list \<Rightarrow> int \<Rightarrow> store \<Rightarrow> from_server list \<times> store" where
  "told_heads digest version asked now st =
     (if version \<noteq> protocol_version then (refuse RefusedVersion, st)
      else case heads digest asked now st of (found, st) \<Rightarrow> ([HeadsAre found], st))"

subsection \<open>What a device says\<close>

definition told_it_closed :: "bytes \<Rightarrow> store \<Rightarrow> from_server list" where
  "told_it_closed space st = (case closed_as space st of None \<Rightarrow> [] | Some sealed \<Rightarrow> [Closed sealed])"

definition counted_as :: "nat \<Rightarrow> u32" where
  "counted_as n = (if n < 2 ^ 32 then of_nat n else - 1)"

text \<open>Each returns what is sent, whether the session goes on, and the server.\<close>

definition said_append ::
  "(bytes \<Rightarrow> bytes) \<Rightarrow> serve_limits \<Rightarrow> bytes \<Rightarrow> device_id \<Rightarrow> bytes list \<Rightarrow> server \<Rightarrow> from_server list \<times> bool \<times> server" where
  "said_append digest limits space device blobs sv =
     (if list_ex (\<lambda>blob. length blob > lm_record_bytes limits) blobs then (refuse TooLarge, True, sv)
      else case append digest space device blobs (lm_space_bytes limits) (sv_store sv) of
        (Inl e, st) \<Rightarrow> ([], False, sv\<lparr>sv_store := st\<rparr>)
      | (Inr AppendedFull, st) \<Rightarrow> (refuse SpaceFull, True, sv\<lparr>sv_store := st\<rparr>)
      | (Inr AppendedClosed, st) \<Rightarrow> (told_it_closed space st, True, sv\<lparr>sv_store := st\<rparr>)
      | (Inr (AppendedThrough _), st) \<Rightarrow>
          ([Appended (counted_as (length blobs))], True,
           sv\<lparr>sv_store := st, sv_hub := hub_tell_all space NoticeAppended (sv_hub sv)\<rparr>))"

definition said_compact ::
  "serve_limits \<Rightarrow> bytes \<Rightarrow> u64 \<Rightarrow> bytes list \<Rightarrow> server \<Rightarrow> from_server list \<times> bool \<times> server" where
  "said_compact limits space through parts sv =
     (case compact space through parts (lm_space_bytes limits) (sv_store sv) of
        (Inl e, st) \<Rightarrow> ([], False, sv\<lparr>sv_store := st\<rparr>)
      | (Inr (CompactedThrough through), st) \<Rightarrow>
          ([], True, sv\<lparr>sv_store := st, sv_hub := hub_tell_all space (NoticeCompacted through) (sv_hub sv)\<rparr>)
      | (Inr CompactedStale, st) \<Rightarrow> (refuse Stale, True, sv\<lparr>sv_store := st\<rparr>)
      | (Inr CompactedFull, st) \<Rightarrow> (refuse SpaceFull, True, sv\<lparr>sv_store := st\<rparr>)
      | (Inr CompactedClosed, st) \<Rightarrow> (told_it_closed space st, True, sv\<lparr>sv_store := st\<rparr>))"

definition said_close :: "serve_limits \<Rightarrow> bytes \<Rightarrow> bytes \<Rightarrow> server \<Rightarrow> from_server list \<times> bool \<times> server" where
  "said_close limits space sealed sv =
     (if length sealed > lm_record_bytes limits then (refuse TooLarge, True, sv)
      else case close space sealed (sv_store sv) of
        (Inl e, st) \<Rightarrow> ([], False, sv\<lparr>sv_store := st\<rparr>)
      | (Inr kept, st) \<Rightarrow>
          ([], True, sv\<lparr>sv_store := st, sv_hub := hub_tell_all space (NoticeClosed kept) (sv_hub sv)\<rparr>))"

text \<open>The frames of a minute are counted; relayed datagrams are not.\<close>

definition counted_frame :: "serve_limits \<Rightarrow> instant \<Rightarrow> 'b space_seat \<Rightarrow> bool \<times> 'b space_seat" where
  "counted_frame limits at se =
     (let se = (if at - se_window se \<ge> rate_window then se\<lparr>se_window := at, se_counted := 0\<rparr> else se);
          se = se\<lparr>se_counted := se_counted se + 1\<rparr>
      in (se_counted se \<le> lm_frames_per_minute limits, se))"

definition session_frame ::
  "(bytes \<Rightarrow> bytes) \<Rightarrow> serve_limits \<Rightarrow> (nat \<Rightarrow> 'b \<Rightarrow> bool \<times> 'b) \<Rightarrow> instant \<Rightarrow> to_server \<Rightarrow> 'b space_seat \<times> server \<Rightarrow>
   from_server list \<times> bool \<times> 'b space_seat \<times> server" where
  "session_frame digest limits spend at frame = (\<lambda>(se, sv). case frame of
     Relaying \<Rightarrow>
       ([], True, se, if lm_relay_bytes_per_second limits > 0
          then sv\<lparr>sv_hub := hub_relaying (se_space se) (se_device se) (se_session se) (sv_hub sv)\<rparr> else sv)
   | Relay to_device datagram \<Rightarrow> (case spend (length datagram) (se_bucket se) of
       (may, bucket) \<Rightarrow>
         ([], True, se\<lparr>se_bucket := bucket\<rparr>, if may
            then sv\<lparr>sv_hub := snd (hub_relay (se_space se) (se_device se) to_device datagram (sv_hub sv))\<rparr> else sv))
   | _ \<Rightarrow> (case counted_frame limits at se of
       (False, se) \<Rightarrow> (refuse TooFast, False, se, sv)
     | (True, se) \<Rightarrow> (case frame of
         Bye \<Rightarrow> ([], False, se, sv)
       | Close sealed \<Rightarrow> (case said_close limits (se_space se) sealed sv of (outs, on, sv) \<Rightarrow> (outs, on, se, sv))
       | Append blobs \<Rightarrow>
           (case said_append digest limits (se_space se) (se_device se) blobs sv of (outs, on, sv) \<Rightarrow> (outs, on, se, sv))
       | Compact through parts \<Rightarrow>
           (case said_compact limits (se_space se) through parts sv of (outs, on, sv) \<Rightarrow> (outs, on, se, sv))
       | Punch to_device sealed \<Rightarrow>
           ([], True, se, sv\<lparr>sv_hub := snd (hub_punch (se_space se) (se_device se) to_device sealed (sv_hub sv))\<rparr>)
       | _ \<Rightarrow> ([], True, se, sv))))"

subsection \<open>What a session hears\<close>

text \<open>The next notice, if the session goes on after it; \<open>looks\<close> is the store as the loop finds it.\<close>

definition notice_told ::
  "(nat \<Rightarrow> store) \<Rightarrow> notice \<Rightarrow> 'b space_seat \<Rightarrow> (from_server list \<times> bool \<times> 'b space_seat) option" where
  "notice_told looks n se = (case n of
     NoticeReplaced \<Rightarrow> Some ([], False, se)
   | NoticeAppended \<Rightarrow> Option.bind (send_records (se_space se) (se_device se) looks 0 (se_sent se)) (\<lambda>(frames, sent).
       Some (frames, True, se\<lparr>se_sent := sent\<rparr>))
   | NoticeArrived other \<Rightarrow> Some ([Arrived other], True, se)
   | NoticeLeft other \<Rightarrow> Some ([Left other], True, se)
   | NoticeRelayed from datagram \<Rightarrow> Some ([Relayed from datagram], True, se)
   | NoticePunched from address sealed \<Rightarrow> Some ([Punched from address sealed], True, se)
   | NoticeClosed sealed \<Rightarrow> Some ([Closed sealed], True, se)
   | NoticeCompacted through \<Rightarrow> Option.bind (send_records (se_space se) (se_device se) looks 0 (se_sent se)) (\<lambda>(frames, sent).
       Some (frames @ [Compacted through], True, se\<lparr>se_sent := sent\<rparr>)))"

definition session_hears ::
  "(nat \<Rightarrow> store) \<Rightarrow> 'b space_seat \<times> server \<Rightarrow> (from_server list \<times> bool \<times> 'b space_seat \<times> server) option" where
  "session_hears looks = (\<lambda>(se, sv). case hub_reads (se_session se) (sv_hub sv) of
     (None, h) \<Rightarrow> None
   | (Some n, h) \<Rightarrow> Option.bind (notice_told looks n se) (\<lambda>(outs, on, se). Some (outs, on, se, sv\<lparr>sv_hub := h\<rparr>)))"

text \<open>The session is over: nobody reads its inbox, and it leaves its space.\<close>

definition session_ends :: "'b space_seat \<times> server \<Rightarrow> server" where
  "session_ends = (\<lambda>(se, sv).
     sv\<lparr>sv_hub := hub_leave (se_space se) (se_device se) (se_session se) (hub_hangs_up (se_session se) (sv_hub sv))\<rparr>)"

subsection \<open>Sweeping\<close>

definition saturating_minus :: "int \<Rightarrow> int \<Rightarrow> int" where
  "saturating_minus a b = max (- i64_most - 1) (min i64_most (a - b))"

definition swept :: "serve_limits \<Rightarrow> int \<Rightarrow> instant \<Rightarrow> server \<Rightarrow> server" where
  "swept limits now at sv =
     (let idle = min i64_most (int (lm_idle_for limits));
          st = snd (sweep_unused (saturating_minus now unused_space_kept_for) (sv_store sv));
          ledger = forget_quiet at (sv_ledger sv);
          st = snd (sweep (saturating_minus now idle) st)
      in sv\<lparr>sv_store := st, sv_ledger := ledger\<rparr>)"

subsection \<open>Rooms\<close>

record 'b room_seat =
  rt_room :: bytes
  rt_member :: device_id
  rt_session :: u64
  rt_window :: instant
  rt_counted :: nat
  rt_bucket :: 'b

text \<open>\<open>room\<close> up to the session: the first message names the room, and the guard counts who makes one.\<close>

definition room_enter ::
  "(bytes \<Rightarrow> bytes) \<Rightarrow> serve_limits \<Rightarrow> u16 \<Rightarrow> bytes \<Rightarrow> bytes \<Rightarrow> bytes option \<Rightarrow> device_id \<Rightarrow> ip_addr \<Rightarrow> instant \<Rightarrow> 'b \<Rightarrow>
   server \<Rightarrow> from_server list \<times> 'b room_seat option \<times> server" where
  "room_enter digest limits version room token host member source at bucket sv =
     (if version \<noteq> protocol_version then (refuse RefusedVersion, None, sv)
      else
        let asked = \<lparr>ra_room = room, ra_token = digest token, ra_host_token = map_option digest host, ra_member = member\<rparr>;
            room_limits = \<lparr>rl_rooms = lm_rooms limits, rl_members = lm_room_members limits\<rparr>
        in case rooms_join asked room_limits (may_host_a_room (lm_allowance limits) source at) (sv_ledger sv) (sv_rooms sv) of
             (Inl refusal, ledger, rs) \<Rightarrow> (refuse refusal, None, sv\<lparr>sv_ledger := ledger, sv_rooms := rs\<rparr>)
           | (Inr joined, ledger, rs) \<Rightarrow>
               ([RoomWelcome (jr_members joined) (jr_host joined)],
                Some \<lparr>rt_room = room, rt_member = member, rt_session = jr_session joined, rt_window = at, rt_counted = 0,
                      rt_bucket = bucket\<rparr>,
                sv\<lparr>sv_ledger := ledger, sv_rooms := rs\<rparr>))"

definition room_frame ::
  "serve_limits \<Rightarrow> (nat \<Rightarrow> 'b \<Rightarrow> bool \<times> 'b) \<Rightarrow> instant \<Rightarrow> u64 \<Rightarrow> to_server \<Rightarrow> 'b room_seat \<times> server \<Rightarrow>
   from_server list \<times> bool \<times> 'b room_seat \<times> server" where
  "room_frame limits spend at at_nanos frame = (\<lambda>(rt, sv).
     (let rt = (if at - rt_window rt \<ge> rate_window then rt\<lparr>rt_window := at, rt_counted := 0\<rparr> else rt);
          rt = rt\<lparr>rt_counted := rt_counted rt + 1\<rparr>
      in if rt_counted rt > lm_frames_per_minute limits then (refuse TooFast, False, rt, sv)
         else case frame of
           Bye \<Rightarrow> ([], False, rt, sv)
         | RoomSay to_member sealed \<Rightarrow> (case spend (length sealed) (rt_bucket rt) of
             (may, bucket) \<Rightarrow>
               ([], True, rt\<lparr>rt_bucket := bucket\<rparr>, if may
                  then sv\<lparr>sv_rooms := rooms_say (rt_room rt) (rt_member rt) (rt_session rt) to_member sealed (sv_rooms sv)\<rparr>
                  else sv))
         | RoomPing nonce \<Rightarrow> ([RoomPong nonce at_nanos], True, rt, sv)
         | RoomKick kicked \<Rightarrow> ([], True, rt, sv\<lparr>sv_rooms := snd (rooms_kick (rt_room rt) (rt_session rt) kicked (sv_rooms sv))\<rparr>)
         | Close _ \<Rightarrow> ([], True, rt, sv\<lparr>sv_rooms := rooms_end (rt_room rt) (rt_session rt) (sv_rooms sv)\<rparr>)
         | _ \<Rightarrow> ([], True, rt, sv)))"

definition room_notice_told :: "room_notice \<Rightarrow> from_server list \<times> bool" where
  "room_notice_told n = (case n of
     Replaced \<Rightarrow> ([], False)
   | Ended \<Rightarrow> ([RoomEnded], False)
   | CameIn member \<Rightarrow> ([RoomArrived member], True)
   | WentOut member \<Rightarrow> ([RoomLeft member], True)
   | Heard from sealed \<Rightarrow> ([RoomHeard from sealed], True))"

definition room_hears :: "'b room_seat \<times> server \<Rightarrow> (from_server list \<times> bool \<times> server) option" where
  "room_hears = (\<lambda>(rt, sv). case room_reads (rt_session rt) (sv_rooms sv) of
     (None, rs) \<Rightarrow> None
   | (Some n, rs) \<Rightarrow> (case room_notice_told n of (outs, on) \<Rightarrow> Some (outs, on, sv\<lparr>sv_rooms := rs\<rparr>)))"

text \<open>A session in a room is over; the host's leaving starts the time it has to come back.\<close>

definition room_session_ends :: "'b room_seat \<times> server \<Rightarrow> leaving \<times> server" where
  "room_session_ends = (\<lambda>(rt, sv).
     case rooms_leave (rt_room rt) (rt_member rt) (rt_session rt) (room_hangs_up (rt_session rt) (sv_rooms sv)) of
       (left_how, rs) \<Rightarrow> (left_how, sv\<lparr>sv_rooms := rs\<rparr>))"

subsection \<open>The first message\<close>

text \<open>What a connection's first message asks for; anything else ends it.\<close>

datatype first_asked =
  Enters door
| Views door
| AsksHeads u16 "space_asked list"
| Knocks u16 bytes bytes "bytes option" device_id
| SaysNothing

definition first_of :: "to_server \<Rightarrow> first_asked" where
  "first_of m = (case m of
     Hello version space token device after \<Rightarrow>
       Enters \<lparr>dr_version = version, dr_space = space, dr_token = token, dr_viewer = None, dr_device = device, dr_after = after\<rparr>
   | Share version space token viewer device after \<Rightarrow>
       Enters \<lparr>dr_version = version, dr_space = space, dr_token = token, dr_viewer = Some viewer, dr_device = device, dr_after = after\<rparr>
   | View version space token device after \<Rightarrow>
       Views \<lparr>dr_version = version, dr_space = space, dr_token = token, dr_viewer = None, dr_device = device, dr_after = after\<rparr>
   | AskHeads version asked \<Rightarrow> AsksHeads version asked
   | Room version room token host member \<Rightarrow> Knocks version room token host member
   | _ \<Rightarrow> SaysNothing)"

end
