(* ===== verification/ServeBehaviour.thy ===== *)
theory ServeBehaviour
  imports Serve
begin

text \<open>
  What the server's parts do together: a blob sent again is not kept again, what one device appends
  every other device of its space is sent, a closed space stays closed, and every message keeps the
  store and the hub well-formed.
\<close>

subsection \<open>Sending again\<close>

lemma om_at_sum:
  fixes f :: "'v \<Rightarrow> int"
  assumes "om_ok m" and "map_of m k = Some v"
  shows "sum_list (map (f \<circ> snd) (om_at k (\<lambda>_. w) m)) = sum_list (map (f \<circ> snd) m) - f v + f w"
  using assms
proof (induction k "\<lambda>_ :: 'v option. w" m rule: om_at.induct)
  case (2 k a b m)
  have "\<not> k < a"
  proof
    assume "k < a"
    then have "map_of ((a, b) # m) k = None" using 2(2) by (intro map_of_absent) (auto simp: om_ok_def)
    with 2(3) show False by simp
  qed
  with 2 show ?case by (auto simp: om_ok_def)
qed simp

lemma om_at_same: "om_ok m \<Longrightarrow> map_of m k = Some v \<Longrightarrow> om_at k (\<lambda>_. v) m = m"
  by (rule om_ext) (auto simp: fun_eq_iff)

lemma fresh_blobs_none:
  "(\<forall>b\<in>set blobs. is_held digest space device b st) \<Longrightarrow> fresh_blobs digest space device st blobs fresh = fresh"
  by (induction blobs) (simp_all add: Let_def)

lemma plus_nothing: "u64_saturating_add w (as_unsigned 0) = w"
proof -
  have "unat w < 18446744073709551616" using unsigned_less [where 'a = nat, of w] by simp
  then show ?thesis by (simp add: u64_saturating_add_def u64_max_def as_unsigned_def)
qed

lemma totals_after:
  assumes ok: "store_ok digest st" and row: "row_of st k = Some row" and totals: "totals_in st = Inr (spaces, held)"
    and fits: "u64_saturating_add held (as_unsigned adding) \<le> capacity" "unat capacity \<le> 9223372036854775807"
    and adding: "0 \<le> adding" "adding \<le> i64_most"
  shows "column_ok (sum_list (map (sp_bytes \<circ> snd) (so_spaces st)) + adding)"
    and "as_unsigned (sum_list (map (sp_bytes \<circ> snd) (so_spaces st)) + adding) \<le> capacity"
proof -
  let ?sum = "sum_list (map (sp_bytes \<circ> snd) (so_spaces st))"
  have sum: "column_ok ?sum" "held = as_unsigned ?sum"
    using totals by (auto simp: totals_in_def sum_column_def split: if_splits)
  have "0 \<le> sp_bytes r" if "(k', r) \<in> set (so_spaces st)" for k' r
  proof -
    have "row_of st k' = Some r" using that store_okD(1) [OF ok] by (simp add: om_in_set)
    from store_okD(4) [OF ok this] show ?thesis
      by (auto simp: space_row_ok_def charged_def intro!: add_nonneg_nonneg sum_list_nonneg)
  qed
  then have pos: "0 \<le> ?sum" by (force intro: sum_list_nonneg)
  have u: "unat (as_unsigned v) = nat v" if "0 \<le> v" "v < 2 ^ 64" for v
    using that by (simp add: as_unsigned_def unat_eq_nat_uint uint_word_of_int)
  have "unat held = nat ?sum" "unat (as_unsigned adding) = nat adding"
    using sum pos adding by (simp_all add: u column_ok_def i64_most_def)
  moreover have "\<not> unat held + unat (as_unsigned adding) > u64_max"
    using sum pos adding by (simp add: u column_ok_def i64_most_def u64_max_def)
  moreover from this have "unat (held + as_unsigned adding) = unat held + unat (as_unsigned adding)"
    by (subst unat_plus_if') (simp add: u64_max_def)
  ultimately have le: "nat ?sum + nat adding \<le> unat capacity"
    using fits(1) by (simp add: u64_saturating_add_def word_le_nat_alt)
  then show "column_ok (?sum + adding)" using fits(2) pos adding by (simp add: column_ok_def i64_most_def)
  have "unat (as_unsigned (?sum + adding)) = nat ?sum + nat adding"
    using le fits(2) pos adding by (subst u) auto
  then show "as_unsigned (?sum + adding) \<le> capacity" using le by (simp add: word_le_nat_alt)
qed

text \<open>A device that did not hear that its blobs were kept sends them again, and nothing changes.\<close>

lemma append_again:
  assumes ok: "store_ok digest st" and row: "row_of st k = Some row" and bounds: "in_bounds row blobs"
    and capacity: "unat (cp_bytes (so_capacity st)) \<le> 9223372036854775807"
    and appends: "append digest k device blobs most st = (Inr (AppendedThrough n), st')"
  shows "append digest k device blobs most st' = (Inr (AppendedThrough n), st')"
proof -
  define fresh where "fresh = fresh_blobs digest k device st blobs []"
  define adding where "adding = int (sum_list (map (length \<circ> snd) fresh))"
  obtain records where r: "sp_closed row = None" "n = as_unsigned (sp_head row + int (length fresh))"
    "st' = put_row k (row\<lparr>sp_head := sp_head row + int (length fresh), sp_bytes := sp_bytes row + adding\<rparr>)
             (st\<lparr>so_records := records\<rparr>)"
    "om_ok records" "slice_of k records = records_of k st @ rows_from device (sp_head row) fresh"
    "column_ok (sp_bytes row + adding)" "as_unsigned (saturating_plus (sp_bytes row) adding) \<le> most"
    "\<exists>spaces held. totals_in st = Inr (spaces, held) \<and> u64_saturating_add held (as_unsigned adding) \<le> cp_bytes (so_capacity st)"
    by (rule append_gives [OF ok row bounds appends, folded fresh_def, folded adding_def]) (rule that)
  let ?row = "row\<lparr>sp_head := sp_head row + int (length fresh), sp_bytes := sp_bytes row + adding\<rparr>"
  note spaces = store_okD(1) [OF ok]
  have row': "row_of st' k = Some ?row" and spaces': "om_ok (so_spaces st')" and cap: "so_capacity st' = so_capacity st"
    using spaces by (simp_all add: r(3))
  have records: "records_of k st' = records_of k st @ rows_from device (sp_head row) fresh"
    using r(5) by (simp add: r(3) records_of_def)
  have "is_held digest k device b st'" if "b \<in> set blobs" for b
    using fresh_blobs_facts(6) [OF no_fresh_ok that, of digest k device st, folded fresh_def]
    by (auto simp: is_held_known records rows_from_known image_Un)
  then have none: "fresh_blobs digest k device st' blobs [] = []" by (simp add: fresh_blobs_none)
  have adding: "0 \<le> adding" "adding \<le> i64_most"
    using fresh_blobs_facts(3) [OF no_fresh_ok, of digest k device st blobs, folded fresh_def] bounds
    by (auto simp: adding_def in_bounds_def)
  obtain spaces_n held where t: "totals_in st = Inr (spaces_n, held)"
    "u64_saturating_add held (as_unsigned adding) \<le> cp_bytes (so_capacity st)" using r(8) by blast
  note after = totals_after [OF ok row t(1,2) capacity adding]
  have "sum_list (map (sp_bytes \<circ> snd) (so_spaces st')) = sum_list (map (sp_bytes \<circ> snd) (so_spaces st)) + adding"
    using om_at_sum [OF spaces row, of sp_bytes ?row] by (simp add: r(3) put_row_def)
  then have totals': "totals_in st' = Inr (of_nat (length (so_spaces st')), as_unsigned (sum_list (map (sp_bytes \<circ> snd) (so_spaces st)) + adding))"
    using after(1) by (simp add: totals_in_def sum_column_def)
  have zero: "length_as_column (sum_list (map (length \<circ> snd) ([] :: (bytes \<times> bytes) list))) = 0"
    by (simp add: length_as_column_def i64_most_def)
  have plus: "saturating_plus (sp_bytes row + adding) 0 = sp_bytes row + adding"
    "saturating_plus (sp_bytes row) adding = sp_bytes row + adding"
    using r(6) by (auto simp: saturating_plus_def column_ok_def)
  have most: "\<not> as_unsigned (sp_bytes row + adding) > most" using r(7) by (simp add: plus(2) not_less)
  have room: "\<not> u64_saturating_add (as_unsigned (sum_list (map (sp_bytes \<circ> snd) (so_spaces st)) + adding)) (as_unsigned 0)
      > cp_bytes (so_capacity st')"
    using after(2) by (simp add: cap plus_nothing not_less)
  have same: "put_row k (?row\<lparr>sp_head := sp_head ?row, sp_bytes := sp_bytes ?row + 0\<rparr>) st' = st'"
    using om_at_same [OF spaces' row'] by (simp add: put_row_def)
  show ?thesis
    unfolding append_def row' option.case Let_def none zero totals' sum.case prod.case
    using r(1,2,6) most room same plus(1) by simp
qed

subsection \<open>What is appended reaches the others\<close>

text \<open>What an append adds: of the blobs of one digest the first, unless the device's blob is held already.\<close>

function first_copies :: "(bytes \<Rightarrow> bytes) \<Rightarrow> bytes list \<Rightarrow> bytes list" where
  "first_copies digest [] = []"
| "first_copies digest (b # bs) = b # first_copies digest (filter (\<lambda>c. digest c \<noteq> digest b) bs)"
  by pat_completeness auto
termination
  by (relation "measure (\<lambda>(_, bs). length bs)") (auto simp: le_imp_less_Suc)

definition new_blobs :: "(bytes \<Rightarrow> bytes) \<Rightarrow> bytes \<Rightarrow> device_id \<Rightarrow> store \<Rightarrow> bytes list \<Rightarrow> bytes list" where
  "new_blobs digest space device st blobs =
     first_copies digest (filter (\<lambda>b. \<not> is_held digest space device b st) blobs)"

lemma fresh_blobs_gives:
  "fresh_blobs digest space device st blobs fresh = fresh @ map (\<lambda>b. (digest b, b))
     (first_copies digest (filter (\<lambda>b. \<not> is_held digest space device b st \<and> digest b \<notin> fst ` set fresh) blobs))"
proof (induction blobs arbitrary: fresh)
  case (Cons b blobs)
  have seen: "list_ex (\<lambda>(seen, _). seen = digest b) fresh \<longleftrightarrow> digest b \<in> fst ` set fresh"
    by (auto simp: list_ex_iff intro: rev_image_eqI)
  have "filter (\<lambda>c. digest c \<noteq> digest b) (filter (\<lambda>b. \<not> is_held digest space device b st \<and> digest b \<notin> fst ` set fresh) blobs)
      = filter (\<lambda>c. \<not> is_held digest space device c st \<and> digest c \<notin> fst ` set (fresh @ [(digest b, b)])) blobs"
    by (auto intro: filter_cong)
  then show ?case using Cons.IH by (simp add: Let_def seen)
qed simp

lemma fresh_blobs_new: "fresh_blobs digest space device st blobs [] = map (\<lambda>b. (digest b, b)) (new_blobs digest space device st blobs)"
  by (simp add: fresh_blobs_gives new_blobs_def)

lemma appended_rows:
  assumes ok: "store_ok digest st" and row: "row_of st k = Some row" and bounds: "in_bounds row blobs"
    and appends: "append digest k device blobs most st = (Inr (AppendedThrough n), st')"
  defines "new \<equiv> new_blobs digest k device st blobs"
  obtains row' where "row_of st' k = Some row'" "sp_through row' = sp_through row"
    "sp_head row' = sp_head row + int (length new)" "n = as_unsigned (sp_head row')"
    "rows_past (sp_head row) k st' = rows_from device (sp_head row) (map (\<lambda>b. (digest b, b)) new)"
proof -
  obtain records where r: "n = as_unsigned (sp_head row + int (length new))"
    "st' = put_row k (row\<lparr>sp_head := sp_head row + int (length new),
        sp_bytes := sp_bytes row + int (sum_list (map (length \<circ> snd) (map (\<lambda>b. (digest b, b)) new)))\<rparr>)
             (st\<lparr>so_records := records\<rparr>)"
    "slice_of k records = records_of k st @ rows_from device (sp_head row) (map (\<lambda>b. (digest b, b)) new)"
    by (rule append_gives [OF ok row bounds appends, unfolded fresh_blobs_new, folded new_def, unfolded length_map]) (rule that)
  have space: "space_row_ok digest k row st" by (rule store_okD(4) [OF ok row])
  have "rows_past (sp_head row) k st' = filter (\<lambda>(seq, _). seq > sp_head row) (records_of k st)
      @ filter (\<lambda>(seq, _). seq > sp_head row) (rows_from device (sp_head row) (map (\<lambda>b. (digest b, b)) new))"
    using r(3) by (simp add: rows_past_def r(2) records_of_def)
  moreover have "filter (\<lambda>(seq, _). seq > sp_head row) (records_of k st) = []"
    using rows_past_numbers [OF space, of "sp_head row"] space by (auto simp: rows_past_def space_row_ok_def)
  moreover have "filter (\<lambda>(seq, _). seq > sp_head row) (rows_from device (sp_head row) fresh) = rows_from device (sp_head row) fresh" for fresh
  proof (rule filter_True, clarify)
    fix seq r assume "(seq, r) \<in> set (rows_from device (sp_head row) fresh)"
    then have "seq \<in> set (map fst (rows_from device (sp_head row) fresh))" by force
    then show "sp_head row < seq" by (simp add: rows_from_numbers)
  qed
  ultimately show thesis using r(1) store_okD(1) [OF ok]
    by (intro that [of "row\<lparr>sp_head := sp_head row + int (length new),
        sp_bytes := sp_bytes row + int (sum_list (map (length \<circ> snd) (map (\<lambda>b. (digest b, b)) new)))\<rparr>"])
      (simp_all add: r(2))
qed

lemma rows_from_sent:
  "length device = 16 \<Longrightarrow> device \<noteq> other \<Longrightarrow>
   map rec_blob (map (entry_for other \<circ> to_stored) (rows_from device seq (map (\<lambda>b. (digest b, b)) blobs))) = map Some blobs"
  by (induction blobs arbitrary: seq) (simp_all add: entry_for_def to_stored_def device_from_def)

lemma append_reaches:
  assumes store: "store_ok digest (sv_store sv)" and hub: "hub_ok log (sv_hub sv)"
    and row: "row_of (sv_store sv) space = Some row" and bounds: "in_bounds row blobs"
    and said: "said_append digest limits space device blobs sv = ([Appended n], on, sv')"
    and there: "space_at (sv_hub sv) space = Some there" "map_of there other = Some p"
    and reading: "hu_inboxes (sv_hub sv) (pr_session p) = Some ib" "ib_reading ib"
    and devices: "length device = 16" "device \<noteq> other"
  defines "new \<equiv> new_blobs digest space device (sv_store sv) blobs"
  shows "hu_inboxes (sv_hub sv') (pr_session p) = Some (ib\<lparr>ib_notices := ib_notices ib @ [NoticeAppended]\<rparr>)"
    and "\<exists>frames sent. send_records space other (\<lambda>_. sv_store sv') i (as_unsigned (sp_head row)) = Some (frames, sent)
      \<and> snapshots_in frames = [] \<and> map rec_blob (records_in frames) = map Some new
      \<and> map rec_seq (records_in frames) = map as_unsigned [sp_head row + 1..sp_head row + int (length new)]"
proof -
  obtain m st' where a: "append digest space device blobs (lm_space_bytes limits) (sv_store sv) = (Inr (AppendedThrough m), st')"
    "sv' = sv\<lparr>sv_store := st', sv_hub := hub_tell_all space NoticeAppended (sv_hub sv)\<rparr>"
    using said by (auto simp: said_append_def refuse_def told_it_closed_def split: if_splits prod.splits sum.splits appended.splits option.splits)
  show "hu_inboxes (sv_hub sv') (pr_session p) = Some (ib\<lparr>ib_notices := ib_notices ib @ [NoticeAppended]\<rparr>)"
    using everyone_is_told [OF hub there reading] by (simp add: a(2))
  obtain row' where r: "row_of st' space = Some row'" "sp_through row' = sp_through row"
    "sp_head row' = sp_head row + int (length new)"
    "rows_past (sp_head row) space st' = rows_from device (sp_head row) (map (\<lambda>b. (digest b, b)) new)"
    by (rule appended_rows [OF store row bounds a(1), folded new_def]) (rule that)
  have st': "store_ok digest st'" using append_ok [OF store, of space blobs device "lm_space_bytes limits"] row bounds a(1) by simp
  have space: "space_row_ok digest space row (sv_store sv)" by (rule store_okD(4) [OF store row])
  then have head: "as_signed (as_unsigned (sp_head row)) = sp_head row" "0 \<le> sp_head row" "sp_through row \<le> sp_head row"
    using signed_column [of "sp_head row"] by (auto simp: space_row_ok_def column_ok_def i64_most_def)
  have "max (sp_head row) (sp_through row') = sp_head row" "\<not> sp_head row < sp_through row'" using head r(2) by simp_all
  with everything_is_sent [OF st' r(1), of "as_unsigned (sp_head row)" other i] head
  obtain frames sent where f: "send_records space other (\<lambda>_. st') i (as_unsigned (sp_head row)) = Some (frames, sent)"
    "snapshots_in frames = []" "records_in frames = map (entry_for other \<circ> to_stored) (rows_past (sp_head row) space st')"
    by auto
  have "map rec_seq (records_in frames) = map as_unsigned (map fst (rows_past (sp_head row) space st'))"
    by (simp add: f(3) entry_for_def to_stored_def)
  also have "\<dots> = map as_unsigned [sp_head row + 1..sp_head row + int (length new)]"
    unfolding r(4) rows_from_numbers by simp
  finally show "\<exists>frames sent. send_records space other (\<lambda>_. sv_store sv') i (as_unsigned (sp_head row)) = Some (frames, sent)
      \<and> snapshots_in frames = [] \<and> map rec_blob (records_in frames) = map Some new
      \<and> map rec_seq (records_in frames) = map as_unsigned [sp_head row + 1..sp_head row + int (length new)]"
    using f rows_from_sent [OF devices, of "sp_head row" digest new] by (auto simp: a(2) r(4))
qed

subsection \<open>The stores a server reaches\<close>

text \<open>One operation on the store, whatever its arguments.\<close>

inductive store_step :: "(bytes \<Rightarrow> bytes) \<Rightarrow> store \<Rightarrow> store \<Rightarrow> bool" for digest where
  step_claim: "store_step digest st (snd (snd (space_claim space token now may_make (g :: ledger) st)))"
| step_viewers: "store_step digest st (allow_viewers space viewer st)"
| step_view: "store_step digest st (snd (may_view space viewer now st))"
| step_heads: "store_step digest st (snd (heads digest asked now st))"
| step_close: "store_step digest st (snd (close space sealed st))"
| step_append: "(\<And>row. row_of st space = Some row \<Longrightarrow> in_bounds row blobs) \<Longrightarrow>
    store_step digest st (snd (append digest space device blobs most st))"
| step_compact: "store_step digest st (snd (compact space through parts most st))"
| step_sweep_unused: "store_step digest st (snd (sweep_unused made_before st))"
| step_sweep: "store_step digest st (snd (sweep untouched_since st))"

inductive store_reached :: "(bytes \<Rightarrow> bytes) \<Rightarrow> capacity \<Rightarrow> store \<Rightarrow> bool" for digest capacity where
  opened: "store_reached digest capacity (limited capacity empty_store)"
| works: "store_reached digest capacity st \<Longrightarrow> store_step digest st st' \<Longrightarrow> store_reached digest capacity st'"

lemma store_step_ok: "store_step digest st st' \<Longrightarrow> store_ok digest st \<Longrightarrow> store_ok digest st'"
  by (induction rule: store_step.induct)
    (simp_all add: claim_ok allow_viewers_ok may_view_ok heads_ok close_ok append_ok compact_ok sweeps_ok)

lemma store_reached_ok: "store_reached digest capacity st \<Longrightarrow> store_ok digest st"
  by (induction rule: store_reached.induct) (simp_all add: store_step_ok)

subsection \<open>Closed for good\<close>

lemma closed_as_put:
  "om_ok (so_spaces st) \<Longrightarrow> closed_as k (put_row k' row st) = (if k = k' then sp_closed row else closed_as k st)"
  by (simp add: closed_as_def)

lemma closed_as_row: "closed_as k st = Some sealed \<longleftrightarrow> (\<exists>row. row_of st k = Some row \<and> sp_closed row = Some sealed)"
  by (auto simp: closed_as_def bind_eq_Some_conv)

lemma closed_heads:
  "om_ok (so_spaces st) \<Longrightarrow> closed_as k st = Some sealed \<Longrightarrow>
   om_ok (so_spaces (snd (heads digest asked now st))) \<and> closed_as k (snd (heads digest asked now st)) = Some sealed"
proof (induction asked arbitrary: st)
  case (Cons a asked)
  have "closed_as k (put_row (ask_space a) (row\<lparr>sp_touched := now\<rparr>) st) = Some sealed"
    if "row_of st (ask_space a) = Some row" for row
    using Cons.prems that by (auto simp: closed_as_put closed_as_row)
  with Cons show ?case by (auto simp: Let_def case_prod_unfold split: option.splits)
qed simp

lemma put_records_spaces: "put_records space device fresh seq st = Inr (n, st') \<Longrightarrow> so_spaces st' = so_spaces st"
  by (induction space device fresh seq st rule: put_records.induct) (auto simp: Let_def split: if_splits)

lemma closed_deleted:
  assumes "store_ok digest st" and "closed_as k st = Some sealed"
  shows "closed_as k (snd (delete_spaces gone st)) = Some sealed \<or> row_of (snd (delete_spaces gone st)) k = None"
proof -
  have "row_of (snd (delete_spaces gone st)) k
      = (case row_of st k of None \<Rightarrow> None | Some row \<Rightarrow> if gone row then None else Some row)"
    using om_distinct [OF store_okD(1) [OF assms(1)]] by (simp add: delete_spaces_def Let_def map_of_filtered)
  then show ?thesis using assms(2) by (auto simp: closed_as_row split: if_splits)
qed

text \<open>Only a sweep, which takes the whole space away, takes its closing away.\<close>

lemma closed_stays:
  assumes ok: "store_ok digest st" and step: "store_step digest st st'" and closed: "closed_as k st = Some sealed"
  shows "closed_as k st' = Some sealed \<or> row_of st' k = None"
  using step
proof cases
  case (step_claim space token now may_make g)
  then show ?thesis using closed store_okD(1) [OF ok]
    by (auto simp: space_claim_def closed_as_put closed_as_row split: option.splits sum.splits prod.splits bool.splits)
next
  case (step_heads asked now)
  then show ?thesis using closed_heads [OF store_okD(1) [OF ok] closed] by simp
next
  case (step_append space blobs device most)
  then show ?thesis using closed store_okD(1) [OF ok]
    by (auto simp: append_def Let_def closed_as_def put_row_def dest!: put_records_spaces
        split: option.splits if_splits sum.splits)
next
  case (step_compact space through parts most)
  then show ?thesis using closed store_okD(1) [OF ok]
    by (auto simp: compact_def Let_def closed_as_def put_row_def split: option.splits if_splits sum.splits)
next
  case (step_sweep_unused made_before)
  then show ?thesis using closed_deleted [OF ok closed] by (simp add: sweep_unused_def)
next
  case (step_sweep untouched_since)
  then show ?thesis using closed_deleted [OF ok closed] by (simp add: sweep_def)
qed (use closed store_okD(1) [OF ok] in \<open>auto simp: allow_viewers_def may_view_def close_def Let_def
       closed_as_put closed_as_row split: option.splits\<close>)

subsection \<open>Every message keeps the server well-formed\<close>

definition server_ok :: "(bytes \<Rightarrow> bytes) \<Rightarrow> hub_log \<Rightarrow> server \<Rightarrow> bool" where
  "server_ok digest log sv \<longleftrightarrow> store_ok digest (sv_store sv) \<and> hub_ok log (sv_hub sv)"

lemma server_okI:
  "store_ok digest (sv_store sv) \<Longrightarrow> hub_ok log (sv_hub sv) \<Longrightarrow> server_ok digest log sv"
  by (simp add: server_ok_def)

lemma said_append_ok:
  assumes "server_ok digest log sv" and "\<And>row. row_of (sv_store sv) space = Some row \<Longrightarrow> in_bounds row blobs"
  shows "server_ok digest log (snd (snd (said_append digest limits space device blobs sv)))"
  using assms append_ok [of digest "sv_store sv" space blobs device "lm_space_bytes limits"]
  by (auto simp: said_append_def server_ok_def hub_tell_all_ok split: prod.splits sum.splits appended.splits)

lemma said_compact_ok:
  assumes "server_ok digest log sv"
  shows "server_ok digest log (snd (snd (said_compact limits space through parts sv)))"
  using assms compact_ok [of digest "sv_store sv" space through parts "lm_space_bytes limits"]
  by (auto simp: said_compact_def server_ok_def hub_tell_all_ok split: prod.splits sum.splits compacted.splits)

lemma said_close_ok:
  assumes "server_ok digest log sv"
  shows "server_ok digest log (snd (snd (said_close limits space sealed sv)))"
  using assms close_ok [of digest "sv_store sv" space sealed]
  by (auto simp: said_close_def server_ok_def hub_tell_all_ok split: prod.splits sum.splits)

lemma session_frame_ok:
  assumes ok: "server_ok digest log sv"
    and bounds: "\<And>row blobs. frame = Append blobs \<Longrightarrow> row_of (sv_store sv) (se_space se) = Some row \<Longrightarrow> in_bounds row blobs"
  shows "server_ok digest log (snd (snd (snd (session_frame digest limits spend at frame (se, sv)))))"
proof -
  obtain may se' where c: "counted_frame limits at se = (may, se')" by fastforce
  then have same: "se_space se' = se_space se" by (auto simp: counted_frame_def Let_def split: if_splits)
  show ?thesis
  proof (cases frame)
    case (Append blobs)
    with ok c bounds said_append_ok [of digest log sv "se_space se" blobs limits "se_device se'"] same show ?thesis
      by (cases may) (simp_all add: session_frame_def case_prod_unfold)
  next
    case (Compact through parts)
    with ok c said_compact_ok [OF ok, of limits "se_space se'" through parts] show ?thesis
      by (cases may) (simp_all add: session_frame_def case_prod_unfold)
  next
    case (Close sealed)
    with ok c said_close_ok [OF ok, of limits "se_space se'" sealed] show ?thesis
      by (cases may) (simp_all add: session_frame_def case_prod_unfold)
  qed (use ok c in \<open>cases may; simp add: session_frame_def server_ok_def hub_punch_ok hub_relay_ok hub_relaying_ok case_prod_unfold\<close>)+
qed

lemma session_hears_ok:
  "server_ok digest log sv \<Longrightarrow> session_hears looks (se, sv) = Some (outs, on, se', sv') \<Longrightarrow> server_ok digest log sv'"
  using hub_reads_ok [of log "sv_hub sv" "se_session se"]
  by (auto simp: session_hears_def server_ok_def bind_eq_Some_conv split: prod.splits option.splits)

lemma session_ends_ok: "server_ok digest log sv \<Longrightarrow> server_ok digest log (session_ends (se, sv))"
  by (simp add: session_ends_def server_ok_def hub_leave_ok hub_hangs_up_ok)

end
