(* ===== verification/ServerContracts.thy ===== *)
theory ServerContracts
  imports ServeBehaviour
begin

text \<open>
  What the sync server promises (\<open>crates/resonate-server/src\<close>): what a device missed is sent to it,
  what it appends reaches the others, the store stays sound whatever is asked of it, a room obeys
  only who brought its host's token, and no address or session takes more than its share.
\<close>

subsection \<open>The log of a space\<close>

text \<open>
  C8. A device that asks for what comes after a number it has seen is sent, in frames that end, the
  snapshot where it is behind it, and then every record it has not seen in the order of their
  numbers, its own without their blobs.
\<close>

theorem what_is_missed_is_sent:
  assumes "store_reached digest capacity st" and "row_of st k = Some row" and "0 \<le> as_signed after"
  shows "\<exists>frames sent. send_records k device (\<lambda>_. st) i after = Some (frames, sent)
     \<and> snapshots_in frames = (if as_signed after < sp_through row then [(as_unsigned (sp_through row), parts_of k st)] else [])
     \<and> records_in frames = map (entry_for device \<circ> to_stored) (rows_past (max (as_signed after) (sp_through row)) k st)
     \<and> sent = (if as_signed after < sp_head row then as_unsigned (sp_head row) else after)"
  using everything_is_sent [OF store_reached_ok] assms by blast

definition sample_digest :: "bytes \<Rightarrow> bytes" where
  "sample_digest bs = bs"

definition sample_space :: bytes where
  "sample_space = [1]"

definition sample_device :: device_id where
  "sample_device = replicate 16 2"

definition other_device :: device_id where
  "other_device = replicate 16 3"

definition store_claimed :: store where
  "store_claimed = snd (snd (space_claim sample_space [7] 0 (\<lambda>g. (True, g)) no_ledger (limited unlimited empty_store)))"

definition store_appended :: store where
  "store_appended = snd (append sample_digest sample_space sample_device [[4, 5], [6]] 1000 store_claimed)"

lemmas sample_store_defs = store_claimed_def space_claim_def limited_def empty_store_def totals_in_def sum_column_def
  column_ok_def i64_most_def unlimited_def as_unsigned_def put_row_def

lemma store_claimed_is:
  "store_claimed = \<lparr>so_spaces = [(sample_space, \<lparr>sp_token = [7], sp_created = 0, sp_touched = 0, sp_bytes = 0, sp_head = 0,
     sp_through = 0, sp_viewer = None, sp_closed = None\<rparr>)], so_records = [], so_parts = [], so_capacity = unlimited\<rparr>"
  by (simp add: sample_store_defs)

lemma store_claimed_row:
  "row_of store_claimed sample_space = Some \<lparr>sp_token = [7], sp_created = 0, sp_touched = 0, sp_bytes = 0, sp_head = 0,
     sp_through = 0, sp_viewer = None, sp_closed = None\<rparr>"
  by (simp add: store_claimed_is)

lemma store_claimed_reached: "store_reached sample_digest unlimited store_claimed"
  unfolding store_claimed_def by (rule works [OF opened step_claim])

lemma claimed_bounds: "row_of store_claimed sample_space = Some row \<Longrightarrow> in_bounds row [[4, 5], [6]]"
  by (auto simp: store_claimed_row in_bounds_def i64_most_def)

lemma store_appended_reached: "store_reached sample_digest unlimited store_appended"
  unfolding store_appended_def
  by (rule works [OF store_claimed_reached step_append]) (rule claimed_bounds)

lemma store_appended_is:
  "store_appended = store_claimed\<lparr>so_spaces := [(sample_space, \<lparr>sp_token = [7], sp_created = 0, sp_touched = 0, sp_bytes = 3,
     sp_head = 2, sp_through = 0, sp_viewer = None, sp_closed = None\<rparr>)],
   so_records := [((sample_space, 1), \<lparr>rr_device = sample_device, rr_blob = [4, 5], rr_digest = Some [4, 5]\<rparr>),
     ((sample_space, 2), \<lparr>rr_device = sample_device, rr_blob = [6], rr_digest = Some [6]\<rparr>)]\<rparr>"
  by (simp add: store_appended_def store_claimed_is append_def is_held_def records_of_def sample_digest_def Let_def
      length_as_column_def saturating_plus_def u64_saturating_add_def u64_max_def next_seq_simp less_prod_def'
      sample_store_defs)

lemma store_appended_by:
  "append sample_digest sample_space sample_device [[4, 5], [6]] 1000 store_claimed = (Inr (AppendedThrough 2), store_appended)"
  by (rule prod_eqI)
    (simp_all add: store_appended_def store_claimed_is append_def is_held_def records_of_def sample_digest_def Let_def
      length_as_column_def saturating_plus_def u64_saturating_add_def u64_max_def next_seq_simp sample_store_defs)

lemma store_appended_row:
  "row_of store_appended sample_space = Some \<lparr>sp_token = [7], sp_created = 0, sp_touched = 0, sp_bytes = 3, sp_head = 2,
     sp_through = 0, sp_viewer = None, sp_closed = None\<rparr>"
  by (simp add: store_appended_is)

lemma store_appended_records:
  "records_of sample_space store_appended =
     [(1, \<lparr>rr_device = sample_device, rr_blob = [4, 5], rr_digest = Some [4, 5]\<rparr>),
      (2, \<lparr>rr_device = sample_device, rr_blob = [6], rr_digest = Some [6]\<rparr>)]"
  by (simp add: store_appended_is records_of_def slice_of_def)

theorem what_is_missed_is_sent_witness:
  "\<exists>frames sent. send_records sample_space other_device (\<lambda>_. store_appended) 0 1 = Some (frames, sent)
     \<and> records_in frames = [\<lparr>rec_seq = 2, rec_blob = Some [6]\<rparr>] \<and> sent = 2"
proof -
  have one: "as_signed 1 = 1" by (simp add: as_signed_def)
  have "map (entry_for other_device \<circ> to_stored) (rows_past 1 sample_space store_appended) = [\<lparr>rec_seq = 2, rec_blob = Some [6]\<rparr>]"
    unfolding rows_past_def store_appended_records by code_simp
  then show ?thesis
    using what_is_missed_is_sent [OF store_appended_reached store_appended_row, of 1 other_device 0]
    by (auto simp: one max_def as_unsigned_def)
qed

text \<open>
  C9. Every other device present in the space is told of what one device appends, where its session
  still reads; and a device that had seen all before it is then sent exactly what the append added,
  numbered on from the head: the blobs this device had not sent to the space yet, in their order,
  and of those with one digest the first.
\<close>

theorem what_is_appended_reaches_the_others:
  assumes "store_reached digest capacity (sv_store sv)" and "hub_reached log (sv_hub sv)"
    and "row_of (sv_store sv) space = Some row" and "in_bounds row blobs"
    and "said_append digest limits space device blobs sv = ([Appended n], on, sv')"
    and "space_at (sv_hub sv) space = Some there" and "map_of there other = Some p"
    and "hu_inboxes (sv_hub sv) (pr_session p) = Some ib" and "ib_reading ib"
    and "length device = 16" and "device \<noteq> other"
  shows "let new = first_copies digest (filter (\<lambda>b. \<not> is_held digest space device b (sv_store sv)) blobs) in
    hu_inboxes (sv_hub sv') (pr_session p) = Some (ib\<lparr>ib_notices := ib_notices ib @ [NoticeAppended]\<rparr>)
    \<and> (\<exists>frames sent. send_records space other (\<lambda>_. sv_store sv') i (as_unsigned (sp_head row)) = Some (frames, sent)
      \<and> snapshots_in frames = [] \<and> map rec_blob (records_in frames) = map Some new
      \<and> map rec_seq (records_in frames) = map as_unsigned [sp_head row + 1..sp_head row + int (length new)])"
  using append_reaches [OF store_reached_ok [OF assms(1)] hub_reached_ok [OF assms(2)] assms(3-11)]
  unfolding new_blobs_def Let_def by blast

definition sample_address :: socket_addr where
  "sample_address = \<lparr>sa_ip = V4 [1, 2, 3, 4], sa_port = 5\<rparr>"

definition hub_of_two :: hub where
  "hub_of_two = snd (hub_join sample_space other_device sample_address 4
     (snd (hub_join sample_space sample_device sample_address 4 no_hub)))"

lemma hub_of_two_reached: "hub_reached [(1, sample_space, sample_device), (2, sample_space, other_device)] hub_of_two"
proof -
  have "hub_reached ([] @ [(1, sample_space, sample_device)])
      (snd (hub_join sample_space sample_device sample_address 4 no_hub))"
    using hub_reached.comes [OF hub_reached.at_first, where space = sample_space and device = sample_device
        and address = sample_address and most = 4]
    by (simp add: no_hub_def hub_join_def Let_def here_def)
  then show ?thesis
    using hub_reached.comes [where log = "[(1, sample_space, sample_device)]" and space = sample_space
        and h = "snd (hub_join sample_space sample_device sample_address 4 no_hub)"
        and device = other_device and address = sample_address and most = 4]
    by (simp add: hub_of_two_def no_hub_def hub_join_def Let_def here_def)
qed

definition server_of_two :: server where
  "server_of_two = \<lparr>sv_store = store_claimed, sv_hub = hub_of_two, sv_ledger = no_ledger, sv_rooms = no_rooms\<rparr>"

definition sample_limits :: serve_limits where
  "sample_limits = \<lparr>lm_record_bytes = 100, lm_space_bytes = 1000, lm_devices = 4, lm_frames_per_minute = 10,
     lm_relay_bytes_per_second = 10, lm_idle_for = 10, lm_allowance = default_allowance, lm_rooms = 1, lm_room_members = 2\<rparr>"

lemma hub_of_two_is:
  "hub_of_two = \<lparr>hu_spaces = [(sample_space,
       [(sample_device, \<lparr>pr_address = sample_address, pr_session = 1, pr_relaying = False\<rparr>),
        (other_device, \<lparr>pr_address = sample_address, pr_session = 2, pr_relaying = False\<rparr>)])],
     hu_sessions = 2,
     hu_inboxes = [1 \<mapsto> fresh_inbox\<lparr>ib_notices := [NoticeArrived other_device]\<rparr>, 2 \<mapsto> fresh_inbox]\<rparr>"
proof -
  have "sample_device < other_device" "other_device \<noteq> sample_device" "\<not> other_device < sample_device" by code_simp+
  then show ?thesis
    by (simp add: hub_of_two_def no_hub_def hub_join_def Let_def here_def present_sessions_def told_all_def told_one_def
        sent_to_def send_def fresh_inbox_def fun_eq_iff)
qed

lemma said_to_two:
  "said_append sample_digest sample_limits sample_space sample_device [[4, 5], [6]] server_of_two
     = ([Appended 2], True, server_of_two\<lparr>sv_store := store_appended, sv_hub := hub_tell_all sample_space NoticeAppended hub_of_two\<rparr>)"
  by (simp add: said_append_def sample_limits_def server_of_two_def store_appended_by counted_as_def)

text \<open>The first device sends again what it sent, and a new blob twice over.\<close>

definition store_again :: store where
  "store_again = snd (append sample_digest sample_space sample_device [[6], [8], [8], [4, 5]] 1000 store_appended)"

lemma store_again_by:
  "append sample_digest sample_space sample_device [[6], [8], [8], [4, 5]] 1000 store_appended = (Inr (AppendedThrough 3), store_again)"
  by (rule prod_eqI)
    (simp_all add: store_again_def store_appended_is store_claimed_is append_def is_held_def records_of_def slice_of_def
      sample_digest_def Let_def length_as_column_def saturating_plus_def u64_saturating_add_def u64_max_def next_seq_simp
      less_prod_def' sample_store_defs)

lemma sent_once_more:
  "said_append sample_digest sample_limits sample_space sample_device [[6], [8], [8], [4, 5]]
      (server_of_two\<lparr>sv_store := store_appended\<rparr>)
    = ([Appended 4], True, server_of_two\<lparr>sv_store := store_again, sv_hub := hub_tell_all sample_space NoticeAppended hub_of_two\<rparr>)"
  by (simp add: said_append_def sample_limits_def server_of_two_def store_again_by counted_as_def)

theorem what_is_appended_reaches_the_others_witness:
  "\<exists>frames sent. send_records sample_space other_device (\<lambda>_. store_again) 0 2 = Some (frames, sent)
     \<and> map rec_blob (records_in frames) = [Some [8]]"
proof -
  let ?there = "[(sample_device, \<lparr>pr_address = sample_address, pr_session = 1, pr_relaying = False\<rparr>),
    (other_device, \<lparr>pr_address = sample_address, pr_session = 2, pr_relaying = False\<rparr>)]"
  let ?sv = "server_of_two\<lparr>sv_store := store_appended\<rparr>"
  have differ: "sample_device \<noteq> other_device" "\<not> other_device < sample_device" by code_simp+
  have held: "is_held sample_digest sample_space sample_device b store_appended \<longleftrightarrow> b = [4, 5] \<or> b = [6]" for b
    by (auto simp: is_held_def store_appended_records sample_digest_def)
  have sv: "sv_store ?sv = store_appended" "sv_hub ?sv = hub_of_two" by (simp_all add: server_of_two_def)
  let ?other = "\<lparr>pr_address = sample_address, pr_session = 2, pr_relaying = False\<rparr>"
  have there: "space_at hub_of_two sample_space = Some ?there" "map_of ?there other_device = Some ?other"
    "hu_inboxes hub_of_two (pr_session ?other) = Some fresh_inbox" "ib_reading fresh_inbox" "length sample_device = 16"
    using differ by (simp_all add: hub_of_two_is sample_device_def fresh_inbox_def)
  have bounds: "in_bounds \<lparr>sp_token = [7], sp_created = 0, sp_touched = 0, sp_bytes = 3, sp_head = 2,
     sp_through = 0, sp_viewer = None, sp_closed = None\<rparr> [[6], [8], [8], [4, 5]]"
    by (simp add: in_bounds_def i64_most_def)
  from what_is_appended_reaches_the_others [where sv = ?sv, unfolded sv,
      OF store_appended_reached hub_of_two_reached store_appended_row bounds sent_once_more there differ(1), of 0]
  show ?thesis by (auto simp: held as_unsigned_def sample_digest_def Let_def)
qed

text \<open>
  C12. A device that appends what it had appended already, as one does that never heard the answer, is
  answered the same, and the store stays as it was: nothing is kept or counted twice. The bytes all
  spaces may hold are within the numbers of a column.
\<close>

theorem sending_again_changes_nothing:
  assumes "store_reached digest capacity st" and "row_of st k = Some row" and "in_bounds row blobs"
    and "unat (cp_bytes (so_capacity st)) \<le> 9223372036854775807"
    and "append digest k device blobs most st = (Inr (AppendedThrough n), st')"
  shows "append digest k device blobs most st' = (Inr (AppendedThrough n), st')"
  using append_again [OF store_reached_ok] assms by blast

definition store_bounded :: store where
  "store_bounded = snd (snd (space_claim sample_space [7] 0 (\<lambda>g. (True, g)) no_ledger (limited \<lparr>cp_spaces = 2, cp_bytes = 9\<rparr> empty_store)))"

definition store_filled :: store where
  "store_filled = snd (append sample_digest sample_space sample_device [[4, 5], [6], [6]] 1000 store_bounded)"

lemma store_bounded_reached: "store_reached sample_digest \<lparr>cp_spaces = 2, cp_bytes = 9\<rparr> store_bounded"
  unfolding store_bounded_def by (rule works [OF opened step_claim])

lemma store_bounded_is:
  "store_bounded = \<lparr>so_spaces = [(sample_space, \<lparr>sp_token = [7], sp_created = 0, sp_touched = 0, sp_bytes = 0, sp_head = 0,
     sp_through = 0, sp_viewer = None, sp_closed = None\<rparr>)], so_records = [], so_parts = [],
   so_capacity = \<lparr>cp_spaces = 2, cp_bytes = 9\<rparr>\<rparr>"
  by (simp add: store_bounded_def sample_store_defs)

lemma store_filled_by:
  "append sample_digest sample_space sample_device [[4, 5], [6], [6]] 1000 store_bounded = (Inr (AppendedThrough 2), store_filled)"
  by (rule prod_eqI)
    (simp_all add: store_filled_def store_bounded_is append_def is_held_def records_of_def sample_digest_def Let_def
      length_as_column_def saturating_plus_def u64_saturating_add_def u64_max_def next_seq_simp sample_store_defs)

theorem sending_again_changes_nothing_witness:
  "append sample_digest sample_space sample_device [[4, 5], [6], [6]] 1000 store_filled = (Inr (AppendedThrough 2), store_filled)"
proof -
  have "row_of store_bounded sample_space = Some \<lparr>sp_token = [7], sp_created = 0, sp_touched = 0, sp_bytes = 0, sp_head = 0,
     sp_through = 0, sp_viewer = None, sp_closed = None\<rparr>" by (simp add: store_bounded_is)
  from sending_again_changes_nothing [OF store_bounded_reached this _ _ store_filled_by] show ?thesis
    by (simp add: in_bounds_def i64_most_def store_bounded_is)
qed

text \<open>
  C10. Whatever the server is asked, in whatever order: the records of a space are numbered without a
  gap from behind its snapshot to its head, the bytes it is charged with are those it holds, no
  device's blob is held twice, and a space that is gone has left nothing behind.
\<close>

theorem the_store_stays_sound:
  assumes "store_reached digest capacity st"
  shows "case row_of st k of
      Some row \<Rightarrow> map fst (records_of k st) = [sp_through row + 1..sp_head row]
        \<and> sp_bytes row = sum_list (map (int \<circ> length \<circ> rr_blob \<circ> snd) (records_of k st)) + sum_list (map (int \<circ> length) (parts_of k st))
        \<and> distinct (map (\<lambda>(_, r). (rr_device r, rr_digest r)) (records_of k st))
    | None \<Rightarrow> records_of k st = [] \<and> parts_of k st = []"
proof -
  note ok = store_reached_ok [OF assms]
  have "known_as = (\<lambda>(_, r). (rr_device r, rr_digest r))" by (simp add: fun_eq_iff known_as_def)
  then show ?thesis
    using store_okD(4,5) [OF ok, of k] unfolding space_row_ok_def charged_def by (cases "row_of st k") simp_all
qed

theorem the_store_stays_sound_witness:
  "sp_bytes (the (row_of store_appended sample_space)) = 3 \<and> distinct (map (\<lambda>(_, r). (rr_device r, rr_digest r)) (records_of sample_space store_appended))"
  using the_store_stays_sound [OF store_appended_reached, of sample_space]
  by (simp add: store_appended_row store_appended_records)

text \<open>
  C20. A space that was closed stays closed, with what it was first closed with, until it is swept away
  altogether; meanwhile nothing is appended to it or compacted, and closing it again changes nothing.
\<close>

theorem a_closed_space_stays_closed:
  assumes "store_reached digest capacity st" and "closed_as k st = Some sealed"
  shows "(\<forall>st'. store_step digest st st' \<longrightarrow> closed_as k st' = Some sealed \<or> row_of st' k = None)
    \<and> append digest k device blobs most st = (Inr AppendedClosed, st)
    \<and> compact k through parts most st = (Inr CompactedClosed, st)
    \<and> close k other st = (Inr sealed, st)"
proof (intro conjI)
  note ok = store_reached_ok [OF assms(1)]
  obtain row where row: "row_of st k = Some row" "sp_closed row = Some sealed"
    using assms(2) by (auto simp: closed_as_row)
  show "\<forall>st'. store_step digest st st' \<longrightarrow> closed_as k st' = Some sealed \<or> row_of st' k = None"
    using closed_stays [OF ok _ assms(2)] by blast
  have "row\<lparr>sp_closed := Some sealed\<rparr> = row" by (simp flip: row(2))
  then have "put_row k (row\<lparr>sp_closed := Some sealed\<rparr>) st = st"
    using om_at_same [OF store_okD(1) [OF ok] row(1)] by (simp add: put_row_def)
  then show "append digest k device blobs most st = (Inr AppendedClosed, st)"
    "compact k through parts most st = (Inr CompactedClosed, st)" "close k other st = (Inr sealed, st)"
    using row by (simp_all add: append_def compact_def close_def Let_def)
qed

definition store_closed :: store where
  "store_closed = snd (close sample_space [9] store_claimed)"

theorem a_closed_space_stays_closed_witness:
  "append sample_digest sample_space sample_device [[4]] 1000 store_closed = (Inr AppendedClosed, store_closed)
   \<and> close sample_space [8] store_closed = (Inr [9], store_closed)"
proof -
  have "store_reached sample_digest unlimited store_closed"
    unfolding store_closed_def by (rule works [OF store_claimed_reached step_close])
  moreover have "closed_as sample_space store_closed = Some [9]"
    by (simp add: store_closed_def close_def store_claimed_is put_row_def closed_as_def Let_def)
  ultimately show ?thesis using a_closed_space_stays_closed by blast
qed

text \<open>
  C24. A compaction puts a snapshot in place of the records it covers: the space holds exactly the
  records after the number it goes through and the parts it was given, is charged exactly their
  bytes, and nothing else changes. It is refused, and changes nothing, where the space is closed,
  where it goes no further than the last one or past the head, and where the bytes are more than the
  space may hold. How much all spaces may hold together, which an append is held to, plays no part.
  The parts, with what the space is charged already, are within the numbers of a column.
\<close>

theorem a_compaction_replaces_what_it_covers:
  assumes "store_reached digest capacity st" and "row_of st k = Some row"
    and "int (length parts) \<le> 9223372036854775807" and "sp_bytes row + int (sum_list (map length parts)) \<le> 9223372036854775807"
  shows "let kept = filter (\<lambda>(seq, _). seq > as_signed through) (records_of k st);
      bytes = int (sum_list (map (length \<circ> rr_blob \<circ> snd) kept) + sum_list (map length parts)) in
    if sp_closed row \<noteq> None then compact k through parts most st = (Inr CompactedClosed, st)
    else if as_signed through \<le> sp_through row \<or> sp_head row < as_signed through
      then compact k through parts most st = (Inr CompactedStale, st)
    else if int (unat most) < bytes then compact k through parts most st = (Inr CompactedFull, st)
    else \<exists>st'. compact k through parts most st = (Inr (CompactedThrough through), st')
      \<and> row_of st' k = Some (row\<lparr>sp_through := as_signed through, sp_bytes := bytes\<rparr>)
      \<and> records_of k st' = kept \<and> parts_of k st' = parts
      \<and> (\<forall>k'. k' \<noteq> k \<longrightarrow> row_of st' k' = row_of st k' \<and> records_of k' st' = records_of k' st \<and> parts_of k' st' = parts_of k' st)"
  using compact_exactly [OF store_reached_ok [OF assms(1)] assms(2), unfolded i64_most_def, OF assms(3,4), of through most]
  by (simp only: Let_def)

text \<open>Nine bytes are all the spaces may hold together, and a snapshot of ten is taken.\<close>

theorem a_compaction_replaces_what_it_covers_witness:
  "\<exists>st'. compact sample_space 1 [replicate 9 0] 1000 store_filled = (Inr (CompactedThrough 1), st')
     \<and> map fst (records_of sample_space st') = [2] \<and> parts_of sample_space st' = [replicate 9 0]
     \<and> map_option sp_bytes (row_of st' sample_space) = Some 10 \<and> cp_bytes (so_capacity store_filled) = 9
   \<and> compact sample_space 3 [] 1000 store_filled = (Inr CompactedStale, store_filled)"
proof -
  have one: "as_signed 1 = 1" "as_signed 3 = 3" by (simp_all add: as_signed_def)
  have reached: "store_reached sample_digest \<lparr>cp_spaces = 2, cp_bytes = 9\<rparr> store_filled"
    unfolding store_filled_def
    by (rule works [OF store_bounded_reached step_append])
      (auto simp: store_bounded_is in_bounds_def i64_most_def)
  have is_filled: "row_of store_filled sample_space = Some \<lparr>sp_token = [7], sp_created = 0, sp_touched = 0, sp_bytes = 3, sp_head = 2,
       sp_through = 0, sp_viewer = None, sp_closed = None\<rparr>"
    "records_of sample_space store_filled =
       [(1, \<lparr>rr_device = sample_device, rr_blob = [4, 5], rr_digest = Some [4, 5]\<rparr>),
        (2, \<lparr>rr_device = sample_device, rr_blob = [6], rr_digest = Some [6]\<rparr>)]"
    "cp_bytes (so_capacity store_filled) = 9"
    by (simp_all add: store_filled_def store_bounded_is append_def is_held_def records_of_def slice_of_def sample_digest_def Let_def
        length_as_column_def saturating_plus_def u64_saturating_add_def u64_max_def next_seq_simp less_prod_def' sample_store_defs)
  from a_compaction_replaces_what_it_covers [OF reached is_filled(1), of "[replicate 9 0]" 1 1000]
    a_compaction_replaces_what_it_covers [OF reached is_filled(1), of "[]" 3 1000]
  show ?thesis by (auto simp: is_filled one Let_def)
qed

subsection \<open>Rooms\<close>

definition room_of_one :: rooms where
  "room_of_one = snd (snd (rooms_join \<lparr>ra_room = [1], ra_token = [2], ra_host_token = Some [3], ra_member = [4]\<rparr>
     \<lparr>rl_rooms = 1, rl_members = 2\<rparr> (\<lambda>g. (True, g)) () no_rooms))"

lemma room_of_one_is:
  "room_of_one = \<lparr>rs_rooms = [([1], \<lparr>ro_token = [2], ro_host_token = [3], ro_host = [4], ro_host_session = Some 1,
     ro_members = [([4], \<lparr>mb_session = 1\<rparr>)]\<rparr>)], rs_sessions = 1, rs_inboxes = [1 \<mapsto> fresh_inbox]\<rparr>"
  by (simp add: room_of_one_def rooms_join_def room_found_def hosting_def seated_def with_member_def no_rooms_def Let_def told_all_def)

lemma room_of_one_facts:
  "room_at room_of_one [1] = Some \<lparr>ro_token = [2], ro_host_token = [3], ro_host = [4], ro_host_session = Some 1,
     ro_members = [([4], \<lparr>mb_session = 1\<rparr>)]\<rparr>"
  "rs_inboxes room_of_one 1 = Some fresh_inbox" "rs_sessions room_of_one = 1"
  by (simp_all add: room_of_one_is)

lemma room_of_one_reached:
  "rooms_reached \<lparr>rl_rooms = 1, rl_members = 2\<rparr>
     [(1, \<lparr>ra_room = [1], ra_token = [2], ra_host_token = Some [3], ra_member = [4]\<rparr>)] room_of_one"
proof -
  let ?asked = "\<lparr>ra_room = [1], ra_token = [2], ra_host_token = Some [3], ra_member = [4]\<rparr>"
  have "rooms_join ?asked \<lparr>rl_rooms = 1, rl_members = 2\<rparr> (\<lambda>g. (True, g)) () no_rooms
      = (Inr \<lparr>jr_session = 1, jr_members = [], jr_host = [4]\<rparr>, (), room_of_one)"
    by (simp add: room_of_one_is rooms_join_def room_found_def hosting_def seated_def with_member_def no_rooms_def Let_def told_all_def)
  from rooms_reached.joins [OF rooms_reached.at_first _ this] show ?thesis by (simp add: no_rooms_def)
qed

text \<open>
  C11. Only a session that was let in with the room's token and with the token its host made it with,
  under the id of its host, ends a room, sends a member out or says a thing that anybody other than
  the host hears.
\<close>

theorem only_the_host_is_obeyed:
  assumes "rooms_reached limits log rs" and "room_at rs k = Some r"
    and "rooms_end k s rs \<noteq> rs \<or> fst (rooms_kick k s m rs)
      \<or> (\<exists>t. rs_inboxes (rooms_say k from s to sealed rs) t \<noteq> rs_inboxes rs t
            \<and> (\<forall>h. member_at r (ro_host r) = Some h \<longrightarrow> t \<noteq> mb_session h))"
  shows "\<exists>asked. (s, asked) \<in> set log \<and> ra_room asked = k \<and> ra_token asked = ro_token r
    \<and> ra_host_token asked = Some (ro_host_token r) \<and> ra_member asked = ro_host r"
proof -
  have "ro_host_session r = Some s"
  proof (rule ccontr)
    assume "ro_host_session r \<noteq> Some s"
    with assms(2,3) guests_reach_the_host [OF assms(2), of s] show False
      by (auto simp: rooms_end_def rooms_kick_def)
  qed
  then show ?thesis using host_brought_its_token [OF rooms_reached_ok [OF assms(1)] assms(2)] by (simp add: let_host_def)
qed

theorem only_the_host_is_obeyed_witness:
  "rooms_end [1] 1 room_of_one \<noteq> room_of_one
   \<and> (\<exists>asked. (1 :: u64, asked) \<in> set [(1, \<lparr>ra_room = [1], ra_token = [2], ra_host_token = Some [3], ra_member = [4]\<rparr>)]
         \<and> ra_host_token asked = Some [3])"
proof -
  have ends: "rooms_end [1] 1 room_of_one \<noteq> room_of_one" by (simp add: rooms_end_def room_ended_def room_of_one_is om_drop_def)
  from only_the_host_is_obeyed [OF room_of_one_reached room_of_one_facts(1) disjI1 [OF this]]
  obtain asked where "(1 :: u64, asked) \<in> set [(1, \<lparr>ra_room = [1], ra_token = [2], ra_host_token = Some [3], ra_member = [4]\<rparr>)]"
    "ra_host_token asked = Some [3]" by auto
  with ends show ?thesis by blast
qed

text \<open>
  C21. However much the others say, the notices a session has not read are never more than a mebibyte
  in a room, or 256 kibibytes of relayed datagrams in a space.
\<close>

theorem unread_notices_are_bounded:
  "(rooms_reached limits room_log rs \<longrightarrow> rs_inboxes rs s = Some ib \<longrightarrow> sum_list (map room_notice_bytes (ib_notices ib)) \<le> 1048576)
   \<and> (hub_reached hub_log h \<longrightarrow> hu_inboxes h t = Some jb \<longrightarrow> sum_list (map notice_bytes (ib_notices jb)) \<le> 262144)"
proof (intro conjI impI)
  assume reached: "rooms_reached limits room_log rs" and "rs_inboxes rs s = Some ib"
  then have "heard.inbox_ok ib" using heard.inboxes_okD [OF rooms_okD(7) [OF rooms_reached_ok [OF reached]]] by blast
  then show "sum_list (map room_notice_bytes (ib_notices ib)) \<le> 1048576"
    by (cases "ib_reading ib") (simp_all add: heard.inbox_ok_def heard.unread_def, simp add: room_backlog_bytes_at_most_def)
next
  assume reached: "hub_reached hub_log h" and "hu_inboxes h t = Some jb"
  then have "relayed.inbox_ok jb" using relayed.inboxes_okD [OF hub_okD(6) [OF hub_reached_ok [OF reached]]] by blast
  then show "sum_list (map notice_bytes (ib_notices jb)) \<le> 262144"
    by (cases "ib_reading jb") (simp_all add: relayed.inbox_ok_def relayed.unread_def, simp add: relay_backlog_bytes_at_most_def)
qed

theorem unread_notices_are_bounded_witness:
  "sum_list (map room_notice_bytes (ib_notices (the (rs_inboxes room_of_one 1)))) \<le> 1048576"
  using unread_notices_are_bounded [THEN conjunct1, THEN mp, THEN mp, OF room_of_one_reached room_of_one_facts(2)]
  by (simp add: room_of_one_facts)

text \<open>
  C23. When the host ends its room, the room is gone and every member still there hears that it ended.
\<close>

theorem an_ended_room_tells_all:
  assumes "rooms_reached limits log rs" and "room_at rs k = Some r" and "ro_host_session r = Some s"
    and "member_at r m = Some present" and "rs_inboxes rs (mb_session present) = Some ib" and "ib_reading ib"
  shows "room_at (rooms_end k s rs) k = None
    \<and> rs_inboxes (rooms_end k s rs) (mb_session present) = Some (ib\<lparr>ib_notices := ib_notices ib @ [Ended]\<rparr>)"
  using ended_tells_all [OF rooms_reached_ok [OF assms(1)] assms(2,4-6)] assms(2,3) by (simp add: rooms_end_def)

theorem an_ended_room_tells_all_witness:
  "rs_inboxes (rooms_end [1] 1 room_of_one) 1 = Some (fresh_inbox\<lparr>ib_notices := [Ended]\<rparr>)"
  using an_ended_room_tells_all [OF room_of_one_reached room_of_one_facts(1), where s = 1 and m = "[4]" and present = "\<lparr>mb_session = 1\<rparr>"
      and ib = fresh_inbox] room_of_one_facts(2)
  by (simp add: fresh_inbox_def)


definition room_beside_itself :: rooms where
  "room_beside_itself =
     snd (snd (rooms_join \<lparr>ra_room = [1], ra_token = [2], ra_host_token = None, ra_member = [4]\<rparr>
       \<lparr>rl_rooms = 1, rl_members = 2\<rparr> (\<lambda>g. (True, g)) () room_of_one))"

definition room_left_over :: rooms where
  "room_left_over = snd (rooms_leave [1] [4] 2 (room_hangs_up 2 (snd (rooms_leave [1] [4] 1 (room_hangs_up 1 room_beside_itself)))))"

lemma room_beside_itself_joined:
  "rooms_join \<lparr>ra_room = [1], ra_token = [2], ra_host_token = None, ra_member = [4]\<rparr>
       \<lparr>rl_rooms = 1, rl_members = 2\<rparr> (\<lambda>g. (True, g)) () room_of_one
     = (Inr \<lparr>jr_session = 2, jr_members = [], jr_host = [4]\<rparr>, (),
        room_of_one\<lparr>rs_rooms := [([1], \<lparr>ro_token = [2], ro_host_token = [3], ro_host = [4], ro_host_session = Some 1,
            ro_members = [([4], \<lparr>mb_session = 2\<rparr>)]\<rparr>)], rs_sessions := 2,
          rs_inboxes := [1 \<mapsto> fresh_inbox\<lparr>ib_notices := [Replaced]\<rparr>, 2 \<mapsto> fresh_inbox]\<rparr>)"
  by (simp add: room_of_one_is rooms_join_def room_found_def hosting_def seated_def with_member_def Let_def told_all_def
      told_one_def sent_to_def send_def fresh_inbox_def fun_eq_iff)

lemmas room_beside_itself_is = room_beside_itself_def [unfolded room_beside_itself_joined snd_conv]

lemma room_left_over_at:
  "room_at room_left_over [1] = Some \<lparr>ro_token = [2], ro_host_token = [3], ro_host = [4], ro_host_session = Some 1, ro_members = []\<rparr>"
  by (simp add: room_left_over_def room_beside_itself_is room_of_one_is rooms_leave_def room_hangs_up_def om_drop_def
      sessions_of_def told_all_def Let_def)


subsection \<open>The door\<close>

text \<open>
  C22. The guard's counts are true: the connections it takes for open are those let in and not let go
  yet, of each address and altogether, and no more of them than it allows.
\<close>

theorem connections_are_counted:
  assumes "guard_reached al log out now l"
  shows "le_open l = size out \<and> size out \<le> al_connections al
    \<and> count out a = (case account_at l a of None \<Rightarrow> 0 | Some ac \<Rightarrow> ac_open ac) \<and> count out a \<le> al_per_address al
    \<and> length (le_accounts l) \<le> most_addresses_kept"
proof -
  note ok = guard_reached_ok [OF assms]
  show ?thesis using ledger_okD(2-4) [OF ok] ledger_okD(5,6) [OF ok, of a] by (cases "account_at l a") (simp_all add: account_ok_def)
qed

definition two_a_minute :: allowance where
  "two_a_minute = default_allowance\<lparr>al_attempts := 2\<rparr>"

text \<open>One that knocks as a window ends and again as the next begins, with two connections allowed a minute.\<close>

definition knocked :: "instant \<Rightarrow> ledger \<Rightarrow> ledger" where
  "knocked at l = snd (admit two_a_minute (V4 [1, 2, 3, 4]) at l)"

definition ledger_knocked :: ledger where
  "ledger_knocked = knocked 60000000000 (knocked 60000000000 (knocked 59000000000 (knocked 0 no_ledger)))"

lemmas knock_defs = knocked_def admit_def two_a_minute_def default_allowance_def source_of_def canonical_def no_ledger_def
  most_addresses_kept_def account_new_def allowed_new_def attempt_window_def put_account_def Let_def

lemma ledger_knocked_reached:
  "guard_reached two_a_minute [(V4 [1, 2, 3, 4], 0), (V4 [1, 2, 3, 4], 59000000000), (V4 [1, 2, 3, 4], 60000000000),
     (V4 [1, 2, 3, 4], 60000000000)] {#V4 [1, 2, 3, 4], V4 [1, 2, 3, 4], V4 [1, 2, 3, 4], V4 [1, 2, 3, 4]#} 60000000000 ledger_knocked"
proof -
  let ?a = "V4 [1, 2, 3, 4]"
  have knock: "guard_reached two_a_minute (log @ [(?a, at)]) (add_mset ?a out) at (knocked at l)"
    if "guard_reached two_a_minute log out now l" "now \<le> at" "fst (admit two_a_minute ?a at l) = Some ?a" for log out now l at
    using guard_reached.knocks [OF that(1,2), of ?a "Some ?a" "knocked at l"] that(3) by (simp add: knocked_def prod_eq_iff)
  have "guard_reached two_a_minute [(?a, 0)] {#?a#} 0 (knocked 0 no_ledger)"
    using knock [OF guard_reached.opened, of 0 0] by (simp add: knock_defs)
  from knock [OF this, of 59000000000]
  have "guard_reached two_a_minute [(?a, 0), (?a, 59000000000)] {#?a, ?a#} 59000000000 (knocked 59000000000 (knocked 0 no_ledger))"
    by (simp add: knock_defs)
  from knock [OF this, of 60000000000]
  have "guard_reached two_a_minute [(?a, 0), (?a, 59000000000), (?a, 60000000000)] {#?a, ?a, ?a#} 60000000000
      (knocked 60000000000 (knocked 59000000000 (knocked 0 no_ledger)))"
    by (simp add: knock_defs)
  from knock [OF this, of 60000000000] show ?thesis by (simp add: knock_defs ledger_knocked_def)
qed

theorem connections_are_counted_witness:
  "le_open ledger_knocked = 4 \<and> 4 \<le> al_per_address two_a_minute"
  using connections_are_counted [OF ledger_knocked_reached, of "V4 [1, 2, 3, 4]"] by simp

text \<open>
  C13. In no minute, whenever it begins, is an address let in more than twice as often as the guard
  allows in a minute, whatever other addresses do and however often their accounts are forgotten.
\<close>

theorem a_minute_lets_in_at_most_twice:
  assumes "guard_reached al log out now l"
  shows "length (filter (\<lambda>t. from \<le> t \<and> t < from + 60000000000) (times_of a log)) \<le> 2 * al_attempts al"
proof -
  note ok = guard_reached_ok [OF assms]
  have "within attempt_window from (times_of a log) \<le> 2 * al_attempts al"
    using ledger_okD(6) [OF ok, of a]
    by (cases "account_at l a") (auto simp: account_ok_def no_account_ok_def intro: attempts.counts_twice)
  then show ?thesis by (simp add: within_def attempt_window_def)
qed

theorem a_minute_lets_in_at_most_twice_witness:
  "length (filter (\<lambda>t :: nat. 59000000000 \<le> t \<and> t < 59000000000 + 60000000000) [0, 59000000000, 60000000000, 60000000000]) = (3 :: nat)
   \<and> al_attempts two_a_minute < 3 \<and> (3 :: nat) \<le> 2 * al_attempts two_a_minute"
  using a_minute_lets_in_at_most_twice [OF ledger_knocked_reached, of 59000000000 "V4 [1, 2, 3, 4]"]
  by (simp add: times_of_def two_a_minute_def)

end
