(* ===== verification/Spec2Isabelle.thy ===== *)
theory Spec2Isabelle
  imports Prelude Spans FrameTime Dates QueueRows Standing PlayQueue QueueInvariant QueueMoves
    QueueBehaviour Kept QueueContracts Wire Links WireData WireRemote WireServer WireChanges
    WirePeers WireValid WireContracts Places SyncClock SharedList SharedMerge SharedWire SharedRising
    SharedDiff SharedPaired SharedEdited SharedDoing SharedContracts PartySaid PartyClock PartyFollow
    PartyContracts OrderedMaps Inboxes Rooms RoomsInvariant Hub Guard Store StoreInvariant CatchUp Serve
    ServeBehaviour ServerContracts
begin

text \<open>
  Resonate, a music player in Rust: the play queue its engine plays from, what is kept of it
  between runs, the calendar and frame arithmetic under both, the byte format in which devices,
  peers and the sync server speak to one another, the playlists devices share and edit at the
  same time, the parties in which guests follow a host, and the server all this goes through.

  The parts and the theories that model them.

  \<^item> \<open>Prelude\<close>: the machine integers, and what Rust's slices and vectors do.

  \<^item> \<open>Spans\<close>, \<open>FrameTime\<close>, \<open>Dates\<close>: \<open>crates/resonate-core/src/span.rs\<close>, \<open>time.rs\<close> (with the bounds
    of \<open>format.rs\<close>) and \<open>date.rs\<close>. Durations survive the way through frames, and \<open>of_day\<close> is the
    Gregorian calendar.

  \<^item> The play queue, \<open>crates/resonate-engine/src/queue.rs\<close>. \<open>QueueRows\<close> models the rows, ids,
    stamps and the shuffler (\<open>Held\<close>, \<open>Unclaimed\<close>, \<open>QueueStamp\<close>, \<open>RowStamp\<close>, \<open>Shuffler\<close>, with
    \<open>stamp.rs\<close> and \<open>resume.rs\<close>), \<open>Standing\<close> the labelled order a shuffled queue stands in, and
    \<open>PlayQueue\<close> the queue itself: the record \<open>queue\<close> is the struct \<open>Queue\<close>, every operation takes
    a queue and gives the changed queue with its answer. \<open>QueueInvariant\<close> and \<open>QueueMoves\<close> prove
    that every operation keeps \<open>queue_ok\<close>; \<open>QueueBehaviour\<close> collects all calls in the step relation
    \<open>queue_step\<close> and proves what each does to the rows a listener sees; \<open>QueueContracts\<close> states
    the properties.

  \<^item> \<open>Kept\<close>: \<open>crates/resonate-engine/src/kept.rs\<close>, the state machine that says what has to be
    written of a queue, and the resumption it comes back from.

  \<^item> The wire, \<open>crates/resonate-sync/src/wire.rs\<close>. \<open>Wire\<close> models \<open>Writer\<close> and \<open>Reader\<close> over the
    basic values, \<open>Links\<close> the parsers of \<open>link.rs\<close>, \<open>identity.rs\<close> and \<open>print.rs\<close> a decoded text goes
    through, \<open>WireData\<close> recordings, prints, tags, releases and answers, \<open>WireRemote\<close> commands and
    zones (\<open>remote.rs\<close>, \<open>zone.rs\<close>), \<open>WireServer\<close> the messages of the server, \<open>WireChanges\<close> changes
    and bundles (\<open>change.rs\<close>), \<open>WirePeers\<close> the messages of peers. Each value is an interpretation
    of the locale \<open>codec\<close>: what is written is read back whatever follows it. \<open>WireValid\<close> is the
    other direction, the locale \<open>faithful_codec\<close>: what is read, of whatever bytes, is well
    formed. \<open>WireContracts\<close> states the properties.

  \<^item> \<open>SyncClock\<close>: the clock of \<open>crates/resonate-sync/src/change.rs\<close> that stamps what a device does,
    the order of stamps, and the keys minted of them.

  \<^item> Shared playlists, \<open>crates/resonate-sync/src/shared/\<close>. \<open>Places\<close> models \<open>place.rs\<close>, the byte
    strings between two of which there is always another; \<open>SharedList\<close> the list of \<open>op.rs\<close> and
    what each operation does to it, \<open>SharedWire\<close> how operations are written and read.
    \<open>SharedMerge\<close> refines the list to a view in which operations commute, so that every device
    ends on the same list. \<open>SharedRising\<close> is the patience sorting of \<open>diff.rs\<close>, \<open>SharedDiff\<close> the
    rest of that file: how the rows of an edited playlist file are paired with the list's
    (\<open>SharedPaired\<close>), which operations follow, and what they make of the list (\<open>SharedEdited\<close>).
    \<open>SharedDoing\<close> states what that needs of clock, randomness and catalog as the locale
    \<open>resolver\<close> and interprets it on the device of \<open>service.rs\<close>. \<open>SharedContracts\<close> states the
    properties.

  \<^item> Parties, \<open>crates/resonate-sync/src/party/\<close>. \<open>PartySaid\<close> models the messages of \<open>said.rs\<close> and their
    codec, \<open>PartyClock\<close> the clock of \<open>clock.rs\<close>, \<open>PartyFollow\<close> the guest of \<open>follow.rs\<close> and
    \<open>ahead.rs\<close>: one look of a guest is a function of its state, and \<open>follows\<close> the step relation of
    looks and of what happens between them. \<open>PartyContracts\<close> states the properties.

  \<^item> The sync server, \<open>crates/resonate-server/src\<close>. \<open>Inboxes\<close> models the channels its tasks tell one
    another things by, and proves, in the locale \<open>counted_notices\<close>, that what is unread is what is
    counted; rooms and spaces interpret it. \<open>Rooms\<close> is \<open>rooms.rs\<close> (\<open>RoomsInvariant\<close> proves what every
    operation keeps), \<open>Hub\<close> is \<open>hub.rs\<close>, the devices present in each space, and \<open>Guard\<close> is
    \<open>guard.rs\<close>, whose counts in windows of time are the locale \<open>fixed_window\<close>. \<open>Store\<close> is \<open>store.rs\<close>:
    three tables as ordered maps (\<open>OrderedMaps\<close>, shared with \<open>SharedList\<close>), each SQL statement
    written out over them; \<open>StoreInvariant\<close> proves that its numbers have no gap and its bytes are
    counted. \<open>CatchUp\<close> is the loop \<open>send_records\<close>, \<open>Serve\<close> the rest of \<open>serve.rs\<close>: what a first message,
    every later one and every notice do to the store, the hub and the rooms, and send.
    \<open>ServeBehaviour\<close> composes them; the server's states are those the relations \<open>store_reached\<close>,
    \<open>hub_reached\<close>, \<open>rooms_reached\<close> and \<open>guard_reached\<close> hold of. \<open>ServerContracts\<close> states the properties.

  How it fits together. The engine calls the queue, and the queue its standing order through the
  contract \<open>ordered_rows\<close>; keeping reads the rows the queue publishes. A bundle of changes is
  written into a blob for the server, or into a message to a peer; the encoded answers and
  recordings are parts of the changes. The codecs compose as the readers do, so a message is
  read back because its parts are. An edited playlist file goes through the pairing, the longest
  run and the search for places into stamped operations; these are applied here and, written on
  the wire, on every other device, in whatever order they come. What a device seals of them it
  appends to a space of the server, which numbers it, tells the others and sends it to each.

  Conventions. \<open>usize\<close> has 64 bits. Lengths and rows are natural numbers, with saturation and
  bounds against \<open>u64_max\<close> written out where the code has them; values whose bits matter are
  words. A fallible function gives an option or a sum; what panics in the code (an index out of
  bounds) is kept out by the guards of the lemmas. A \<open>String\<close> is the bytes of its UTF-8
  encoding. No fuel is used: a recursion is structural or has a measure, but for three loops that
  may not end, the search for a place (\<open>between_from\<close>), the walk back through the kept rows
  (\<open>walked\<close>) and the sending of what a device missed (\<open>send_records\<close>), which are partial functions
  into an option: \<open>None\<close> is not returning, that they return where they do is proved, and that the
  search does not return below a place of nothing but zeros is proved as well.

  Parameters. \<open>H\<close> is the hash \<open>DefaultHasher\<close> makes of a place and a row, which the standard
  library does not fix; nothing is assumed of it. \<open>least\<close> in the wire theories is
  \<open>SEALED_AT_LEAST\<close>, a sum of two lengths of the \<open>ring\<close> crate; nothing is assumed of it. Of letters
  and words (\<open>unicode\<close>) and of what the catalog holds a recording as nothing is assumed; of random
  entries, that none is drawn twice. For the server \<open>digest\<close> is the SHA-256 of \<open>ring\<close>, of which
  nothing is assumed; the clocks are arguments, and so are the allowance of bytes a second (\<open>spend\<close>) and what a loop finds
  the store to be each time it looks (\<open>looks\<close>). Sending is taken to succeed: a session whose
  transport fails ends as one that says \<open>Bye\<close>.

  Not modelled. The engine's threads, devices and audio buffers, signal processing, the codecs
  over third-party demuxers, the SQL of the library database, the interfaces, the clients of
  online services, cryptography and sockets. Of the server, TLS, web upgrades and static pages,
  the gateway with its caches, the migrations of its database and what SQLite does when a disk
  fails. Of \<open>remote.rs\<close>, the mirror that plays on by
  itself and the volumes made of floats; of \<open>answer.rs\<close>, the weights that decide what travels; of
  shared playlists and parties, the services that connect them, their stores and timers.
\<close>

end
